(* ===== verification/Bm_Prelude.thy ===== *)
theory Bm_Prelude
  imports Main "HOL-Library.Word" "HOL-Library.Multiset"
begin

unbundle bit_operations_syntax

text \<open>
  Shared vocabulary of the development: the C++ failure values, the error monads in which
  fallible operations are written, byte-addressed memory, and the little-endian storage of
  machine words on the hosts Blockmon is built for.
\<close>

named_theorems res_simps \<open>rewriting of the error monads\<close>
named_theorems mem_simps \<open>reading and writing byte-addressed memory\<close>

subsection \<open>Machine integers and failures\<close>

type_synonym byte = "8 word"
type_synonym u16 = "16 word"
type_synonym u32 = "32 word"
type_synonym u64 = "64 word"

text \<open>
  How a C++ operation can fail: \<open>std::runtime_error\<close>, \<open>std::logic_error\<close>,
  \<open>std::out_of_range\<close> and \<open>std::length_error\<close> are thrown and can be caught;
  a failed \<open>assert\<close> aborts the process (the build never defines \<open>NDEBUG\<close>);
  \<open>Undefined_Behaviour\<close> marks executions to which the language gives no meaning.
\<close>

datatype bm_exn =
    Runtime_Error string
  | Logic_Error string
  | Out_Of_Range
  | Length_Error
  | Assert_Fail
  | Undefined_Behaviour

type_synonym 'a res = "bm_exn + 'a"

subsection \<open>The error monad\<close>

definition bindE :: "'a res \<Rightarrow> ('a \<Rightarrow> 'b res) \<Rightarrow> 'b res" where
  "bindE m f = (case m of Inl e \<Rightarrow> Inl e | Inr x \<Rightarrow> f x)"

definition guardE :: "bool \<Rightarrow> bm_exn \<Rightarrow> unit res" where
  "guardE b e = (if b then Inr () else Inl e)"

lemma bindE_Inl [simp, res_simps]: "bindE (Inl e) f = Inl e"
  by (simp add: bindE_def)

lemma bindE_Inr [simp, res_simps]: "bindE (Inr x) f = f x"
  by (simp add: bindE_def)

lemma guardE_True [simp, res_simps]: "guardE True e = Inr ()"
  by (simp add: guardE_def)

lemma guardE_False [simp, res_simps]: "guardE False e = Inl e"
  by (simp add: guardE_def)

lemma guardE_Inr [simp]: "guardE b e = Inr u \<longleftrightarrow> b"
  by (cases u) (simp add: guardE_def)

lemma bindE_Inr_conv: "bindE m f = Inr y \<longleftrightarrow> (\<exists>x. m = Inr x \<and> f x = Inr y)"
  by (cases m) auto

lemma bindE_guardE_Inr: "bindE (guardE b e) f = Inr y \<longleftrightarrow> b \<and> f () = Inr y"
  by (cases b) auto

lemma bindE_assoc: "bindE (bindE m f) g = bindE m (\<lambda>x. bindE (f x) g)"
  by (cases m) auto

lemma bindE_cong [fundef_cong]:
  assumes "m = m'" and "\<And>x. m' = Inr x \<Longrightarrow> f x = f' x"
  shows "bindE m f = bindE m' f'"
  using assms by (cases m') auto

text \<open>Loops over a list that stop at the first failure: one threads a state, one also collects values.\<close>

fun foldE :: "('x \<Rightarrow> 's \<Rightarrow> 's res) \<Rightarrow> 'x list \<Rightarrow> 's \<Rightarrow> 's res" where
  "foldE f [] s = Inr s"
| "foldE f (x # xs) s = bindE (f x s) (foldE f xs)"

fun collectE :: "('x \<Rightarrow> 's \<Rightarrow> ('y \<times> 's) res) \<Rightarrow> 'x list \<Rightarrow> 's \<Rightarrow> ('y list \<times> 's) res" where
  "collectE f [] s = Inr ([], s)"
| "collectE f (x # xs) s =
     bindE (f x s) (\<lambda>(y, s1). bindE (collectE f xs s1) (\<lambda>(ys, s2). Inr (y # ys, s2)))"

lemma foldE_map: "foldE f (map g xs) s = foldE (\<lambda>x. f (g x)) xs s"
  by (induction xs arbitrary: s) (simp_all add: bindE_def split: sum.split)

lemma collectE_map: "collectE f (map g xs) s = collectE (\<lambda>x. f (g x)) xs s"
  by (induction xs arbitrary: s) (simp_all add: bindE_def split: sum.split)

lemma collectE_const: "length xs = length zs \<Longrightarrow> collectE (\<lambda>_. f) xs s = collectE (\<lambda>_. f) zs s"
  by (induction xs zs arbitrary: s rule: list_induct2) (simp_all add: bindE_def split: sum.split)

text \<open>Conversion of a \<open>size_t\<close> to the \<open>int\<close> a C function expects.\<close>

definition to_int :: "nat \<Rightarrow> int" where
  "to_int n = sint (of_nat n :: u32)"

lemma to_int_small:
  assumes "n < 2 ^ 31"
  shows "to_int n = int n"
proof -
  have "uint (of_nat n :: u32) = int n"
    using assms by (simp add: uint_nat unat_of_nat take_bit_nat_eq_self)
  with assms show ?thesis by (simp add: to_int_def sint_uint signed_take_bit_int_eq_self)
qed

subsection \<open>State and exceptions\<close>

text \<open>
  A C++ method that throws keeps the effects it had before the throw. Methods for which this
  matters return the object's state beside the outcome.
\<close>

type_synonym ('s, 'a) op = "'s \<Rightarrow> 'a res \<times> 's"

definition returnX :: "'a \<Rightarrow> ('s, 'a) op" where
  "returnX x = (\<lambda>s. (Inr x, s))"

definition throwX :: "bm_exn \<Rightarrow> ('s, 'a) op" where
  "throwX e = (\<lambda>s. (Inl e, s))"

definition bindX :: "('s, 'a) op \<Rightarrow> ('a \<Rightarrow> ('s, 'b) op) \<Rightarrow> ('s, 'b) op" where
  "bindX m f = (\<lambda>s. case m s of (Inl e, s') \<Rightarrow> (Inl e, s') | (Inr x, s') \<Rightarrow> f x s')"

definition getX :: "('s \<Rightarrow> 'a) \<Rightarrow> ('s, 'a) op" where
  "getX f = (\<lambda>s. (Inr (f s), s))"

definition modifyX :: "('s \<Rightarrow> 's) \<Rightarrow> ('s, unit) op" where
  "modifyX f = (\<lambda>s. (Inr (), f s))"

definition whenX :: "bool \<Rightarrow> ('s, unit) op \<Rightarrow> ('s, unit) op" where
  "whenX b m = (if b then m else returnX ())"

text \<open>\<open>for (x : xs) body(x)\<close>: the first throw ends the loop.\<close>

fun forX :: "'a list \<Rightarrow> ('a \<Rightarrow> ('s, unit) op) \<Rightarrow> ('s, unit) op" where
  "forX [] f = returnX ()"
| "forX (x # xs) f = bindX (f x) (\<lambda>_. forX xs f)"

lemma returnX_apply [simp, res_simps]: "returnX x s = (Inr x, s)"
  by (simp add: returnX_def)

lemma throwX_apply [simp, res_simps]: "throwX e s = (Inl e, s)"
  by (simp add: throwX_def)

lemma getX_apply [simp, res_simps]: "getX f s = (Inr (f s), s)"
  by (simp add: getX_def)

lemma modifyX_apply [simp, res_simps]: "modifyX f s = (Inr (), f s)"
  by (simp add: modifyX_def)

lemma whenX_apply [simp, res_simps]: "whenX b m s = (if b then m s else (Inr (), s))"
  by (simp add: whenX_def)

lemma bindX_apply [res_simps]:
  "bindX m f s = (case m s of (r, s') \<Rightarrow> (case r of Inl e \<Rightarrow> (Inl e, s') | Inr x \<Rightarrow> f x s'))"
  by (auto simp: bindX_def split: sum.split prod.split)

lemma bindX_returnX [simp]: "bindX (returnX x) f = f x"
  by (simp add: fun_eq_iff bindX_apply)

lemma bindX_throwX [simp]: "bindX (throwX e) f = throwX e"
  by (simp add: fun_eq_iff bindX_apply)

lemma bindX_Inr_conv:
  "bindX m f s = (Inr y, s') \<longleftrightarrow> (\<exists>x t. m s = (Inr x, t) \<and> f x t = (Inr y, s'))"
  by (auto simp: bindX_apply split: prod.splits sum.splits)

lemma forX_append: "forX (xs @ ys) f s = bindX (forX xs f) (\<lambda>_. forX ys f) s"
  by (induction xs arbitrary: s) (auto simp: bindX_apply split: prod.splits sum.splits)

text \<open>An invariant kept by every step of a loop, throwing or not, is kept by the loop.\<close>

lemma forX_inv:
  assumes step: "\<And>x s. x \<in> set xs \<Longrightarrow> I s \<Longrightarrow> I (snd (f x s))"
  shows "I s \<Longrightarrow> I (snd (forX xs f s))"
  using step
proof (induction xs arbitrary: s)
  case Nil
  then show ?case by simp
next
  case (Cons x xs)
  obtain r s' where m: "f x s = (r, s')" by (cases "f x s")
  with Cons.prems have "I s'" by (metis list.set_intros(1) snd_conv)
  with Cons m show ?case by (auto simp: bindX_apply split: sum.split)
qed

text \<open>
  \<open>okX m s Q\<close>: started in \<open>s\<close>, \<open>m\<close> returns normally, and its value and
  final state satisfy \<open>Q\<close>.
\<close>

definition okX :: "('s, 'a) op \<Rightarrow> 's \<Rightarrow> ('a \<Rightarrow> 's \<Rightarrow> bool) \<Rightarrow> bool" where
  "okX m s Q \<longleftrightarrow> (case m s of (Inl e, _) \<Rightarrow> False | (Inr x, s') \<Rightarrow> Q x s')"

lemma okX_return [simp, res_simps]: "okX (returnX x) s Q \<longleftrightarrow> Q x s"
  by (simp add: okX_def)

lemma okX_Pair [simp, res_simps]: "okX (Pair (Inr x)) s Q \<longleftrightarrow> Q x s" "\<not> okX (Pair (Inl e)) s Q"
  by (simp_all add: okX_def)

lemma okX_get [simp, res_simps]: "okX (getX f) s Q \<longleftrightarrow> Q (f s) s"
  by (simp add: okX_def)

lemma okX_modify [simp, res_simps]: "okX (modifyX g) s Q \<longleftrightarrow> Q () (g s)"
  by (simp add: okX_def)

lemma okX_throw [simp, res_simps]: "\<not> okX (throwX e) s Q"
  by (simp add: okX_def)

lemma okX_bind [res_simps]: "okX (bindX m f) s Q \<longleftrightarrow> okX m s (\<lambda>x s'. okX (f x) s' Q)"
  by (auto simp: okX_def bindX_apply split: prod.splits sum.splits)

lemma okX_mono: "okX m s Q \<Longrightarrow> (\<And>x s'. Q x s' \<Longrightarrow> R x s') \<Longrightarrow> okX m s R"
  by (auto simp: okX_def split: prod.splits sum.splits)

lemma okX_conj: "okX m s Q \<Longrightarrow> okX m s R \<Longrightarrow> okX m s (\<lambda>x s'. Q x s' \<and> R x s')"
  by (auto simp: okX_def split: prod.splits sum.splits)

lemma okX_InrI: "m s = (Inr x, s') \<Longrightarrow> Q x s' \<Longrightarrow> okX m s Q"
  by (simp add: okX_def)

lemma okXD: "okX m s Q \<Longrightarrow> \<exists>x s'. m s = (Inr x, s') \<and> Q x s'"
  by (auto simp: okX_def split: prod.splits sum.splits)

lemma okX_forX:
  assumes "\<And>x s. x \<in> set xs \<Longrightarrow> I s \<Longrightarrow> okX (f x) s (\<lambda>_. I)"
  shows "I s \<Longrightarrow> okX (forX xs f) s (\<lambda>_. I)"
  using assms
proof (induction xs arbitrary: s)
  case Nil
  then show ?case by simp
next
  case (Cons x xs)
  then have "okX (f x) s (\<lambda>_. I)" by simp
  then show ?case using Cons by (auto simp: okX_bind intro: okX_mono)
qed

subsection \<open>Byte-addressed memory\<close>

definition read_bytes :: "(nat \<Rightarrow> byte) \<Rightarrow> nat \<Rightarrow> nat \<Rightarrow> byte list" where
  "read_bytes m p n = map m [p..<p + n]"

definition write_bytes :: "(nat \<Rightarrow> byte) \<Rightarrow> nat \<Rightarrow> byte list \<Rightarrow> (nat \<Rightarrow> byte)" where
  "write_bytes m p bs = (\<lambda>i. if p \<le> i \<and> i < p + length bs then bs ! (i - p) else m i)"

lemma length_read_bytes [simp, mem_simps]: "length (read_bytes m p n) = n"
  by (simp add: read_bytes_def)

lemma read_bytes_0 [simp, mem_simps]: "read_bytes m p 0 = []"
  by (simp add: read_bytes_def)

lemma read_bytes_add: "read_bytes m p (a + b) = read_bytes m p a @ read_bytes m (p + a) b"
  by (rule nth_equalityI) (auto simp: read_bytes_def nth_append)

lemma nth_read_bytes [simp]: "i < n \<Longrightarrow> read_bytes m p n ! i = m (p + i)"
  by (simp add: read_bytes_def)

lemma read_write_same [simp, mem_simps]:
  "n = length bs \<Longrightarrow> read_bytes (write_bytes m p bs) p n = bs"
  by (rule nth_equalityI) (auto simp: read_bytes_def write_bytes_def)

lemma read_write_below [mem_simps]:
  "q + n \<le> p \<Longrightarrow> read_bytes (write_bytes m p bs) q n = read_bytes m q n"
  by (auto simp: read_bytes_def write_bytes_def)

lemma read_write_above [mem_simps]:
  "p + length bs \<le> q \<Longrightarrow> read_bytes (write_bytes m p bs) q n = read_bytes m q n"
  by (auto simp: read_bytes_def write_bytes_def)

lemma read_write_append:
  assumes "q \<le> p"
  shows "read_bytes (write_bytes m p bs) q (p + length bs - q) = read_bytes m q (p - q) @ bs"
proof -
  have "p + length bs - q = (p - q) + length bs" using assms by simp
  then have "read_bytes (write_bytes m p bs) q (p + length bs - q) =
      read_bytes (write_bytes m p bs) q (p - q) @ read_bytes (write_bytes m p bs) (q + (p - q)) (length bs)"
    by (simp only: read_bytes_add)
  with assms show ?thesis by (simp add: read_write_below)
qed

lemma read_bytes_split:
  assumes "n \<le> k"
  shows "read_bytes m p k = read_bytes m p n @ read_bytes m (p + n) (k - n)"
  using read_bytes_add[of m p n "k - n"] assms by simp

subsection \<open>Little-endian storage of words\<close>

definition le_bytes :: "nat \<Rightarrow> 'a::len word \<Rightarrow> byte list" where
  "le_bytes n w = map (\<lambda>i. ucast (drop_bit (8 * i) w)) [0..<n]"

fun of_le :: "byte list \<Rightarrow> 'a::len word" where
  "of_le [] = 0"
| "of_le (b # bs) = ucast b OR push_bit 8 (of_le bs)"

lemma length_le_bytes [simp, mem_simps]: "length (le_bytes n w) = n"
  by (simp add: le_bytes_def)

lemma bit_of_le:
  "bit (of_le bs :: 'a::len word) n \<longleftrightarrow>
     n < LENGTH('a) \<and> n div 8 < length bs \<and> bit (bs ! (n div 8)) (n mod 8)"
proof (induction bs arbitrary: n)
  case Nil
  then show ?case by simp
next
  case (Cons b bs)
  show ?case
  proof (cases "n < 8")
    case True
    then show ?thesis by (auto simp: bit_simps)
  next
    case False
    then have d: "n div 8 = Suc ((n - 8) div 8)" and m: "n mod 8 = (n - 8) mod 8"
      by (simp_all add: le_div_geq le_mod_geq)
    have "\<not> bit b n" using False by (auto dest: bit_imp_le_length)
    with False show ?thesis
      by (auto simp: bit_simps Cons.IH d m)
  qed
qed

lemma of_le_bytes:
  assumes "LENGTH('a) \<le> 8 * n"
  shows "of_le (le_bytes n (w :: 'a::len word)) = w"
proof (rule bit_word_eqI)
  fix k assume k: "k < LENGTH('a)"
  then have "k div 8 < n" using assms by linarith
  moreover have "k mod 8 < LENGTH(8)" by simp
  ultimately show "bit (of_le (le_bytes n w) :: 'a word) k = bit w k"
    using k by (simp add: bit_of_le le_bytes_def bit_ucast_iff bit_drop_bit_eq del: len_num0 len_num1 len_bit0 len_bit1)
qed

lemma of_le_bytes16 [simp, mem_simps]: "of_le (le_bytes 2 (w :: u16)) = w"
  by (rule of_le_bytes) simp

lemma of_le_bytes32 [simp, mem_simps]: "of_le (le_bytes 4 (w :: u32)) = w"
  by (rule of_le_bytes) simp

lemma of_le_bytes64 [simp, mem_simps]: "of_le (le_bytes 8 (w :: u64)) = w"
  by (rule of_le_bytes) simp

subsection \<open>Byte order\<close>

text \<open>\<open>htons\<close>/\<open>ntohs\<close> and \<open>htonl\<close>/\<open>ntohl\<close> of a little-endian host swap the bytes.\<close>

definition bswap16 :: "u16 \<Rightarrow> u16" where
  "bswap16 w = of_le (rev (le_bytes 2 w))"

definition bswap32 :: "u32 \<Rightarrow> u32" where
  "bswap32 w = of_le (rev (le_bytes 4 w))"

lemma le_bytes_of_le:
  assumes "8 * length bs \<le> LENGTH('a)" and "n = length bs"
  shows "le_bytes n (of_le bs :: 'a::len word) = bs"
proof (rule nth_equalityI)
  show "length (le_bytes n (of_le bs :: 'a word)) = length bs" using assms(2) by simp
next
  fix i assume "i < length (le_bytes n (of_le bs :: 'a word))"
  then have i: "i < length bs" using assms(2) by simp
  show "le_bytes n (of_le bs :: 'a word) ! i = bs ! i"
  proof (rule bit_word_eqI)
    fix k assume k: "k < LENGTH(8)"
    then have "(8 * i + k) div 8 = i" and "(8 * i + k) mod 8 = k" by simp_all
    moreover have "8 * i + k < LENGTH('a)" using assms(1) i k by (simp; linarith)
    ultimately show "bit (le_bytes n (of_le bs :: 'a word) ! i) k = bit (bs ! i) k"
      using i k assms(2) by (simp add: le_bytes_def bit_simps bit_of_le)
  qed
qed

lemma bswap16_bswap16 [simp]: "bswap16 (bswap16 w) = w"
  by (simp add: bswap16_def le_bytes_of_le)

lemma bswap32_bswap32 [simp]: "bswap32 (bswap32 w) = w"
  by (simp add: bswap32_def le_bytes_of_le)

lemma le_bytes_bswap16: "le_bytes 2 (bswap16 w) = rev (le_bytes 2 w)"
  by (simp add: bswap16_def le_bytes_of_le)

lemma le_bytes_bswap32: "le_bytes 4 (bswap32 w) = rev (le_bytes 4 w)"
  by (simp add: bswap32_def le_bytes_of_le)

end
