(* ===== verification/Wire_Buffer.thy ===== *)
theory Wire_Buffer
  imports Bm_Prelude
begin

text \<open>
  The serialisation buffer of \<open>core/message/BufferSerializer.hpp\<close> and the
  \<open>Serializer\<close> class that wraps it. The four pointers of the buffer are offsets into
  its byte array; an integer read or written through a cast pointer goes through the
  little-endian memory of the host. The invariant \<open>buf_inv\<close> orders the pointers, and
  \<open>content\<close> abstracts a buffer to the bytes between \<open>data\<close> and \<open>tail\<close>.
\<close>

subsection \<open>The buffer\<close>

definition MESSAGE_MAX_DATA :: nat where
  "MESSAGE_MAX_DATA = 65536"

record ibuf =
  bf_mem :: "nat \<Rightarrow> byte"
  bf_head :: nat
  bf_data :: nat
  bf_tail :: nat
  bf_end :: nat

definition buf_reset :: "ibuf \<Rightarrow> ibuf" where
  "buf_reset b = b\<lparr>bf_head := 0, bf_data := 0, bf_tail := 0, bf_end := 0 + MESSAGE_MAX_DATA\<rparr>"

text \<open>\<open>memmove\<close> with the huge size a negative \<open>len\<close> converts to has no defined meaning.\<close>

definition buf_compact :: "ibuf \<Rightarrow> ibuf res" where
  "buf_compact b =
     (if bf_tail b < bf_data b then Inl Undefined_Behaviour
      else let len = bf_tail b - bf_data b in
      Inr (b\<lparr>bf_mem := write_bytes (bf_mem b) (bf_head b) (read_bytes (bf_mem b) (bf_data b) len),
             bf_data := bf_head b,
             bf_tail := bf_head b + len\<rparr>))"

text \<open>\<open>put\<close> and \<open>consume\<close> move a pointer by a signed offset; below the array there is no object.\<close>

definition buf_put :: "int \<Rightarrow> ibuf \<Rightarrow> ibuf res" where
  "buf_put off b =
     bindE (guardE (int (bf_tail b) + off \<le> int (bf_end b)) Assert_Fail) (\<lambda>_.
     if int (bf_tail b) + off < 0 then Inl Undefined_Behaviour
     else Inr (b\<lparr>bf_tail := nat (int (bf_tail b) + off)\<rparr>))"

definition buf_consume :: "int \<Rightarrow> ibuf \<Rightarrow> ibuf res" where
  "buf_consume off b =
     bindE (guardE (int (bf_head b) + off \<le> int (bf_tail b)) Assert_Fail) (\<lambda>_.
     if int (bf_data b) + off < 0 then Inl Undefined_Behaviour
     else Inr (b\<lparr>bf_data := nat (int (bf_data b) + off)\<rparr>))"

text \<open>
  The private \<open>ntohll\<close> exchanges the two 32-bit halves of a 64-bit value; \<open>htonll\<close> is the same
  function.
\<close>

definition ntohll :: "u64 \<Rightarrow> u64" where
  "ntohll val =
     (let a = val AND 0xFFFFFFFF; b' = signed_drop_bit 32 val AND 0xFFFFFFFF
      in push_bit 32 a OR b')"

definition htonll :: "u64 \<Rightarrow> u64" where
  "htonll val = ntohll val"

text \<open>
  An \<open>int\<close> argument is its 32-bit pattern; the cast to \<open>uint16_t\<close> keeps the low half, and
  \<open>(int)(int16_t)\<close> extends the sign.
\<close>

definition put_int32 :: "u32 \<Rightarrow> ibuf \<Rightarrow> ibuf res" where
  "put_int32 val b =
     bindE (guardE (bf_tail b + 4 \<le> bf_end b) Assert_Fail) (\<lambda>_.
     Inr (b\<lparr>bf_mem := write_bytes (bf_mem b) (bf_tail b) (le_bytes 4 (bswap32 val)),
            bf_tail := bf_tail b + 4\<rparr>))"

definition put_int64 :: "u64 \<Rightarrow> ibuf \<Rightarrow> ibuf res" where
  "put_int64 val b =
     bindE (guardE (bf_tail b + 8 \<le> bf_end b) Assert_Fail) (\<lambda>_.
     Inr (b\<lparr>bf_mem := write_bytes (bf_mem b) (bf_tail b) (le_bytes 8 (htonll val)),
            bf_tail := bf_tail b + 8\<rparr>))"

definition put_int16 :: "u32 \<Rightarrow> ibuf \<Rightarrow> ibuf res" where
  "put_int16 val b =
     bindE (guardE (bf_tail b + 2 \<le> bf_end b) Assert_Fail) (\<lambda>_.
     Inr (b\<lparr>bf_mem := write_bytes (bf_mem b) (bf_tail b) (le_bytes 2 (bswap16 (ucast val))),
            bf_tail := bf_tail b + 2\<rparr>))"

text \<open>
  \<open>memcpy\<close> takes the length as a \<open>size_t\<close>: a negative length, or one beyond the source
  array, has no defined meaning.
\<close>

definition put_raw_data :: "byte list \<Rightarrow> int \<Rightarrow> ibuf \<Rightarrow> ibuf res" where
  "put_raw_data bytes len b =
     bindE (guardE (int (bf_tail b) + len \<le> int (bf_end b)) Assert_Fail) (\<lambda>_.
     if len < 0 \<or> int (length bytes) < len then Inl Undefined_Behaviour
     else Inr (b\<lparr>bf_mem := write_bytes (bf_mem b) (bf_tail b) (take (nat len) bytes),
                 bf_tail := bf_tail b + nat len\<rparr>))"

definition put_data :: "byte list \<Rightarrow> int \<Rightarrow> ibuf \<Rightarrow> ibuf res" where
  "put_data bytes len b = bindE (put_int16 (word_of_int len) b) (put_raw_data bytes len)"

definition consume_int32 :: "ibuf \<Rightarrow> (u32 \<times> ibuf) res" where
  "consume_int32 b =
     bindE (guardE (bf_data b + 4 \<le> bf_tail b) Assert_Fail) (\<lambda>_.
     Inr (bswap32 (of_le (read_bytes (bf_mem b) (bf_data b) 4)), b\<lparr>bf_data := bf_data b + 4\<rparr>))"

definition consume_int64 :: "ibuf \<Rightarrow> (u64 \<times> ibuf) res" where
  "consume_int64 b =
     bindE (guardE (bf_data b + 8 \<le> bf_tail b) Assert_Fail) (\<lambda>_.
     Inr (ntohll (of_le (read_bytes (bf_mem b) (bf_data b) 8)), b\<lparr>bf_data := bf_data b + 8\<rparr>))"

definition consume_int16 :: "ibuf \<Rightarrow> (u32 \<times> ibuf) res" where
  "consume_int16 b =
     bindE (guardE (bf_data b + 2 \<le> bf_tail b) Assert_Fail) (\<lambda>_.
     Inr (scast (bswap16 (of_le (read_bytes (bf_mem b) (bf_data b) 2)) :: u16),
          b\<lparr>bf_data := bf_data b + 2\<rparr>))"

definition consume_raw_data :: "int \<Rightarrow> ibuf \<Rightarrow> (byte list \<times> ibuf) res" where
  "consume_raw_data len b =
     bindE (guardE (int (bf_data b) + len \<le> int (bf_tail b)) Assert_Fail) (\<lambda>_.
     if len < 0 then Inl Undefined_Behaviour
     else Inr (read_bytes (bf_mem b) (bf_data b) (nat len), b\<lparr>bf_data := bf_data b + nat len\<rparr>))"

definition consume_all_data :: "int \<Rightarrow> ibuf \<Rightarrow> (byte list \<times> ibuf) res" where
  "consume_all_data max_len b =
     bindE (consume_int16 b) (\<lambda>(w, b').
     bindE (guardE (sint w \<le> max_len) Assert_Fail) (\<lambda>_.
     consume_raw_data (sint w) b'))"

text \<open>
  \<open>std::string(const char*, size_t)\<close> throws \<open>length_error\<close> on the huge size a negative
  \<open>int\<close> converts to; this reader has no \<open>assert\<close> against \<open>tail\<close>.
\<close>

definition consume_all_data_into_string :: "ibuf \<Rightarrow> (byte list \<times> ibuf) res" where
  "consume_all_data_into_string b =
     bindE (consume_int16 b) (\<lambda>(w, b').
     let len = sint w in
     if len < 0 then Inl Length_Error
     else if bf_end b' < bf_data b' + nat len then Inl Undefined_Behaviour
     else Inr (read_bytes (bf_mem b') (bf_data b') (nat len), b'\<lparr>bf_data := bf_data b' + nat len\<rparr>))"

definition buf_len :: "ibuf \<Rightarrow> int" where
  "buf_len b = int (bf_tail b) - int (bf_data b)"

definition set_int16 :: "u32 \<Rightarrow> int \<Rightarrow> ibuf \<Rightarrow> ibuf res" where
  "set_int16 val off b =
     bindE (guardE (0 \<le> off \<and> off + 2 \<le> buf_len b) Assert_Fail) (\<lambda>_.
     Inr (b\<lparr>bf_mem := write_bytes (bf_mem b) (bf_data b + nat off) (le_bytes 2 (bswap16 (ucast val)))\<rparr>))"

definition get_int16 :: "int \<Rightarrow> ibuf \<Rightarrow> u32 res" where
  "get_int16 off b =
     bindE (guardE (0 \<le> off \<and> off + 2 \<le> buf_len b) Assert_Fail) (\<lambda>_.
     Inr (scast (bswap16 (of_le (read_bytes (bf_mem b) (bf_data b + nat off) 2)) :: u16)))"

subsection \<open>The Serializer class\<close>

definition ser_reset :: "ibuf \<Rightarrow> ibuf res" where
  "ser_reset b = buf_put 2 (buf_reset b)"

definition ser_empty :: "ibuf \<Rightarrow> ibuf" where
  "ser_empty b = buf_reset b"

definition ser_read_int16 :: "ibuf \<Rightarrow> u32 res" where
  "ser_read_int16 b = get_int16 0 b"

definition ser_finalize :: "ibuf \<Rightarrow> (byte list \<times> ibuf) res" where
  "ser_finalize b =
     bindE (set_int16 (word_of_int (buf_len b)) 0 b) (\<lambda>b'.
     Inr (read_bytes (bf_mem b') (bf_data b') (nat (buf_len b')), b'))"

definition ser_next :: "ibuf \<Rightarrow> ibuf res" where
  "ser_next b = buf_compact b"

subsection \<open>Invariant and abstraction\<close>

definition buf_inv :: "ibuf \<Rightarrow> bool" where
  "buf_inv b \<longleftrightarrow> bf_head b = 0 \<and> bf_data b \<le> bf_tail b \<and> bf_tail b \<le> bf_end b \<and> bf_end b = MESSAGE_MAX_DATA"

definition content :: "ibuf \<Rightarrow> byte list" where
  "content b = read_bytes (bf_mem b) (bf_data b) (bf_tail b - bf_data b)"

definition room :: "ibuf \<Rightarrow> nat" where
  "room b = bf_end b - bf_tail b"

definition bytes16 :: "u32 \<Rightarrow> byte list" where
  "bytes16 v = le_bytes 2 (bswap16 (ucast v))"

lemma length_bytes16 [simp]: "length (bytes16 v) = 2"
  by (simp add: bytes16_def)

lemma length_content: "length (content b) = bf_tail b - bf_data b"
  by (simp add: content_def)

lemma buf_len_content: "buf_inv b \<Longrightarrow> buf_len b = int (length (content b))"
  by (auto simp: buf_len_def length_content buf_inv_def)

lemmas buf_defs = buf_inv_def content_def room_def

lemma buf_reset_spec: "buf_inv (buf_reset b)" "content (buf_reset b) = []"
  "room (buf_reset b) = MESSAGE_MAX_DATA"
  by (simp_all add: buf_reset_def buf_defs)

lemma buf_compact_spec:
  assumes "buf_inv b"
  shows "\<exists>b'. buf_compact b = Inr b' \<and> buf_inv b' \<and> content b' = content b \<and>
           room b' = MESSAGE_MAX_DATA - length (content b)"
  using assms by (auto simp: buf_compact_def buf_defs Let_def)

lemma append_bytes_spec:
  assumes "buf_inv b" and "length bs \<le> room b"
  defines "b' \<equiv> b\<lparr>bf_mem := write_bytes (bf_mem b) (bf_tail b) bs, bf_tail := bf_tail b + length bs\<rparr>"
  shows "buf_inv b' \<and> content b' = content b @ bs \<and> room b' = room b - length bs"
  using assms by (auto simp: buf_defs read_write_append)

lemma put_int32_spec:
  assumes "buf_inv b" and "4 \<le> room b"
  shows "\<exists>b'. put_int32 v b = Inr b' \<and> buf_inv b' \<and>
           content b' = content b @ le_bytes 4 (bswap32 v) \<and> room b' = room b - 4"
proof -
  have "bf_tail b + 4 \<le> bf_end b" using assms by (simp add: room_def buf_inv_def MESSAGE_MAX_DATA_def)
  then show ?thesis
    using append_bytes_spec[of b "le_bytes 4 (bswap32 v)"] assms by (simp add: put_int32_def)
qed

lemma put_int64_spec:
  assumes "buf_inv b" and "8 \<le> room b"
  shows "\<exists>b'. put_int64 v b = Inr b' \<and> buf_inv b' \<and>
           content b' = content b @ le_bytes 8 (htonll v) \<and> room b' = room b - 8"
proof -
  have "bf_tail b + 8 \<le> bf_end b" using assms by (simp add: room_def buf_inv_def MESSAGE_MAX_DATA_def)
  then show ?thesis
    using append_bytes_spec[of b "le_bytes 8 (htonll v)"] assms by (simp add: put_int64_def)
qed

lemma put_int16_spec:
  assumes "buf_inv b" and "2 \<le> room b"
  shows "\<exists>b'. put_int16 v b = Inr b' \<and> buf_inv b' \<and>
           content b' = content b @ bytes16 v \<and> room b' = room b - 2"
proof -
  have "bf_tail b + 2 \<le> bf_end b" using assms by (simp add: room_def buf_inv_def MESSAGE_MAX_DATA_def)
  then show ?thesis
    using append_bytes_spec[of b "bytes16 v"] assms by (simp add: put_int16_def bytes16_def)
qed

lemma put_raw_data_spec:
  assumes "buf_inv b" and "length bs \<le> room b"
  shows "\<exists>b'. put_raw_data bs (int (length bs)) b = Inr b' \<and> buf_inv b' \<and>
           content b' = content b @ bs \<and> room b' = room b - length bs"
proof -
  have "int (bf_tail b) + int (length bs) \<le> int (bf_end b)"
    using assms by (auto simp: room_def buf_inv_def)
  then show ?thesis
    using append_bytes_spec[of b bs] assms by (simp add: put_raw_data_def)
qed

lemma put_data_spec:
  assumes "buf_inv b" and "2 + length bs \<le> room b"
  shows "\<exists>b'. put_data bs (int (length bs)) b = Inr b' \<and> buf_inv b' \<and>
           content b' = content b @ bytes16 (word_of_int (int (length bs))) @ bs \<and>
           room b' = room b - (2 + length bs)"
proof -
  obtain b1 where 1: "put_int16 (word_of_int (int (length bs))) b = Inr b1" "buf_inv b1"
    "content b1 = content b @ bytes16 (word_of_int (int (length bs)))" "room b1 = room b - 2"
    using put_int16_spec[of b "word_of_int (int (length bs))"] assms by auto
  then have "length bs \<le> room b1" using assms(2) by simp
  then obtain b2 where 2: "put_raw_data bs (int (length bs)) b1 = Inr b2" "buf_inv b2"
    "content b2 = content b1 @ bs" "room b2 = room b1 - length bs"
    using put_raw_data_spec[of b1 bs] 1(2) by blast
  from 1 2 show ?thesis by (simp add: put_data_def)
qed

text \<open>A put that does not fit fails the assertion and changes nothing.\<close>

lemma put_overflow:
  assumes "buf_inv b"
  shows "room b < 2 \<Longrightarrow> put_int16 v b = Inl Assert_Fail"
    and "room b < 4 \<Longrightarrow> put_int32 v b = Inl Assert_Fail"
    and "room b < 8 \<Longrightarrow> put_int64 w b = Inl Assert_Fail"
    and "room b < length bs \<Longrightarrow> put_raw_data bs (int (length bs)) b = Inl Assert_Fail"
  using assms by (auto simp: put_int16_def put_int32_def put_int64_def put_raw_data_def guardE_def buf_defs)

subsection \<open>Reading back\<close>

lemma content_prefix:
  assumes "buf_inv b" and "content b = xs @ ys"
  shows "bf_data b + length xs \<le> bf_tail b"
    and "read_bytes (bf_mem b) (bf_data b) (length xs) = xs"
    and "buf_inv (b\<lparr>bf_data := bf_data b + length xs\<rparr>)"
    and "content (b\<lparr>bf_data := bf_data b + length xs\<rparr>) = ys"
    and "room (b\<lparr>bf_data := bf_data b + length xs\<rparr>) = room b"
proof -
  have len: "bf_tail b - bf_data b = length xs + length ys"
    using assms(2) by (metis length_content length_append)
  then show le: "bf_data b + length xs \<le> bf_tail b"
    using assms(1) by (auto simp: buf_inv_def)
  have sp: "content b = read_bytes (bf_mem b) (bf_data b) (length xs) @
      read_bytes (bf_mem b) (bf_data b + length xs) (length ys)"
    by (simp add: content_def len read_bytes_add)
  with assms(2) show "read_bytes (bf_mem b) (bf_data b) (length xs) = xs" by simp
  from sp assms(2) have "read_bytes (bf_mem b) (bf_data b + length xs) (length ys) = ys" by simp
  moreover have "bf_tail b - (bf_data b + length xs) = length ys" using len by simp
  ultimately show "content (b\<lparr>bf_data := bf_data b + length xs\<rparr>) = ys"
    by (simp add: content_def)
  show "buf_inv (b\<lparr>bf_data := bf_data b + length xs\<rparr>)"
    using assms(1) le by (simp add: buf_inv_def)
  show "room (b\<lparr>bf_data := bf_data b + length xs\<rparr>) = room b" by (simp add: room_def)
qed

lemma ntohll_mask: "ntohll v = push_bit 32 (take_bit 32 v) OR take_bit 32 (drop_bit 32 v)"
proof -
  have m: "(0xFFFFFFFF :: u64) = mask 32" by (simp add: mask_eq_exp_minus_1)
  have "take_bit 32 (signed_drop_bit 32 v) = take_bit 32 (drop_bit 32 v)"
    by (rule bit_word_eqI) (auto simp: bit_take_bit_iff bit_signed_drop_bit_iff bit_drop_bit_eq)
  then show ?thesis unfolding ntohll_def Let_def m take_bit_eq_mask by simp
qed

lemma ntohll_ntohll [simp]: "ntohll (ntohll v) = v"
proof (rule bit_word_eqI)
  fix n assume "n < LENGTH(64)"
  then show "bit (ntohll (ntohll v)) n = bit v n"
    by (auto simp: ntohll_mask bit_or_iff bit_push_bit_iff bit_take_bit_iff bit_drop_bit_eq)
qed

lemma consume_int32_spec:
  assumes "buf_inv b" and "content b = le_bytes 4 (bswap32 v) @ ys"
  shows "\<exists>b'. consume_int32 b = Inr (v, b') \<and> buf_inv b' \<and> content b' = ys \<and> room b' = room b"
  using content_prefix[OF assms] by (simp add: consume_int32_def)

lemma consume_int64_spec:
  assumes "buf_inv b" and "content b = le_bytes 8 (htonll v) @ ys"
  shows "\<exists>b'. consume_int64 b = Inr (v, b') \<and> buf_inv b' \<and> content b' = ys \<and> room b' = room b"
  using content_prefix[OF assms] by (simp add: consume_int64_def htonll_def)

lemma consume_int16_spec:
  assumes "buf_inv b" and "content b = bytes16 v @ ys"
  shows "\<exists>b'. consume_int16 b = Inr (scast (ucast v :: u16), b') \<and> buf_inv b' \<and> content b' = ys \<and> room b' = room b"
  using content_prefix[OF assms] by (simp add: consume_int16_def bytes16_def)

lemma consume_raw_data_spec:
  assumes "buf_inv b" and "content b = bs @ ys"
  shows "\<exists>b'. consume_raw_data (int (length bs)) b = Inr (bs, b') \<and> buf_inv b' \<and> content b' = ys \<and> room b' = room b"
  using content_prefix[OF assms] by (simp add: consume_raw_data_def)

text \<open>A 16-bit length field survives the sign extension exactly up to 32767.\<close>

lemma sint_scast_ucast16:
  "sint (scast (ucast (word_of_int n :: u32) :: u16) :: u32) = signed_take_bit 15 n"
  by (simp add: ucast_eq scast_eq uint_word_of_int_eq take_bit_eq_mod [symmetric] sint_uint
      signed_take_bit_take_bit)

lemma sint_len16:
  "n < 32768 \<Longrightarrow> sint (scast (ucast (word_of_int (int n) :: u32) :: u16) :: u32) = int n"
  unfolding sint_scast_ucast16 by (simp add: signed_take_bit_int_eq_self)

lemma sint_len16_big:
  assumes "32768 \<le> n" and "n < 65536"
  shows "sint (scast (ucast (word_of_int (int n) :: u32) :: u16) :: u32) = int n - 65536"
proof -
  have "int n div 32768 = 1" using assms by linarith
  then have "bit (int n) 15" by (simp add: bit_iff_odd)
  with assms show ?thesis
    unfolding sint_scast_ucast16 by (simp add: signed_take_bit_eq_take_bit_minus take_bit_int_eq_self)
qed

lemma consume_string_spec:
  assumes "buf_inv b" and "content b = bytes16 (word_of_int (int (length bs))) @ bs @ ys"
    and "length bs < 32768"
  shows "\<exists>b'. consume_all_data_into_string b = Inr (bs, b') \<and> buf_inv b' \<and> content b' = ys \<and> room b' = room b"
proof -
  obtain b1 where 1: "consume_int16 b = Inr (scast (ucast (word_of_int (int (length bs)) :: u32) :: u16), b1)"
    "buf_inv b1" "content b1 = bs @ ys" "room b1 = room b"
    using consume_int16_spec[OF assms(1,2)] by blast
  note pre = content_prefix[OF 1(2,3)]
  have "bf_data b1 + length bs \<le> bf_end b1" using pre(1) 1(2) by (simp add: buf_inv_def)
  then show ?thesis
    using 1 pre assms(3) sint_len16[of "length bs"] by (simp add: consume_all_data_into_string_def)
qed

lemma consume_all_data_spec:
  assumes "buf_inv b" and "content b = bytes16 (word_of_int (int (length bs))) @ bs @ ys"
    and "length bs < 32768" and "int (length bs) \<le> max_len"
  shows "\<exists>b'. consume_all_data max_len b = Inr (bs, b') \<and> buf_inv b' \<and> content b' = ys \<and> room b' = room b"
proof -
  obtain b1 where 1: "consume_int16 b = Inr (scast (ucast (word_of_int (int (length bs)) :: u32) :: u16), b1)"
    "buf_inv b1" "content b1 = bs @ ys" "room b1 = room b"
    using consume_int16_spec[OF assms(1,2)] by blast
  obtain b2 where 2: "consume_raw_data (int (length bs)) b1 = Inr (bs, b2)" "buf_inv b2" "content b2 = ys"
    "room b2 = room b1"
    using consume_raw_data_spec[OF 1(2,3)] by blast
  from 1 2 assms(3,4) show ?thesis
    using sint_len16[of "length bs"] by (simp add: consume_all_data_def)
qed

end
