(* ===== verification/Wire_Codec.thy ===== *)
theory Wire_Codec
  imports Wire_Buffer "HOL-Library.Sublist"
begin

text \<open>
  Messages on the wire: the \<open>serialize\<close>/\<open>build_same\<close> pairs of \<open>Tweet\<close> and
  \<open>WordRecord\<close>, the frame a \<open>SerExporter\<close> sends for a message, and the loop of
  \<open>SerSource\<close> that recovers the messages from the bytes of a TCP stream. The contract of a
  typed field channel is the locale \<open>field_channel\<close>; the \<open>Serializer\<close> provides it.
\<close>

subsection \<open>Typed fields over a byte channel\<close>

locale field_channel =
  fixes inv :: "'s \<Rightarrow> bool"
    and cont :: "'s \<Rightarrow> byte list"
    and avail :: "'s \<Rightarrow> nat"
    and put :: "'f \<Rightarrow> 's \<Rightarrow> 's res"
    and get :: "'k \<Rightarrow> 's \<Rightarrow> ('f \<times> 's) res"
    and kind :: "'f \<Rightarrow> 'k"
    and enc :: "'f \<Rightarrow> byte list"
    and valid :: "'f \<Rightarrow> bool"
  assumes put_ok: "inv s \<Longrightarrow> valid f \<Longrightarrow> length (enc f) \<le> avail s \<Longrightarrow>
      \<exists>s'. put f s = Inr s' \<and> inv s' \<and> cont s' = cont s @ enc f \<and> avail s' = avail s - length (enc f)"
    and get_ok: "inv s \<Longrightarrow> valid f \<Longrightarrow> cont s = enc f @ ys \<Longrightarrow>
      \<exists>s'. get (kind f) s = Inr (f, s') \<and> inv s' \<and> cont s' = ys \<and> avail s' = avail s"
begin

definition enc_all :: "'f list \<Rightarrow> byte list" where
  "enc_all fs = concat (map enc fs)"

lemma put_all:
  assumes "inv s" and "list_all valid fs" and "length (enc_all fs) \<le> avail s"
  shows "\<exists>s'. foldE put fs s = Inr s' \<and> inv s' \<and> cont s' = cont s @ enc_all fs \<and>
           avail s' = avail s - length (enc_all fs)"
  using assms
proof (induction fs arbitrary: s)
  case Nil
  then show ?case by (simp add: enc_all_def)
next
  case (Cons f fs)
  from Cons.prems obtain s1 where s1: "put f s = Inr s1" "inv s1" "cont s1 = cont s @ enc f"
    "avail s1 = avail s - length (enc f)"
    using put_ok[of s f] by (auto simp: enc_all_def)
  moreover have "list_all valid fs" and "length (enc_all fs) \<le> avail s1"
    using Cons.prems s1(4) by (simp_all add: enc_all_def)
  ultimately obtain s2 where "foldE put fs s1 = Inr s2 \<and> inv s2 \<and> cont s2 = cont s1 @ enc_all fs \<and>
      avail s2 = avail s1 - length (enc_all fs)"
    using Cons.IH by blast
  with s1 show ?case by (simp add: enc_all_def)
qed

lemma get_all:
  assumes "inv s" and "list_all valid fs" and "cont s = enc_all fs @ ys"
  shows "\<exists>s'. collectE get (map kind fs) s = Inr (fs, s') \<and> inv s' \<and> cont s' = ys \<and> avail s' = avail s"
  using assms
proof (induction fs arbitrary: s)
  case Nil
  then show ?case by (simp add: enc_all_def)
next
  case (Cons f fs)
  from Cons.prems obtain s1 where s1: "get (kind f) s = Inr (f, s1)" "inv s1" "cont s1 = enc_all fs @ ys"
    "avail s1 = avail s"
    using get_ok[of s f "enc_all fs @ ys"] by (auto simp: enc_all_def)
  with Cons.prems Cons.IH[of s1] obtain s2 where
    "collectE get (map kind fs) s1 = Inr (fs, s2)" "inv s2" "cont s2 = ys" "avail s2 = avail s1"
    by auto
  with s1 show ?case by simp
qed

lemma channel_roundtrip:
  assumes "inv s" and "cont s = []" and "list_all valid fs" and "length (enc_all fs) \<le> avail s"
  shows "\<exists>s1 s2. foldE put fs s = Inr s1 \<and> collectE get (map kind fs) s1 = Inr (fs, s2) \<and> cont s2 = []"
  using put_all[OF assms(1,3,4)] get_all[of _ fs "[]"] assms(2,3) by fastforce

end

subsection \<open>The fields of the Serializer\<close>

datatype field = F_int16 u32 | F_int32 u32 | F_int64 u64 | F_data "byte list"

datatype field_kind = K_int16 | K_int32 | K_int64 | K_data

fun field_kind_of :: "field \<Rightarrow> field_kind" where
  "field_kind_of (F_int16 v) = K_int16"
| "field_kind_of (F_int32 v) = K_int32"
| "field_kind_of (F_int64 v) = K_int64"
| "field_kind_of (F_data bs) = K_data"

fun add_field :: "field \<Rightarrow> ibuf \<Rightarrow> ibuf res" where
  "add_field (F_int16 v) b = put_int16 v b"
| "add_field (F_int32 v) b = put_int32 v b"
| "add_field (F_int64 v) b = put_int64 v b"
| "add_field (F_data bs) b = put_data bs (to_int (length bs)) b"

fun get_field :: "field_kind \<Rightarrow> ibuf \<Rightarrow> (field \<times> ibuf) res" where
  "get_field K_int16 b = bindE (consume_int16 b) (\<lambda>(v, b'). Inr (F_int16 v, b'))"
| "get_field K_int32 b = bindE (consume_int32 b) (\<lambda>(v, b'). Inr (F_int32 v, b'))"
| "get_field K_int64 b = bindE (consume_int64 b) (\<lambda>(v, b'). Inr (F_int64 v, b'))"
| "get_field K_data b = bindE (consume_all_data_into_string b) (\<lambda>(bs, b'). Inr (F_data bs, b'))"

fun field_enc :: "field \<Rightarrow> byte list" where
  "field_enc (F_int16 v) = bytes16 v"
| "field_enc (F_int32 v) = le_bytes 4 (bswap32 v)"
| "field_enc (F_int64 v) = le_bytes 8 (htonll v)"
| "field_enc (F_data bs) = bytes16 (word_of_int (int (length bs))) @ bs"

text \<open>What the format can carry: 16-bit integers and strings of at most 32767 bytes.\<close>

fun field_ok :: "field \<Rightarrow> bool" where
  "field_ok (F_int16 v) \<longleftrightarrow> scast (ucast v :: u16) = v"
| "field_ok (F_int32 v) \<longleftrightarrow> True"
| "field_ok (F_int64 v) \<longleftrightarrow> True"
| "field_ok (F_data bs) \<longleftrightarrow> length bs < 32768"

lemma add_field_ok:
  assumes "buf_inv b" and "field_ok f" and "length (field_enc f) \<le> room b"
  shows "\<exists>b'. add_field f b = Inr b' \<and> buf_inv b' \<and> content b' = content b @ field_enc f \<and>
           room b' = room b - length (field_enc f)"
proof (cases f)
  case (F_data bs)
  with assms put_data_spec[of b bs] to_int_small[of "length bs"] show ?thesis by simp
qed (use assms put_int16_spec put_int32_spec put_int64_spec in simp_all)

lemma get_field_ok:
  assumes "buf_inv b" and "field_ok f" and "content b = field_enc f @ ys"
  shows "\<exists>b'. get_field (field_kind_of f) b = Inr (f, b') \<and> buf_inv b' \<and> content b' = ys \<and> room b' = room b"
proof (cases f)
  case (F_int16 v)
  with assms consume_int16_spec[of b v ys] show ?thesis by auto
next
  case (F_int32 v)
  with assms consume_int32_spec[of b v ys] show ?thesis by auto
next
  case (F_int64 v)
  with assms consume_int64_spec[of b v ys] show ?thesis by auto
next
  case (F_data bs)
  with assms consume_string_spec[of b bs ys] show ?thesis by auto
qed

interpretation ser: field_channel buf_inv content room add_field get_field field_kind_of field_enc field_ok
  by unfold_locales (use add_field_ok get_field_ok in blast)+

subsection \<open>The serialisable messages\<close>

datatype wire_msg = Tweet "byte list" | WordRecord "byte list list"

datatype msg_kind = Kind_Tweet | Kind_WordRecord

fun kind_of_msg :: "wire_msg \<Rightarrow> msg_kind" where
  "kind_of_msg (Tweet t) = Kind_Tweet"
| "kind_of_msg (WordRecord ws) = Kind_WordRecord"

fun serialize :: "wire_msg \<Rightarrow> ibuf \<Rightarrow> ibuf res" where
  "serialize (Tweet t) b = bindE (ser_reset b) (put_data t (to_int (length t)))"
| "serialize (WordRecord ws) b =
     bindE (ser_reset b) (\<lambda>b1.
     bindE (put_int32 (of_nat (length ws)) b1)
     (foldE (\<lambda>w. put_data w (to_int (length w))) ws))"

fun build_same :: "msg_kind \<Rightarrow> ibuf \<Rightarrow> (wire_msg \<times> ibuf) res" where
  "build_same Kind_Tweet b = bindE (consume_all_data_into_string b) (\<lambda>(t, b'). Inr (Tweet t, b'))"
| "build_same Kind_WordRecord b =
     (if buf_len b \<noteq> 0 then
        bindE (consume_int32 b) (\<lambda>(n, b1).
        bindE (collectE (\<lambda>_. consume_all_data_into_string) [0..<nat (sint n)] b1)
        (\<lambda>(ws, b2). Inr (WordRecord ws, b2)))
      else Inr (WordRecord [], b))"

text \<open>What \<open>SerExporter::_receive_msg\<close> hands to \<open>send\<close>.\<close>

definition export_msg :: "wire_msg \<Rightarrow> ibuf \<Rightarrow> (byte list \<times> ibuf) res" where
  "export_msg m b = bindE (serialize m b) ser_finalize"

subsection \<open>The receiving loop of SerSource\<close>

definition MAX_CLIENT_SOCKET :: nat where "MAX_CLIENT_SOCKET = 30"

definition DEFAULT_RECV_SIZE :: nat where "DEFAULT_RECV_SIZE = 2000"

text \<open>One pass over one client's serializer: the message sent on, if a whole frame was there.\<close>

definition ser_source_poll :: "msg_kind \<Rightarrow> ibuf \<Rightarrow> (wire_msg option \<times> ibuf) res" where
  "ser_source_poll k b =
     (if buf_len b \<ge> 2 then
        bindE (ser_read_int16 b) (\<lambda>w.
        if buf_len b \<ge> sint w then
          bindE (buf_consume 2 b) (\<lambda>b1.
          bindE (build_same k b1) (\<lambda>(m, b2).
          bindE (ser_next b2) (\<lambda>b3. Inr (Some m, b3))))
        else Inr (None, b))
      else Inr (None, b))"

fun ser_source_pass :: "msg_kind \<Rightarrow> ibuf list \<Rightarrow> (wire_msg list \<times> ibuf list) res" where
  "ser_source_pass k [] = Inr ([], [])"
| "ser_source_pass k (b # bs) =
     bindE (ser_source_poll k b) (\<lambda>(mo, b').
     bindE (ser_source_pass k bs) (\<lambda>(ms, bs').
     Inr ((case mo of None \<Rightarrow> ms | Some m \<Rightarrow> m # ms), b' # bs')))"

lemma buf_consume_data:
  "buf_consume off b = Inr b' \<Longrightarrow> bf_tail b' = bf_tail b \<and> bf_head b' = bf_head b \<and> int (bf_data b') = int (bf_data b) + off"
  by (auto simp: buf_consume_def bindE_guardE_Inr split: if_splits)

lemma consume_string_data:
  assumes "consume_all_data_into_string b = Inr (s, b')"
  shows "bf_tail b' = bf_tail b \<and> bf_head b' = bf_head b \<and> bf_data b \<le> bf_data b'"
  using assms
  by (auto simp: consume_all_data_into_string_def consume_int16_def bindE_Inr_conv bindE_guardE_Inr Let_def
      split: if_splits prod.splits)

lemma collect_strings_data:
  "collectE (\<lambda>_. consume_all_data_into_string) xs b = Inr (ws, b') \<Longrightarrow>
   bf_tail b' = bf_tail b \<and> bf_head b' = bf_head b \<and> bf_data b \<le> bf_data b'"
proof (induction xs arbitrary: b ws)
  case Nil
  then show ?case by simp
next
  case (Cons x xs)
  then show ?case
    by (fastforce simp: bindE_Inr_conv split: prod.splits dest: consume_string_data)
qed

lemma build_same_data:
  assumes "build_same k b = Inr (m, b')"
  shows "bf_tail b' = bf_tail b \<and> bf_head b' = bf_head b \<and> bf_data b \<le> bf_data b'"
proof (cases k)
  case Kind_Tweet
  with assms show ?thesis by (auto simp: bindE_Inr_conv dest: consume_string_data)
next
  case Kind_WordRecord
  with assms show ?thesis
    by (auto simp: bindE_Inr_conv consume_int32_def bindE_guardE_Inr split: if_splits prod.splits
        dest!: collect_strings_data)
qed

lemma ser_source_poll_shrinks:
  assumes "ser_source_poll k b = Inr (mo, b')"
  shows "bf_tail b' - bf_data b' + (if mo = None then 0 else 2) \<le> bf_tail b - bf_data b"
  using assms
  by (auto simp: ser_source_poll_def bindE_Inr_conv ser_next_def buf_compact_def buf_len_def Let_def
      split: if_splits prod.splits dest!: build_same_data buf_consume_data)

lemma ser_source_pass_shrinks:
  "ser_source_pass k bs = Inr (ms, bs') \<Longrightarrow>
   sum_list (map (\<lambda>b. bf_tail b - bf_data b) bs') + 2 * length ms \<le> sum_list (map (\<lambda>b. bf_tail b - bf_data b) bs)"
proof (induction bs arbitrary: ms bs')
  case Nil
  then show ?case by simp
next
  case (Cons b bs)
  from Cons.prems obtain mo b1 ms1 bs1 where p: "ser_source_poll k b = Inr (mo, b1)"
    "ser_source_pass k bs = Inr (ms1, bs1)" "bs' = b1 # bs1"
    "ms = (case mo of None \<Rightarrow> ms1 | Some m \<Rightarrow> m # ms1)"
    by (auto simp: bindE_Inr_conv)
  with ser_source_poll_shrinks[OF p(1)] Cons.IH[OF p(2)] show ?case
    by (auto split: option.splits)
qed

text \<open>\<open>while\<close> some serializer held a whole frame, go round again: every round shrinks the buffers.\<close>

function ser_source_drain :: "msg_kind \<Rightarrow> ibuf list \<Rightarrow> (wire_msg list \<times> ibuf list) res" where
  "ser_source_drain k bs =
     bindE (ser_source_pass k bs) (\<lambda>(ms, bs').
     if ms = [] then Inr ([], bs')
     else bindE (ser_source_drain k bs') (\<lambda>(ms2, bs2). Inr (ms @ ms2, bs2)))"
  by pat_completeness auto
termination
proof (relation "measure (\<lambda>(k, bs). sum_list (map (\<lambda>b. bf_tail b - bf_data b) bs))", goal_cases)
  case 1
  show ?case by simp
next
  case (2 k bs x ms bs')
  then have "ser_source_pass k bs = Inr (ms, bs')" by simp
  from ser_source_pass_shrinks[OF this] 2(3) show ?case by (cases ms) auto
qed

declare ser_source_drain.simps [simp del]

text \<open>What \<open>select\<close> reports: a connection to accept, or bytes read from client \<open>i\<close> by \<open>recv\<close>.\<close>

datatype net_event = Net_Accept "nat \<Rightarrow> byte" | Net_Data nat "byte list"

definition new_serializer :: "(nat \<Rightarrow> byte) \<Rightarrow> ibuf res" where
  "new_serializer mem = ser_reset \<lparr>bf_mem = mem, bf_head = 0, bf_data = 0, bf_tail = 0, bf_end = 0\<rparr>"

fun ser_source_event :: "net_event \<Rightarrow> ibuf list \<Rightarrow> ibuf list res" where
  "ser_source_event (Net_Accept mem) sers =
     (if length sers = MAX_CLIENT_SOCKET then Inr sers
      else bindE (new_serializer mem) (\<lambda>b. Inr (sers @ [ser_empty b])))"
| "ser_source_event (Net_Data i bytes) sers =
     (if i < length sers
      then bindE (put_raw_data bytes (to_int (length bytes)) (sers ! i)) (\<lambda>b. Inr (sers[i := b]))
      else Inr sers)"

fun ser_source_run :: "msg_kind \<Rightarrow> net_event list \<Rightarrow> ibuf list \<Rightarrow> (wire_msg list \<times> ibuf list) res" where
  "ser_source_run k [] sers = ser_source_drain k sers"
| "ser_source_run k (ev # evs) sers =
     bindE (ser_source_drain k sers) (\<lambda>(ms, sers1).
     bindE (ser_source_event ev sers1) (\<lambda>sers2.
     bindE (ser_source_run k evs sers2) (\<lambda>(ms2, sers3). Inr (ms @ ms2, sers3))))"

subsection \<open>Frames\<close>

fun msg_fields :: "wire_msg \<Rightarrow> field list" where
  "msg_fields (Tweet t) = [F_data t]"
| "msg_fields (WordRecord ws) = F_int32 (of_nat (length ws)) # map F_data ws"

definition payload :: "wire_msg \<Rightarrow> byte list" where
  "payload m = ser.enc_all (msg_fields m)"

text \<open>The frame of a message: its whole length in two bytes, then its fields.\<close>

definition frame :: "wire_msg \<Rightarrow> byte list" where
  "frame m = bytes16 (word_of_int (int (2 + length (payload m)))) @ payload m"

definition frame_ok :: "wire_msg \<Rightarrow> bool" where
  "frame_ok m \<longleftrightarrow> length (frame m) < 32768"

lemma length_frame: "length (frame m) = 2 + length (payload m)"
  by (simp add: frame_def)

lemma length_enc_all_data: "length (ser.enc_all (map F_data ws)) \<ge> 2 * length ws"
  by (induction ws) (auto simp: ser.enc_all_def)

lemma enc_data_bound: "w \<in> set ws \<Longrightarrow> length w + 2 \<le> length (ser.enc_all (map F_data ws))"
  by (induction ws) (auto simp: ser.enc_all_def)

lemma frame_ok_fields:
  assumes "frame_ok m"
  shows "list_all field_ok (msg_fields m)"
proof (cases m)
  case (Tweet t)
  with assms show ?thesis by (simp add: frame_ok_def frame_def payload_def ser.enc_all_def)
next
  case (WordRecord ws)
  have "length w < 32768" if "w \<in> set ws" for w
    using enc_data_bound[OF that] assms WordRecord
    by (simp add: frame_ok_def frame_def payload_def ser.enc_all_def)
  with WordRecord show ?thesis by (simp add: list_all_iff)
qed

lemma serialize_fields:
  "serialize m b = bindE (ser_reset b) (foldE add_field (msg_fields m))"
proof (cases m)
  case (Tweet t)
  have "bindE x (foldE add_field []) = x" for x by (cases x) auto
  with Tweet show ?thesis by (cases "ser_reset b") simp_all
next
  case (WordRecord ws)
  have "foldE add_field (map F_data ws) = foldE (\<lambda>w. put_data w (to_int (length w))) ws"
  proof -
    have "add_field (F_data w) = put_data w (to_int (length w))" for w by (rule ext) simp
    then show ?thesis by (intro ext) (simp add: foldE_map)
  qed
  with WordRecord show ?thesis by (cases "ser_reset b") simp_all
qed

lemma ser_reset_spec:
  "\<exists>b'. ser_reset b = Inr b' \<and> buf_inv b' \<and> length (content b') = 2 \<and> room b' = MESSAGE_MAX_DATA - 2 \<and> bf_data b' = 0"
  by (auto simp: ser_reset_def buf_put_def buf_reset_def buf_defs MESSAGE_MAX_DATA_def)

lemma read_write_front:
  assumes "length bs \<le> n"
  shows "read_bytes (write_bytes m p bs) p n = bs @ read_bytes m (p + length bs) (n - length bs)"
  using assms by (simp add: read_bytes_split[of "length bs" n] read_write_above)

lemma ser_finalize_spec:
  assumes "buf_inv b" and "content b = xs @ ys" and "length xs = 2"
  shows "\<exists>b'. ser_finalize b = Inr (bytes16 (word_of_int (int (2 + length ys))) @ ys, b') \<and> buf_inv b'"
proof -
  have len: "bf_tail b - bf_data b = 2 + length ys"
    using assms(2,3) by (metis length_append length_content)
  then have bl: "buf_len b = int (2 + length ys)" by (simp add: buf_len_def)
  have ys: "read_bytes (bf_mem b) (bf_data b + 2) (length ys) = ys"
  proof -
    have "bf_tail b - (bf_data b + 2) = length ys" using len by simp
    then show ?thesis using content_prefix(4)[OF assms(1,2)] assms(3) by (simp add: content_def)
  qed
  define v where "v = (word_of_int (int (2 + length ys)) :: u32)"
  have "read_bytes (write_bytes (bf_mem b) (bf_data b) (bytes16 v)) (bf_data b) (2 + length ys) = bytes16 v @ ys"
    using ys read_write_front[of "bytes16 v" "2 + length ys" "bf_mem b" "bf_data b"] by simp
  then show ?thesis
    using bl assms(1) len unfolding ser_finalize_def set_int16_def bytes16_def[symmetric] v_def[symmetric]
    by (simp add: buf_inv_def v_def buf_len_def nat_add_distrib)
qed

text \<open>The exporter sends exactly the frame, whatever the serializer held before.\<close>

lemma export_msg_spec:
  assumes "frame_ok m"
  shows "\<exists>b'. export_msg m b = Inr (frame m, b') \<and> buf_inv b'"
proof -
  obtain b1 where 1: "ser_reset b = Inr b1" "buf_inv b1" "length (content b1) = 2" "room b1 = MESSAGE_MAX_DATA - 2"
    using ser_reset_spec by blast
  have "length (ser.enc_all (msg_fields m)) \<le> room b1"
    using assms 1(4) by (simp add: frame_ok_def length_frame payload_def MESSAGE_MAX_DATA_def)
  then obtain b2 where 2: "foldE add_field (msg_fields m) b1 = Inr b2" "buf_inv b2"
    "content b2 = content b1 @ payload m"
    using ser.put_all[OF 1(2) frame_ok_fields[OF assms]] unfolding payload_def by blast
  from ser_finalize_spec[OF 2(2,3) 1(3)] show ?thesis
    by (auto simp: export_msg_def serialize_fields 1(1) 2(1) frame_def)
qed

subsection \<open>Receiving frames\<close>

lemma build_same_spec:
  assumes "buf_inv b" and "frame_ok m" and "content b = payload m @ ys"
  shows "\<exists>b'. build_same (kind_of_msg m) b = Inr (m, b') \<and> buf_inv b' \<and> content b' = ys"
proof (cases m)
  case (Tweet t)
  then show ?thesis
    using ser.get_all[OF assms(1) frame_ok_fields[OF assms(2)] assms(3)[unfolded payload_def]]
    by (auto simp: bindE_Inr_conv)
next
  case (WordRecord ws)
  have ok: "list_all field_ok (map F_data ws)" and n: "length ws < 2 ^ 31"
    using frame_ok_fields[OF assms(2)] length_enc_all_data[of ws] assms(2) WordRecord
    by (auto simp: frame_ok_def length_frame payload_def ser.enc_all_def)
  have c: "content b = le_bytes 4 (bswap32 (of_nat (length ws))) @ ser.enc_all (map F_data ws) @ ys"
    using assms(3) WordRecord by (simp add: payload_def ser.enc_all_def)
  then obtain b1 where 1: "consume_int32 b = Inr (of_nat (length ws), b1)" "buf_inv b1"
    "content b1 = ser.enc_all (map F_data ws) @ ys"
    using consume_int32_spec[OF assms(1)] by blast
  obtain b2 where 2: "collectE get_field (map field_kind_of (map F_data ws)) b1 = Inr (map F_data ws, b2)"
    "buf_inv b2" "content b2 = ys"
    using ser.get_all[OF 1(2) ok 1(3)] by blast
  have data: "collectE get_field (map field_kind_of (map F_data vs)) c = Inr (map F_data vs, c') \<Longrightarrow>
      collectE (\<lambda>_. consume_all_data_into_string) vs c = Inr (vs, c')" for vs c c'
  proof (induction vs arbitrary: c)
    case Nil
    then show ?case by simp
  next
    case (Cons v vs)
    then show ?case by (fastforce simp: bindE_Inr_conv)
  qed
  have "collectE (\<lambda>_. consume_all_data_into_string) [0..<length ws] b1 =
      collectE (\<lambda>_. consume_all_data_into_string) ws b1"
    by (rule collectE_const) simp
  also have "\<dots> = Inr (ws, b2)" using 2(1) by (rule data)
  finally have "collectE (\<lambda>_. consume_all_data_into_string) [0..<length ws] b1 = Inr (ws, b2)" .
  moreover have "nat (sint (of_nat (length ws) :: u32)) = length ws"
    using to_int_small[OF n] by (simp add: to_int_def)
  moreover have "buf_len b \<noteq> 0"
    using c length_content[of b] by (auto simp: buf_len_def)
  ultimately show ?thesis using 1(1) 2(2,3) WordRecord by simp
qed

lemma read_int16_frame:
  assumes "buf_inv b" and "content b = bytes16 (word_of_int (int n)) @ ys" and "n < 32768"
  shows "\<exists>w. ser_read_int16 b = Inr w \<and> sint w = int n"
proof -
  note pre = content_prefix[OF assms(1,2)]
  have "2 \<le> buf_len b" using pre(1) by (simp add: buf_len_def)
  then have "ser_read_int16 b = Inr (scast (ucast (word_of_int (int n) :: u32) :: u16))"
    using pre(2) by (simp add: ser_read_int16_def get_int16_def bytes16_def)
  with sint_len16[OF assms(3)] show ?thesis by blast
qed

text \<open>A whole frame at the front is taken off and its message sent on.\<close>

lemma poll_frame:
  assumes "buf_inv b" and "bf_data b = 0" and "frame_ok m" and "content b = frame m @ ys"
  shows "\<exists>b'. ser_source_poll (kind_of_msg m) b = Inr (Some m, b') \<and> buf_inv b' \<and> bf_data b' = 0 \<and> content b' = ys"
proof -
  let ?l = "bytes16 (word_of_int (int (2 + length (payload m))))"
  have c: "content b = ?l @ payload m @ ys" using assms(4) by (simp add: frame_def)
  obtain w where w: "ser_read_int16 b = Inr w" "sint w = int (2 + length (payload m))"
    using read_int16_frame[OF assms(1) c] assms(3) by (auto simp: frame_ok_def length_frame)
  have len: "buf_len b = int (2 + length (payload m) + length ys)"
    using c assms(1) by (simp add: buf_len_content)
  note pre = content_prefix[OF assms(1) c]
  let ?b1 = "b\<lparr>bf_data := bf_data b + 2\<rparr>"
  have "bf_head b = 0" using assms(1) by (simp add: buf_inv_def)
  then have cons: "buf_consume 2 b = Inr ?b1"
    using pre(1) assms(2) by (simp add: buf_consume_def nat_add_distrib)
  obtain b2 where 2: "build_same (kind_of_msg m) ?b1 = Inr (m, b2)" "buf_inv b2" "content b2 = ys"
    using build_same_spec[of ?b1 m ys] pre(3,4) assms(3) by auto
  obtain b3 where "ser_next b2 = Inr b3" "buf_inv b3" "content b3 = ys" "bf_data b3 = 0"
    using buf_compact_spec[OF 2(2)] 2(2,3)
    by (auto simp: ser_next_def buf_compact_def buf_inv_def Let_def)
  then show ?thesis using len w cons 2(1) by (simp add: ser_source_poll_def)
qed

text \<open>An incomplete frame stays where it is.\<close>

lemma poll_partial:
  assumes "buf_inv b" and "frame_ok m" and "strict_prefix (content b) (frame m)"
  shows "ser_source_poll k b = Inr (None, b)"
proof (cases "length (content b) < 2")
  case True
  then show ?thesis using assms(1) by (simp add: ser_source_poll_def buf_len_content)
next
  case False
  let ?l = "bytes16 (word_of_int (int (2 + length (payload m))))"
  obtain zs where z: "content b @ zs = ?l @ payload m"
    using assms(3) by (auto simp: frame_def strict_prefix_def prefix_def)
  then have "?l = take 2 (content b)" using False by (metis append_eq_conv_conj le_less_linear length_bytes16 take_append diff_is_0_eq' take_0 append_Nil2)
  then have c: "content b = ?l @ drop 2 (content b)" by simp
  obtain w where w: "ser_read_int16 b = Inr w" "sint w = int (length (frame m))"
    using read_int16_frame[OF assms(1) c] assms(2) by (auto simp: frame_ok_def length_frame)
  have "length (content b) < length (frame m)" using assms(3) by (rule prefix_length_less)
  with w False assms(1) show ?thesis
    by (simp add: ser_source_poll_def buf_len_content)
qed

lemma poll_empty: "buf_inv b \<Longrightarrow> content b = [] \<Longrightarrow> ser_source_poll k b = Inr (None, b)"
  by (simp add: ser_source_poll_def buf_len_content)

text \<open>What is left of a stream of frames when the whole ones are taken off.\<close>

definition tail_of_frame :: "byte list \<Rightarrow> wire_msg list \<Rightarrow> bool" where
  "tail_of_frame rest ms \<longleftrightarrow> (case ms of [] \<Rightarrow> rest = [] | m # _ \<Rightarrow> strict_prefix rest (frame m))"

lemma drain_frames:
  assumes "buf_inv b" and "bf_data b = 0" and "list_all frame_ok (ms @ ms')"
    and "list_all (\<lambda>m. kind_of_msg m = k) ms"
    and "content b = concat (map frame ms) @ rest" and "tail_of_frame rest ms'"
  shows "\<exists>b'. ser_source_drain k [b] = Inr (ms, [b']) \<and> buf_inv b' \<and> bf_data b' = 0 \<and> content b' = rest"
  using assms
proof (induction ms arbitrary: b)
  case Nil
  then have "ser_source_poll k b = Inr (None, b)"
    using poll_empty poll_partial by (auto simp: tail_of_frame_def split: list.splits)
  with Nil show ?case by (simp add: ser_source_drain.simps)
next
  case (Cons m ms)
  then obtain b1 where 1: "ser_source_poll k b = Inr (Some m, b1)" "buf_inv b1" "bf_data b1 = 0"
    "content b1 = concat (map frame ms) @ rest"
    using poll_frame[of b m "concat (map frame ms) @ rest"] by auto
  with Cons obtain b2 where "ser_source_drain k [b1] = Inr (ms, [b2])" "buf_inv b2" "bf_data b2 = 0" "content b2 = rest"
    by auto
  with 1(1) show ?case by (simp add: ser_source_drain.simps[of k "[b]"])
qed

lemma frames_split:
  "prefix xs (concat (map frame ms)) \<Longrightarrow>
   \<exists>ms1 ms2 rest. ms = ms1 @ ms2 \<and> xs = concat (map frame ms1) @ rest \<and> tail_of_frame rest ms2"
proof (induction ms arbitrary: xs)
  case Nil
  then show ?case by (auto simp: tail_of_frame_def)
next
  case (Cons m ms)
  then have p: "prefix xs (frame m @ concat (map frame ms))" by simp
  show ?case
  proof (cases "prefix (frame m) xs")
    case True
    then obtain ys where xs: "xs = frame m @ ys" by (auto simp: prefix_def)
    with p have "prefix ys (concat (map frame ms))" by simp
    with Cons.IH obtain ms1 ms2 rest where
      "ms = ms1 @ ms2" "ys = concat (map frame ms1) @ rest" "tail_of_frame rest ms2" by blast
    then show ?thesis using xs by (intro exI[of _ "m # ms1"] exI[of _ ms2] exI[of _ rest]) simp
  next
    case False
    with p have "strict_prefix xs (frame m)" by (auto simp: prefix_append strict_prefix_def)
    then show ?thesis by (intro exI[of _ "[]"] exI[of _ "m # ms"] exI[of _ xs]) (simp add: tail_of_frame_def)
  qed
qed

lemma tail_of_frame_length: "list_all frame_ok ms \<Longrightarrow> tail_of_frame rest ms \<Longrightarrow> length rest < 32768"
  by (auto simp: tail_of_frame_def frame_ok_def split: list.splits dest!: prefix_length_less)

lemma recv_appends:
  assumes "buf_inv b" and "bf_data b = 0" and "length (content b) < 32768" and "length c \<le> DEFAULT_RECV_SIZE"
  shows "\<exists>b'. ser_source_event (Net_Data 0 c) [b] = Inr [b'] \<and> buf_inv b' \<and> bf_data b' = 0 \<and> content b' = content b @ c"
proof -
  have "length c \<le> room b"
    using assms by (simp add: room_def length_content DEFAULT_RECV_SIZE_def MESSAGE_MAX_DATA_def buf_inv_def)
  moreover have "to_int (length c) = int (length c)"
    using assms(4) by (intro to_int_small) (simp add: DEFAULT_RECV_SIZE_def)
  ultimately show ?thesis
    using put_raw_data_spec[OF assms(1)] assms(2)
    by (auto simp: put_raw_data_def bindE_guardE_Inr split: if_splits)
qed

text \<open>Whatever is in the buffer and whatever the chunks, whole frames come out in order.\<close>

lemma ser_source_run_frames:
  assumes "content b @ concat chunks = concat (map frame ms)" and "list_all frame_ok ms"
    and "list_all (\<lambda>m. kind_of_msg m = k) ms" and "list_all (\<lambda>c. length c \<le> DEFAULT_RECV_SIZE) chunks"
    and "buf_inv b" and "bf_data b = 0"
  shows "\<exists>b'. ser_source_run k (map (Net_Data 0) chunks) [b] = Inr (ms, [b']) \<and> content b' = []"
  using assms
proof (induction chunks arbitrary: ms b)
  case Nil
  then show ?case using drain_frames[of b ms "[]" k "[]"] by (auto simp: tail_of_frame_def)
next
  case (Cons c cs)
  from Cons.prems(1) have "prefix (content b) (concat (map frame ms))" by (metis prefixI)
  then obtain ms1 ms2 rest where sp: "ms = ms1 @ ms2" "content b = concat (map frame ms1) @ rest"
    "tail_of_frame rest ms2"
    using frames_split by blast
  then obtain b1 where 1: "ser_source_drain k [b] = Inr (ms1, [b1])" "buf_inv b1" "bf_data b1 = 0" "content b1 = rest"
    using drain_frames[of b ms1 ms2 k rest] Cons.prems by auto
  moreover have "length rest < 32768"
    using tail_of_frame_length[OF _ sp(3)] Cons.prems(2) sp(1) by simp
  ultimately obtain b2 where 2: "ser_source_event (Net_Data 0 c) [b1] = Inr [b2]" "buf_inv b2" "bf_data b2 = 0"
    "content b2 = rest @ c"
    using recv_appends[of b1 c] Cons.prems(4) by auto
  have "content b2 @ concat cs = concat (map frame ms2)"
    using Cons.prems(1) sp 2(4) by simp
  with Cons.IH[of b2 ms2] Cons.prems sp(1) 2 obtain b3 where
    "ser_source_run k (map (Net_Data 0) cs) [b2] = Inr (ms2, [b3])" "content b3 = []"
    by auto
  with 1(1) 2(1) sp(1) show ?case by simp
qed

lemma export_frames:
  "list_all frame_ok ms \<Longrightarrow> map (\<lambda>m. fst (projr (export_msg m b0))) ms = map frame ms"
proof (induction ms)
  case Nil
  then show ?case by simp
next
  case (Cons m ms)
  then show ?case using export_msg_spec[of m b0] by auto
qed

subsection \<open>Properties\<close>

text \<open>
  C1: TCP may cut the byte stream of an exporter into any chunks of at most
  \<open>DEFAULT_RECV_SIZE\<close> bytes; the source block at the other end still sends on exactly the
  exported messages, in order, and keeps no byte back.
\<close>

theorem ser_source_recovers_stream:
  assumes "list_all frame_ok ms" and "list_all (\<lambda>m. kind_of_msg m = k) ms"
    and "list_all (\<lambda>c. length c \<le> DEFAULT_RECV_SIZE) chunks"
    and "concat chunks = concat (map (\<lambda>m. fst (projr (export_msg m b0))) ms)"
    and "buf_inv b" and "bf_data b = 0" and "content b = []"
  shows "\<exists>b'. ser_source_run k (map (Net_Data 0) chunks) [b] = Inr (ms, [b']) \<and> content b' = []"
  using assms by (intro ser_source_run_frames) (simp_all add: export_frames)

definition ex_buf :: ibuf where
  "ex_buf = \<lparr>bf_mem = (\<lambda>_. 0), bf_head = 0, bf_data = 0, bf_tail = 0, bf_end = MESSAGE_MAX_DATA\<rparr>"

lemma ex_buf_ok: "buf_inv ex_buf" "bf_data ex_buf = 0" "content ex_buf = []" "room ex_buf = MESSAGE_MAX_DATA"
  by (simp_all add: ex_buf_def buf_defs)

lemma ex_frames_ok: "list_all frame_ok [Tweet [7, 8], Tweet []]"
  by (simp add: frame_ok_def frame_def payload_def ser.enc_all_def)

lemma ex_frames: "concat (map frame [Tweet [7, 8], Tweet []]) = [0, 6, 0, 2, 7, 8, 0, 4, 0, 0]"
  by (simp add: frame_def payload_def ser.enc_all_def bytes16_def le_bytes_bswap16, simp add: le_bytes_def upt_rec)

theorem ser_source_recovers_stream_witness:
  "\<exists>b'. ser_source_run Kind_Tweet (map (Net_Data 0) [[0], [6, 0, 2, 7, 8, 0, 4], [0, 0]]) [ex_buf] =
     Inr ([Tweet [7, 8], Tweet []], [b']) \<and> content b' = []"
proof (rule ser_source_recovers_stream [where b0 = ex_buf])
  show "concat [[0], [6, 0, 2, 7, 8, 0, 4], [0, 0]] =
      concat (map (\<lambda>m. fst (projr (export_msg m ex_buf))) [Tweet [7, 8], Tweet []])"
    unfolding export_frames[OF ex_frames_ok] ex_frames by simp
qed (use ex_frames_ok ex_buf_ok in \<open>simp_all add: DEFAULT_RECV_SIZE_def\<close>)

text \<open>
  C2: any list of typed fields the format can carry (16-bit integers, 32- and 64-bit integers,
  strings of at most 32767 bytes) that fits the buffer is read back field by field, and the
  buffer is empty afterwards.
\<close>

theorem serializer_fields_roundtrip:
  assumes "buf_inv b" and "content b = []" and "list_all field_ok fs"
    and "length (concat (map field_enc fs)) \<le> room b"
  shows "\<exists>b1 b2. foldE add_field fs b = Inr b1 \<and>
           collectE get_field (map field_kind_of fs) b1 = Inr (fs, b2) \<and> content b2 = []"
  using ser.channel_roundtrip[of b fs] assms by (simp add: ser.enc_all_def)

theorem serializer_fields_roundtrip_witness:
  "\<exists>b1 b2. foldE add_field [F_int32 5, F_data [1, 2, 3], F_int64 (-1), F_int16 (-7)] ex_buf = Inr b1 \<and>
     collectE get_field (map field_kind_of [F_int32 5, F_data [1, 2, 3], F_int64 (-1), F_int16 (-7)]) b1 =
       Inr ([F_int32 5, F_data [1, 2, 3], F_int64 (-1), F_int16 (-7)], b2) \<and> content b2 = []"
  by (rule serializer_fields_roundtrip) (simp_all add: ex_buf_ok MESSAGE_MAX_DATA_def)

text \<open>
  the length prefix is written as 16 unsigned bits and read as 16 signed bits. A string of
  32768 to 65532 bytes is therefore accepted by \<open>add_data\<close> but can never be read back:
  \<open>get_string\<close> throws \<open>length_error\<close>.
\<close>

theorem long_string_unreadable:
  assumes "buf_inv b" and "content b = []" and "32768 \<le> length bs" and "2 + length bs \<le> room b"
  shows "\<exists>b'. put_data bs (int (length bs)) b = Inr b' \<and> consume_all_data_into_string b' = Inl Length_Error"
proof -
  have small: "length bs < 65536"
    using assms(1,4) by (auto simp: room_def buf_inv_def MESSAGE_MAX_DATA_def)
  obtain b1 where 1: "put_data bs (int (length bs)) b = Inr b1" "buf_inv b1"
    "content b1 = bytes16 (word_of_int (int (length bs))) @ bs"
    using put_data_spec[OF assms(1,4)] assms(2) by auto
  obtain b2 where "consume_int16 b1 = Inr (scast (ucast (word_of_int (int (length bs)) :: u32) :: u16), b2)"
    using consume_int16_spec[OF 1(2,3)] by blast
  with sint_len16_big[OF assms(3) small] small have "consume_all_data_into_string b1 = Inl Length_Error"
    by (simp add: consume_all_data_into_string_def Let_def)
  with 1(1) show ?thesis by blast
qed

theorem long_string_unreadable_witness:
  "\<exists>b'. put_data (replicate 40000 0) (int (length (replicate 40000 (0::byte)))) ex_buf = Inr b' \<and>
     consume_all_data_into_string b' = Inl Length_Error"
  by (rule long_string_unreadable) (simp_all add: ex_buf_ok MESSAGE_MAX_DATA_def)

text \<open>
  adding a string to a well-formed buffer is total: if it fits, it is appended behind its
  length and the pointers stay ordered inside the 65536 bytes; if it does not fit, an assertion
  fails before a byte outside the buffer is written.
\<close>

theorem put_data_total:
  assumes "buf_inv b" and "length bs < 2 ^ 31"
  shows "if 2 + length bs \<le> room b
         then \<exists>b'. put_data bs (to_int (length bs)) b = Inr b' \<and> buf_inv b' \<and>
                content b' = content b @ field_enc (F_data bs) \<and> room b' = room b - (2 + length bs)
         else put_data bs (to_int (length bs)) b = Inl Assert_Fail"
proof -
  have i: "to_int (length bs) = int (length bs)" using assms(2) by (rule to_int_small)
  consider "2 + length bs \<le> room b" | "2 \<le> room b" "room b < 2 + length bs" | "room b < 2" by linarith
  then show ?thesis
  proof cases
    case 1
    then show ?thesis using put_data_spec[OF assms(1) 1] i by auto
  next
    case 2
    then obtain b1 where "put_int16 (word_of_int (int (length bs))) b = Inr b1" "buf_inv b1" "room b1 = room b - 2"
      using put_int16_spec[OF assms(1)] by blast
    with i 2 put_overflow(4)[of b1 bs] show ?thesis by (simp add: put_data_def)
  next
    case 3
    with i put_overflow(1)[OF assms(1)] show ?thesis by (simp add: put_data_def)
  qed
qed

theorem put_data_total_witness:
  "\<exists>b'. put_data [1, 2] (to_int (length [1::byte, 2])) ex_buf = Inr b' \<and> buf_inv b' \<and>
     content b' = content ex_buf @ field_enc (F_data [1, 2]) \<and> room b' = room ex_buf - (2 + length [1::byte, 2])"
  using put_data_total[of ex_buf "[1, 2]"] ex_buf_ok by (simp add: MESSAGE_MAX_DATA_def)

text \<open>
  \<open>consume\<close> checks its offset against the start of the array instead of the read
  position: from a well-formed buffer it can move the read position beyond the written bytes,
  after which compacting the buffer has no defined behaviour.
\<close>

theorem consume_overruns:
  "\<exists>b b'. buf_inv b \<and> buf_consume 4 b = Inr b' \<and> \<not> buf_inv b' \<and> buf_compact b' = Inl Undefined_Behaviour"
proof -
  define b where "b = ex_buf\<lparr>bf_data := 2, bf_tail := 4\<rparr>"
  have "buf_inv b \<and> buf_consume 4 b = Inr (b\<lparr>bf_data := 6\<rparr>)"
    by (simp add: b_def ex_buf_def buf_inv_def buf_consume_def MESSAGE_MAX_DATA_def)
  moreover have "\<not> buf_inv (b\<lparr>bf_data := 6\<rparr>) \<and> buf_compact (b\<lparr>bf_data := 6\<rparr>) = Inl Undefined_Behaviour"
    by (simp add: b_def buf_inv_def buf_compact_def)
  ultimately show ?thesis by blast
qed

end
