(* ===== verification/Fifo_Spec.thy ===== *)
theory Fifo_Spec
  imports Bm_Prelude
begin

text \<open>
  The contract of the queues that carry messages and tasks between threads: a first-in
  first-out list behind an invariant, whose push may refuse an element. Clients rely on this
  locale only; the double-buffered gate queue, the mutex-protected queue and the bounded shared
  queue provide it in their own theories.
\<close>

datatype 'a qop = Push 'a | Pop

text \<open>
  A history of operations on a queue: the elements whose push was accepted, the elements that
  were popped, and the final queue.
\<close>

fun run_qops ::
  "('a \<Rightarrow> 'q \<Rightarrow> (bool \<times> 'q) res) \<Rightarrow> ('q \<Rightarrow> ('a option \<times> 'q) res) \<Rightarrow> 'a qop list \<Rightarrow> 'q \<Rightarrow>
   ('a list \<times> 'a list \<times> 'q) res" where
  "run_qops push pop [] q = Inr ([], [], q)"
| "run_qops push pop (Push x # ops) q =
     bindE (push x q) (\<lambda>(ok, q1).
     bindE (run_qops push pop ops q1) (\<lambda>(acc, out, q2).
     Inr (if ok then x # acc else acc, out, q2)))"
| "run_qops push pop (Pop # ops) q =
     bindE (pop q) (\<lambda>(xo, q1).
     bindE (run_qops push pop ops q1) (\<lambda>(acc, out, q2).
     Inr (acc, (case xo of None \<Rightarrow> out | Some x \<Rightarrow> x # out), q2)))"

locale fifo =
  fixes inv :: "'q \<Rightarrow> bool"
    and elems :: "'q \<Rightarrow> 'a list"
    and push :: "'a \<Rightarrow> 'q \<Rightarrow> (bool \<times> 'q) res"
    and pop :: "'q \<Rightarrow> ('a option \<times> 'q) res"
  assumes push_ok: "inv q \<Longrightarrow> \<exists>ok q'. push x q = Inr (ok, q') \<and> inv q' \<and>
      elems q' = (if ok then elems q @ [x] else elems q)"
    and pop_nil: "inv q \<Longrightarrow> elems q = [] \<Longrightarrow> \<exists>q'. pop q = Inr (None, q') \<and> inv q' \<and> elems q' = []"
    and pop_cons: "inv q \<Longrightarrow> elems q = x # xs \<Longrightarrow> \<exists>q'. pop q = Inr (Some x, q') \<and> inv q' \<and> elems q' = xs"
begin

lemma pop_ok:
  assumes "inv q"
  shows "\<exists>xo q'. pop q = Inr (xo, q') \<and> inv q' \<and>
           elems q = (case xo of None \<Rightarrow> [] | Some x \<Rightarrow> [x]) @ elems q'"
  using pop_nil[OF assms] pop_cons[OF assms] by (cases "elems q") fastforce+

text \<open>Nothing is lost, invented or reordered over any history of operations.\<close>

lemma history:
  "inv q \<Longrightarrow> \<exists>acc out q'. run_qops push pop ops q = Inr (acc, out, q') \<and> inv q' \<and>
     elems q @ acc = out @ elems q'"
proof (induction ops arbitrary: q)
  case Nil
  then show ?case by simp
next
  case (Cons op ops)
  show ?case
  proof (cases op)
    case (Push x)
    obtain ok q1 where 1: "push x q = Inr (ok, q1)" "inv q1" "elems q1 = (if ok then elems q @ [x] else elems q)"
      using push_ok[OF Cons.prems] by blast
    with Cons.IH[of q1] Push show ?thesis by (auto split: if_splits)
  next
    case Pop
    obtain xo q1 where 1: "pop q = Inr (xo, q1)" "inv q1"
      "elems q = (case xo of None \<Rightarrow> [] | Some x \<Rightarrow> [x]) @ elems q1"
      using pop_ok[OF Cons.prems] by blast
    with Cons.IH[of q1] Pop show ?thesis by (auto split: option.splits)
  qed
qed

end

end
