(* ===== verification/Double_Queue.thy ===== *)
theory Double_Queue
  imports Fifo_Spec
begin

text \<open>
  The double-buffered queue of \<open>core/block/DBQueue.hpp\<close> that sits behind every input gate.
  Producers fill one buffer through an atomic ticket counter whose two top bits name the
  buffer; the consumer drains the other and exchanges the two when it runs dry. This theory
  models the operations as they run without interference and shows that they implement a
  bounded first-in first-out queue; \<open>Double_Queue_Conc\<close> interleaves them.
\<close>

subsection \<open>State\<close>

text \<open>The payload type is a shared pointer: \<open>None\<close> is the null pointer a move leaves behind.\<close>

record 'a slot =
  slot_valid :: bool
  slot_payload :: "'a option"

record 'a dbq =
  q_slots :: "nat \<Rightarrow> nat \<Rightarrow> 'a slot"
  q_pointer :: u32
  q_read :: nat
  q_consumer :: nat
  q_full_slots :: nat
  q_full :: bool

definition q_MASK :: u32 where
  "q_MASK = 0 OR push_bit 31 1 OR push_bit 30 1"

definition dbq_init :: "'a dbq" where
  "dbq_init = \<lparr>q_slots = (\<lambda>_ _. \<lparr>slot_valid = False, slot_payload = None\<rparr>), q_pointer = 0,
     q_read = 0, q_consumer = 1, q_full_slots = 0, q_full = False\<rparr>"

definition exchange_queue :: "nat \<Rightarrow> nat res" where
  "exchange_queue q = bindE (guardE (q = 0 \<or> q = 1) Assert_Fail) (\<lambda>_. Inr (if q = 0 then 1 else 0))"

definition upd_slot :: "nat \<Rightarrow> nat \<Rightarrow> ('a slot \<Rightarrow> 'a slot) \<Rightarrow> 'a dbq \<Rightarrow> 'a dbq" where
  "upd_slot k i f q = q\<lparr>q_slots := (q_slots q)(k := (q_slots q k)(i := f (q_slots q k i)))\<rparr>"

definition clear_valid :: "nat \<Rightarrow> nat \<Rightarrow> 'a dbq \<Rightarrow> 'a dbq" where
  "clear_valid k n q =
     q\<lparr>q_slots := (q_slots q)(k := (\<lambda>i. if i < n then (q_slots q k i)\<lparr>slot_valid := False\<rparr> else q_slots q k i))\<rparr>"

definition swap_queues :: "nat \<Rightarrow> 'a dbq \<Rightarrow> 'a dbq res" where
  "swap_queues qlen q =
     (let q1 = clear_valid (q_consumer q) (q_full_slots q) q;
          newpoint = push_bit 30 (of_nat (q_consumer q))
      in bindE (exchange_queue (q_consumer q)) (\<lambda>c.
         let old_pointer = q_pointer q1 AND NOT q_MASK
         in Inr (q1\<lparr>q_consumer := c, q_pointer := newpoint, q_full := False,
                   q_full_slots := min (unat old_pointer) qlen, q_read := 0\<rparr>)))"

text \<open>
  Without interference the hundred looks at a slot all see the same flag: a slot that is not
  valid is skipped.
\<close>

function dbq_consume :: "'a dbq \<Rightarrow> 'a option option \<times> 'a dbq" where
  "dbq_consume q =
     (if q_read q < q_full_slots q then
        (if slot_valid (q_slots q (q_consumer q) (q_read q))
         then (Some (slot_payload (q_slots q (q_consumer q) (q_read q))),
               (upd_slot (q_consumer q) (q_read q) (slot_payload_update (\<lambda>_. None)) q)\<lparr>q_read := q_read q + 1\<rparr>)
         else dbq_consume (q\<lparr>q_read := q_read q + 1\<rparr>))
      else (None, q))"
  by pat_completeness auto
termination
  by (relation "measure (\<lambda>q. q_full_slots q - q_read q)") auto

declare dbq_consume.simps [simp del]

definition dbq_pop :: "nat \<Rightarrow> 'a dbq \<Rightarrow> ('a option option \<times> 'a dbq) res" where
  "dbq_pop qlen q =
     (case dbq_consume q of
        (Some x, q1) \<Rightarrow> Inr (Some x, q1)
      | (None, q1) \<Rightarrow> bindE (swap_queues qlen q1) (\<lambda>q2. Inr (dbq_consume q2)))"

definition dbq_push :: "nat \<Rightarrow> 'a \<Rightarrow> 'a dbq \<Rightarrow> (bool \<times> 'a dbq) res" where
  "dbq_push qlen x q =
     (if q_full q then Inr (False, q)
      else
        let cur_pointer = q_pointer q;
            q1 = q\<lparr>q_pointer := q_pointer q + 1\<rparr>;
            cur_queue = unat (drop_bit 30 (cur_pointer AND q_MASK));
            my_slot = unat (cur_pointer AND NOT q_MASK)
        in bindE (guardE (cur_queue = 0 \<or> cur_queue = 1) Assert_Fail) (\<lambda>_.
           if qlen - 1 \<le> my_slot \<and> my_slot \<noteq> qlen - 1 then Inr (False, q1)
           else
             let q2 = (if my_slot = qlen - 1 then q1\<lparr>q_full := True\<rparr> else q1)
             in Inr (True, upd_slot cur_queue my_slot (\<lambda>_. \<lparr>slot_valid = True, slot_payload = Some x\<rparr>) q2)))"

definition dbq_is_full :: "'a dbq \<Rightarrow> bool" where
  "dbq_is_full q = q_full q"

definition dbq_reset :: "nat \<Rightarrow> 'a dbq \<Rightarrow> 'a dbq" where
  "dbq_reset qlen q =
     q\<lparr>q_slots := (\<lambda>k i. if k < 2 \<and> i < qlen \<and> slot_valid (q_slots q k i)
                         then \<lparr>slot_valid = False, slot_payload = None\<rparr> else q_slots q k i),
       q_full := False, q_pointer := 0, q_consumer := 1, q_read := 0, q_full_slots := 0\<rparr>"

text \<open>The move constructor copies the counters and moves the valid slots.\<close>

definition dbq_move :: "nat \<Rightarrow> 'a dbq \<Rightarrow> 'a dbq" where
  "dbq_move qlen other =
     \<lparr>q_slots = (\<lambda>k i. if k < 2 \<and> i < qlen \<and> slot_valid (q_slots other k i)
                       then q_slots other k i else \<lparr>slot_valid = False, slot_payload = None\<rparr>),
      q_pointer = q_pointer other, q_read = q_read other, q_consumer = q_consumer other,
      q_full_slots = q_full_slots other, q_full = q_full other\<rparr>"

subsection \<open>The ticket word\<close>

definition ticket :: "nat \<Rightarrow> nat \<Rightarrow> u32" where
  "ticket k n = of_nat (k * 2 ^ 30 + n)"

lemma q_MASK_not: "NOT q_MASK = mask 30"
  by (simp add: q_MASK_def mask_eq_exp_minus_1)

lemma drop_bit_mask: "drop_bit 30 (w AND q_MASK) = drop_bit 30 w"
proof (rule bit_word_eqI)
  fix n assume "n < LENGTH(32)"
  have "w AND q_MASK = w AND NOT (mask 30)" by (metis q_MASK_not bit.double_compl)
  then show "bit (drop_bit 30 (w AND q_MASK)) n = bit (drop_bit 30 w) n"
    using \<open>n < LENGTH(32)\<close>
    by (auto simp: bit_simps dest: bit_imp_le_length)
qed

lemma unat_ticket: "k < 2 \<Longrightarrow> n < 2 ^ 30 \<Longrightarrow> unat (ticket k n) = k * 2 ^ 30 + n"
  unfolding ticket_def by (subst unat_of_nat) (simp add: take_bit_nat_eq_self)

lemma ticket_queue:
  assumes "k < 2" and "n < 2 ^ 30"
  shows "unat (drop_bit 30 (ticket k n AND q_MASK)) = k"
proof -
  have "unat (drop_bit 30 (ticket k n)) = unat (ticket k n) div 2 ^ 30"
    by (simp add: drop_bit_eq_div unat_div_distrib)
  also have "\<dots> = k" using assms by (simp only: unat_ticket) simp
  finally show ?thesis by (simp only: drop_bit_mask)
qed

lemma ticket_slot:
  assumes "k < 2" and "n < 2 ^ 30"
  shows "unat (ticket k n AND NOT q_MASK) = n"
proof -
  have "unat (take_bit 30 (ticket k n)) = unat (ticket k n) mod 2 ^ 30"
    by (simp add: take_bit_eq_mod unat_mod_distrib)
  also have "\<dots> = n" using assms by (simp only: unat_ticket) simp
  finally show ?thesis by (simp only: q_MASK_not take_bit_eq_mask)
qed

lemma other_buffer: "c < 2 \<Longrightarrow> 1 - c \<noteq> c \<and> 1 - (1 - c) = (c :: nat) \<and> 1 - c < 2"
  by presburger

lemma ticket_Suc: "ticket k n + 1 = ticket k (Suc n)"
  by (simp add: ticket_def)

lemma ticket_0: "push_bit 30 (of_nat k) = ticket k 0"
  by (simp add: ticket_def push_bit_eq_mult)

subsection \<open>Invariant and abstraction\<close>

text \<open>
  \<open>cnt\<close> tickets are out for the producer buffer; the consumer buffer holds slots
  \<open>q_read\<close> to \<open>q_full_slots\<close>; no slot outside these two ranges is marked valid in the
  producer buffer or beyond the consumer's range.
\<close>

definition holds :: "'a dbq \<Rightarrow> nat \<Rightarrow> nat \<Rightarrow> bool" where
  "holds q k i \<longleftrightarrow> slot_valid (q_slots q k i) \<and> slot_payload (q_slots q k i) \<noteq> None"

definition dbq_rep :: "nat \<Rightarrow> nat \<Rightarrow> 'a dbq \<Rightarrow> bool" where
  "dbq_rep qlen cnt q \<longleftrightarrow>
     q_consumer q < 2 \<and> cnt \<le> qlen \<and> q_pointer q = ticket (1 - q_consumer q) cnt \<and>
     (q_full q \<longleftrightarrow> cnt = qlen) \<and> q_read q \<le> q_full_slots q \<and> q_full_slots q \<le> qlen \<and>
     (\<forall>i. q_read q \<le> i \<and> i < q_full_slots q \<longrightarrow> holds q (q_consumer q) i) \<and>
     (\<forall>i < cnt. holds q (1 - q_consumer q) i)"

definition dbq_cnt :: "'a dbq \<Rightarrow> nat" where
  "dbq_cnt q = unat (q_pointer q AND NOT q_MASK)"

definition dbq_inv :: "nat \<Rightarrow> 'a dbq \<Rightarrow> bool" where
  "dbq_inv qlen q \<longleftrightarrow> 0 < qlen \<and> qlen < 2 ^ 30 \<and> dbq_rep qlen (dbq_cnt q) q"

definition slot_elems :: "'a dbq \<Rightarrow> nat \<Rightarrow> nat \<Rightarrow> nat \<Rightarrow> 'a list" where
  "slot_elems q k i j = map (\<lambda>n. the (slot_payload (q_slots q k n))) [i..<j]"

definition dbq_elems :: "'a dbq \<Rightarrow> 'a list" where
  "dbq_elems q = slot_elems q (q_consumer q) (q_read q) (q_full_slots q) @
     slot_elems q (1 - q_consumer q) 0 (dbq_cnt q)"

lemma dbq_cnt_eq: "dbq_rep qlen cnt q \<Longrightarrow> qlen < 2 ^ 30 \<Longrightarrow> dbq_cnt q = cnt"
  by (simp add: dbq_cnt_def dbq_rep_def ticket_slot)

lemma dbq_invI: "dbq_rep qlen cnt q \<Longrightarrow> 0 < qlen \<Longrightarrow> qlen < 2 ^ 30 \<Longrightarrow> dbq_inv qlen q"
  by (simp add: dbq_inv_def dbq_cnt_eq)

lemma dbq_init_rep: "0 < qlen \<Longrightarrow> dbq_rep qlen 0 dbq_init"
  by (auto simp: dbq_rep_def dbq_init_def ticket_def)

lemma dbq_init_inv: "0 < qlen \<Longrightarrow> qlen < 2 ^ 30 \<Longrightarrow> dbq_inv qlen dbq_init"
  by (rule dbq_invI[OF dbq_init_rep])

lemma dbq_init_elems: "dbq_elems dbq_init = []"
  by (simp add: dbq_elems_def dbq_init_def slot_elems_def dbq_cnt_def)

lemma slot_elems_cons: "i < j \<Longrightarrow> slot_elems q k i j = the (slot_payload (q_slots q k i)) # slot_elems q k (Suc i) j"
  by (simp add: slot_elems_def upt_conv_Cons)

lemma slot_elems_snoc: "slot_elems q k 0 (Suc n) = slot_elems q k 0 n @ [the (slot_payload (q_slots q k n))]"
  by (simp add: slot_elems_def)

lemma slot_elems_cong:
  "(\<And>n. i \<le> n \<Longrightarrow> n < j \<Longrightarrow> slot_payload (q_slots q k n) = slot_payload (q_slots q' k' n)) \<Longrightarrow>
   slot_elems q k i j = slot_elems q' k' i j"
  by (simp add: slot_elems_def)

subsection \<open>Push\<close>

lemma dbq_push_full:
  "dbq_inv qlen q \<Longrightarrow> dbq_cnt q = qlen \<Longrightarrow> dbq_push qlen x q = Inr (False, q)"
  by (auto simp: dbq_push_def dbq_inv_def dbq_rep_def)

lemma dbq_push_room:
  assumes "dbq_inv qlen q" and "dbq_cnt q < qlen"
  shows "\<exists>q'. dbq_push qlen x q = Inr (True, q') \<and> dbq_inv qlen q' \<and> dbq_elems q' = dbq_elems q @ [x] \<and>
           dbq_cnt q' = Suc (dbq_cnt q)"
proof -
  define k where "k = 1 - q_consumer q"
  define n where "n = dbq_cnt q"
  have rep: "dbq_rep qlen n q" and ql: "0 < qlen" "qlen < 2 ^ 30" using assms by (simp_all add: dbq_inv_def n_def)
  have kc: "k < 2" "k \<noteq> q_consumer q" "1 - k = q_consumer q" "q_consumer q < 2"
    using rep other_buffer[of "q_consumer q"] by (auto simp: k_def dbq_rep_def)
  have n: "n < qlen" "n < 2 ^ 30" using assms(2) ql by (simp_all add: n_def)
  have ptr: "q_pointer q = ticket k n" using rep by (simp add: dbq_rep_def k_def)
  have nf: "\<not> q_full q" using rep n by (simp add: dbq_rep_def)
  define q' where "q' = upd_slot k n (\<lambda>_. \<lparr>slot_valid = True, slot_payload = Some x\<rparr>)
     (if n = qlen - 1 then q\<lparr>q_pointer := ticket k (Suc n), q_full := True\<rparr> else q\<lparr>q_pointer := ticket k (Suc n)\<rparr>)"
  have push: "dbq_push qlen x q = Inr (True, q')"
    using nf n less_2_cases[OF kc(1)]
    unfolding dbq_push_def ptr Let_def ticket_queue[OF kc(1) n(2)] ticket_slot[OF kc(1) n(2)] ticket_Suc
    by (auto simp: q'_def ticket_Suc)
  have s: "q_consumer q' = q_consumer q" "q_read q' = q_read q" "q_full_slots q' = q_full_slots q"
    "q_slots q' (q_consumer q) = q_slots q (q_consumer q)" "q_pointer q' = ticket k (Suc n)"
    "q_slots q' k = (q_slots q k)(n := \<lparr>slot_valid = True, slot_payload = Some x\<rparr>)"
    "q_full q' \<longleftrightarrow> Suc n = qlen"
    using kc n nf by (auto simp: q'_def upd_slot_def)
  have rep': "dbq_rep qlen (Suc n) q'"
    using rep n s kc(2,4) unfolding dbq_rep_def holds_def s(1) k_def[symmetric] by (auto simp: less_Suc_eq)
  moreover from rep' ql have "dbq_cnt q' = Suc n" by (simp add: dbq_cnt_eq)
  moreover have "dbq_elems q' = dbq_elems q @ [x]"
    using s kc(2) unfolding dbq_elems_def \<open>dbq_cnt q' = Suc n\<close> n_def[symmetric] s(1-3) k_def[symmetric] slot_elems_snoc
    by (simp add: slot_elems_def)
  ultimately show ?thesis using push ql dbq_invI n_def by metis
qed

subsection \<open>Pop\<close>

lemma dbq_consume_empty: "q_read q = q_full_slots q \<Longrightarrow> dbq_consume q = (None, q)"
  by (subst dbq_consume.simps) simp

lemma dbq_consume_hit:
  assumes "dbq_inv qlen q" and "q_read q < q_full_slots q"
  shows "\<exists>x q'. dbq_consume q = (Some (Some x), q') \<and> dbq_inv qlen q' \<and> dbq_elems q = x # dbq_elems q'"
proof -
  define c where "c = q_consumer q"
  have rep: "dbq_rep qlen (dbq_cnt q) q" and ql: "0 < qlen" "qlen < 2 ^ 30" using assms by (simp_all add: dbq_inv_def)
  then have h: "holds q c (q_read q)" and c: "c < 2" "1 - c \<noteq> c" using assms(2) other_buffer[of c] by (auto simp: dbq_rep_def c_def)
  then obtain x where x: "slot_valid (q_slots q c (q_read q))" "slot_payload (q_slots q c (q_read q)) = Some x"
    by (auto simp: holds_def)
  define q' where "q' = (upd_slot c (q_read q) (slot_payload_update (\<lambda>_. None)) q)\<lparr>q_read := q_read q + 1\<rparr>"
  have s: "q_consumer q' = c" "q_read q' = Suc (q_read q)" "q_full_slots q' = q_full_slots q" "q_pointer q' = q_pointer q"
    "q_full q' = q_full q" "q_slots q' (1 - c) = q_slots q (1 - c)"
    "\<And>i. i \<noteq> q_read q \<Longrightarrow> q_slots q' c i = q_slots q c i"
    using c by (auto simp: q'_def upd_slot_def c_def)
  have "dbq_consume q = (Some (Some x), q')"
    using assms(2) x by (subst dbq_consume.simps) (simp add: q'_def c_def)
  moreover have rep': "dbq_rep qlen (dbq_cnt q) q'"
    using rep s assms(2) unfolding dbq_rep_def holds_def s(1) c_def[symmetric] by auto
  moreover have cnt: "dbq_cnt q' = dbq_cnt q" using rep' ql by (simp add: dbq_cnt_eq)
  moreover have "dbq_elems q = x # dbq_elems q'"
    using s(6,7) x(2) assms(2) unfolding dbq_elems_def cnt s(1-3) c_def[symmetric]
    by (simp add: slot_elems_cons) (simp add: slot_elems_def)
  ultimately show ?thesis using ql dbq_invI by metis
qed

lemma swap_queues_ok:
  assumes "dbq_inv qlen q" and "q_read q = q_full_slots q"
  shows "\<exists>q'. swap_queues qlen q = Inr q' \<and> dbq_inv qlen q' \<and> dbq_elems q' = dbq_elems q \<and>
           q_read q' = 0 \<and> q_full_slots q' = dbq_cnt q \<and> dbq_cnt q' = 0"
proof -
  define c where "c = q_consumer q"
  have rep: "dbq_rep qlen (dbq_cnt q) q" and ql: "0 < qlen" "qlen < 2 ^ 30" using assms by (simp_all add: dbq_inv_def)
  have c: "c < 2" "1 - c \<noteq> c" "1 - (1 - c) = c" using rep other_buffer[of c] by (auto simp: dbq_rep_def c_def)
  have le: "dbq_cnt q \<le> qlen" using rep by (simp add: dbq_rep_def)
  define q' where "q' = (clear_valid c (q_full_slots q) q)\<lparr>q_consumer := 1 - c, q_pointer := ticket c 0,
     q_full := False, q_full_slots := dbq_cnt q, q_read := 0\<rparr>"
  have ex: "exchange_queue c = Inr (1 - c)" using c by (auto simp: exchange_queue_def)
  have "swap_queues qlen q = Inr q'"
    using ex le by (simp add: swap_queues_def Let_def c_def[symmetric] q'_def ticket_0 dbq_cnt_def clear_valid_def)
  moreover have s: "q_consumer q' = 1 - c" "q_read q' = 0" "q_full_slots q' = dbq_cnt q" "q_pointer q' = ticket c 0"
    "\<not> q_full q'" "q_slots q' (1 - c) = q_slots q (1 - c)"
    using c by (auto simp: q'_def clear_valid_def)
  moreover have rep': "dbq_rep qlen 0 q'"
    using rep s c ql le unfolding dbq_rep_def holds_def s(1) c_def[symmetric] by auto
  moreover have cnt: "dbq_cnt q' = 0" using rep' ql by (simp add: dbq_cnt_eq)
  moreover have "dbq_elems q' = dbq_elems q"
    using s c assms(2) unfolding dbq_elems_def cnt s(1-3) c_def[symmetric] by (simp add: slot_elems_def)
  ultimately show ?thesis using ql dbq_invI by metis
qed

lemma dbq_pop_ok:
  assumes "dbq_inv qlen q"
  shows "\<exists>q'. dbq_pop qlen q = Inr (case dbq_elems q of [] \<Rightarrow> None | x # _ \<Rightarrow> Some (Some x), q') \<and>
           dbq_inv qlen q' \<and> dbq_elems q' = tl (dbq_elems q)"
proof (cases "q_read q < q_full_slots q")
  case True
  with dbq_consume_hit[OF assms] show ?thesis by (fastforce simp: dbq_pop_def)
next
  case False
  then have e: "q_read q = q_full_slots q" using assms by (auto simp: dbq_inv_def dbq_rep_def)
  then obtain q1 where 1: "swap_queues qlen q = Inr q1" "dbq_inv qlen q1" "dbq_elems q1 = dbq_elems q"
    "q_read q1 = 0" "q_full_slots q1 = dbq_cnt q" "dbq_cnt q1 = 0"
    using swap_queues_ok[OF assms] by blast
  show ?thesis
  proof (cases "dbq_cnt q = 0")
    case True
    then have "dbq_elems q = []" using e by (simp add: dbq_elems_def slot_elems_def)
    with True 1 e show ?thesis by (simp add: dbq_pop_def dbq_consume_empty)
  next
    case nz: False
    with dbq_consume_hit[OF 1(2)] 1(4,5) obtain x q2 where
      "dbq_consume q1 = (Some (Some x), q2)" "dbq_inv qlen q2" "dbq_elems q = x # dbq_elems q2" using 1(3) by auto
    with 1(1) e show ?thesis by (simp add: dbq_pop_def dbq_consume_empty)
  qed
qed

subsection \<open>Reset and move\<close>

lemma dbq_reset_ok:
  assumes "0 < qlen" and "qlen < 2 ^ 30"
  shows "dbq_inv qlen (dbq_reset qlen q) \<and> dbq_elems (dbq_reset qlen q) = []"
proof -
  have rep: "dbq_rep qlen 0 (dbq_reset qlen q)" using assms by (auto simp: dbq_rep_def dbq_reset_def ticket_def)
  then have "dbq_cnt (dbq_reset qlen q) = 0" using assms by (simp add: dbq_cnt_eq)
  with rep assms dbq_invI show ?thesis
    by (auto simp: dbq_elems_def slot_elems_def dbq_reset_def)
qed

lemma dbq_move_ok:
  assumes "dbq_inv qlen q"
  shows "dbq_inv qlen (dbq_move qlen q) \<and> dbq_elems (dbq_move qlen q) = dbq_elems q"
proof -
  have rep: "dbq_rep qlen (dbq_cnt q) q" using assms by (simp add: dbq_inv_def)
  have cnt: "dbq_cnt (dbq_move qlen q) = dbq_cnt q" by (simp add: dbq_cnt_def dbq_move_def)
  have same: "q_slots (dbq_move qlen q) k i = q_slots q k i" if "holds q k i" "k < 2" "i < qlen" for k i
    using that by (simp add: dbq_move_def holds_def)
  have sel: "q_consumer (dbq_move qlen q) = q_consumer q" "q_read (dbq_move qlen q) = q_read q"
    "q_full_slots (dbq_move qlen q) = q_full_slots q" "q_pointer (dbq_move qlen q) = q_pointer q"
    "q_full (dbq_move qlen q) = q_full q" by (simp_all add: dbq_move_def)
  have c: "q_slots (dbq_move qlen q) (q_consumer q) i = q_slots q (q_consumer q) i"
    if "q_read q \<le> i" "i < q_full_slots q" for i using rep that by (intro same) (auto simp: dbq_rep_def)
  moreover have p: "q_slots (dbq_move qlen q) (1 - q_consumer q) i = q_slots q (1 - q_consumer q) i"
    if "i < dbq_cnt q" for i using rep that by (intro same) (auto simp: dbq_rep_def)
  ultimately have "dbq_rep qlen (dbq_cnt q) (dbq_move qlen q)"
    using rep unfolding dbq_rep_def holds_def sel by auto
  moreover have "dbq_elems (dbq_move qlen q) = dbq_elems q"
    unfolding dbq_elems_def sel cnt using c p by (auto simp: slot_elems_def)
  ultimately show ?thesis using assms by (auto simp: dbq_inv_def cnt)
qed

subsection \<open>The queue contract\<close>

text \<open>The gate reads the payload pointer that \<open>pop\<close> moved out.\<close>

definition dbq_pop_msg :: "nat \<Rightarrow> 'a dbq \<Rightarrow> ('a option \<times> 'a dbq) res" where
  "dbq_pop_msg qlen q = bindE (dbq_pop qlen q) (\<lambda>(b, q'). Inr (Option.bind b (\<lambda>x. x), q'))"

lemma dbq_push_ok:
  assumes "dbq_inv qlen q"
  shows "\<exists>ok q'. dbq_push qlen x q = Inr (ok, q') \<and> dbq_inv qlen q' \<and>
           dbq_elems q' = (if ok then dbq_elems q @ [x] else dbq_elems q)"
proof (cases "dbq_cnt q < qlen")
  case True
  with dbq_push_room[OF assms True, of x] show ?thesis by (intro exI[of _ True]) auto
next
  case False
  then have "dbq_cnt q = qlen" using assms by (simp add: dbq_inv_def dbq_rep_def)
  with dbq_push_full[OF assms, of x] assms show ?thesis by (intro exI[of _ False]) auto
qed

interpretation dbq: fifo "dbq_inv qlen" dbq_elems "dbq_push qlen" "dbq_pop_msg qlen" for qlen
proof (unfold_locales, goal_cases)
  case (1 q x)
  then show ?case by (rule dbq_push_ok)
next
  case (2 q)
  with dbq_pop_ok[OF 2(1)] show ?case by (auto simp: dbq_pop_msg_def)
next
  case (3 q x xs)
  with dbq_pop_ok[OF 3(1)] show ?case by (auto simp: dbq_pop_msg_def)
qed



text \<open>
  a push is accepted exactly when fewer than \<open>qlen\<close> messages sit in the producer
  buffer, and the accepted message is then the last of the queue.
\<close>

theorem dbq_push_accepts:
  assumes "dbq_inv qlen q"
  shows "\<exists>q'. dbq_push qlen x q = Inr (dbq_cnt q < qlen, q') \<and>
           dbq_elems q' = (if dbq_cnt q < qlen then dbq_elems q @ [x] else dbq_elems q) \<and>
           (dbq_is_full q' \<longleftrightarrow> dbq_cnt q' = qlen)"
proof (cases "dbq_cnt q < qlen")
  case True
  with dbq_push_room[OF assms True, of x] show ?thesis
    by (auto simp: dbq_is_full_def dbq_inv_def dbq_rep_def)
next
  case False
  then have "dbq_cnt q = qlen" using assms by (simp add: dbq_inv_def dbq_rep_def)
  with dbq_push_full[OF assms] assms show ?thesis
    by (auto simp: dbq_is_full_def dbq_inv_def dbq_rep_def)
qed

theorem dbq_push_accepts_witness:
  "dbq_inv 1024 (dbq_init :: string dbq) \<and>
   (\<exists>q'. dbq_push 1024 ''m'' dbq_init = Inr (dbq_cnt (dbq_init :: string dbq) < 1024, q') \<and>
      dbq_elems q' = (if dbq_cnt (dbq_init :: string dbq) < 1024 then dbq_elems dbq_init @ [''m''] else dbq_elems dbq_init) \<and>
      (dbq_is_full q' \<longleftrightarrow> dbq_cnt q' = 1024))"
proof -
  have "dbq_inv 1024 (dbq_init :: string dbq)" by (rule dbq_init_inv) simp_all
  with dbq_push_accepts[of 1024 "dbq_init :: string dbq" "''m''"] show ?thesis by blast
qed

end
