(* ===== verification/Double_Queue_Conc.thy ===== *)
theory Double_Queue_Conc
  imports Double_Queue
begin

text \<open>
  Producers and the consumer of a \<open>DBQueue\<close> interleaved at the grain of its atomic
  operations: each load, \<open>fetch_add\<close>, store and exchange of \<open>push\<close>,
  \<open>consume\<close> and \<open>swap_queues\<close> is one action, in a sequentially consistent memory.
  A schedule is a list of actions; an action that is not enabled gives \<open>None\<close>.
\<close>

subsection \<open>Threads\<close>

datatype 'a ppc =
    P_Idle
  | P_Loaded 'a
  | P_Full nat nat 'a
  | P_Write nat nat 'a
  | P_Valid nat nat 'a
  | P_Abort

datatype cpc = C_Look | C_Clear nat | C_Store u32

text \<open>
  \<open>c_res\<close> records the messages that were given a slot, in ticket order, \<open>c_owner\<close>
  the message each slot was last given to, \<open>c_acc\<close> the messages whose push returned
  true and \<open>c_out\<close> the messages popped; the code has no such variables.
\<close>

record 'a cst =
  c_q :: "'a dbq"
  c_prod :: "nat \<Rightarrow> 'a ppc"
  c_cons :: cpc
  c_owner :: "nat \<Rightarrow> nat \<Rightarrow> 'a option"
  c_res :: "'a list"
  c_acc :: "'a list"
  c_out :: "'a option list"

datatype 'a act =
    A_Load nat 'a
  | A_Fetch nat
  | A_Full nat
  | A_Write nat
  | A_Valid nat
  | A_Take
  | A_Skip
  | A_Clear
  | A_Exchange
  | A_Store

definition conc_init :: "'a cst" where
  "conc_init = \<lparr>c_q = dbq_init, c_prod = (\<lambda>_. P_Idle), c_cons = C_Look, c_owner = (\<lambda>_ _. None),
     c_res = [], c_acc = [], c_out = []\<rparr>"

definition set_pc :: "nat \<Rightarrow> 'a ppc \<Rightarrow> 'a cst \<Rightarrow> 'a cst" where
  "set_pc p pc st = st\<lparr>c_prod := (c_prod st)(p := pc)\<rparr>"

text \<open>The producer's side: \<open>push\<close> up to its next atomic operation.\<close>

definition prod_fetch :: "nat \<Rightarrow> nat \<Rightarrow> 'a \<Rightarrow> 'a cst \<Rightarrow> 'a cst" where
  "prod_fetch qlen p x st =
     (let cur_pointer = q_pointer (c_q st);
          st1 = st\<lparr>c_q := (c_q st)\<lparr>q_pointer := cur_pointer + 1\<rparr>\<rparr>;
          cur_queue = unat (drop_bit 30 (cur_pointer AND q_MASK));
          my_slot = unat (cur_pointer AND NOT q_MASK);
          reserve = (\<lambda>s. s\<lparr>c_res := c_res s @ [x],
             c_owner := (c_owner s)(cur_queue := (c_owner s cur_queue)(my_slot := Some x))\<rparr>)
      in if \<not> (cur_queue = 0 \<or> cur_queue = 1) then set_pc p P_Abort st1
         else if qlen - 1 \<le> my_slot then
           (if my_slot = qlen - 1 then set_pc p (P_Full cur_queue my_slot x) (reserve st1)
            else set_pc p P_Idle st1)
         else set_pc p (P_Write cur_queue my_slot x) (reserve st1))"

fun prod_step :: "nat \<Rightarrow> 'a act \<Rightarrow> 'a cst \<Rightarrow> 'a cst option" where
  "prod_step qlen (A_Load p x) st =
     (if c_prod st p = P_Idle
      then Some (if q_full (c_q st) then st else set_pc p (P_Loaded x) st) else None)"
| "prod_step qlen (A_Fetch p) st =
     (case c_prod st p of P_Loaded x \<Rightarrow> Some (prod_fetch qlen p x st) | _ \<Rightarrow> None)"
| "prod_step qlen (A_Full p) st =
     (case c_prod st p of
        P_Full k i x \<Rightarrow> Some (set_pc p (P_Write k i x) (st\<lparr>c_q := (c_q st)\<lparr>q_full := True\<rparr>\<rparr>))
      | _ \<Rightarrow> None)"
| "prod_step qlen (A_Write p) st =
     (case c_prod st p of
        P_Write k i x \<Rightarrow> Some (set_pc p (P_Valid k i x)
          (st\<lparr>c_q := upd_slot k i (slot_payload_update (\<lambda>_. Some x)) (c_q st)\<rparr>))
      | _ \<Rightarrow> None)"
| "prod_step qlen (A_Valid p) st =
     (case c_prod st p of
        P_Valid k i x \<Rightarrow> Some (set_pc p P_Idle
          (st\<lparr>c_q := upd_slot k i (slot_valid_update (\<lambda>_. True)) (c_q st), c_acc := c_acc st @ [x]\<rparr>))
      | _ \<Rightarrow> None)"
| "prod_step qlen _ st = None"

text \<open>
  The consumer's side: it looks at the slot under \<open>m_read\<close>, takes a valid one, or gives
  up on one that stayed invalid for a hundred looks; at the end of its buffer it clears the
  flags one by one and exchanges the buffers.
\<close>

fun cons_step :: "nat \<Rightarrow> 'a act \<Rightarrow> 'a cst \<Rightarrow> 'a cst option" where
  "cons_step qlen A_Take st =
     (let q = c_q st in
      if c_cons st = C_Look \<and> q_read q < q_full_slots q \<and> slot_valid (q_slots q (q_consumer q) (q_read q))
      then Some (st\<lparr>c_out := c_out st @ [slot_payload (q_slots q (q_consumer q) (q_read q))],
             c_q := (upd_slot (q_consumer q) (q_read q) (slot_payload_update (\<lambda>_. None)) q)\<lparr>q_read := q_read q + 1\<rparr>\<rparr>)
      else None)"
| "cons_step qlen A_Skip st =
     (let q = c_q st in
      if c_cons st = C_Look \<and> q_read q < q_full_slots q \<and> \<not> slot_valid (q_slots q (q_consumer q) (q_read q))
      then Some (st\<lparr>c_q := q\<lparr>q_read := q_read q + 1\<rparr>\<rparr>) else None)"
| "cons_step qlen A_Clear st =
     (let q = c_q st in
      case c_cons st of
        C_Look \<Rightarrow> if q_read q < q_full_slots q then None else Some (st\<lparr>c_cons := C_Clear 0\<rparr>)
      | C_Clear i \<Rightarrow>
          if i < q_full_slots q
          then Some (st\<lparr>c_q := upd_slot (q_consumer q) i (slot_valid_update (\<lambda>_. False)) q, c_cons := C_Clear (i + 1)\<rparr>)
          else None
      | C_Store old \<Rightarrow> None)"
| "cons_step qlen A_Exchange st =
     (let q = c_q st in
      case c_cons st of
        C_Clear i \<Rightarrow>
          if i < q_full_slots q then None
          else Some (st\<lparr>c_q := q\<lparr>q_consumer := (if q_consumer q = 0 then 1 else 0),
                 q_pointer := push_bit 30 (of_nat (q_consumer q))\<rparr>, c_cons := C_Store (q_pointer q)\<rparr>)
      | _ \<Rightarrow> None)"
| "cons_step qlen A_Store st =
     (case c_cons st of
        C_Store old \<Rightarrow> Some (st\<lparr>c_q := (c_q st)\<lparr>q_full := False,
            q_full_slots := min (unat (old AND NOT q_MASK)) qlen, q_read := 0\<rparr>, c_cons := C_Look\<rparr>)
      | _ \<Rightarrow> None)"
| "cons_step qlen _ st = None"

definition conc_step :: "nat \<Rightarrow> 'a act \<Rightarrow> 'a cst \<Rightarrow> 'a cst option" where
  "conc_step qlen a st = (case prod_step qlen a st of Some st' \<Rightarrow> Some st' | None \<Rightarrow> cons_step qlen a st)"

fun conc_run :: "nat \<Rightarrow> 'a act list \<Rightarrow> 'a cst \<Rightarrow> 'a cst option" where
  "conc_run qlen [] st = Some st"
| "conc_run qlen (a # as) st = Option.bind (conc_step qlen a st) (conc_run qlen as)"

text \<open>
  The conditions under which the protocol is analysed: the consumer never gives up on a slot
  (a producer is not suspended for a hundred looks between its ticket and its last store),
  and fewer than 2^30 tickets are drawn between two exchanges, so that the count does not run
  into the bits that name the buffer.
\<close>

fun patient :: "'a act list \<Rightarrow> bool" where
  "patient [] \<longleftrightarrow> True"
| "patient (a # as) \<longleftrightarrow> a \<noteq> A_Skip \<and> patient as"

fun draws_ok :: "nat \<Rightarrow> 'a act list \<Rightarrow> bool" where
  "draws_ok n [] \<longleftrightarrow> True"
| "draws_ok n (A_Fetch p # as) \<longleftrightarrow> Suc n < 2 ^ 30 \<and> draws_ok (Suc n) as"
| "draws_ok n (A_Exchange # as) \<longleftrightarrow> draws_ok 0 as"
| "draws_ok n (a # as) \<longleftrightarrow> draws_ok n as"

subsection \<open>Invariant\<close>

text \<open>
  Between the exchange and the last store of \<open>swap_queues\<close> the consumer's range is not
  yet in its variables but in the pointer value it took.
\<close>

definition c_rd :: "'a cst \<Rightarrow> nat" where
  "c_rd st = (case c_cons st of C_Store _ \<Rightarrow> 0 | _ \<Rightarrow> q_read (c_q st))"

definition c_fl :: "nat \<Rightarrow> 'a cst \<Rightarrow> nat" where
  "c_fl qlen st = (case c_cons st of C_Store old \<Rightarrow> min (unat (old AND NOT q_MASK)) qlen | _ \<Rightarrow> q_full_slots (c_q st))"

definition live :: "nat \<Rightarrow> nat \<Rightarrow> nat \<Rightarrow> nat \<Rightarrow> nat \<Rightarrow> nat \<Rightarrow> bool" where
  "live c rd fl m k i \<longleftrightarrow> (k = c \<and> rd \<le> i \<and> i < fl) \<or> (k = 1 - c \<and> i < m)"

fun slot_of :: "'a ppc \<Rightarrow> (nat \<times> nat \<times> 'a) option" where
  "slot_of (P_Full k i x) = Some (k, i, x)"
| "slot_of (P_Write k i x) = Some (k, i, x)"
| "slot_of (P_Valid k i x) = Some (k, i, x)"
| "slot_of _ = None"

text \<open>
  A live slot is either complete, holding the message it was given to, or in the hands of
  exactly one producer.
\<close>

definition slots_inv ::
  "(nat \<Rightarrow> nat \<Rightarrow> bool) \<Rightarrow> (nat \<Rightarrow> nat \<Rightarrow> 'a slot) \<Rightarrow> (nat \<Rightarrow> nat \<Rightarrow> 'a option) \<Rightarrow> (nat \<Rightarrow> 'a ppc) \<Rightarrow> bool" where
  "slots_inv lv sl ow pr \<longleftrightarrow>
     (\<forall>p. pr p \<noteq> P_Abort) \<and>
     (\<forall>p k i x. slot_of (pr p) = Some (k, i, x) \<longrightarrow> lv k i \<and> \<not> slot_valid (sl k i) \<and> ow k i = Some x) \<and>
     (\<forall>p p' k i x x'. slot_of (pr p) = Some (k, i, x) \<and> slot_of (pr p') = Some (k, i, x') \<longrightarrow> p = p') \<and>
     (\<forall>p k i x. pr p = P_Valid k i x \<longrightarrow> slot_payload (sl k i) = Some x) \<and>
     (\<forall>k i. lv k i \<longrightarrow>
        (slot_valid (sl k i) \<and> slot_payload (sl k i) = ow k i \<and> ow k i \<noteq> None) \<or>
        (\<exists>p x. slot_of (pr p) = Some (k, i, x)))"

lemma slots_invI:
  assumes "\<And>p. pr p \<noteq> P_Abort"
    and "\<And>p k i x. slot_of (pr p) = Some (k, i, x) \<Longrightarrow> lv k i \<and> \<not> slot_valid (sl k i) \<and> ow k i = Some x"
    and "\<And>p p' k i x x'. slot_of (pr p) = Some (k, i, x) \<Longrightarrow> slot_of (pr p') = Some (k, i, x') \<Longrightarrow> p = p'"
    and "\<And>p k i x. pr p = P_Valid k i x \<Longrightarrow> slot_payload (sl k i) = Some x"
    and "\<And>k i. lv k i \<Longrightarrow> (\<And>p x. slot_of (pr p) \<noteq> Some (k, i, x)) \<Longrightarrow>
      slot_valid (sl k i) \<and> slot_payload (sl k i) = ow k i \<and> ow k i \<noteq> None"
  shows "slots_inv lv sl ow pr"
  unfolding slots_inv_def
proof (intro conjI allI impI)
  fix k i assume "lv k i"
  with assms(5)[of k i] show "slot_valid (sl k i) \<and> slot_payload (sl k i) = ow k i \<and> ow k i \<noteq> None \<or>
      (\<exists>p x. slot_of (pr p) = Some (k, i, x))" by blast
next
  fix p p' k i x x' assume "slot_of (pr p) = Some (k, i, x) \<and> slot_of (pr p') = Some (k, i, x')"
  then show "p = p'" using assms(3) by blast
qed (simp_all add: assms(1,4), (simp add: assms(2))+)

lemma slots_invD:
  assumes "slots_inv lv sl ow pr"
  shows slots_inv_abort: "pr p \<noteq> P_Abort"
    and slots_inv_hand: "slot_of (pr p) = Some (k, i, x) \<Longrightarrow> lv k i \<and> \<not> slot_valid (sl k i) \<and> ow k i = Some x"
    and slots_inv_uniq: "slot_of (pr p) = Some (k, i, x) \<Longrightarrow> slot_of (pr p') = Some (k, i, x') \<Longrightarrow> p = p'"
    and slots_inv_stored: "pr p = P_Valid k i x \<Longrightarrow> slot_payload (sl k i) = Some x"
    and slots_inv_done: "lv k i \<Longrightarrow> (\<And>p x. slot_of (pr p) \<noteq> Some (k, i, x)) \<Longrightarrow>
      slot_valid (sl k i) \<and> slot_payload (sl k i) = ow k i \<and> ow k i \<noteq> None"
  using assms unfolding slots_inv_def by blast+

text \<open>What each kind of step does to this correspondence.\<close>

lemma slots_inv_pc:
  assumes I: "slots_inv lv sl ow pr" and so: "slot_of pc = slot_of (pr p)" and "pc \<noteq> P_Abort"
    and nv: "\<And>k i x. pc \<noteq> P_Valid k i x"
  shows "slots_inv lv sl ow (pr(p := pc))"
proof -
  have same: "slot_of ((pr(p := pc)) p') = slot_of (pr p')" for p' using so by simp
  show ?thesis
  proof (rule slots_invI, unfold same)
    fix p' k i x assume "(pr(p := pc)) p' = P_Valid k i x"
    with nv slots_inv_stored[OF I] show "slot_payload (sl k i) = Some x" by (metis fun_upd_apply)
  qed (use assms(3) slots_invD[OF I] in auto)
qed

lemma slots_inv_reserve:
  assumes I: "slots_inv lv sl ow pr" and none: "slot_of (pr p) = None" and so: "slot_of pc = Some (k, i, x)"
    and new: "\<not> lv k i" "\<not> slot_valid (sl k i)" and pc: "\<And>k i x. pc \<noteq> P_Valid k i x"
    and lv': "\<And>k' i'. lv' k' i' \<longleftrightarrow> lv k' i' \<or> (k' = k \<and> i' = i)"
  shows "slots_inv lv' sl (ow(k := (ow k)(i := Some x))) (pr(p := pc))"
proof -
  have ne: "pc \<noteq> P_Abort" using so by auto
  have fresh: "slot_of (pr p') \<noteq> Some (k, i, x')" for p' x' using slots_inv_hand[OF I] new by blast
  have prev: "(k', i') \<noteq> (k, i)" "slot_of (pr p') \<noteq> Some (k', i', x')"
    if "\<And>p' x'. slot_of ((pr(p := pc)) p') \<noteq> Some (k', i', x')" for k' i' p' x'
    using that[of p x] that[of p' x'] so none by (auto split: if_splits)
  show ?thesis
  proof (rule slots_invI)
    fix k' i' assume "lv' k' i'" and n: "\<And>p' x'. slot_of ((pr(p := pc)) p') \<noteq> Some (k', i', x')"
    with lv' prev(1)[OF n] slots_inv_done[OF I _ prev(2)[OF n]]
    show "slot_valid (sl k' i') \<and> slot_payload (sl k' i') = (ow(k := (ow k)(i := Some x))) k' i' \<and>
        (ow(k := (ow k)(i := Some x))) k' i' \<noteq> None" by auto
  next
    fix p' k' i' x' assume "(pr(p := pc)) p' = P_Valid k' i' x'"
    with pc slots_inv_stored[OF I] show "slot_payload (sl k' i') = Some x'" by (metis fun_upd_apply)
  qed (use slots_invD[OF I] ne fresh so new lv' in \<open>auto split: if_splits\<close>)
qed

lemma slots_inv_payload:
  assumes I: "slots_inv lv sl ow pr" and so: "slot_of (pr p) = Some (k, i, x)"
    and upd: "\<And>k' i'. (k', i') \<noteq> (k, i) \<Longrightarrow> sl' k' i' = sl k' i'"
      "slot_valid (sl' k i) = slot_valid (sl k i)" "slot_payload (sl' k i) = Some x"
  shows "slots_inv lv sl' ow (pr(p := P_Valid k i x))"
proof -
  have same: "slot_of ((pr(p := P_Valid k i x)) p') = slot_of (pr p')" for p' using so by simp
  have sl: "slot_valid (sl' k' i') = slot_valid (sl k' i')" for k' i'
    using upd(1)[of k' i'] upd(2) by (cases "(k', i') = (k, i)") auto
  have done_eq: "sl' k' i' = sl k' i'" if "\<And>p' x'. slot_of (pr p') \<noteq> Some (k', i', x')" for k' i'
    using upd(1)[of k' i'] so that by blast
  have other: "sl' k' i' = sl k' i'" if "pr p' = P_Valid k' i' x'" "p' \<noteq> p" for p' k' i' x'
    using upd(1)[of k' i'] slots_inv_uniq[OF I so, of p' x'] that by auto
  show ?thesis
  proof (rule slots_invI, unfold same sl)
    fix k' i' assume "lv k' i'" and n: "\<And>p' x'. slot_of (pr p') \<noteq> Some (k', i', x')"
    then show "slot_valid (sl k' i') \<and> slot_payload (sl' k' i') = ow k' i' \<and> ow k' i' \<noteq> None"
      using slots_inv_done[OF I _ n] done_eq[OF n] by simp
  qed (use slots_invD[OF I] upd(3) other in \<open>auto split: if_splits\<close>)
qed

lemma slots_inv_valid:
  assumes I: "slots_inv lv sl ow pr" and pc: "pr p = P_Valid k i x"
    and upd: "\<And>k' i'. (k', i') \<noteq> (k, i) \<Longrightarrow> sl' k' i' = sl k' i'"
      "slot_valid (sl' k i)" "slot_payload (sl' k i) = slot_payload (sl k i)"
  shows "slots_inv lv sl' ow (pr(p := P_Idle))"
proof -
  have so: "slot_of (pr p) = Some (k, i, x)" using pc by simp
  have own: "ow k i = Some x" "slot_payload (sl k i) = Some x"
    using slots_inv_hand[OF I so] slots_inv_stored[OF I pc] by auto
  have other: "sl' k' i' = sl k' i'" if "slot_of (pr p') = Some (k', i', x')" "p' \<noteq> p" for p' k' i' x'
    using upd(1)[of k' i'] slots_inv_uniq[OF I so, of p' x'] that by auto
  show ?thesis
  proof (rule slots_invI)
    fix k' i' assume l: "lv k' i'" and n: "\<And>p' x'. slot_of ((pr(p := P_Idle)) p') \<noteq> Some (k', i', x')"
    show "slot_valid (sl' k' i') \<and> slot_payload (sl' k' i') = ow k' i' \<and> ow k' i' \<noteq> None"
    proof (cases "(k', i') = (k, i)")
      case True
      with upd(2,3) own show ?thesis by simp
    next
      case False
      with so n have "slot_of (pr p') \<noteq> Some (k', i', x')" for p' x'
        by (metis fun_upd_other option.inject prod.inject)
      with slots_inv_done[OF I l] upd(1)[OF False] show ?thesis by simp
    qed
  next
    fix p' k' i' x' assume a: "slot_of ((pr(p := P_Idle)) p') = Some (k', i', x')"
    then have "p' \<noteq> p" by auto
    with a other[of p' k' i' x'] slots_inv_hand[OF I, of p' k' i' x']
    show "lv k' i' \<and> \<not> slot_valid (sl' k' i') \<and> ow k' i' = Some x'" by simp
  next
    fix p' k' i' x' assume a: "(pr(p := P_Idle)) p' = P_Valid k' i' x'"
    then have "p' \<noteq> p" by auto
    with a other[of p' k' i' x'] slots_inv_stored[OF I, of p' k' i' x']
    show "slot_payload (sl' k' i') = Some x'" by simp
  qed (use slots_invD[OF I] in \<open>auto split: if_splits\<close>)
qed

lemma slots_inv_shrink:
  assumes I: "slots_inv lv sl ow pr" and sub: "\<And>k i. lv' k i \<Longrightarrow> lv k i"
    and gone: "\<And>k i. lv k i \<Longrightarrow> \<not> lv' k i \<Longrightarrow> slot_valid (sl k i)"
    and same: "\<And>k i. lv' k i \<Longrightarrow> sl' k i = sl k i"
  shows "slots_inv lv' sl' ow pr"
proof -
  have h: "lv' k i \<and> sl' k i = sl k i" if "slot_of (pr p) = Some (k, i, x)" for p k i x
    using slots_inv_hand[OF I that] gone same by blast
  show ?thesis
  proof (rule slots_invI)
    fix k i assume "lv' k i" and "\<And>p x. slot_of (pr p) \<noteq> Some (k, i, x)"
    with slots_inv_done[OF I sub] same show "slot_valid (sl' k i) \<and> slot_payload (sl' k i) = ow k i \<and> ow k i \<noteq> None"
      by simp
  next
    fix p k i x assume a: "pr p = P_Valid k i x"
    then have "slot_of (pr p) = Some (k, i, x)" by simp
    with h slots_inv_stored[OF I a] show "slot_payload (sl' k i) = Some x" by simp
  qed (use slots_invD[OF I] h in auto)
qed

definition in_flight :: "(nat \<Rightarrow> nat \<Rightarrow> bool) \<Rightarrow> (nat \<Rightarrow> nat \<Rightarrow> 'a slot) \<Rightarrow> (nat \<times> nat) set" where
  "in_flight lv sl = {(k, i). lv k i \<and> \<not> slot_valid (sl k i)}"

definition flags_inv :: "nat \<Rightarrow> nat \<Rightarrow> nat \<Rightarrow> cpc \<Rightarrow> nat \<Rightarrow> (nat \<Rightarrow> nat \<Rightarrow> 'a slot) \<Rightarrow> bool" where
  "flags_inv c rd fl pc m sl \<longleftrightarrow>
     (\<forall>i. slot_valid (sl (1 - c) i) \<longrightarrow> i < m) \<and>
     (\<forall>i. slot_valid (sl c i) \<longrightarrow> i < fl) \<and>
     (\<forall>j. pc = C_Clear j \<longrightarrow> rd = fl \<and> (\<forall>i. slot_valid (sl c i) \<longrightarrow> j \<le> i))"

definition conc_inv :: "nat \<Rightarrow> nat \<Rightarrow> 'a cst \<Rightarrow> bool" where
  "conc_inv qlen n st \<longleftrightarrow>
     (let q = c_q st; c = q_consumer q; rd = c_rd st; fl = c_fl qlen st; m = min n qlen;
          lv = live c rd fl m
      in 0 < qlen \<and> c < 2 \<and> n < 2 ^ 30 \<and> q_pointer q = ticket (1 - c) n \<and> rd \<le> fl \<and> fl \<le> qlen \<and>
         flags_inv c rd fl (c_cons st) m (q_slots q) \<and>
         slots_inv lv (q_slots q) (c_owner st) (c_prod st) \<and>
         map Some (c_res st) = c_out st @ map (c_owner st c) [rd..<fl] @ map (c_owner st (1 - c)) [0..<m] \<and>
         mset (c_res st) = mset (c_acc st) +
           image_mset (\<lambda>(k, i). the (c_owner st k i)) (mset_set (in_flight lv (q_slots q))))"

lemma finite_in_flight: "finite (in_flight (live c rd fl m) sl)"
proof (rule finite_subset)
  show "in_flight (live c rd fl m) sl \<subseteq> {c, 1 - c} \<times> {..< fl + m}"
    by (auto simp: in_flight_def live_def)
qed simp

lemma conc_init_inv: "0 < qlen \<Longrightarrow> conc_inv qlen 0 conc_init"
  by (auto simp: conc_inv_def conc_init_def dbq_init_def flags_inv_def slots_inv_def c_rd_def c_fl_def
      ticket_def live_def in_flight_def)

subsection \<open>Every action keeps the invariant\<close>

lemmas conc_sel = c_rd_def c_fl_def set_pc_def upd_slot_def

lemma conc_view [simp]:
  "c_rd (set_pc p pc st) = c_rd st" "c_fl qlen (set_pc p pc st) = c_fl qlen st"
  "c_q (set_pc p pc st) = c_q st" "c_prod (set_pc p pc st) = (c_prod st)(p := pc)"
  "c_owner (set_pc p pc st) = c_owner st" "c_res (set_pc p pc st) = c_res st"
  "c_acc (set_pc p pc st) = c_acc st" "c_out (set_pc p pc st) = c_out st" "c_cons (set_pc p pc st) = c_cons st"
  "c_rd (st\<lparr>c_res := r\<rparr>) = c_rd st" "c_fl qlen (st\<lparr>c_res := r\<rparr>) = c_fl qlen st"
  "c_rd (st\<lparr>c_owner := w\<rparr>) = c_rd st" "c_fl qlen (st\<lparr>c_owner := w\<rparr>) = c_fl qlen st"
  "c_rd (st\<lparr>c_acc := r\<rparr>) = c_rd st" "c_fl qlen (st\<lparr>c_acc := r\<rparr>) = c_fl qlen st"
  "c_rd (st\<lparr>c_out := t\<rparr>) = c_rd st" "c_fl qlen (st\<lparr>c_out := t\<rparr>) = c_fl qlen st"
  by (auto simp: conc_sel split: cpc.split)

lemma conc_view_q [simp]:
  "q_read q = q_read (c_q st) \<Longrightarrow> c_rd (st\<lparr>c_q := q\<rparr>) = c_rd st"
  "q_full_slots q = q_full_slots (c_q st) \<Longrightarrow> c_fl qlen (st\<lparr>c_q := q\<rparr>) = c_fl qlen st"
  by (auto simp: conc_sel split: cpc.split)

text \<open>A step of a producer that does not touch the slots, the pointer or its reservation.\<close>

lemma conc_inv_pc:
  assumes "conc_inv qlen n st" and "slot_of pc = slot_of (c_prod st p)" and "pc \<noteq> P_Abort"
    and "\<And>k i x. pc \<noteq> P_Valid k i x"
  shows "conc_inv qlen n (set_pc p pc (st\<lparr>c_q := (c_q st)\<lparr>q_full := b\<rparr>\<rparr>))"
  using assms(1) slots_inv_pc[where pr = "c_prod st" and p = p and pc = pc, OF _ assms(2-4)] by (auto simp: conc_inv_def Let_def)

lemma live_Suc: "c < 2 \<Longrightarrow> live c rd fl (Suc m) k i \<longleftrightarrow> live c rd fl m k i \<or> (k = 1 - c \<and> i = m)"
  by (auto simp: live_def)

lemma in_flight_add:
  assumes "\<And>k' i'. lv' k' i' \<longleftrightarrow> lv k' i' \<or> (k' = k \<and> i' = i)" and "\<not> slot_valid (sl k i)"
  shows "in_flight lv' sl = insert (k, i) (in_flight lv sl)"
  using assms by (auto simp: in_flight_def)

lemma conc_inv_fetch:
  assumes inv: "conc_inv qlen n st" and pc: "c_prod st p = P_Loaded x" and room: "Suc n < 2 ^ 30"
  shows "conc_inv qlen (Suc n) (prod_fetch qlen p x st)"
proof -
  define c where "c = q_consumer (c_q st)"
  let ?q = "c_q st" and ?rd = "c_rd st" and ?fl = "c_fl qlen st"
  have c: "c < 2" "1 - c < 2" "1 - c \<noteq> c" and n: "n < 2 ^ 30" and ptr: "q_pointer ?q = ticket (1 - c) n" and ql: "0 < qlen"
    using inv other_buffer[of c] by (auto simp: conc_inv_def Let_def c_def)
  have fetch: "prod_fetch qlen p x st =
     (if n < qlen then set_pc p (if n = qlen - 1 then P_Full (1 - c) n x else P_Write (1 - c) n x)
        (st\<lparr>c_q := ?q\<lparr>q_pointer := ticket (1 - c) (Suc n)\<rparr>, c_res := c_res st @ [x],
            c_owner := (c_owner st)(1 - c := (c_owner st (1 - c))(n := Some x))\<rparr>)
      else set_pc p P_Idle (st\<lparr>c_q := ?q\<lparr>q_pointer := ticket (1 - c) (Suc n)\<rparr>\<rparr>))"
    unfolding prod_fetch_def ptr Let_def ticket_queue[OF c(2) n] ticket_slot[OF c(2) n] ticket_Suc
    using less_2_cases[OF c(2)] ql by auto
  show ?thesis
  proof (cases "n < qlen")
    case False
    then show ?thesis using inv room slots_inv_pc[of _ _ _ "c_prod st" P_Idle p] pc unfolding fetch
      by (auto simp: conc_inv_def Let_def c_def)
  next
    case True
    define st' where "st' = prod_fetch qlen p x st"
    define pc' where "pc' = (if n = qlen - 1 then P_Full (1 - c) n x else P_Write (1 - c) n x)"
    have s: "q_consumer (c_q st') = c" "c_rd st' = ?rd" "c_fl qlen st' = ?fl" "q_slots (c_q st') = q_slots ?q"
      "c_prod st' = (c_prod st)(p := pc')" "c_owner st' = (c_owner st)(1 - c := (c_owner st (1 - c))(n := Some x))"
      "c_res st' = c_res st @ [x]" "c_acc st' = c_acc st" "c_out st' = c_out st" "c_cons st' = c_cons st"
      "q_pointer (c_q st') = ticket (1 - c) (Suc n)"
      using True unfolding st'_def fetch by (simp_all add: c_def pc'_def)
    have m: "min n qlen = n" "min (Suc n) qlen = Suc n" using True by auto
    let ?lv = "live c ?rd ?fl n" and ?lv' = "live c ?rd ?fl (Suc n)"
    have i: "flags_inv c ?rd ?fl (c_cons st) n (q_slots ?q)" "slots_inv ?lv (q_slots ?q) (c_owner st) (c_prod st)"
      "map Some (c_res st) = c_out st @ map (c_owner st c) [?rd..<?fl] @ map (c_owner st (1 - c)) [0..<n]"
      "mset (c_res st) = mset (c_acc st) + image_mset (\<lambda>(k, i). the (c_owner st k i)) (mset_set (in_flight ?lv (q_slots ?q)))"
      "?rd \<le> ?fl" "?fl \<le> qlen"
      using inv m by (simp_all add: conc_inv_def Let_def c_def)
    have new: "\<not> ?lv (1 - c) n" "\<not> slot_valid (q_slots ?q (1 - c) n)"
      using i(1) c by (auto simp: live_def flags_inv_def)
    have sl: "slots_inv ?lv' (q_slots ?q) (c_owner st') (c_prod st')"
      unfolding s by (rule slots_inv_reserve[OF i(2) _ _ new _ live_Suc[OF c(1)]]) (simp_all add: pc pc'_def)
    have fl: "flags_inv c ?rd ?fl (c_cons st) (Suc n) (q_slots ?q)" using i(1) by (auto simp: flags_inv_def less_SucI)
    have infl: "in_flight ?lv' (q_slots ?q) = insert (1 - c, n) (in_flight ?lv (q_slots ?q))"
      by (rule in_flight_add) (use new(2) live_Suc[OF c(1)] in auto)
    have fresh: "(1 - c, n) \<notin> in_flight ?lv (q_slots ?q)" using new(1) by (simp add: in_flight_def)
    have "image_mset (\<lambda>(k, i). the (c_owner st' k i)) (mset_set (in_flight ?lv' (q_slots ?q))) =
        add_mset x (image_mset (\<lambda>(k, i). the (c_owner st k i)) (mset_set (in_flight ?lv (q_slots ?q))))"
      unfolding infl using fresh by (auto simp: s finite_in_flight intro!: image_mset_cong)
    then have ms: "mset (c_res st') = mset (c_acc st') +
        image_mset (\<lambda>(k, i). the (c_owner st' k i)) (mset_set (in_flight ?lv' (q_slots ?q)))"
      using i(4) by (simp add: s)
    have lst: "map Some (c_res st') = c_out st' @ map (c_owner st' c) [?rd..<?fl] @ map (c_owner st' (1 - c)) [0..<Suc n]"
      using i(3) c by (simp add: s)
    show ?thesis
      using ql c(1) room i(5,6) sl fl ms lst unfolding st'_def[symmetric] conc_inv_def Let_def
      by (simp only: s m)
  qed
qed

lemma conc_inv_write:
  assumes inv: "conc_inv qlen n st" and pc: "c_prod st p = P_Write k i x"
  shows "conc_inv qlen n (set_pc p (P_Valid k i x) (st\<lparr>c_q := upd_slot k i (slot_payload_update (\<lambda>_. Some x)) (c_q st)\<rparr>))"
proof -
  let ?sl = "q_slots (c_q st)" and ?sl' = "q_slots (upd_slot k i (slot_payload_update (\<lambda>_. Some x)) (c_q st))"
  have so: "slot_of (c_prod st p) = Some (k, i, x)" using pc by simp
  have v: "slot_valid (?sl' k' i') = slot_valid (?sl k' i')" for k' i' by (simp add: upd_slot_def)
  have "slots_inv lv ?sl' ow ((c_prod st)(p := P_Valid k i x))" if "slots_inv lv ?sl ow (c_prod st)" for lv ow
    by (rule slots_inv_payload[OF that so]) (auto simp: upd_slot_def)
  moreover have "flags_inv c rd fl cp m ?sl' = flags_inv c rd fl cp m ?sl" for c rd fl cp m
    by (simp add: flags_inv_def v)
  moreover have "in_flight lv ?sl' = in_flight lv ?sl" for lv by (simp add: in_flight_def v)
  moreover have "q_consumer (upd_slot k i (slot_payload_update (\<lambda>_. Some x)) (c_q st)) = q_consumer (c_q st)"
    "q_pointer (upd_slot k i (slot_payload_update (\<lambda>_. Some x)) (c_q st)) = q_pointer (c_q st)"
    "q_read (upd_slot k i (slot_payload_update (\<lambda>_. Some x)) (c_q st)) = q_read (c_q st)"
    "q_full_slots (upd_slot k i (slot_payload_update (\<lambda>_. Some x)) (c_q st)) = q_full_slots (c_q st)"
    by (simp_all add: upd_slot_def)
  ultimately show ?thesis using inv by (auto simp: conc_inv_def Let_def)
qed

lemma conc_inv_valid:
  assumes inv: "conc_inv qlen n st" and pc: "c_prod st p = P_Valid k i x"
  shows "conc_inv qlen n (set_pc p P_Idle
    (st\<lparr>c_q := upd_slot k i (slot_valid_update (\<lambda>_. True)) (c_q st), c_acc := c_acc st @ [x]\<rparr>))"
proof -
  define c where "c = q_consumer (c_q st)"
  define q' where "q' = upd_slot k i (slot_valid_update (\<lambda>_. True)) (c_q st)"
  let ?sl = "q_slots (c_q st)" and ?lv = "live c (c_rd st) (c_fl qlen st) (min n qlen)"
  have I: "slots_inv ?lv ?sl (c_owner st) (c_prod st)" and fi: "flags_inv c (c_rd st) (c_fl qlen st) (c_cons st) (min n qlen) ?sl"
    using inv by (simp_all add: conc_inv_def Let_def c_def)
  have oc: "1 - c \<noteq> c" using inv other_buffer[of c] by (simp add: conc_inv_def Let_def c_def)
  have "slot_of (c_prod st p) = Some (k, i, x)" using pc by simp
  then have h: "?lv k i" "\<not> slot_valid (?sl k i)" "c_owner st k i = Some x" using slots_inv_hand[OF I] by auto
  have q': "q_consumer q' = c" "q_pointer q' = q_pointer (c_q st)" "q_read q' = q_read (c_q st)"
    "q_full_slots q' = q_full_slots (c_q st)" "\<And>k' i'. slot_valid (q_slots q' k' i') \<longleftrightarrow> slot_valid (?sl k' i') \<or> (k' = k \<and> i' = i)"
    by (auto simp: q'_def upd_slot_def c_def)
  have "slots_inv ?lv (q_slots q') (c_owner st) ((c_prod st)(p := P_Idle))"
    by (rule slots_inv_valid[OF I pc]) (auto simp: q'_def upd_slot_def)
  moreover have "flags_inv c (c_rd st) (c_fl qlen st) (c_cons st) (min n qlen) (q_slots q')"
    using fi h(1) oc unfolding flags_inv_def q'(5) live_def by fastforce
  moreover have "in_flight ?lv ?sl = insert (k, i) (in_flight ?lv (q_slots q'))" "(k, i) \<notin> in_flight ?lv (q_slots q')"
    using h by (auto simp: in_flight_def q'(5))
  ultimately show ?thesis using inv h(3) unfolding q'_def[symmetric]
    by (simp add: conc_inv_def Let_def q' c_def[symmetric] finite_in_flight)
qed

lemma conc_inv_take:
  assumes inv: "conc_inv qlen n st" and look: "c_cons st = C_Look" and q: "q = c_q st"
    and nonempty: "q_read q < q_full_slots q" and valid: "slot_valid (q_slots q (q_consumer q) (q_read q))"
  shows "conc_inv qlen n (st\<lparr>c_out := c_out st @ [slot_payload (q_slots q (q_consumer q) (q_read q))],
    c_q := (upd_slot (q_consumer q) (q_read q) (slot_payload_update (\<lambda>_. None)) q)\<lparr>q_read := q_read q + 1\<rparr>\<rparr>)"
proof -
  define c r f where "c = q_consumer q" and "r = q_read q" and "f = q_full_slots q"
  define q' where "q' = (upd_slot c r (slot_payload_update (\<lambda>_. None)) q)\<lparr>q_read := r + 1\<rparr>"
  let ?lv = "live c r f (min n qlen)" and ?lv' = "live c (Suc r) f (min n qlen)"
  have v: "c_rd st = r" "c_fl qlen st = f" using look q by (simp_all add: c_rd_def c_fl_def r_def f_def)
  have I: "slots_inv ?lv (q_slots q) (c_owner st) (c_prod st)"
    and lst: "map Some (c_res st) = c_out st @ map (c_owner st c) [r..<f] @ map (c_owner st (1 - c)) [0..<min n qlen]"
    and fi: "flags_inv c r f C_Look (min n qlen) (q_slots q)"
    using inv look by (simp_all add: conc_inv_def Let_def v q[symmetric] c_def)
  have oc: "1 - c \<noteq> c" using inv other_buffer[of c] by (simp add: conc_inv_def Let_def c_def q)
  have rf: "r < f" and l: "?lv c r" using nonempty by (simp_all add: live_def r_def f_def)
  have vr: "slot_valid (q_slots q c r)" using valid by (simp add: c_def r_def)
  then have "slot_of (c_prod st p) \<noteq> Some (c, r, x)" for p x using slots_inv_hand[OF I] by blast
  then have own: "slot_payload (q_slots q c r) = c_owner st c r" using slots_inv_done[OF I l] by blast
  have lv': "?lv' k i \<longleftrightarrow> ?lv k i \<and> (k, i) \<noteq> (c, r)" for k i using oc rf by (auto simp: live_def)
  have q': "q_consumer q' = c" "q_pointer q' = q_pointer q" "q_full_slots q' = f" "q_read q' = Suc r"
    "\<And>k i. slot_valid (q_slots q' k i) = slot_valid (q_slots q k i)"
    "\<And>k i. (k, i) \<noteq> (c, r) \<Longrightarrow> q_slots q' k i = q_slots q k i"
    by (auto simp: q'_def upd_slot_def c_def f_def)
  have S: "slots_inv ?lv' (q_slots q') (c_owner st) (c_prod st)"
    by (rule slots_inv_shrink[OF I]) (use lv' vr q'(6) in auto)
  have F: "flags_inv c (Suc r) f C_Look (min n qlen) (q_slots q')" using fi by (simp add: flags_inv_def q'(5))
  have fl: "in_flight ?lv' (q_slots q') = in_flight ?lv (q_slots q)" using vr by (auto simp: in_flight_def q'(5) lv')
  have L: "map Some (c_res st) = (c_out st @ [slot_payload (q_slots q c r)]) @ map (c_owner st c) [Suc r..<f] @
      map (c_owner st (1 - c)) [0..<min n qlen]"
    using lst rf own by (simp add: upt_conv_Cons)
  define st' where "st' = st\<lparr>c_out := c_out st @ [slot_payload (q_slots q c r)], c_q := q'\<rparr>"
  have v': "c_rd st' = Suc r" "c_fl qlen st' = f" using look q' by (simp_all add: c_rd_def c_fl_def st'_def)
  have "conc_inv qlen n st'" using inv S F L fl rf look
    unfolding conc_inv_def Let_def v v' by (simp add: st'_def q' q[symmetric] c_def[symmetric])
  then show ?thesis by (simp add: st'_def q'_def c_def r_def)
qed

lemma conc_inv_clear:
  assumes inv: "conc_inv qlen n st" and pc: "c_cons st = C_Clear i" and q: "q = c_q st" and i: "i < q_full_slots q"
  shows "conc_inv qlen n (st\<lparr>c_q := upd_slot (q_consumer q) i (slot_valid_update (\<lambda>_. False)) q, c_cons := C_Clear (i + 1)\<rparr>)"
proof -
  define c r where "c = q_consumer q" and "r = q_read q"
  define q' where "q' = upd_slot c i (slot_valid_update (\<lambda>_. False)) q"
  have v: "c_rd st = r" "c_fl qlen st = q_full_slots q" using pc q by (simp_all add: c_rd_def c_fl_def r_def)
  have fi: "flags_inv c r (q_full_slots q) (C_Clear i) (min n qlen) (q_slots q)"
    using inv pc by (simp add: conc_inv_def Let_def v q[symmetric] c_def)
  then have rf: "r = q_full_slots q" by (simp add: flags_inv_def)
  then have I: "slots_inv (live c r r (min n qlen)) (q_slots q) (c_owner st) (c_prod st)"
    using inv by (simp add: conc_inv_def Let_def v q[symmetric] c_def)
  have oc: "1 - c \<noteq> c" using inv other_buffer[of c] by (simp add: conc_inv_def Let_def c_def q)
  have q': "q_consumer q' = c" "q_pointer q' = q_pointer q" "q_full_slots q' = r" "q_read q' = r"
    "q_slots q' (1 - c) = q_slots q (1 - c)"
    "\<And>j. slot_valid (q_slots q' c j) \<longleftrightarrow> slot_valid (q_slots q c j) \<and> j \<noteq> i"
    using oc rf by (auto simp: q'_def upd_slot_def c_def r_def)
  have S: "slots_inv (live c r r (min n qlen)) (q_slots q') (c_owner st) (c_prod st)"
    by (rule slots_inv_shrink[OF I]) (auto simp: live_def q'(5)[simplified])
  have F: "flags_inv c r r (C_Clear (Suc i)) (min n qlen) (q_slots q')"
    using fi unfolding flags_inv_def q' rf[symmetric] by (auto simp: Suc_le_eq le_neq_implies_less)
  have fl: "in_flight (live c r r (min n qlen)) (q_slots q') = in_flight (live c r r (min n qlen)) (q_slots q)"
    by (auto simp: in_flight_def live_def q'(5)[simplified])
  define st' where "st' = st\<lparr>c_q := q', c_cons := C_Clear (Suc i)\<rparr>"
  have v': "c_rd st' = r" "c_fl qlen st' = r" using q' by (simp_all add: c_rd_def c_fl_def st'_def)
  have "conc_inv qlen n st'" using inv S F fl
    unfolding conc_inv_def Let_def v v' by (simp add: st'_def q' q[symmetric] c_def[symmetric] rf[symmetric])
  then show ?thesis by (simp add: st'_def q'_def c_def)
qed

lemma conc_inv_exchange:
  assumes inv: "conc_inv qlen n st" and pc: "c_cons st = C_Clear i" and q: "q = c_q st" and i: "\<not> i < q_full_slots q"
  shows "conc_inv qlen 0 (st\<lparr>c_q := q\<lparr>q_consumer := (if q_consumer q = 0 then 1 else 0),
    q_pointer := push_bit 30 (of_nat (q_consumer q))\<rparr>, c_cons := C_Store (q_pointer q)\<rparr>)"
proof -
  define c r m where "c = q_consumer q" and "r = q_read q" and "m = min n qlen"
  define st' where "st' = st\<lparr>c_q := q\<lparr>q_consumer := 1 - c, q_pointer := ticket c 0\<rparr>, c_cons := C_Store (q_pointer q)\<rparr>"
  have v: "c_rd st = r" "c_fl qlen st = q_full_slots q" using pc q by (simp_all add: c_rd_def c_fl_def r_def)
  have fi: "flags_inv c r (q_full_slots q) (C_Clear i) m (q_slots q)"
    using inv pc by (simp add: conc_inv_def Let_def v q[symmetric] c_def m_def)
  then have rf: "q_full_slots q = r" by (simp add: flags_inv_def)
  have c: "c < 2" "1 - c < 2" "1 - (1 - c) = c" "1 - c \<noteq> c"
    and n: "n < 2 ^ 30" "q_pointer q = ticket (1 - c) n" "0 < qlen"
    using inv other_buffer[of c] by (auto simp: conc_inv_def Let_def c_def q)
  have v': "c_rd st' = 0" "c_fl qlen st' = m"
    using ticket_slot[OF c(2) n(1)] by (simp_all add: c_rd_def c_fl_def st'_def m_def n(2))
  have lv: "live (1 - c) 0 m 0 = live c r r m" using c(3) by (auto simp: live_def fun_eq_iff)
  have none: "\<not> slot_valid (q_slots q c j)" for j
  proof
    assume "slot_valid (q_slots q c j)"
    with fi have "i \<le> j" "j < q_full_slots q" by (auto simp: flags_inv_def)
    with i show False by simp
  qed
  have F: "flags_inv (1 - c) 0 m (C_Store (q_pointer q)) 0 (q_slots q)"
    using fi none unfolding flags_inv_def c(3) by auto
  have "conc_inv qlen 0 st'"
    using inv F n(3) c(2) min.cobounded2[of n qlen, folded m_def] unfolding conc_inv_def Let_def v v'
    by (simp add: st'_def q[symmetric] c_def[symmetric] rf lv[simplified] m_def[symmetric] c(3)[simplified])
  moreover have "(if c = 0 then 1 else 0) = 1 - c" using c(1) by auto
  ultimately show ?thesis by (simp add: st'_def c_def[symmetric] ticket_0)
qed

lemma conc_inv_store:
  assumes inv: "conc_inv qlen n st" and pc: "c_cons st = C_Store old"
  shows "conc_inv qlen n (st\<lparr>c_q := (c_q st)\<lparr>q_full := False,
    q_full_slots := min (unat (old AND NOT q_MASK)) qlen, q_read := 0\<rparr>, c_cons := C_Look\<rparr>)"
  using inv unfolding conc_inv_def Let_def by (simp add: c_rd_def c_fl_def pc flags_inv_def)

lemma conc_inv_start:
  assumes inv: "conc_inv qlen n st" and pc: "c_cons st = C_Look" and "\<not> q_read (c_q st) < q_full_slots (c_q st)"
  shows "conc_inv qlen n (st\<lparr>c_cons := C_Clear 0\<rparr>)"
  using assms unfolding conc_inv_def Let_def by (auto simp: c_rd_def c_fl_def pc flags_inv_def)

text \<open>The number of tickets drawn since the last exchange after an action.\<close>

fun draws :: "nat \<Rightarrow> 'a act \<Rightarrow> nat" where
  "draws n (A_Fetch p) = Suc n"
| "draws n A_Exchange = 0"
| "draws n a = n"

lemma draws_ok_Cons: "draws_ok n (a # as) \<longleftrightarrow> (\<forall>p. a = A_Fetch p \<longrightarrow> Suc n < 2 ^ 30) \<and> draws_ok (draws n a) as"
  by (cases a) auto

lemma prod_step_inv:
  assumes inv: "conc_inv qlen n st" and step: "prod_step qlen a st = Some st'"
    and dr: "\<And>p. a = A_Fetch p \<Longrightarrow> Suc n < 2 ^ 30"
  shows "conc_inv qlen (draws n a) st'"
proof (cases a)
  case (A_Load p x)
  with step inv conc_inv_pc[OF inv, of "P_Loaded x" p "q_full (c_q st)"] show ?thesis
    by (auto split: if_splits)
next
  case (A_Full p)
  with step show ?thesis by (auto split: ppc.splits intro!: conc_inv_pc[OF inv])
qed (use step dr in \<open>auto split: ppc.splits intro!: conc_inv_fetch[OF inv] conc_inv_write[OF inv] conc_inv_valid[OF inv]\<close>)

lemma cons_step_inv:
  assumes inv: "conc_inv qlen n st" and step: "cons_step qlen a st = Some st'" and "a \<noteq> A_Skip"
  shows "conc_inv qlen (draws n a) st'"
proof (cases a)
  case A_Take
  with step conc_inv_take[OF inv _ refl] show ?thesis by (auto simp: Let_def split: if_splits)
next
  case A_Clear
  with step conc_inv_start[OF inv] conc_inv_clear[OF inv _ refl] show ?thesis
    by (auto simp: Let_def split: cpc.splits if_splits)
next
  case A_Exchange
  with step conc_inv_exchange[OF inv _ refl] show ?thesis by (auto simp: Let_def split: cpc.splits if_splits)
next
  case A_Store
  with step conc_inv_store[OF inv] show ?thesis by (auto split: cpc.splits)
qed (use step assms(3) in auto)

lemma conc_run_inv:
  "conc_inv qlen n st \<Longrightarrow> patient as \<Longrightarrow> draws_ok n as \<Longrightarrow> conc_run qlen as st = Some st' \<Longrightarrow>
   \<exists>n'. conc_inv qlen n' st'"
proof (induction as arbitrary: n st)
  case Nil
  then show ?case by auto
next
  case (Cons a as)
  then obtain st1 where 1: "conc_step qlen a st = Some st1" "conc_run qlen as st1 = Some st'"
    by (auto simp: bind_eq_Some_conv)
  have d: "\<And>p. a = A_Fetch p \<Longrightarrow> Suc n < 2 ^ 30" "draws_ok (draws n a) as" "a \<noteq> A_Skip"
    using Cons.prems by (auto simp: draws_ok_Cons)
  from 1(1) consider "prod_step qlen a st = Some st1" | "cons_step qlen a st = Some st1"
    by (auto simp: conc_step_def split: option.splits)
  then have "conc_inv qlen (draws n a) st1"
    using prod_step_inv[OF Cons.prems(1) _ d(1)] cons_step_inv[OF Cons.prems(1) _ d(3)] by cases auto
  with Cons.IH[OF _ _ d(2) 1(2)] Cons.prems(2) show ?case by auto
qed

subsection \<open>Exactly-once delivery\<close>

lemma run_ex: "(case r of None \<Rightarrow> False | Some st \<Rightarrow> P st) \<Longrightarrow> \<exists>st. r = Some st \<and> P st"
  by (cases r) auto

lemma in_flight_idle: "slots_inv lv sl ow pr \<Longrightarrow> (\<And>p. pr p = P_Idle) \<Longrightarrow> in_flight lv sl = {}"
  by (auto simp: in_flight_def slots_inv_def)

text \<open>
  C3: in every interleaving of any number of producers with the consumer in which the consumer
  does not give up on a slot and the ticket counter does not overflow, no assertion fails, the
  popped messages are a prefix of the messages that were given a slot, in ticket order, every
  push that returned true is among them exactly once, and when no push is under way these are
  all of them.
\<close>

theorem dbq_conc_exactly_once:
  assumes "0 < qlen" and "patient as" and "draws_ok 0 as" and "conc_run qlen as conc_init = Some st"
  shows "(\<forall>p. c_prod st p \<noteq> P_Abort) \<and> (\<exists>rest. map Some (c_res st) = c_out st @ rest) \<and>
         mset (c_acc st) \<subseteq># mset (c_res st) \<and>
         ((\<forall>p. c_prod st p = P_Idle) \<longrightarrow> mset (c_acc st) = mset (c_res st))"
proof -
  obtain n where "conc_inv qlen n st"
    using conc_run_inv[OF conc_init_inv[OF assms(1)] assms(2-4)] by blast
  then obtain lv where I: "slots_inv lv (q_slots (c_q st)) (c_owner st) (c_prod st)"
    and ms: "mset (c_res st) = mset (c_acc st) +
      image_mset (\<lambda>(k, i). the (c_owner st k i)) (mset_set (in_flight lv (q_slots (c_q st))))"
    and out: "\<exists>rest. map Some (c_res st) = c_out st @ rest"
    unfolding conc_inv_def Let_def by blast
  have "mset (c_acc st) = mset (c_res st)" if "\<forall>p. c_prod st p = P_Idle"
    using ms in_flight_idle[OF I] that by simp
  with slots_inv_abort[OF I] ms out show ?thesis by simp
qed

theorem dbq_conc_exactly_once_witness:
  "\<exists>st. conc_run 2 [A_Load 0 (7::nat), A_Load 1 8, A_Fetch 1, A_Fetch 0, A_Clear, A_Exchange, A_Write 1, A_Store,
       A_Valid 1, A_Take, A_Full 0, A_Write 0, A_Valid 0, A_Take] conc_init = Some st \<and>
     c_out st = [Some 8, Some 7] \<and> (\<exists>rest. map Some (c_res st) = c_out st @ rest) \<and> mset (c_acc st) \<subseteq># mset (c_res st)"
proof -
  let ?as = "[A_Load 0 (7::nat), A_Load 1 8, A_Fetch 1, A_Fetch 0, A_Clear, A_Exchange, A_Write 1, A_Store,
       A_Valid 1, A_Take, A_Full 0, A_Write 0, A_Valid 0, A_Take]"
  have "case conc_run 2 ?as conc_init of None \<Rightarrow> False | Some st \<Rightarrow> c_out st = [Some 8, Some 7]"
    by code_simp
  then have "\<exists>st. conc_run 2 ?as conc_init = Some st \<and> c_out st = [Some 8, Some 7]"
    by (rule run_ex)
  moreover have "patient ?as" "draws_ok 0 ?as" by simp_all
  ultimately show ?thesis using dbq_conc_exactly_once[of 2 ?as] by (metis zero_less_numeral)
qed

subsection \<open>Draining\<close>

lemma conc_run_append: "conc_run qlen (as @ bs) st = Option.bind (conc_run qlen as st) (conc_run qlen bs)"
  by (induction as arbitrary: st) (auto simp: Option.bind_assoc fun_eq_iff cong: Option.bind_cong)

definition resting :: "nat \<Rightarrow> 'a cst \<Rightarrow> bool" where
  "resting qlen st \<longleftrightarrow> (\<exists>n. conc_inv qlen n st) \<and> (\<forall>p. c_prod st p = P_Idle)"

lemma conc_take_next:
  assumes "resting qlen st" and "c_cons st = C_Look" and "q_read (c_q st) < q_full_slots (c_q st)"
  shows "\<exists>st'. conc_step qlen A_Take st = Some st' \<and> resting qlen st' \<and> c_cons st' = C_Look \<and> c_res st' = c_res st \<and>
    q_read (c_q st') = Suc (q_read (c_q st)) \<and> q_full_slots (c_q st') = q_full_slots (c_q st) \<and>
    q_consumer (c_q st') = q_consumer (c_q st) \<and> q_pointer (c_q st') = q_pointer (c_q st)"
proof -
  let ?q = "c_q st"
  obtain n where inv: "conc_inv qlen n st" and idle: "\<And>p. c_prod st p = P_Idle" using assms(1) by (auto simp: resting_def)
  then have I: "slots_inv (live (q_consumer ?q) (q_read ?q) (q_full_slots ?q) (min n qlen)) (q_slots ?q) (c_owner st) (c_prod st)"
    using assms(2) by (simp add: conc_inv_def Let_def c_rd_def c_fl_def)
  have "slot_valid (q_slots ?q (q_consumer ?q) (q_read ?q))"
    by (rule conjunct1[OF slots_inv_done[OF I]]) (simp_all add: live_def assms(3) idle)
  with assms(2,3) conc_inv_take[OF inv assms(2) refl] idle show ?thesis
    by (auto simp: conc_step_def Let_def resting_def upd_slot_def)
qed

lemma conc_take_all:
  assumes "resting qlen st" and "c_cons st = C_Look"
    and "q_full_slots (c_q st) = q_read (c_q st) + d"
  shows "\<exists>st'. conc_run qlen (replicate d A_Take) st = Some st' \<and> resting qlen st' \<and> c_cons st' = C_Look \<and>
    c_res st' = c_res st \<and> q_read (c_q st') = q_full_slots (c_q st') \<and> q_pointer (c_q st') = q_pointer (c_q st) \<and>
    q_full_slots (c_q st') = q_full_slots (c_q st)"
  using assms
proof (induction d arbitrary: st)
  case 0
  then show ?case by simp
next
  case (Suc d)
  then obtain st1 where "conc_step qlen A_Take st = Some st1" "resting qlen st1" "c_cons st1 = C_Look" "c_res st1 = c_res st"
    "q_read (c_q st1) = Suc (q_read (c_q st))" "q_full_slots (c_q st1) = q_full_slots (c_q st)" "q_pointer (c_q st1) = q_pointer (c_q st)"
    using conc_take_next[OF Suc.prems(1,2)] by auto
  with Suc.IH[of st1] Suc.prems(3) show ?case by auto
qed

lemma conc_clear_all:
  assumes "resting qlen st" and "c_cons st = C_Clear i" and "q_full_slots (c_q st) = i + d"
  shows "\<exists>st'. conc_run qlen (replicate d A_Clear) st = Some st' \<and> resting qlen st' \<and> c_cons st' = C_Clear (i + d) \<and>
    c_res st' = c_res st \<and> q_full_slots (c_q st') = i + d \<and> q_pointer (c_q st') = q_pointer (c_q st)"
  using assms
proof (induction d arbitrary: st i)
  case 0
  then show ?case by simp
next
  case (Suc d)
  obtain n where inv: "conc_inv qlen n st" using Suc.prems(1) by (auto simp: resting_def)
  define st1 where "st1 = st\<lparr>c_q := upd_slot (q_consumer (c_q st)) i (slot_valid_update (\<lambda>_. False)) (c_q st), c_cons := C_Clear (i + 1)\<rparr>"
  have "conc_step qlen A_Clear st = Some st1" using Suc.prems by (simp add: conc_step_def st1_def Let_def)
  moreover have "resting qlen st1" using conc_inv_clear[OF inv Suc.prems(2) refl] Suc.prems by (auto simp: resting_def st1_def)
  moreover have "c_cons st1 = C_Clear (Suc i)" "c_res st1 = c_res st" "q_full_slots (c_q st1) = Suc i + d"
    "q_pointer (c_q st1) = q_pointer (c_q st)"
    using Suc.prems by (simp_all add: st1_def upd_slot_def)
  ultimately show ?case using Suc.IH[of st1 "Suc i"] by auto
qed

lemma conc_swap:
  assumes "resting qlen st" and "c_cons st = C_Look" and "q_read (c_q st) = q_full_slots (c_q st)"
  shows "\<exists>st'. conc_run qlen (A_Clear # replicate (q_full_slots (c_q st)) A_Clear @ [A_Exchange, A_Store]) st = Some st' \<and>
    resting qlen st' \<and> c_cons st' = C_Look \<and> c_res st' = c_res st \<and> q_read (c_q st') = 0 \<and> dbq_cnt (c_q st') = 0"
proof -
  obtain n where inv: "conc_inv qlen n st" using assms(1) by (auto simp: resting_def)
  define st1 where "st1 = st\<lparr>c_cons := C_Clear 0\<rparr>"
  have 1: "conc_step qlen A_Clear st = Some st1" using assms by (simp add: conc_step_def st1_def)
  have "resting qlen st1" using conc_inv_start[OF inv assms(2)] assms by (auto simp: resting_def st1_def)
  then obtain st2 where 2: "conc_run qlen (replicate (q_full_slots (c_q st)) A_Clear) st1 = Some st2" "resting qlen st2"
    "c_cons st2 = C_Clear (q_full_slots (c_q st))" "c_res st2 = c_res st" "q_full_slots (c_q st2) = q_full_slots (c_q st)"
    using conc_clear_all[of qlen st1 0 "q_full_slots (c_q st)"] by (auto simp: st1_def)
  obtain n2 where inv2: "conc_inv qlen n2 st2" using 2(2) by (auto simp: resting_def)
  define st3 where "st3 = st2\<lparr>c_q := (c_q st2)\<lparr>q_consumer := (if q_consumer (c_q st2) = 0 then 1 else 0),
    q_pointer := push_bit 30 (of_nat (q_consumer (c_q st2)))\<rparr>, c_cons := C_Store (q_pointer (c_q st2))\<rparr>"
  have 3: "conc_step qlen A_Exchange st2 = Some st3" using 2 by (simp add: conc_step_def st3_def Let_def)
  have inv3: "conc_inv qlen 0 st3" unfolding st3_def by (rule conc_inv_exchange[OF inv2 2(3) refl]) (simp add: 2(5))
  define st4 where "st4 = st3\<lparr>c_q := (c_q st3)\<lparr>q_full := False,
    q_full_slots := min (unat (q_pointer (c_q st2) AND NOT q_MASK)) qlen, q_read := 0\<rparr>, c_cons := C_Look\<rparr>"
  have 4: "conc_step qlen A_Store st3 = Some st4" by (simp add: conc_step_def st4_def st3_def)
  have inv4: "conc_inv qlen 0 st4" unfolding st4_def by (rule conc_inv_store[OF inv3]) (simp add: st3_def)
  have "c_prod st4 = c_prod st2" by (simp add: st4_def st3_def)
  then have "resting qlen st4" using inv4 2(2) by (auto simp: resting_def)
  moreover have "dbq_cnt (c_q st4) = 0"
    using inv4 other_buffer[of "q_consumer (c_q st4)"] by (auto simp: conc_inv_def Let_def dbq_cnt_def ticket_slot)
  moreover have "c_cons st4 = C_Look" "c_res st4 = c_res st" "q_read (c_q st4) = 0" by (simp_all add: st4_def st3_def 2)
  ultimately show ?thesis using 1 2(1) 3 4 by (simp add: conc_run_append)
qed

lemma resting_empty:
  assumes "resting qlen st" and "c_cons st = C_Look" and "q_read (c_q st) = q_full_slots (c_q st)" and "dbq_cnt (c_q st) = 0"
  shows "c_out st = map Some (c_res st)"
proof -
  obtain n where inv: "conc_inv qlen n st" using assms(1) by (auto simp: resting_def)
  then have "q_consumer (c_q st) < 2" "n < 2 ^ 30" "q_pointer (c_q st) = ticket (1 - q_consumer (c_q st)) n"
    by (simp_all add: conc_inv_def Let_def)
  with assms(4) other_buffer have "n = 0" by (simp add: dbq_cnt_def ticket_slot)
  with inv assms(2,3) show ?thesis by (simp add: conc_inv_def Let_def c_rd_def c_fl_def)
qed

text \<open>
  C4: no accepted message is ever stuck: from any state such an interleaving reaches, once no
  push is under way, the consumer alone pops every message that was given a slot, by taking
  what is left in its buffer, exchanging once and taking again.
\<close>

theorem dbq_conc_drains:
  assumes "0 < qlen" and "patient as" and "draws_ok 0 as" and "conc_run qlen as conc_init = Some st"
    and "\<forall>p. c_prod st p = P_Idle" and "c_cons st = C_Look"
  shows "\<exists>d e st'. conc_run qlen (replicate d A_Take @
      (A_Clear # replicate (q_full_slots (c_q st)) A_Clear @ [A_Exchange, A_Store]) @ replicate e A_Take) st = Some st' \<and>
    c_out st' = map Some (c_res st)"
proof -
  obtain n where inv: "conc_inv qlen n st"
    using conc_run_inv[OF conc_init_inv[OF assms(1)] assms(2-4)] by blast
  then have r: "resting qlen st" using assms(5) by (auto simp: resting_def)
  have "q_read (c_q st) \<le> q_full_slots (c_q st)" using inv assms(6) by (simp add: conc_inv_def Let_def c_rd_def c_fl_def)
  then obtain d where d: "q_full_slots (c_q st) = q_read (c_q st) + d" using le_Suc_ex by blast
  obtain st1 where 1: "conc_run qlen (replicate d A_Take) st = Some st1" "resting qlen st1" "c_cons st1 = C_Look"
    "c_res st1 = c_res st" "q_read (c_q st1) = q_full_slots (c_q st1)" "q_full_slots (c_q st1) = q_full_slots (c_q st)"
    using conc_take_all[OF r assms(6) d] by blast
  obtain st2 where 2: "conc_run qlen (A_Clear # replicate (q_full_slots (c_q st1)) A_Clear @ [A_Exchange, A_Store]) st1 = Some st2"
    "resting qlen st2" "c_cons st2 = C_Look" "c_res st2 = c_res st1" "q_read (c_q st2) = 0" "dbq_cnt (c_q st2) = 0"
    using conc_swap[OF 1(2,3,5)] by blast
  obtain st3 where 3: "conc_run qlen (replicate (q_full_slots (c_q st2)) A_Take) st2 = Some st3" "resting qlen st3"
    "c_cons st3 = C_Look" "c_res st3 = c_res st2" "q_read (c_q st3) = q_full_slots (c_q st3)" "q_pointer (c_q st3) = q_pointer (c_q st2)"
    using conc_take_all[OF 2(2,3), of "q_full_slots (c_q st2)"] 2(5) by auto
  have "dbq_cnt (c_q st3) = 0" using 2(6) 3(6) by (simp add: dbq_cnt_def)
  then have "c_out st3 = map Some (c_res st)" using resting_empty[OF 3(2,3,5)] 1(4) 2(4) 3(4) by simp
  with 1(1) 2(1) 3(1) show ?thesis
    by (intro exI[of _ d] exI[of _ "q_full_slots (c_q st2)"] exI[of _ st3])
      (simp only: conc_run_append 1(6) Option.bind.bind_lunit simp_thms)
qed

theorem dbq_conc_drains_witness:
  "\<exists>st. conc_run 2 [A_Load 0 (7::nat), A_Load 1 8, A_Fetch 1, A_Fetch 0, A_Write 1, A_Valid 1, A_Full 0, A_Write 0, A_Valid 0]
     conc_init = Some st \<and> c_res st = [8, 7] \<and>
     (\<exists>d e st'. conc_run 2 (replicate d A_Take @
        (A_Clear # replicate (q_full_slots (c_q st)) A_Clear @ [A_Exchange, A_Store]) @ replicate e A_Take) st = Some st' \<and>
      c_out st' = map Some (c_res st))"
proof -
  let ?as = "[A_Load 0 (7::nat), A_Load 1 8, A_Fetch 1, A_Fetch 0, A_Write 1, A_Valid 1, A_Full 0, A_Write 0, A_Valid 0]"
  have "case conc_run 2 ?as conc_init of None \<Rightarrow> False | Some st \<Rightarrow> c_res st = [8, 7] \<and> c_cons st = C_Look"
    by code_simp
  then obtain st where st: "conc_run 2 ?as conc_init = Some st" "c_res st = [8, 7]" "c_cons st = C_Look"
    using run_ex by blast
  have "c_prod st p = P_Idle" for p
    using st(1) by (auto simp: conc_step_def conc_init_def dbq_init_def prod_fetch_def set_pc_def Let_def q_MASK_def upd_slot_def
        split: if_splits)
  moreover have "patient ?as" "draws_ok 0 ?as" by simp_all
  ultimately show ?thesis using dbq_conc_drains[of 2 ?as st] st by auto
qed


end
