(* ===== verification/Task_Queues.thy ===== *)
theory Task_Queues
  imports Fifo_Spec
begin

text \<open>
  The two queues in which thread pools keep runnable blocks: the mutex-protected list of
  \<open>core/MpMcQueue.hpp\<close> and the bounded ring of \<open>lib/external/more/shared_queue.hpp\<close>.
  The operations hold a lock (or have one caller per side), so each is one step.
\<close>

subsection \<open>The locked list\<close>

type_synonym 'a mpmc = "'a list"

definition mpmc_push :: "'a \<Rightarrow> 'a mpmc \<Rightarrow> 'a mpmc" where
  "mpmc_push x q = q @ [x]"

fun mpmc_pop :: "'a mpmc \<Rightarrow> 'a option \<times> 'a mpmc" where
  "mpmc_pop [] = (None, [])"
| "mpmc_pop (x # q) = (Some x, q)"

definition mpmc_remove :: "'a \<Rightarrow> 'a mpmc \<Rightarrow> 'a mpmc" where
  "mpmc_remove x q = filter (\<lambda>y. y \<noteq> x) q"

interpretation mpmc: fifo "\<lambda>q. True" "\<lambda>q. q" "\<lambda>x q. Inr (True, mpmc_push x q)" "\<lambda>q. Inr (mpmc_pop q)"
  by unfold_locales (auto simp: mpmc_push_def)

subsection \<open>The ring\<close>

text \<open>A slot is \<open>None\<close> when it holds the default-constructed or moved-from value.\<close>

record 'a ring =
  rg_storage :: "nat \<Rightarrow> 'a option"
  rg_head :: u32
  rg_tail :: u32

definition ring_init :: "'a ring" where
  "ring_init = \<lparr>rg_storage = (\<lambda>_. None), rg_head = 0, rg_tail = 0\<rparr>"

definition S_mod :: "u32 \<Rightarrow> u32 \<Rightarrow> u32" where
  "S_mod N n = n AND (N - 1)"

definition ring_pop_front :: "u32 \<Rightarrow> 'a ring \<Rightarrow> 'a option option \<times> 'a ring" where
  "ring_pop_front N r =
     (if rg_tail r = rg_head r then (None, r)
      else (Some (rg_storage r (unat (rg_tail r))),
            r\<lparr>rg_storage := (rg_storage r)(unat (rg_tail r) := None), rg_tail := S_mod N (rg_tail r + 1)\<rparr>))"

definition ring_front :: "'a ring \<Rightarrow> 'a option" where
  "ring_front r = rg_storage r (unat (rg_tail r))"

definition ring_push_back :: "u32 \<Rightarrow> 'a option \<Rightarrow> 'a ring \<Rightarrow> bool \<times> 'a ring" where
  "ring_push_back N x r =
     (let next = S_mod N (rg_head r + 1) in
      if next = rg_tail r then (False, r)
      else (True, r\<lparr>rg_storage := (rg_storage r)(unat (rg_head r) := x), rg_head := next\<rparr>))"

partial_function (option) ring_clear_loop :: "u32 \<Rightarrow> u32 \<Rightarrow> 'a ring \<Rightarrow> 'a ring option" where
  "ring_clear_loop N n r =
     (if n = rg_head r then Some r
      else ring_clear_loop N (S_mod N (n + 1)) (r\<lparr>rg_storage := (rg_storage r)(unat n := None)\<rparr>))"

definition ring_clear :: "u32 \<Rightarrow> 'a ring \<Rightarrow> 'a ring option" where
  "ring_clear N r = map_option (\<lambda>r'. r'\<lparr>rg_tail := rg_head r'\<rparr>) (ring_clear_loop N (rg_tail r) r)"

definition ring_empty :: "'a ring \<Rightarrow> bool" where
  "ring_empty r \<longleftrightarrow> rg_head r = rg_tail r"

definition ring_size :: "u32 \<Rightarrow> 'a ring \<Rightarrow> nat" where
  "ring_size N r =
     (let s = rg_head r - rg_tail r in unat (if sint s < 0 then s + N else s))"

subsection \<open>Indices modulo a power of two\<close>

lemma unat_S_mod: "unat (S_mod (2 ^ k) w) = unat w mod 2 ^ k"
proof -
  have s: "S_mod (2 ^ k) w = take_bit k w"
    unfolding S_mod_def by (simp add: take_bit_eq_mask mask_eq_exp_minus_1)
  show ?thesis unfolding s unsigned_take_bit_eq by (rule take_bit_eq_mod)
qed

definition ring_cnt :: "nat \<Rightarrow> 'a ring \<Rightarrow> nat" where
  "ring_cnt k r = (unat (rg_head r) + 2 ^ k - unat (rg_tail r)) mod 2 ^ k"

definition ring_slot :: "nat \<Rightarrow> 'a ring \<Rightarrow> nat \<Rightarrow> 'a option" where
  "ring_slot k r i = rg_storage r ((unat (rg_tail r) + i) mod 2 ^ k)"

definition ring_inv :: "nat \<Rightarrow> 'a ring \<Rightarrow> bool" where
  "ring_inv k r \<longleftrightarrow> k < 31 \<and> unat (rg_head r) < 2 ^ k \<and> unat (rg_tail r) < 2 ^ k \<and>
     (\<forall>i < ring_cnt k r. ring_slot k r i \<noteq> None)"

definition ring_elems :: "nat \<Rightarrow> 'a ring \<Rightarrow> 'a list" where
  "ring_elems k r = map (\<lambda>i. the (ring_slot k r i)) [0..<ring_cnt k r]"

lemma unat_next:
  assumes "k < 31" and "unat w < 2 ^ k"
  shows "unat (S_mod (2 ^ k) (w + 1)) = (unat w + 1) mod 2 ^ k"
proof -
  have "(2::nat) ^ k \<le> 2 ^ 30" using assms(1) by (intro power_increasing) auto
  then have "unat w + 1 < 2 ^ 32" using assms(2) by simp
  then have "unat (w + 1) = unat w + 1" by (simp add: unat_word_ariths)
  then show ?thesis by (simp only: unat_S_mod)
qed

lemma ring_mod_simps:
  fixes h t M :: nat
  assumes "h < M" "t < M"
  shows ring_succ: "(h + 1) mod M = (if h + 1 = M then 0 else h + 1)"
    and ring_dist: "(h + M - t) mod M = (if t \<le> h then h - t else h + M - t)"
proof -
  show "(h + 1) mod M = (if h + 1 = M then 0 else h + 1)" using assms by auto
  show "(h + M - t) mod M = (if t \<le> h then h - t else h + M - t)"
  proof (cases "t \<le> h")
    case True
    then have "h + M - t = (h - t) + M" by simp
    with True assms show ?thesis by (simp only: mod_add_self2) simp
  next
    case False
    with assms show ?thesis by simp
  qed
qed

lemma ring_slot_inj:
  fixes i j M t :: nat
  assumes "i < M" "j < M" "(t + i) mod M = (t + j) mod M"
  shows "i = j"
proof -
  have "a = b" if "a \<le> b" "b < M" "(t + a) mod M = (t + b) mod M" for a b :: nat
  proof -
    have "M dvd (t + b) - (t + a)" using that mod_eq_dvd_iff_nat[of "t + a" "t + b" M] by simp
    then have "M dvd b - a" by simp
    with that show ?thesis by (metis diff_is_0_eq diff_le_self dvd_imp_le le_antisym le_trans not_gr0 not_less)
  qed
  from this[of i j] this[of j i] assms show ?thesis by (cases "i \<le> j") auto
qed

lemma unat_word_eq_iff: "v = w \<longleftrightarrow> unat v = unat (w :: u32)"
  by (rule word_unat_eq_iff)

lemma ring_push_ok:
  assumes inv: "ring_inv k r"
  shows "\<exists>r'. ring_push_back (2 ^ k) (Some x) r = (ring_cnt k r < 2 ^ k - 1, r') \<and> ring_inv k r' \<and>
    ring_elems k r' = (if ring_cnt k r < 2 ^ k - 1 then ring_elems k r @ [x] else ring_elems k r)"
proof -
  define h t where "h = unat (rg_head r)" and "t = unat (rg_tail r)"
  have b: "k < 31" "h < 2 ^ k" "t < 2 ^ k" using inv by (simp_all add: ring_inv_def h_def t_def)
  note d = ring_dist[OF b(2,3)] ring_succ[OF b(2,2)]
  have cnt: "ring_cnt k r = (if t \<le> h then h - t else h + 2 ^ k - t)" using d by (simp add: ring_cnt_def h_def t_def)
  have nx: "unat (S_mod (2 ^ k) (rg_head r + 1)) = (if h + 1 = 2 ^ k then 0 else h + 1)"
    using unat_next[of k "rg_head r"] b d by (simp add: h_def)
  have full: "S_mod (2 ^ k) (rg_head r + 1) = rg_tail r \<longleftrightarrow> \<not> ring_cnt k r < 2 ^ k - 1"
    unfolding unat_word_eq_iff nx t_def[symmetric] cnt using b by auto
  show ?thesis
  proof (cases "ring_cnt k r < 2 ^ k - 1")
    case False
    with full inv show ?thesis by (simp add: ring_push_back_def)
  next
    case True
    define r' where "r' = r\<lparr>rg_storage := (rg_storage r)(h := Some x), rg_head := S_mod (2 ^ k) (rg_head r + 1)\<rparr>"
    have h': "unat (rg_head r') = (if h + 1 = 2 ^ k then 0 else h + 1)" "unat (rg_tail r') = t"
      using nx by (simp_all add: r'_def t_def)
    have h'b: "unat (rg_head r') < 2 ^ k" using b(2) by (simp add: h')
    have cnt': "ring_cnt k r' = Suc (ring_cnt k r)"
      using ring_dist[OF h'b b(3)] True b unfolding ring_cnt_def[of k r'] cnt h' by (auto split: if_splits)
    have pos: "(t + ring_cnt k r) mod 2 ^ k = h" unfolding cnt using b by auto
    have lt: "ring_cnt k r < 2 ^ k" by (simp add: ring_cnt_def)
    have slot: "ring_slot k r' i = (if i = ring_cnt k r then Some x else ring_slot k r i)" if "i < 2 ^ k" for i
    proof -
      have "(t + i) mod 2 ^ k = h \<longleftrightarrow> i = ring_cnt k r"
        using ring_slot_inj[OF that lt, of t] pos by auto
      then show ?thesis unfolding ring_slot_def h'(2) t_def[symmetric] by (simp add: r'_def)
    qed
    have "ring_inv k r'" using inv b h'b h'(2) slot True by (auto simp: ring_inv_def cnt' less_Suc_eq)
    moreover have "ring_elems k r' = ring_elems k r @ [x]" using slot True by (simp add: ring_elems_def cnt')
    ultimately show ?thesis using True full by (simp add: ring_push_back_def r'_def h_def Let_def)
  qed
qed

lemma ring_pop_nil:
  assumes "ring_inv k r" and "ring_elems k r = []"
  shows "ring_pop_front (2 ^ k) r = (None, r)"
proof -
  have b: "unat (rg_head r) < 2 ^ k" "unat (rg_tail r) < 2 ^ k" using assms by (simp_all add: ring_inv_def)
  have "ring_cnt k r = 0" using assms(2) by (simp add: ring_elems_def)
  then have "unat (rg_tail r) = unat (rg_head r)" using ring_dist[OF b] b by (auto simp: ring_cnt_def split: if_splits)
  then show ?thesis by (simp add: ring_pop_front_def unat_word_eq_iff)
qed

lemma ring_pop_cons:
  assumes inv: "ring_inv k r" and el: "ring_elems k r = x # xs"
  shows "\<exists>r'. ring_pop_front (2 ^ k) r = (Some (Some x), r') \<and> ring_inv k r' \<and> ring_elems k r' = xs"
proof -
  define h t where "h = unat (rg_head r)" and "t = unat (rg_tail r)"
  have b: "k < 31" "h < 2 ^ k" "t < 2 ^ k" using inv by (simp_all add: ring_inv_def h_def t_def)
  have cnt: "ring_cnt k r = (if t \<le> h then h - t else h + 2 ^ k - t)"
    using ring_dist[OF b(2,3)] by (simp add: ring_cnt_def h_def t_def)
  have pos: "0 < ring_cnt k r" using el by (cases "ring_cnt k r") (simp_all add: ring_elems_def)
  then have ne: "rg_tail r \<noteq> rg_head r" using cnt by (auto simp: h_def t_def)
  define r' where "r' = r\<lparr>rg_storage := (rg_storage r)(t := None), rg_tail := S_mod (2 ^ k) (rg_tail r + 1)\<rparr>"
  have t': "unat (rg_tail r') = (if t + 1 = 2 ^ k then 0 else t + 1)" "unat (rg_head r') = h"
    using unat_next[of k "rg_tail r"] b ring_succ[OF b(3,3)] by (simp_all add: r'_def t_def h_def)
  have t'b: "unat (rg_tail r') < 2 ^ k" using b(3) by (simp add: t')
  have cnt': "Suc (ring_cnt k r') = ring_cnt k r"
    using ring_dist[OF b(2) t'b] pos b unfolding ring_cnt_def[of k r'] t'(2) cnt t'(1) by (auto split: if_splits)
  have lt: "ring_cnt k r < 2 ^ k" by (simp add: ring_cnt_def)
  have t1: "(unat (rg_tail r') + i) mod 2 ^ k = (t + Suc i) mod 2 ^ k" for i
    by (auto simp: t'(1)) (metis add.commute add_Suc_right mod_add_self2 plus_1_eq_Suc)
  have slot: "ring_slot k r' i = ring_slot k r (Suc i)" if "i < ring_cnt k r'" for i
    using ring_slot_inj[of "Suc i" "2 ^ k" 0 t] that cnt' lt b(3)
    by (auto simp: ring_slot_def t1) (auto simp: r'_def t_def)
  have up: "[0..<ring_cnt k r] = 0 # map Suc [0..<ring_cnt k r']"
    unfolding cnt'[symmetric] by (simp add: upt_conv_Cons map_Suc_upt)
  then have "xs = ring_elems k r'" and x: "x = the (ring_slot k r 0)"
    using el slot by (auto simp: ring_elems_def)
  moreover have "ring_slot k r 0 \<noteq> None" using inv pos by (simp add: ring_inv_def)
  then have "rg_storage r t = Some x" using x b(3) by (auto simp: ring_slot_def t_def)
  moreover have "ring_inv k r'" using inv b t'b t'(2) slot cnt' by (auto simp: ring_inv_def)
  ultimately show ?thesis using ne by (simp add: ring_pop_front_def r'_def t_def)
qed

definition ring_pop :: "u32 \<Rightarrow> 'a ring \<Rightarrow> ('a option \<times> 'a ring) res" where
  "ring_pop N r = (case ring_pop_front N r of (b, r') \<Rightarrow> Inr (Option.bind b (\<lambda>x. x), r'))"

interpretation ring: fifo "ring_inv k" "ring_elems k" "\<lambda>x r. Inr (ring_push_back (2 ^ k) (Some x) r)" "ring_pop (2 ^ k)" for k
proof (unfold_locales, goal_cases)
  case (1 r x)
  with ring_push_ok[OF 1, of x] show ?case by auto
next
  case (2 r)
  with ring_pop_nil[OF 2] show ?case by (simp add: ring_pop_def)
next
  case (3 r x xs)
  with ring_pop_cons[OF 3] show ?case by (auto simp: ring_pop_def)
qed

lemma ring_init_inv: "k < 31 \<Longrightarrow> ring_inv k ring_init \<and> ring_elems k ring_init = []"
  by (simp add: ring_inv_def ring_init_def ring_elems_def ring_cnt_def)

lemma length_ring_elems: "length (ring_elems k r) = ring_cnt k r"
  by (simp add: ring_elems_def)

lemma ring_empty_elems: "ring_inv k r \<Longrightarrow> ring_empty r \<longleftrightarrow> ring_elems k r = []"
  using ring_dist[of "unat (rg_head r)" "2 ^ k" "unat (rg_tail r)"]
  by (auto simp: ring_inv_def ring_empty_def ring_elems_def ring_cnt_def unat_word_eq_iff split: if_splits)

text \<open>The head and tail differ by less than 2^31, so the signed difference in \<open>size\<close> is exact.\<close>

lemma sint_less_half: "(w :: u32) = of_int i \<Longrightarrow> - (2 ^ 31) \<le> i \<Longrightarrow> i < 2 ^ 31 \<Longrightarrow> sint w = i"
  by (simp add: sint_sbintrunc' signed_take_bit_int_eq_self)

lemma ring_size_eq:
  assumes "ring_inv k r"
  shows "ring_size (2 ^ k) r = length (ring_elems k r)"
proof -
  define h t where "h = unat (rg_head r)" and "t = unat (rg_tail r)"
  have b: "k < 31" "h < 2 ^ k" "t < 2 ^ k" using assms by (simp_all add: ring_inv_def h_def t_def)
  have big: "(2::nat) ^ k \<le> 2 ^ 30" using b(1) by (intro power_increasing) auto
  have w: "rg_head r - rg_tail r = of_int (int h - int t)" by (simp add: h_def t_def)
  have si: "sint (rg_head r - rg_tail r) = int h - int t"
    using b(2,3) big by (intro sint_less_half[OF w]) auto
  have cnt: "ring_cnt k r = (if t \<le> h then h - t else h + 2 ^ k - t)"
    using ring_dist[OF b(2,3)] by (simp add: ring_cnt_def h_def t_def)
  show ?thesis
  proof (cases "t \<le> h")
    case True
    then have "rg_head r - rg_tail r = of_nat (h - t)" by (simp add: w of_nat_diff)
    moreover have "h - t < 2 ^ 32" using b(2) big by simp
    ultimately have "unat (rg_head r - rg_tail r) = h - t" by (simp add: unat_of_nat take_bit_nat_eq_self)
    then show ?thesis using True si cnt by (simp add: ring_size_def Let_def length_ring_elems)
  next
    case False
    then have "rg_head r - rg_tail r + 2 ^ k = of_nat (h + 2 ^ k - t)" using b(3) by (simp add: w of_nat_diff)
    moreover have "h + 2 ^ k - t < 2 ^ 32" using b(2) big by simp
    ultimately have "unat (rg_head r - rg_tail r + 2 ^ k) = h + 2 ^ k - t" by (simp add: unat_of_nat take_bit_nat_eq_self)
    then show ?thesis using False si cnt by (simp add: ring_size_def Let_def length_ring_elems)
  qed
qed

lemma ring_clear_loop_ends:
  assumes "k < 31" and "unat (rg_head r) < 2 ^ k" and "unat n < 2 ^ k"
    and "(unat (rg_head r) + 2 ^ k - unat n) mod 2 ^ k = d"
  shows "\<exists>st. ring_clear_loop (2 ^ k) n r = Some (r\<lparr>rg_storage := st\<rparr>)"
  using assms
proof (induction d arbitrary: n r)
  case 0
  then have "n = rg_head r" using ring_dist[OF 0(2,3)] by (auto simp: unat_word_eq_iff split: if_splits)
  then show ?case by (subst ring_clear_loop.simps) (auto intro!: exI[of _ "rg_storage r"])
next
  case (Suc d)
  let ?r = "r\<lparr>rg_storage := (rg_storage r)(unat n := None)\<rparr>"
  have nx: "unat (S_mod (2 ^ k) (n + 1)) = (if unat n + 1 = 2 ^ k then 0 else unat n + 1)"
    using unat_next[OF Suc.prems(1,3)] ring_succ[OF Suc.prems(3,3)] by simp
  then have lt: "unat (S_mod (2 ^ k) (n + 1)) < 2 ^ k" using Suc.prems(3) by simp
  have ne: "n \<noteq> rg_head r" using Suc.prems(4) by auto
  have "(unat (rg_head r) + 2 ^ k - unat (S_mod (2 ^ k) (n + 1))) mod 2 ^ k = d"
    using Suc.prems(2-4) ring_dist[OF Suc.prems(2) lt] ring_dist[OF Suc.prems(2,3)] nx by (auto split: if_splits)
  then obtain st where "ring_clear_loop (2 ^ k) (S_mod (2 ^ k) (n + 1)) ?r = Some (?r\<lparr>rg_storage := st\<rparr>)"
    using Suc.IH[of ?r "S_mod (2 ^ k) (n + 1)"] Suc.prems(1,2) lt by auto
  with ne show ?case by (subst ring_clear_loop.simps) auto
qed



end
