(* ===== verification/Block_Gates.thy ===== *)
theory Block_Gates
  imports Double_Queue Task_Queues
begin

text \<open>
  Blocks and gates (\<open>core/block/Block.hpp\<close>, \<open>Block.cpp\<close>, \<open>InGate\<close>,
  \<open>OutGate\<close>). Blocks live in a heap and refer to each other through their gates; a gate is
  named by the address of its block and its index there (gates are registered by the
  constructors, before any of them is connected). What a block does with a message, a timer or
  its turn is a parameter: the virtual methods that the derived classes override.
\<close>

subsection \<open>State\<close>

datatype invocation_type = Direct | Indirect | Async

type_synonym addr = nat
type_synonym gptr = "addr \<times> nat"

record 'm ingate =
  ig_queue :: "'m dbq"
  ig_peers :: "gptr list"

record ('m, 't, 'u) block =
  b_name :: string
  b_invocation :: invocation_type
  b_sync :: bool
  b_running :: bool
  b_input_ids :: "string \<rightharpoonup> nat"
  b_output_ids :: "string \<rightharpoonup> nat"
  b_ingates :: "'m ingate list"
  b_outgates :: "gptr list list"
  b_last_in_id :: nat
  b_last_out_id :: nat
  b_timer_queue :: "'t mpmc"
  b_queue_type :: int
  b_locked :: bool
  b_local :: 'u

type_synonym ('m, 't, 'u) heap = "addr \<Rightarrow> ('m, 't, 'u) block option"

definition QUEUETYPE_DROPPING :: int where
  "QUEUETYPE_DROPPING = -2"

definition QUEUETYPE_MUTEX :: int where
  "QUEUETYPE_MUTEX = -1"

definition QUEUETYPE_YIELDING :: int where
  "QUEUETYPE_YIELDING = 0"


definition gate_qlen :: nat where
  "gate_qlen = 1024"

definition MAX_MSG_DEQUEUE :: nat where
  "MAX_MSG_DEQUEUE = 10"

text \<open>
  The overridable methods: given the object's own state they give its next state, the messages
  sent through its output gates in order, and how they end.
\<close>

type_synonym ('m, 'u) method_result = "'u \<times> (int \<times> 'm) list \<times> unit res"

record ('m, 't, 'u) behaviour =
  bh_receive_msg :: "'m \<Rightarrow> nat \<Rightarrow> 'u \<Rightarrow> ('m, 'u) method_result"
  bh_handle_timer :: "'t \<Rightarrow> 'u \<Rightarrow> ('m, 'u) method_result"
  bh_do_async :: "'u \<Rightarrow> ('m, 'u) method_result"

text \<open>The methods of the base class.\<close>

definition default_behaviour :: "('m, 't, 'u) behaviour" where
  "default_behaviour =
     \<lparr>bh_receive_msg = (\<lambda>_ _ u. (u, [], Inr ())),
      bh_handle_timer = (\<lambda>_ u. (u, [], Inl (Logic_Error ''timer set on block without _handle_timer()''))),
      bh_do_async = (\<lambda>u. (u, [], Inr ()))\<rparr>"

subsection \<open>Construction and accessors\<close>

definition block_new :: "string \<Rightarrow> invocation_type \<Rightarrow> 'u \<Rightarrow> ('m, 't, 'u) block" where
  "block_new name ivk u =
     \<lparr>b_name = name, b_invocation = ivk, b_sync = True, b_running = False,
      b_input_ids = Map.empty, b_output_ids = Map.empty, b_ingates = [], b_outgates = [],
      b_last_in_id = 0, b_last_out_id = 0, b_timer_queue = [], b_queue_type = QUEUETYPE_DROPPING,
      b_locked = False, b_local = u\<rparr>"

definition set_invocation :: "invocation_type \<Rightarrow> (('m, 't, 'u) block, unit) op" where
  "set_invocation ivk b =
     (if b_running b then (Inl (Runtime_Error ''cannot change invocation while block is running''), b)
      else (Inr (), b\<lparr>b_invocation := ivk\<rparr>))"

definition is_direct :: "('m, 't, 'u) block \<Rightarrow> bool" where
  "is_direct b \<longleftrightarrow> b_invocation b = Direct"

text \<open>\<open>std::map::insert\<close> keeps an entry that is already there.\<close>

definition map_insert :: "'k \<Rightarrow> 'v \<Rightarrow> ('k \<rightharpoonup> 'v) \<Rightarrow> ('k \<rightharpoonup> 'v)" where
  "map_insert k v m = (case m k of None \<Rightarrow> m(k \<mapsto> v) | Some _ \<Rightarrow> m)"

definition register_input_gate :: "string \<Rightarrow> ('m, 't, 'u) block \<Rightarrow> nat \<times> ('m, 't, 'u) block" where
  "register_input_gate name b =
     (b_last_in_id b,
      b\<lparr>b_last_in_id := b_last_in_id b + 1,
        b_ingates := b_ingates b @ [\<lparr>ig_queue = dbq_init, ig_peers = []\<rparr>],
        b_input_ids := map_insert name (b_last_in_id b) (b_input_ids b)\<rparr>)"

definition register_output_gate :: "string \<Rightarrow> ('m, 't, 'u) block \<Rightarrow> nat \<times> ('m, 't, 'u) block" where
  "register_output_gate name b =
     (b_last_out_id b,
      b\<lparr>b_last_out_id := b_last_out_id b + 1,
        b_outgates := b_outgates b @ [[]],
        b_output_ids := map_insert name (b_last_out_id b) (b_output_ids b)\<rparr>)"

definition get_input_gate :: "string \<Rightarrow> ('m, 't, 'u) block \<Rightarrow> nat res" where
  "get_input_gate name b =
     (case b_input_ids b name of
        None \<Rightarrow> Inl (Runtime_Error (''Gate '' @ name @ '' does not exist for block '' @ b_name b))
      | Some i \<Rightarrow> bindE (guardE (i < length (b_ingates b)) Undefined_Behaviour) (\<lambda>_. Inr i))"

definition get_output_gate :: "string \<Rightarrow> ('m, 't, 'u) block \<Rightarrow> nat res" where
  "get_output_gate name b =
     (case b_output_ids b name of
        None \<Rightarrow> Inl (Runtime_Error (''Gate '' @ name @ '' does not exist.''))
      | Some i \<Rightarrow> bindE (guardE (i < length (b_outgates b)) Undefined_Behaviour) (\<lambda>_. Inr i))"

definition get_output_gate_id :: "nat \<Rightarrow> ('m, 't, 'u) block \<Rightarrow> nat res" where
  "get_output_gate_id i b = bindE (guardE (i < length (b_outgates b)) Out_Of_Range) (\<lambda>_. Inr i)"

text \<open>
  The queue attributes of \<open>configure\<close> in a build with \<open>BLOCKING_QUEUE\<close>;
  \<open>sleep_usec\<close> is the attribute as an integer, 0 when it is missing.
\<close>

definition to_lower :: "char \<Rightarrow> char" where
  "to_lower c = (let n = of_char c :: nat in if 65 \<le> n \<and> n \<le> 90 then char_of (n + 32) else c)"

definition configure_queue :: "string option \<Rightarrow> int \<Rightarrow> (('m, 't, 'u) block, unit) op" where
  "configure_queue mode sleep_usec b =
     (case mode of
        Some v \<Rightarrow>
          if b_invocation b \<noteq> Indirect then (Inr (), b)
          else
            let s = map to_lower v in
            if s = ''drop'' then (Inr (), b\<lparr>b_queue_type := QUEUETYPE_DROPPING\<rparr>)
            else if s = ''yield'' then (Inr (), b\<lparr>b_queue_type := QUEUETYPE_YIELDING\<rparr>)
            else if s = ''sleep'' then
              (if sleep_usec \<le> 0
               then (Inl (Runtime_Error (''For block '' @ b_name b @ '': blocking_mode=sleep but sleep_usec attribute not set or not > 0'')),
                     b\<lparr>b_queue_type := sleep_usec\<rparr>)
               else (Inr (), b\<lparr>b_queue_type := sleep_usec\<rparr>))
            else if s = ''mutex'' then (Inr (), b\<lparr>b_queue_type := QUEUETYPE_MUTEX\<rparr>)
            else (Inl (Runtime_Error (''blocking_mode attribute value '' @ s @ '' for block '' @ b_name b @ '' is invalid.'')), b)
      | None \<Rightarrow>
          if b_invocation b \<noteq> Indirect then (Inr (), b\<lparr>b_queue_type := QUEUETYPE_DROPPING\<rparr>) else (Inr (), b))"

subsection \<open>Heap access\<close>

definition with_block :: "addr \<Rightarrow> (('m, 't, 'u) block, 'a) op \<Rightarrow> (('m, 't, 'u) heap, 'a) op" where
  "with_block a f h =
     (case h a of None \<Rightarrow> (Inl Undefined_Behaviour, h) | Some b \<Rightarrow> (case f b of (r, b') \<Rightarrow> (r, h(a \<mapsto> b'))))"

definition with_in :: "gptr \<Rightarrow> ('m ingate, 'a) op \<Rightarrow> (('m, 't, 'u) heap, 'a) op" where
  "with_in g f = with_block (fst g) (\<lambda>b.
     if snd g < length (b_ingates b)
     then (case f (b_ingates b ! snd g) of (r, x) \<Rightarrow> (r, b\<lparr>b_ingates := (b_ingates b)[snd g := x]\<rparr>))
     else (Inl Undefined_Behaviour, b))"

definition with_out :: "gptr \<Rightarrow> (gptr list, 'a) op \<Rightarrow> (('m, 't, 'u) heap, 'a) op" where
  "with_out g f = with_block (fst g) (\<lambda>b.
     if snd g < length (b_outgates b)
     then (case f (b_outgates b ! snd g) of (r, x) \<Rightarrow> (r, b\<lparr>b_outgates := (b_outgates b)[snd g := x]\<rparr>))
     else (Inl Undefined_Behaviour, b))"

subsection \<open>Connecting and disconnecting\<close>

definition in_connect :: "gptr \<Rightarrow> gptr \<Rightarrow> (('m, 't, 'u) heap, unit) op" where
  "in_connect g out = with_in g (modifyX (\<lambda>x. x\<lparr>ig_peers := ig_peers x @ [out]\<rparr>))"

definition out_connect :: "gptr \<Rightarrow> gptr \<Rightarrow> (('m, 't, 'u) heap, unit) op" where
  "out_connect g inp = with_out g (modifyX (\<lambda>ps. ps @ [inp]))"

text \<open>\<open>std::remove\<close> and \<open>erase\<close> drop every occurrence.\<close>

definition erase_peer :: "gptr \<Rightarrow> (gptr list, unit) op" where
  "erase_peer g ps =
     (if g \<in> set ps then (Inr (), filter (\<lambda>p. p \<noteq> g) ps)
      else (Inl (Runtime_Error ''trying to disconect a non-connected gate''), ps))"

definition in_disconnect :: "gptr \<Rightarrow> gptr \<Rightarrow> (('m, 't, 'u) heap, unit) op" where
  "in_disconnect g out = with_in g (\<lambda>x. case erase_peer out (ig_peers x) of (r, ps) \<Rightarrow> (r, x\<lparr>ig_peers := ps\<rparr>))"

definition out_disconnect :: "gptr \<Rightarrow> gptr \<Rightarrow> (('m, 't, 'u) heap, unit) op" where
  "out_disconnect g inp = with_out g (erase_peer inp)"

definition in_disconnect_all :: "gptr \<Rightarrow> (('m, 't, 'u) heap, unit) op" where
  "in_disconnect_all g =
     bindX (with_in g (getX ig_peers)) (\<lambda>ps.
     bindX (forX ps (\<lambda>p. out_disconnect p g)) (\<lambda>_.
     with_in g (modifyX (\<lambda>x. x\<lparr>ig_peers := [], ig_queue := dbq_reset gate_qlen (ig_queue x)\<rparr>))))"

definition out_disconnect_all :: "gptr \<Rightarrow> (('m, 't, 'u) heap, unit) op" where
  "out_disconnect_all g =
     bindX (with_out g (getX (\<lambda>ps. ps))) (\<lambda>ps.
     bindX (forX ps (\<lambda>p. in_disconnect p g)) (\<lambda>_.
     with_out g (modifyX (\<lambda>_. []))))"

definition is_connected :: "gptr \<Rightarrow> (('m, 't, 'u) heap, bool) op" where
  "is_connected g = with_in g (getX (\<lambda>x. 0 < length (ig_peers x)))"

subsection \<open>Delivering and running\<close>

text \<open>
  A message sent to a directly invoked block is handled inside the sender's call. The handler
  may send on, so the methods call each other to a depth that the composition decides;
  \<open>n\<close> bounds it, and reaching the bound is a stack overflow.
\<close>

definition lock_block :: "addr \<Rightarrow> (('m, 't, 'u) heap, unit) op" where
  "lock_block a = with_block a (\<lambda>b. if b_locked b then (Inl Undefined_Behaviour, b) else (Inr (), b\<lparr>b_locked := True\<rparr>))"

definition unlock_block :: "addr \<Rightarrow> (('m, 't, 'u) heap, unit) op" where
  "unlock_block a = with_block a (modifyX (\<lambda>b. b\<lparr>b_locked := False\<rparr>))"

text \<open>A \<open>lock_guard\<close> releases the mutex however the body ends.\<close>

definition guarded :: "addr \<Rightarrow> (('m, 't, 'u) heap, unit) op \<Rightarrow> (('m, 't, 'u) heap, unit) op" where
  "guarded a body = bindX (lock_block a) (\<lambda>_ h.
     case body h of (r, h1) \<Rightarrow> (case unlock_block a h1 of (Inl e, h2) \<Rightarrow> (Inl e, h2) | (Inr _, h2) \<Rightarrow> (r, h2)))"

type_synonym ('m, 't, 'u) receiver = "gptr \<Rightarrow> 'm \<Rightarrow> (('m, 't, 'u) heap, unit) op"

definition out_deliver :: "('m, 't, 'u) receiver \<Rightarrow> gptr \<Rightarrow> 'm \<Rightarrow> (('m, 't, 'u) heap, unit) op" where
  "out_deliver recv g m = bindX (with_out g (getX (\<lambda>ps. ps))) (\<lambda>ps. forX ps (\<lambda>p. recv p m))"

definition send_out_through :: "('m, 't, 'u) receiver \<Rightarrow> addr \<Rightarrow> int \<times> 'm \<Rightarrow> (('m, 't, 'u) heap, unit) op" where
  "send_out_through recv a gm =
     bindX (with_block a (getX (\<lambda>b. 0 \<le> fst gm \<and> fst gm < int (length (b_outgates b))))) (\<lambda>ok.
       if ok then out_deliver recv (a, nat (fst gm)) (snd gm) else throwX Assert_Fail)"

text \<open>Run an overridable method of the block at \<open>a\<close>: its own state, then its sends, then its end.\<close>

definition call_method ::
  "('m, 't, 'u) receiver \<Rightarrow> addr \<Rightarrow> ('u \<Rightarrow> ('m, 'u) method_result) \<Rightarrow> (('m, 't, 'u) heap, unit) op" where
  "call_method recv a meth =
     bindX (with_block a (\<lambda>b. case meth (b_local b) of (u, sends, r) \<Rightarrow> (Inr (sends, r), b\<lparr>b_local := u\<rparr>))) (\<lambda>(sends, r).
     bindX (forX sends (send_out_through recv a)) (\<lambda>_ h. (r, h)))"

definition receive_msg ::
  "('m, 't, 'u) behaviour \<Rightarrow> ('m, 't, 'u) receiver \<Rightarrow> addr \<Rightarrow> 'm \<Rightarrow> nat \<Rightarrow> (('m, 't, 'u) heap, unit) op" where
  "receive_msg bh recv a m i =
     bindX (with_block a (getX b_sync)) (\<lambda>sy.
       if sy then guarded a (call_method recv a (bh_receive_msg bh m i))
       else call_method recv a (bh_receive_msg bh m i))"

definition enqueue_msg :: "gptr \<Rightarrow> 'm \<Rightarrow> (('m, 't, 'u) heap, bool) op" where
  "enqueue_msg g m = with_in g (\<lambda>x.
     case dbq_push gate_qlen m (ig_queue x) of
       Inl e \<Rightarrow> (Inl e, x)
     | Inr (ok, q) \<Rightarrow> (Inr ok, x\<lparr>ig_queue := q\<rparr>))"

definition in_receive ::
  "('m, 't, 'u) behaviour \<Rightarrow> ('m, 't, 'u) receiver \<Rightarrow> gptr \<Rightarrow> 'm \<Rightarrow> (('m, 't, 'u) heap, unit) op" where
  "in_receive bh recv g m =
     bindX (with_block (fst g) (getX is_direct)) (\<lambda>d.
       if d then receive_msg bh recv (fst g) m (snd g)
       else bindX (enqueue_msg g m) (\<lambda>_. returnX ()))"

primrec gate_receive :: "('m, 't, 'u) behaviour \<Rightarrow> nat \<Rightarrow> ('m, 't, 'u) receiver" where
  "gate_receive bh 0 = (\<lambda>_ _. throwX Undefined_Behaviour)"
| "gate_receive bh (Suc n) = in_receive bh (gate_receive bh n)"

definition dequeue :: "gptr \<Rightarrow> (('m, 't, 'u) heap, 'm option) op" where
  "dequeue g = with_in g (\<lambda>x.
     case dbq_pop_msg gate_qlen (ig_queue x) of
       Inl e \<Rightarrow> (Inl e, x)
     | Inr (mo, q) \<Rightarrow> (Inr mo, x\<lparr>ig_queue := q\<rparr>))"

definition handle_timer ::
  "('m, 't, 'u) behaviour \<Rightarrow> ('m, 't, 'u) receiver \<Rightarrow> addr \<Rightarrow> 't \<Rightarrow> (('m, 't, 'u) heap, unit) op" where
  "handle_timer bh recv a t =
     bindX (with_block a (getX (\<lambda>b. (is_direct b, b_sync b)))) (\<lambda>(d, sy).
       if d then
         (if sy then guarded a (call_method recv a (bh_handle_timer bh t))
          else call_method recv a (bh_handle_timer bh t))
       else with_block a (modifyX (\<lambda>b. b\<lparr>b_timer_queue := mpmc_push t (b_timer_queue b)\<rparr>)))"

text \<open>
  \<open>run\<close>: every queued timer, at most ten messages of each input gate, then the block's own
  work. The timer loop ends when the queue is empty; \<open>k\<close> bounds its turns.
\<close>

definition pop_timer :: "addr \<Rightarrow> (('m, 't, 'u) heap, 't option) op" where
  "pop_timer a = with_block a (\<lambda>b. case mpmc_pop (b_timer_queue b) of (t, q) \<Rightarrow> (Inr t, b\<lparr>b_timer_queue := q\<rparr>))"

primrec run_timers :: "('m, 't, 'u) behaviour \<Rightarrow> ('m, 't, 'u) receiver \<Rightarrow> addr \<Rightarrow> nat \<Rightarrow> (('m, 't, 'u) heap, unit) op" where
  "run_timers bh recv a 0 = throwX Undefined_Behaviour"
| "run_timers bh recv a (Suc k) =
     bindX (pop_timer a) (\<lambda>t. case t of
       None \<Rightarrow> returnX ()
     | Some t \<Rightarrow> bindX (call_method recv a (bh_handle_timer bh t)) (\<lambda>_. run_timers bh recv a k))"

primrec run_gate :: "('m, 't, 'u) behaviour \<Rightarrow> ('m, 't, 'u) receiver \<Rightarrow> gptr \<Rightarrow> nat \<Rightarrow> (('m, 't, 'u) heap, unit) op" where
  "run_gate bh recv g 0 = returnX ()"
| "run_gate bh recv g (Suc n) =
     bindX (dequeue g) (\<lambda>m. case m of
       None \<Rightarrow> returnX ()
     | Some m \<Rightarrow> bindX (call_method recv (fst g) (bh_receive_msg bh m (snd g))) (\<lambda>_. run_gate bh recv g n))"

definition block_run :: "('m, 't, 'u) behaviour \<Rightarrow> ('m, 't, 'u) receiver \<Rightarrow> addr \<Rightarrow> (('m, 't, 'u) heap, unit) op" where
  "block_run bh recv a =
     bindX (with_block a (getX (\<lambda>b. (length (b_ingates b), length (b_timer_queue b))))) (\<lambda>(nb, nt).
     bindX (run_timers bh recv a (Suc nt)) (\<lambda>_.
     bindX (forX [0..<nb] (\<lambda>i. run_gate bh recv (a, i) MAX_MSG_DEQUEUE)) (\<lambda>_.
     call_method recv a (bh_do_async bh))))"

end
