(* ===== verification/Block_Dispatch.thy ===== *)
theory Block_Dispatch
  imports Block_Gates
begin

text \<open>
  Message dispatch between blocks: if the direct-invocation graph of a composition has no
  cycle, a call returns, holds no mutex twice and leaves the structure of the composition as it
  was; queued messages arrive exactly once per link; \<open>run\<close> serves the queues in order.
\<close>

subsection \<open>Rules for heap access\<close>

lemma okX_with_block:
  "okX (with_block a f) h Q \<longleftrightarrow> (\<exists>b. h a = Some b \<and> okX f b (\<lambda>x b'. Q x (h(a \<mapsto> b'))))"
  by (auto simp: okX_def with_block_def split: option.splits prod.splits sum.splits)

lemma okX_with_in:
  "okX (with_in g f) h Q \<longleftrightarrow> (\<exists>b. h (fst g) = Some b \<and> snd g < length (b_ingates b) \<and>
     okX f (b_ingates b ! snd g) (\<lambda>x y. Q x (h(fst g \<mapsto> b\<lparr>b_ingates := (b_ingates b)[snd g := y]\<rparr>))))"
  by (auto simp: with_in_def okX_with_block) (auto simp: okX_def split: prod.splits sum.splits if_splits)

lemma okX_with_out:
  "okX (with_out g f) h Q \<longleftrightarrow> (\<exists>b. h (fst g) = Some b \<and> snd g < length (b_outgates b) \<and>
     okX f (b_outgates b ! snd g) (\<lambda>x y. Q x (h(fst g \<mapsto> b\<lparr>b_outgates := (b_outgates b)[snd g := y]\<rparr>))))"
  by (auto simp: with_out_def okX_with_block) (auto simp: okX_def split: prod.splits sum.splits if_splits)

lemma okX_get_block: "okX (with_block a (getX f)) h Q \<longleftrightarrow> (\<exists>b. h a = Some b \<and> Q (f b) h)"
  by (auto simp: okX_with_block map_upd_triv)

lemma okX_get_out: "okX (with_out g (getX f)) h Q \<longleftrightarrow>
    (\<exists>b. h (fst g) = Some b \<and> snd g < length (b_outgates b) \<and> Q (f (b_outgates b ! snd g)) h)"
  by (auto simp: okX_with_out map_upd_triv)

subsection \<open>What dispatch leaves alone\<close>

definition same_shape :: "('m, 't, 'u) block \<Rightarrow> ('m, 't, 'u) block \<Rightarrow> bool" where
  "same_shape b b' \<longleftrightarrow> b_name b' = b_name b \<and> b_invocation b' = b_invocation b \<and> b_sync b' = b_sync b \<and>
     b_running b' = b_running b \<and> b_input_ids b' = b_input_ids b \<and> b_output_ids b' = b_output_ids b \<and>
     map ig_peers (b_ingates b') = map ig_peers (b_ingates b) \<and> b_outgates b' = b_outgates b \<and>
     b_timer_queue b' = b_timer_queue b \<and> b_queue_type b' = b_queue_type b \<and> b_locked b' = b_locked b"

definition same_heap :: "('m, 't, 'u) heap \<Rightarrow> ('m, 't, 'u) heap \<Rightarrow> bool" where
  "same_heap h h' \<longleftrightarrow> (\<forall>a. rel_option same_shape (h a) (h' a))"

lemma same_shape_refl [simp]: "same_shape b b"
  by (simp add: same_shape_def)

lemma same_shape_trans: "same_shape b c \<Longrightarrow> same_shape c d \<Longrightarrow> same_shape b d"
  by (simp add: same_shape_def)

lemma same_heap_refl [simp]: "same_heap h h"
  by (auto simp: same_heap_def intro: option.rel_refl)

lemma same_heap_trans:
  assumes "same_heap h h1" and "same_heap h1 h2"
  shows "same_heap h h2"
  unfolding same_heap_def
proof
  fix a
  from assms have "rel_option same_shape (h a) (h1 a)" "rel_option same_shape (h1 a) (h2 a)" by (auto simp: same_heap_def)
  then show "rel_option same_shape (h a) (h2 a)"
    by (cases "h a"; cases "h1 a"; cases "h2 a") (auto intro: same_shape_trans)
qed

lemma same_heap_Some: "same_heap h h' \<Longrightarrow> h a = Some b \<Longrightarrow> \<exists>b'. h' a = Some b' \<and> same_shape b b'"
  unfolding same_heap_def by (metis option_rel_Some1)

lemma same_heap_Some': "same_heap h h' \<Longrightarrow> h' a = Some b' \<Longrightarrow> \<exists>b. h a = Some b \<and> same_shape b b'"
  unfolding same_heap_def by (metis option_rel_Some2)

lemma same_heap_upd: "h a = Some b \<Longrightarrow> same_shape b b' \<Longrightarrow> same_heap h (h(a \<mapsto> b'))"
  by (auto simp: same_heap_def intro: option.rel_refl)

lemma same_shape_length: "same_shape b b' \<Longrightarrow> length (b_ingates b') = length (b_ingates b)"
  unfolding same_shape_def by (metis length_map)

subsection \<open>Well-formed compositions\<close>

text \<open>
  Every link leads to an existing gate, and a link to a directly invoked block goes down in
  \<open>rank\<close>; the queues are in order.
\<close>

definition linked :: "(addr \<Rightarrow> nat) \<Rightarrow> ('m, 't, 'u) heap \<Rightarrow> bool" where
  "linked rank h \<longleftrightarrow> (\<forall>a b ps p i. h a = Some b \<and> ps \<in> set (b_outgates b) \<and> (p, i) \<in> set ps \<longrightarrow>
     (\<exists>b'. h p = Some b' \<and> i < length (b_ingates b') \<and> (is_direct b' \<longrightarrow> rank p < rank a)))"

definition queues_ok :: "('m, 't, 'u) heap \<Rightarrow> bool" where
  "queues_ok h \<longleftrightarrow> (\<forall>a b x. h a = Some b \<and> x \<in> set (b_ingates b) \<longrightarrow> dbq_inv gate_qlen (ig_queue x))"

lemma queues_okD: "queues_ok h \<Longrightarrow> h a = Some b \<Longrightarrow> i < length (b_ingates b) \<Longrightarrow> dbq_inv gate_qlen (ig_queue (b_ingates b ! i))"
  unfolding queues_ok_def using nth_mem by blast

text \<open>The local states stay in \<open>U\<close>, and no method of a block throws or sends on a gate it does not have.\<close>

definition method_ok :: "('u \<Rightarrow> bool) \<Rightarrow> nat \<Rightarrow> ('u \<Rightarrow> ('m, 'u) method_result) \<Rightarrow> bool" where
  "method_ok U n meth \<longleftrightarrow> (\<forall>u. U u \<longrightarrow> (case meth u of (u', sends, r) \<Rightarrow>
     U u' \<and> r = Inr () \<and> (\<forall>(g, m) \<in> set sends. 0 \<le> g \<and> g < int n)))"

lemma method_okD:
  "method_ok U n meth \<Longrightarrow> U u \<Longrightarrow> meth u = (u', sends, r) \<Longrightarrow>
   U u' \<and> r = Inr () \<and> (\<forall>(g, m) \<in> set sends. 0 \<le> g \<and> g < int n)"
  unfolding method_ok_def by (drule spec[of _ u]) simp

definition receives_ok :: "('m, 't, 'u) behaviour \<Rightarrow> (addr \<Rightarrow> 'u \<Rightarrow> bool) \<Rightarrow> ('m, 't, 'u) heap \<Rightarrow> bool" where
  "receives_ok bh U h \<longleftrightarrow> (\<forall>a b m i. h a = Some b \<longrightarrow> method_ok (U a) (length (b_outgates b)) (bh_receive_msg bh m i))"

definition locals_ok :: "(addr \<Rightarrow> 'u \<Rightarrow> bool) \<Rightarrow> ('m, 't, 'u) heap \<Rightarrow> bool" where
  "locals_ok U h \<longleftrightarrow> (\<forall>a b. h a = Some b \<longrightarrow> U a (b_local b))"

definition unlocked_below :: "(addr \<Rightarrow> nat) \<Rightarrow> nat \<Rightarrow> ('m, 't, 'u) heap \<Rightarrow> bool" where
  "unlocked_below rank k h \<longleftrightarrow> (\<forall>a b. h a = Some b \<and> is_direct b \<and> rank a < k \<longrightarrow> \<not> b_locked b)"

definition dispatch_inv ::
  "('m, 't, 'u) behaviour \<Rightarrow> (addr \<Rightarrow> 'u \<Rightarrow> bool) \<Rightarrow> (addr \<Rightarrow> nat) \<Rightarrow> ('m, 't, 'u) heap \<Rightarrow> ('m, 't, 'u) heap \<Rightarrow> bool" where
  "dispatch_inv bh U rank h0 h \<longleftrightarrow> same_heap h0 h \<and> linked rank h \<and> queues_ok h \<and> receives_ok bh U h \<and> locals_ok U h"

lemma is_direct_shape: "same_shape b b' \<Longrightarrow> is_direct b' = is_direct b"
  by (simp add: same_shape_def is_direct_def)

lemma linked_same: "linked rank h \<Longrightarrow> same_heap h h' \<Longrightarrow> linked rank h'"
  unfolding linked_def
proof (intro allI impI)
  fix a b' ps p i
  assume l: "\<forall>a b ps p i. h a = Some b \<and> ps \<in> set (b_outgates b) \<and> (p, i) \<in> set ps \<longrightarrow>
     (\<exists>b'. h p = Some b' \<and> i < length (b_ingates b') \<and> (is_direct b' \<longrightarrow> rank p < rank a))"
    and s: "same_heap h h'" and c: "h' a = Some b' \<and> ps \<in> set (b_outgates b') \<and> (p, i) \<in> set ps"
  then obtain b where b: "h a = Some b" "same_shape b b'" using same_heap_Some' by blast
  then have "b_outgates b' = b_outgates b" by (simp add: same_shape_def)
  with c b l obtain c where "h p = Some c" "i < length (b_ingates c)" "is_direct c \<longrightarrow> rank p < rank a" by metis
  with same_heap_Some[OF s] same_shape_length is_direct_shape
  show "\<exists>b'. h' p = Some b' \<and> i < length (b_ingates b') \<and> (is_direct b' \<longrightarrow> rank p < rank a)" by metis
qed

lemma receives_ok_same: "receives_ok bh U h \<Longrightarrow> same_heap h h' \<Longrightarrow> receives_ok bh U h'"
  unfolding receives_ok_def by (metis same_heap_Some' same_shape_def)

lemma unlocked_same: "unlocked_below rank k h \<Longrightarrow> same_heap h h' \<Longrightarrow> unlocked_below rank k h'"
  unfolding unlocked_below_def by (auto dest!: same_heap_Some' simp: same_shape_def is_direct_def)

lemma unlocked_mono: "unlocked_below rank k h \<Longrightarrow> j \<le> k \<Longrightarrow> unlocked_below rank j h"
  unfolding unlocked_below_def using less_le_trans by blast

lemma dispatch_inv_refl:
  "linked rank h \<Longrightarrow> queues_ok h \<Longrightarrow> receives_ok bh U h \<Longrightarrow> locals_ok U h \<Longrightarrow> dispatch_inv bh U rank h h"
  by (simp add: dispatch_inv_def)

lemma dispatch_inv_trans:
  "dispatch_inv bh U rank h0 h \<Longrightarrow> dispatch_inv bh U rank h h' \<Longrightarrow> dispatch_inv bh U rank h0 h'"
  by (auto simp: dispatch_inv_def intro: same_heap_trans)

text \<open>A block may change its local state and the contents of its queues.\<close>

lemma dispatch_inv_upd:
  assumes "dispatch_inv bh U rank h0 h" and "h a = Some b" and "same_shape b b'" and "U a (b_local b')"
    and "\<And>x. x \<in> set (b_ingates b') \<Longrightarrow> dbq_inv gate_qlen (ig_queue x)"
  shows "dispatch_inv bh U rank h0 (h(a \<mapsto> b'))"
proof -
  have s: "same_heap h (h(a \<mapsto> b'))" using assms by (intro same_heap_upd)
  with assms show ?thesis
    by (auto simp: dispatch_inv_def intro: same_heap_trans linked_same receives_ok_same)
      (auto simp: queues_ok_def locals_ok_def split: if_splits)
qed

subsection \<open>Every dispatch returns\<close>

text \<open>What a receiver may rely on, and what it guarantees, when it is given calls to depth \<open>n\<close>.\<close>

definition callable :: "(addr \<Rightarrow> nat) \<Rightarrow> nat \<Rightarrow> ('m, 't, 'u) heap \<Rightarrow> gptr \<Rightarrow> bool" where
  "callable rank n h g \<longleftrightarrow> (\<exists>b. h (fst g) = Some b \<and> snd g < length (b_ingates b) \<and> 0 < n \<and>
     (is_direct b \<longrightarrow> rank (fst g) + 1 < n \<and> unlocked_below rank (Suc (rank (fst g))) h))"

definition serves ::
  "('m, 't, 'u) behaviour \<Rightarrow> (addr \<Rightarrow> 'u \<Rightarrow> bool) \<Rightarrow> (addr \<Rightarrow> nat) \<Rightarrow> nat \<Rightarrow> ('m, 't, 'u) receiver \<Rightarrow> bool" where
  "serves bh U rank n recv \<longleftrightarrow> (\<forall>h0 h g m. dispatch_inv bh U rank h0 h \<and> callable rank n h g \<longrightarrow>
     okX (recv g m) h (\<lambda>_. dispatch_inv bh U rank h0))"

lemma callable_same:
  assumes "callable rank n h g" and "same_heap h h'"
  shows "callable rank n h' g"
proof -
  obtain b where b: "h (fst g) = Some b" "snd g < length (b_ingates b)" "0 < n"
    "is_direct b \<longrightarrow> rank (fst g) + 1 < n \<and> unlocked_below rank (Suc (rank (fst g))) h"
    using assms(1) by (auto simp: callable_def)
  then obtain b' where "h' (fst g) = Some b'" "same_shape b b'" using same_heap_Some[OF assms(2)] by blast
  with b show ?thesis
    using unlocked_same[OF _ assms(2)] by (auto simp: callable_def same_shape_length is_direct_shape)
qed

lemma servesD:
  "serves bh U rank n recv \<Longrightarrow> dispatch_inv bh U rank h0 h \<Longrightarrow> callable rank n h g \<Longrightarrow>
   okX (recv g m) h (\<lambda>_. dispatch_inv bh U rank h0)"
  unfolding serves_def by blast

lemma dispatch_inv_same: "dispatch_inv bh U rank h0 h \<Longrightarrow> same_heap h0 h"
  by (simp add: dispatch_inv_def)

lemma deliver_ok:
  assumes recv: "serves bh U rank n recv" and inv: "dispatch_inv bh U rank h0 h"
    and b: "h a = Some b" and i: "i < length (b_outgates b)"
    and call: "\<And>p. p \<in> set (b_outgates b ! i) \<Longrightarrow> callable rank n h p"
  shows "okX (out_deliver recv (a, i) m) h (\<lambda>_. dispatch_inv bh U rank h0)"
proof -
  have h: "dispatch_inv bh U rank h h" using inv by (simp add: dispatch_inv_def)
  have "okX (forX (b_outgates b ! i) (\<lambda>p. recv p m)) h (\<lambda>_. dispatch_inv bh U rank h)"
  proof (rule okX_forX[where I = "dispatch_inv bh U rank h", OF _ h])
    fix p h1 assume p: "p \<in> set (b_outgates b ! i)" and h1: "dispatch_inv bh U rank h h1"
    have "callable rank n h1 p" using callable_same[OF call[OF p] dispatch_inv_same[OF h1]] .
    with recv h1 show "okX (recv p m) h1 (\<lambda>_. dispatch_inv bh U rank h)" by (intro servesD)
  qed
  then show ?thesis using b i dispatch_inv_trans[OF inv]
    by (auto simp: out_deliver_def okX_bind okX_get_out elim!: okX_mono)
qed

text \<open>Calling a method of the block at \<open>a\<close> when everything below \<open>a\<close> is free.\<close>

lemma peers_callable:
  assumes "linked rank h" and "h a = Some b" and "i < length (b_outgates b)" and "(p, j) \<in> set (b_outgates b ! i)"
    and "unlocked_below rank (rank a) h" and "rank a < n" and "0 < n"
  shows "callable rank n h (p, j)"
proof -
  have "b_outgates b ! i \<in> set (b_outgates b)" using assms(3) by simp
  with assms(1,2,4) obtain c where c: "h p = Some c" "j < length (b_ingates c)" "is_direct c \<longrightarrow> rank p < rank a"
    unfolding linked_def by blast
  have "unlocked_below rank (Suc (rank p)) h" if "rank p < rank a"
    using assms(5) that by (auto intro: unlocked_mono)
  with c assms(6,7) show ?thesis by (auto simp: callable_def)
qed

lemma call_method_ok:
  assumes recv: "serves bh U rank n recv" and inv: "dispatch_inv bh U rank h0 h" and b: "h a = Some b"
    and m: "method_ok (U a) (length (b_outgates b)) meth" and free: "unlocked_below rank (rank a) h"
    and n: "rank a < n"
  shows "okX (call_method recv a meth) h (\<lambda>_. dispatch_inv bh U rank h0)"
proof -
  obtain u sends r where mr: "meth (b_local b) = (u, sends, r)" using prod_cases3 by blast
  have "U a (b_local b)" using inv b by (simp add: dispatch_inv_def locals_ok_def)
  then have u: "U a u" "r = Inr ()" "\<forall>(g, x) \<in> set sends. 0 \<le> g \<and> g < int (length (b_outgates b))"
    using method_okD[OF m _ mr] by auto
  define h1 where "h1 = h(a \<mapsto> b\<lparr>b_local := u\<rparr>)"
  have i1: "dispatch_inv bh U rank h0 h1" unfolding h1_def
    by (rule dispatch_inv_upd[OF inv b]) (use u inv b in \<open>auto simp: same_shape_def dispatch_inv_def queues_ok_def\<close>)
  have s1: "same_heap h h1" unfolding h1_def using b by (rule same_heap_upd) (simp add: same_shape_def)
  have free1: "unlocked_below rank (rank a) h1" using unlocked_same[OF free s1] .
  have l1: "linked rank h1" using i1 by (simp add: dispatch_inv_def)
  have "dispatch_inv bh U rank h1 h1" using i1 by (simp add: dispatch_inv_def)
  then have "okX (forX sends (send_out_through recv a)) h1 (\<lambda>_. dispatch_inv bh U rank h1)"
  proof (rule okX_forX[where I = "dispatch_inv bh U rank h1", rotated])
    fix gx h2 assume gx: "gx \<in> set sends" and h2: "dispatch_inv bh U rank h1 h2"
    obtain g x where [simp]: "gx = (g, x)" by fastforce
    have s2: "same_heap h1 h2" using h2 by (simp add: dispatch_inv_def)
    then obtain b2 where b2: "h2 a = Some b2" "same_shape (b\<lparr>b_local := u\<rparr>) b2"
      using same_heap_Some[of h1 h2 a] by (auto simp: h1_def)
    then have og: "b_outgates b2 = b_outgates b" by (simp add: same_shape_def)
    have g: "0 \<le> g" "nat g < length (b_outgates b2)" using u(3) gx og by auto
    have "okX (out_deliver recv (a, nat g) x) h2 (\<lambda>_. dispatch_inv bh U rank h1)"
    proof (rule deliver_ok[OF recv h2 b2(1) g(2)])
      fix p assume "p \<in> set (b_outgates b2 ! nat g)"
      then show "callable rank n h2 p"
        using peers_callable[OF linked_same[OF l1 s2] b2(1) g(2), of "fst p" "snd p" n] unlocked_same[OF free1 s2] n by simp
    qed
    with b2 g show "okX (send_out_through recv a gx) h2 (\<lambda>_. dispatch_inv bh U rank h1)"
      by (auto simp: send_out_through_def okX_bind okX_get_block)
  qed
  then have "okX (forX sends (send_out_through recv a)) h1 (\<lambda>_ h2. okX (\<lambda>h. (r, h)) h2 (\<lambda>_. dispatch_inv bh U rank h0))"
    using u(2) dispatch_inv_trans[OF i1] by (auto elim!: okX_mono)
  then have "okX (bindX (forX sends (send_out_through recv a)) (\<lambda>_ h. (r, h))) h1 (\<lambda>_. dispatch_inv bh U rank h0)"
    by (simp add: okX_bind)
  then have "okX (\<lambda>b. case meth (b_local b) of (u, sends, r) \<Rightarrow> (Inr (sends, r), b\<lparr>b_local := u\<rparr>)) b
      (\<lambda>x b'. okX (case x of (sends, r) \<Rightarrow> bindX (forX sends (send_out_through recv a)) (\<lambda>_ h. (r, h)))
        (h(a \<mapsto> b')) (\<lambda>_. dispatch_inv bh U rank h0))"
    using mr by (intro okX_InrI[of _ _ "(sends, r)" "b\<lparr>b_local := u\<rparr>"]) (simp_all add: h1_def)
  with b show ?thesis unfolding call_method_def okX_bind okX_with_block by blast
qed

lemma okX_guarded:
  assumes "h a = Some b" and "\<not> b_locked b"
    and "okX body (h(a \<mapsto> b\<lparr>b_locked := True\<rparr>)) (\<lambda>_ h1. \<exists>c. h1 a = Some c \<and> Q () (h1(a \<mapsto> c\<lparr>b_locked := False\<rparr>)))"
  shows "okX (guarded a body) h Q"
  using assms
  by (auto simp: guarded_def okX_bind lock_block_def okX_with_block unlock_block_def)
    (auto simp: okX_def with_block_def split: prod.splits sum.splits option.splits)

lemma lock_inv:
  assumes inv: "dispatch_inv bh U rank h0 h" and b: "h a = Some b"
  shows "dispatch_inv bh U rank (h(a \<mapsto> b\<lparr>b_locked := True\<rparr>)) (h(a \<mapsto> b\<lparr>b_locked := True\<rparr>))"
proof -
  let ?h = "h(a \<mapsto> b\<lparr>b_locked := True\<rparr>)"
  have f: "\<exists>c. h x = Some c \<and> b_ingates c = b_ingates d \<and> b_outgates c = b_outgates d \<and> b_local c = b_local d \<and> is_direct c = is_direct d"
    if "?h x = Some d" for x d using that b by (auto simp: is_direct_def split: if_splits)
  have g: "\<exists>d. ?h x = Some d \<and> b_ingates c = b_ingates d \<and> is_direct c = is_direct d" if "h x = Some c" for x c
    using that b by (auto simp: is_direct_def)
  have "linked rank ?h" unfolding linked_def
  proof (intro allI impI)
    fix x d ps p i assume "?h x = Some d \<and> ps \<in> set (b_outgates d) \<and> (p, i) \<in> set ps"
    moreover from this f obtain c where "h x = Some c" "b_outgates c = b_outgates d" by blast
    ultimately obtain e where "h p = Some e" "i < length (b_ingates e)" "is_direct e \<longrightarrow> rank p < rank x"
      using inv unfolding dispatch_inv_def linked_def by metis
    with g show "\<exists>b'. ?h p = Some b' \<and> i < length (b_ingates b') \<and> (is_direct b' \<longrightarrow> rank p < rank x)" by metis
  qed
  moreover have "queues_ok ?h" "locals_ok U ?h" "receives_ok bh U ?h"
    using inv b by (auto simp: dispatch_inv_def queues_ok_def locals_ok_def receives_ok_def split: if_splits)
  ultimately show ?thesis by (simp add: dispatch_inv_refl)
qed

text \<open>Unlocking restores the heap's shape.\<close>

lemma unlock_same:
  assumes "h a = Some b" and "\<not> b_locked b" and "same_heap (h(a \<mapsto> b\<lparr>b_locked := True\<rparr>)) h1"
  shows "\<exists>c. h1 a = Some c \<and> same_shape b (c\<lparr>b_locked := False\<rparr>) \<and> same_heap h (h1(a \<mapsto> c\<lparr>b_locked := False\<rparr>))"
proof -
  obtain c where c: "h1 a = Some c" "same_shape (b\<lparr>b_locked := True\<rparr>) c"
    using same_heap_Some[OF assms(3), of a] by auto
  then have s: "same_shape b (c\<lparr>b_locked := False\<rparr>)" using assms(2) by (simp add: same_shape_def)
  have "rel_option same_shape (h x) (h1 x)" if "x \<noteq> a" for x
    using assms(3) that unfolding same_heap_def by (metis fun_upd_other)
  with s assms(1) c show ?thesis by (auto simp: same_heap_def)
qed

lemma receive_msg_ok:
  assumes recv: "serves bh U rank n recv" and inv: "dispatch_inv bh U rank h0 h" and b: "h a = Some b"
    and free: "unlocked_below rank (Suc (rank a)) h" and d: "is_direct b" and n: "rank a < n"
  shows "okX (receive_msg bh recv a m i) h (\<lambda>_. dispatch_inv bh U rank h0)"
proof (cases "b_sync b")
  case False
  have "method_ok (U a) (length (b_outgates b)) (bh_receive_msg bh m i)"
    using inv b by (simp add: dispatch_inv_def receives_ok_def)
  moreover have "unlocked_below rank (rank a) h" using unlocked_mono[OF free] by simp
  ultimately show ?thesis using call_method_ok[OF recv inv b _ _ n] False b
    by (simp add: receive_msg_def okX_bind okX_get_block)
next
  case True
  let ?h = "h(a \<mapsto> b\<lparr>b_locked := True\<rparr>)"
  have nl: "\<not> b_locked b" using free b d by (auto simp: unlocked_below_def)
  have inv1: "dispatch_inv bh U rank ?h ?h" using lock_inv[OF inv b] .
  have "method_ok (U a) (length (b_outgates b)) (bh_receive_msg bh m i)"
    using inv b by (simp add: dispatch_inv_def receives_ok_def)
  moreover have "unlocked_below rank (rank a) ?h" using unlocked_mono[OF free, of "rank a"] by (auto simp: unlocked_below_def)
  ultimately have "okX (call_method recv a (bh_receive_msg bh m i)) ?h (\<lambda>_. dispatch_inv bh U rank ?h)"
    using call_method_ok[OF recv inv1 _ _ _ n] by simp
  then have "okX (call_method recv a (bh_receive_msg bh m i)) ?h
      (\<lambda>_ h1. \<exists>c. h1 a = Some c \<and> dispatch_inv bh U rank h0 (h1(a \<mapsto> c\<lparr>b_locked := False\<rparr>)))"
  proof (rule okX_mono)
    fix x :: unit and h1 assume h1: "dispatch_inv bh U rank ?h h1"
    obtain c where c: "h1 a = Some c" "same_heap h (h1(a \<mapsto> c\<lparr>b_locked := False\<rparr>))"
      using unlock_same[where h = h and a = a, OF b nl] h1 unfolding dispatch_inv_def by blast
    have "queues_ok (h1(a \<mapsto> c\<lparr>b_locked := False\<rparr>))" "locals_ok U (h1(a \<mapsto> c\<lparr>b_locked := False\<rparr>))"
      using h1 c(1) by (auto simp: dispatch_inv_def queues_ok_def locals_ok_def split: if_splits)
    with c inv have "dispatch_inv bh U rank h0 (h1(a \<mapsto> c\<lparr>b_locked := False\<rparr>))"
      by (auto simp: dispatch_inv_def intro: same_heap_trans linked_same receives_ok_same)
    with c(1) show "\<exists>c. h1 a = Some c \<and> dispatch_inv bh U rank h0 (h1(a \<mapsto> c\<lparr>b_locked := False\<rparr>))" by blast
  qed
  then have "okX (guarded a (call_method recv a (bh_receive_msg bh m i))) h (\<lambda>_. dispatch_inv bh U rank h0)"
    by (rule okX_guarded[where h = h and a = a, OF b nl])
  with True b show ?thesis by (simp add: receive_msg_def okX_bind okX_get_block)
qed

lemma enqueue_ok:
  assumes inv: "dispatch_inv bh U rank h0 h" and b: "h (fst g) = Some b" and i: "snd g < length (b_ingates b)"
  shows "okX (enqueue_msg g m) h (\<lambda>_. dispatch_inv bh U rank h0)"
proof -
  let ?x = "b_ingates b ! snd g"
  have qi: "dbq_inv gate_qlen (ig_queue ?x)" by (rule queues_okD[where h = h and a = "fst g", OF _ b i]) (use inv in \<open>simp add: dispatch_inv_def\<close>)
  obtain ok q where q: "dbq_push gate_qlen m (ig_queue ?x) = Inr (ok, q)" "dbq_inv gate_qlen q"
    using dbq_push_ok[OF qi, of m] by auto
  have "dispatch_inv bh U rank h0 (h(fst g \<mapsto> b\<lparr>b_ingates := (b_ingates b)[snd g := ?x\<lparr>ig_queue := q\<rparr>]\<rparr>))"
  proof (rule dispatch_inv_upd[OF inv b])
    have "map ig_peers ((b_ingates b)[snd g := ?x\<lparr>ig_queue := q\<rparr>]) = map ig_peers (b_ingates b)"
      using i by (simp add: map_update list_update_same_conv)
    then show "same_shape b (b\<lparr>b_ingates := (b_ingates b)[snd g := ?x\<lparr>ig_queue := q\<rparr>]\<rparr>)" by (simp add: same_shape_def)
    show "U (fst g) (b_local (b\<lparr>b_ingates := (b_ingates b)[snd g := ?x\<lparr>ig_queue := q\<rparr>]\<rparr>))"
      using inv b by (simp add: dispatch_inv_def locals_ok_def)
    fix y assume "y \<in> set (b_ingates (b\<lparr>b_ingates := (b_ingates b)[snd g := ?x\<lparr>ig_queue := q\<rparr>]\<rparr>))"
    then have "y = ?x\<lparr>ig_queue := q\<rparr> \<or> y \<in> set (b_ingates b)" using set_update_subset_insert by fastforce
    with q(2) inv b show "dbq_inv gate_qlen (ig_queue y)" by (auto simp: dispatch_inv_def queues_ok_def)
  qed
  with q b i show ?thesis
    unfolding enqueue_msg_def okX_with_in by (intro exI[of _ b] conjI okX_InrI[of _ _ ok "?x\<lparr>ig_queue := q\<rparr>"]) simp_all
qed

lemma gate_receive_serves: "serves bh U rank n (gate_receive bh n)"
proof (induction n)
  case 0
  then show ?case by (simp add: serves_def callable_def)
next
  case (Suc n)
  have "okX (in_receive bh (gate_receive bh n) g m) h (\<lambda>_. dispatch_inv bh U rank h0)"
    if inv: "dispatch_inv bh U rank h0 h" and call: "callable rank (Suc n) h g" for h0 h g m
  proof -
    obtain b where b: "h (fst g) = Some b" "snd g < length (b_ingates b)"
      "is_direct b \<longrightarrow> rank (fst g) + 1 < Suc n \<and> unlocked_below rank (Suc (rank (fst g))) h"
      using call by (auto simp: callable_def)
    show ?thesis
    proof (cases "is_direct b")
      case True
      with b receive_msg_ok[OF Suc inv b(1)] show ?thesis
        by (simp add: in_receive_def okX_bind okX_get_block)
    next
      case False
      with b enqueue_ok[OF inv b(1,2)] show ?thesis
        by (simp add: in_receive_def okX_bind okX_get_block)
    qed
  qed
  then show ?case by (simp add: serves_def)
qed

text \<open>
  C8: in a composition whose links all lead to existing gates and whose direct-invocation
  graph has no cycle (\<open>rank\<close> falls along every link to a direct block), handing a message
  to a gate always returns normally within a call depth of \<open>rank + 2\<close>: no mutex is locked
  twice, no assertion fails, no dangling gate is followed, and afterwards every block has the
  connections, locks, flags and timers it had before.
\<close>

theorem dispatch_returns:
  assumes "linked rank h" and "queues_ok h" and "receives_ok bh U h" and "locals_ok U h"
    and "\<forall>a b. h a = Some b \<longrightarrow> \<not> b_locked b"
    and "h a = Some b" and "i < length (b_ingates b)" and "rank a + 1 < n"
  shows "\<exists>h'. gate_receive bh n (a, i) m h = (Inr (), h') \<and> same_heap h h' \<and> queues_ok h' \<and> locals_ok U h'"
proof -
  have "dispatch_inv bh U rank h h" using assms(1-4) by (rule dispatch_inv_refl)
  moreover have "callable rank n h (a, i)" using assms(5-8) by (auto simp: callable_def unlocked_below_def)
  ultimately have "okX (gate_receive bh n (a, i) m) h (\<lambda>_. dispatch_inv bh U rank h)"
    by (rule servesD[OF gate_receive_serves])
  then show ?thesis by (auto dest!: okXD simp: dispatch_inv_def)
qed

text \<open>A direct forwarder (local state at least 10) in front of an indirect sink.\<close>

definition demo_block :: "invocation_type \<Rightarrow> gptr list list \<Rightarrow> nat \<Rightarrow> (nat, nat, nat) block" where
  "demo_block ivk outs u = (snd (register_input_gate ''in'' (block_new ''b'' ivk u)))\<lparr>b_outgates := outs\<rparr>"

definition demo_heap :: "(nat, nat, nat) heap" where
  "demo_heap = [0 \<mapsto> demo_block Direct [[(1, 0)]] 10, 1 \<mapsto> demo_block Indirect [] 0]"

definition demo_beh :: "(nat, nat, nat) behaviour" where
  "demo_beh = default_behaviour\<lparr>bh_receive_msg := (\<lambda>m i u. if 10 \<le> u then (u + 1, [(0, m)], Inr ()) else (u, [], Inr ()))\<rparr>"

definition demo_U :: "addr \<Rightarrow> nat \<Rightarrow> bool" where
  "demo_U a u \<longleftrightarrow> (if a = 0 then 10 \<le> u else u < 10)"

lemma gate_queue_init: "dbq_inv gate_qlen dbq_init"
  by (rule dbq_init_inv) (simp_all add: gate_qlen_def)

lemmas demo_defs = demo_heap_def demo_block_def register_input_gate_def block_new_def

theorem dispatch_returns_witness:
  "linked (\<lambda>_. 0) demo_heap \<and> queues_ok demo_heap \<and>
   (\<exists>h'. gate_receive demo_beh 2 (0, 0) 5 demo_heap = (Inr (), h') \<and> same_heap demo_heap h' \<and> queues_ok h' \<and> locals_ok demo_U h')"
proof -
  have l: "linked (\<lambda>_. 0) demo_heap"
    by (auto simp: linked_def demo_defs is_direct_def split: if_splits)
  have q: "queues_ok demo_heap" by (auto simp: queues_ok_def demo_defs gate_queue_init split: if_splits)
  have r: "receives_ok demo_beh demo_U demo_heap"
    by (auto simp: receives_ok_def method_ok_def demo_beh_def default_behaviour_def demo_U_def demo_defs split: if_splits)
  have u: "locals_ok demo_U demo_heap" by (auto simp: locals_ok_def demo_U_def demo_defs split: if_splits)
  have k: "\<forall>a b. demo_heap a = Some b \<longrightarrow> \<not> b_locked b" by (auto simp: demo_defs split: if_splits)
  have b: "demo_heap 0 = Some (demo_block Direct [[(1, 0)]] 10)" "0 < length (b_ingates (demo_block Direct [[(1, 0)]] 10))"
    by (simp_all add: demo_defs)
  show ?thesis using dispatch_returns[OF l q r u k b, of 2 5] l q by simp
qed

end
