(* ===== verification/Block_Run.thy ===== *)
theory Block_Run
  imports Block_Dispatch
begin

text \<open>
  Queued delivery and the block's turn: a message sent to indirectly invoked blocks arrives
  once per link at the end of each queue, and \<open>run\<close> hands over every timer and the first
  ten messages of each gate, in order.
\<close>

subsection \<open>Queued delivery\<close>

definition gate_of :: "('m, 't, 'u) heap \<Rightarrow> gptr \<Rightarrow> 'm ingate option" where
  "gate_of h g = (case h (fst g) of
     None \<Rightarrow> None | Some b \<Rightarrow> if snd g < length (b_ingates b) then Some (b_ingates b ! snd g) else None)"

definition gate_elems :: "('m, 't, 'u) heap \<Rightarrow> gptr \<Rightarrow> 'm list" where
  "gate_elems h g = (case gate_of h g of None \<Rightarrow> [] | Some x \<Rightarrow> dbq_elems (ig_queue x))"

definition gate_cnt :: "('m, 't, 'u) heap \<Rightarrow> gptr \<Rightarrow> nat" where
  "gate_cnt h g = (case gate_of h g of None \<Rightarrow> 0 | Some x \<Rightarrow> dbq_cnt (ig_queue x))"

text \<open>The gates \<open>p\<close> that exist, belong to an indirectly invoked block and have a sound queue.\<close>

definition queued_gate :: "('m, 't, 'u) heap \<Rightarrow> gptr \<Rightarrow> bool" where
  "queued_gate h g \<longleftrightarrow> (\<exists>b. h (fst g) = Some b \<and> snd g < length (b_ingates b) \<and> \<not> is_direct b \<and>
     dbq_inv gate_qlen (ig_queue (b_ingates b ! snd g)))"

lemma receive_queued:
  assumes "queued_gate h g" and "gate_cnt h g < gate_qlen"
  shows "\<exists>h'. in_receive bh recv g m h = (Inr (), h') \<and> (\<forall>p. queued_gate h p \<longrightarrow> queued_gate h' p) \<and>
    (\<forall>p. gate_elems h' p = (if p = g then gate_elems h p @ [m] else gate_elems h p)) \<and>
    (\<forall>p. gate_cnt h' p = (if p = g then Suc (gate_cnt h p) else gate_cnt h p))"
proof -
  obtain b where b: "h (fst g) = Some b" "snd g < length (b_ingates b)" "\<not> is_direct b"
    "dbq_inv gate_qlen (ig_queue (b_ingates b ! snd g))" using assms(1) by (auto simp: queued_gate_def)
  let ?x = "b_ingates b ! snd g"
  have "dbq_cnt (ig_queue ?x) < gate_qlen" using assms(2) b by (simp add: gate_cnt_def gate_of_def)
  then obtain q where q: "dbq_push gate_qlen m (ig_queue ?x) = Inr (True, q)" "dbq_inv gate_qlen q"
    "dbq_elems q = dbq_elems (ig_queue ?x) @ [m]" "dbq_cnt q = Suc (dbq_cnt (ig_queue ?x))"
    using dbq_push_room[OF b(4), of m] by auto
  define h' where "h' = h(fst g \<mapsto> b\<lparr>b_ingates := (b_ingates b)[snd g := ?x\<lparr>ig_queue := q\<rparr>]\<rparr>)"
  have run: "in_receive bh recv g m h = (Inr (), h')"
    using b q by (simp add: in_receive_def bindX_apply with_block_def enqueue_msg_def with_in_def h'_def map_upd_triv)
  have gate: "gate_of h' p = (if p = g then Some (?x\<lparr>ig_queue := q\<rparr>) else gate_of h p)" for p
    using b by (cases p; cases g) (auto simp: gate_of_def h'_def)
  have "gate_of h g = Some ?x" using b by (simp add: gate_of_def)
  with gate q have "\<forall>p. gate_elems h' p = (if p = g then gate_elems h p @ [m] else gate_elems h p)"
    "\<forall>p. gate_cnt h' p = (if p = g then Suc (gate_cnt h p) else gate_cnt h p)"
    by (auto simp: gate_elems_def gate_cnt_def)
  moreover have "queued_gate h' p" if "queued_gate h p" for p
    using that b q(2) by (cases "snd p = snd g") (auto simp: queued_gate_def h'_def is_direct_def)
  ultimately show ?thesis using run by blast
qed

lemma deliver_list:
  assumes "\<forall>p \<in> set ps. queued_gate h p \<and> gate_cnt h p + count_list ps p \<le> gate_qlen"
  shows "\<exists>h'. forX ps (\<lambda>p. in_receive bh recv p m) h = (Inr (), h') \<and>
    (\<forall>p. gate_elems h' p = gate_elems h p @ replicate (count_list ps p) m)"
  using assms
proof (induction ps arbitrary: h)
  case Nil
  then show ?case by simp
next
  case (Cons g ps)
  have g: "queued_gate h g" "gate_cnt h g < gate_qlen" using Cons.prems by auto
  obtain h1 where 1: "in_receive bh recv g m h = (Inr (), h1)" "\<forall>p. queued_gate h p \<longrightarrow> queued_gate h1 p"
    "\<forall>p. gate_elems h1 p = (if p = g then gate_elems h p @ [m] else gate_elems h p)"
    "\<forall>p. gate_cnt h1 p = (if p = g then Suc (gate_cnt h p) else gate_cnt h p)"
    using receive_queued[OF g, of bh recv m] by blast
  have "queued_gate h1 p \<and> gate_cnt h1 p + count_list ps p \<le> gate_qlen" if "p \<in> set ps" for p
    using Cons.prems[rule_format, of p] 1(2)[rule_format, of p] 1(4)[rule_format, of p] that by (cases "p = g") auto
  then obtain h2 where 2: "forX ps (\<lambda>p. in_receive bh recv p m) h1 = (Inr (), h2)"
    "\<forall>p. gate_elems h2 p = gate_elems h1 p @ replicate (count_list ps p) m"
    using Cons.IH by blast
  with 1 show ?case by (auto simp: bindX_apply)
qed

text \<open>
  C9: sending a message through an output gate whose peers are all queued, with room for it,
  appends it to each peer's queue once per link, in the order of sending, and touches no other
  queue.
\<close>

theorem deliver_exactly_once:
  assumes "h a = Some b" and "i < length (b_outgates b)" and "ps = b_outgates b ! i" and "0 < n"
    and "\<forall>p \<in> set ps. queued_gate h p \<and> gate_cnt h p + count_list ps p \<le> gate_qlen"
  shows "\<exists>h'. out_deliver (gate_receive bh n) (a, i) m h = (Inr (), h') \<and>
    (\<forall>p. gate_elems h' p = gate_elems h p @ replicate (count_list ps p) m)"
proof -
  obtain n' where "n = Suc n'" using assms(4) by (cases n) auto
  then show ?thesis using deliver_list[OF assms(5), of bh "gate_receive bh n'" m] assms(1-3)
    by (simp add: out_deliver_def bindX_apply with_out_def with_block_def map_upd_triv)
qed

theorem deliver_exactly_once_witness:
  "queued_gate demo_heap (1, 0) \<and>
   (\<exists>h'. out_deliver (gate_receive demo_beh 1) (0, 0) 7 demo_heap = (Inr (), h') \<and>
     (\<forall>p. gate_elems h' p = gate_elems demo_heap p @ replicate (count_list [(1, 0)] p) 7))"
proof -
  have q: "queued_gate demo_heap (1, 0)" by (simp add: queued_gate_def demo_defs is_direct_def gate_queue_init)
  have c: "gate_cnt demo_heap (1, 0) = 0"
    by (simp add: gate_cnt_def gate_of_def demo_defs dbq_init_def dbq_cnt_def)
  have b: "demo_heap 0 = Some (demo_block Direct [[(1, 0)]] 10)" "0 < length (b_outgates (demo_block Direct [[(1, 0)]] 10))"
    "[(1, 0)] = b_outgates (demo_block Direct [[(1, 0)]] 10) ! 0"
    by (simp_all add: demo_defs)
  show ?thesis using deliver_exactly_once[where h = demo_heap and a = 0, OF b, of 1 demo_beh 7] q c by (simp add: gate_qlen_def)
qed

subsection \<open>The turn of a block\<close>

text \<open>A sink: methods that only change the block's own state.\<close>

definition sink :: "('m \<Rightarrow> nat \<Rightarrow> 'u \<Rightarrow> 'u) \<Rightarrow> ('t \<Rightarrow> 'u \<Rightarrow> 'u) \<Rightarrow> ('u \<Rightarrow> 'u) \<Rightarrow> ('m, 't, 'u) behaviour" where
  "sink R T A = \<lparr>bh_receive_msg = (\<lambda>m i u. (R m i u, [], Inr ())), bh_handle_timer = (\<lambda>t u. (T t u, [], Inr ())),
     bh_do_async = (\<lambda>u. (A u, [], Inr ()))\<rparr>"

lemma call_method_quiet:
  "h a = Some b \<Longrightarrow> meth (b_local b) = (u, [], Inr ()) \<Longrightarrow> call_method recv a meth h = (Inr (), h(a \<mapsto> b\<lparr>b_local := u\<rparr>))"
  by (simp add: call_method_def bindX_apply with_block_def)

lemma pop_timer_Cons:
  "h a = Some b \<Longrightarrow> b_timer_queue b = t # ts \<Longrightarrow> pop_timer a h = (Inr (Some t), h(a \<mapsto> b\<lparr>b_timer_queue := ts\<rparr>))"
  by (simp add: pop_timer_def with_block_def)

lemma run_timers_sink:
  "h a = Some b \<Longrightarrow> b_timer_queue b = ts \<Longrightarrow>
   run_timers (sink R T A) recv a (Suc (length ts)) h =
     (Inr (), h(a \<mapsto> b\<lparr>b_timer_queue := [], b_local := fold T ts (b_local b)\<rparr>))"
proof (induction ts arbitrary: h b)
  case Nil
  then have "b\<lparr>b_timer_queue := [], b_local := b_local b\<rparr> = b" by simp
  with Nil show ?case by (auto simp: bindX_apply pop_timer_def with_block_def fun_eq_iff)
next
  case (Cons t ts)
  let ?b = "b\<lparr>b_timer_queue := ts\<rparr>" and ?b1 = "b\<lparr>b_timer_queue := ts, b_local := T t (b_local b)\<rparr>"
  have m: "call_method recv a (bh_handle_timer (sink R T A) t) (h(a \<mapsto> ?b)) = (Inr (), h(a \<mapsto> ?b1))"
    using call_method_quiet[of "h(a \<mapsto> ?b)" a ?b "bh_handle_timer (sink R T A) t" "T t (b_local b)" recv]
    by (simp add: sink_def)
  have "run_timers (sink R T A) recv a (Suc (Suc (length ts))) h = run_timers (sink R T A) recv a (Suc (length ts)) (h(a \<mapsto> ?b1))"
    unfolding run_timers.simps(2)[of _ _ _ "Suc (length ts)"] bindX_apply[of "pop_timer a"] pop_timer_Cons[where h = h and a = a, OF Cons.prems]
    by (simp only: prod.case sum.case option.case bindX_apply[of "call_method recv a (bh_handle_timer (sink R T A) t)"] m)
  also have "\<dots> = (Inr (), (h(a \<mapsto> ?b1))(a \<mapsto> ?b1\<lparr>b_timer_queue := [], b_local := fold T ts (b_local ?b1)\<rparr>))"
    by (rule Cons.IH) simp_all
  finally show ?case by (simp add: fun_eq_iff)
qed

lemma run_gate_sink:
  assumes "h a = Some b" and "i < length (b_ingates b)" and "dbq_inv gate_qlen (ig_queue (b_ingates b ! i))"
  shows "\<exists>q. run_gate (sink R T A) recv (a, i) n h =
      (Inr (), h(a \<mapsto> b\<lparr>b_ingates := (b_ingates b)[i := (b_ingates b ! i)\<lparr>ig_queue := q\<rparr>],
         b_local := fold (\<lambda>m. R m i) (take n (dbq_elems (ig_queue (b_ingates b ! i)))) (b_local b)\<rparr>)) \<and>
    dbq_inv gate_qlen q \<and> dbq_elems q = drop n (dbq_elems (ig_queue (b_ingates b ! i)))"
  using assms
proof (induction n arbitrary: h b)
  case 0
  then show ?case by (intro exI[of _ "ig_queue (b_ingates b ! i)"]) (simp add: map_upd_triv)
next
  case (Suc n)
  let ?x = "b_ingates b ! i"
  obtain q1 where pop: "dbq_pop_msg gate_qlen (ig_queue ?x) =
      Inr (case dbq_elems (ig_queue ?x) of [] \<Rightarrow> None | y # _ \<Rightarrow> Some y, q1)" "dbq_inv gate_qlen q1" "dbq_elems q1 = tl (dbq_elems (ig_queue ?x))"
    using dbq_pop_ok[OF Suc.prems(3)] by (auto simp: dbq_pop_msg_def split: list.splits)
  show ?case
  proof (cases "dbq_elems (ig_queue ?x)")
    case Nil
    then show ?thesis using Suc.prems pop
      by (intro exI[of _ q1]) (auto simp: bindX_apply dequeue_def with_in_def with_block_def fun_eq_iff)
  next
    case (Cons m ms)
    define b1 where "b1 = b\<lparr>b_ingates := (b_ingates b)[i := ?x\<lparr>ig_queue := q1\<rparr>], b_local := R m i (b_local b)\<rparr>"
    have x1: "b_ingates b1 ! i = ?x\<lparr>ig_queue := q1\<rparr>" "i < length (b_ingates b1)" using Suc.prems by (simp_all add: b1_def)
    have e1: "dbq_elems q1 = ms" using pop(3) Cons by simp
    obtain q where q: "run_gate (sink R T A) recv (a, i) n (h(a \<mapsto> b1)) =
        (Inr (), h(a \<mapsto> b1\<lparr>b_ingates := (b_ingates b1)[i := ?x\<lparr>ig_queue := q\<rparr>],
           b_local := fold (\<lambda>m. R m i) (take n ms) (b_local b1)\<rparr>))"
      "dbq_inv gate_qlen q" "dbq_elems q = drop n ms"
      using Suc.IH[of "h(a \<mapsto> b1)" b1] x1 pop(2) e1 by (auto simp flip: fun_upd_def)
    have "run_gate (sink R T A) recv (a, i) (Suc n) h = run_gate (sink R T A) recv (a, i) n (h(a \<mapsto> b1))"
      using Suc.prems pop Cons
      by (simp add: bindX_apply dequeue_def with_in_def with_block_def call_method_def sink_def b1_def)
    with q Cons show ?thesis by (intro exI[of _ q]) (simp add: b1_def flip: fun_upd_def)
  qed
qed

definition serve_gates :: "('m \<Rightarrow> nat \<Rightarrow> 'u \<Rightarrow> 'u) \<Rightarrow> 'm ingate list \<Rightarrow> nat list \<Rightarrow> 'u \<Rightarrow> 'u" where
  "serve_gates R gs is = fold (\<lambda>i. fold (\<lambda>m. R m i) (take MAX_MSG_DEQUEUE (dbq_elems (ig_queue (gs ! i))))) is"

lemma run_gates_sink:
  assumes "h a = Some b" and "k \<le> length (b_ingates b)" and "\<forall>x \<in> set (b_ingates b). dbq_inv gate_qlen (ig_queue x)"
  shows "\<exists>b'. forX [0..<k] (\<lambda>i. run_gate (sink R T A) recv (a, i) MAX_MSG_DEQUEUE) h = (Inr (), h(a \<mapsto> b')) \<and>
    b_local b' = serve_gates R (b_ingates b) [0..<k] (b_local b) \<and> b_timer_queue b' = b_timer_queue b \<and>
    length (b_ingates b') = length (b_ingates b) \<and>
    (\<forall>i < length (b_ingates b). dbq_inv gate_qlen (ig_queue (b_ingates b' ! i)) \<and>
      dbq_elems (ig_queue (b_ingates b' ! i)) =
        (if i < k then drop MAX_MSG_DEQUEUE (dbq_elems (ig_queue (b_ingates b ! i))) else dbq_elems (ig_queue (b_ingates b ! i))))"
  using assms(2)
proof (induction k)
  case 0
  then show ?case using assms by (intro exI[of _ b]) (auto simp: serve_gates_def map_upd_triv)
next
  case (Suc k)
  then obtain b1 where 1: "forX [0..<k] (\<lambda>i. run_gate (sink R T A) recv (a, i) MAX_MSG_DEQUEUE) h = (Inr (), h(a \<mapsto> b1))"
    "b_local b1 = serve_gates R (b_ingates b) [0..<k] (b_local b)" "b_timer_queue b1 = b_timer_queue b"
    "length (b_ingates b1) = length (b_ingates b)"
    "\<forall>i < length (b_ingates b). dbq_inv gate_qlen (ig_queue (b_ingates b1 ! i)) \<and> dbq_elems (ig_queue (b_ingates b1 ! i)) =
        (if i < k then drop MAX_MSG_DEQUEUE (dbq_elems (ig_queue (b_ingates b ! i))) else dbq_elems (ig_queue (b_ingates b ! i)))"
    using Suc_leD by metis
  have k: "k < length (b_ingates b1)" "dbq_inv gate_qlen (ig_queue (b_ingates b1 ! k))"
    "dbq_elems (ig_queue (b_ingates b1 ! k)) = dbq_elems (ig_queue (b_ingates b ! k))"
    using Suc.prems 1(4,5) by auto
  obtain q where q: "run_gate (sink R T A) recv (a, k) MAX_MSG_DEQUEUE (h(a \<mapsto> b1)) =
      (Inr (), h(a \<mapsto> b1\<lparr>b_ingates := (b_ingates b1)[k := (b_ingates b1 ! k)\<lparr>ig_queue := q\<rparr>],
         b_local := fold (\<lambda>m. R m k) (take MAX_MSG_DEQUEUE (dbq_elems (ig_queue (b_ingates b ! k)))) (b_local b1)\<rparr>))"
    "dbq_inv gate_qlen q" "dbq_elems q = drop MAX_MSG_DEQUEUE (dbq_elems (ig_queue (b_ingates b ! k)))"
    using run_gate_sink[of "h(a \<mapsto> b1)" a b1 k R T A recv MAX_MSG_DEQUEUE] k by auto
  define b2 where "b2 = b1\<lparr>b_ingates := (b_ingates b1)[k := (b_ingates b1 ! k)\<lparr>ig_queue := q\<rparr>],
    b_local := fold (\<lambda>m. R m k) (take MAX_MSG_DEQUEUE (dbq_elems (ig_queue (b_ingates b ! k)))) (b_local b1)\<rparr>"
  have "forX [0..<Suc k] (\<lambda>i. run_gate (sink R T A) recv (a, i) MAX_MSG_DEQUEUE) h = (Inr (), h(a \<mapsto> b2))"
    using 1(1) q(1) by (simp add: forX_append bindX_apply b2_def)
  moreover have "b_local b2 = serve_gates R (b_ingates b) [0..<Suc k] (b_local b)"
    by (simp add: b2_def 1(2) serve_gates_def)
  moreover have "\<forall>i < length (b_ingates b). dbq_inv gate_qlen (ig_queue (b_ingates b2 ! i)) \<and> dbq_elems (ig_queue (b_ingates b2 ! i)) =
      (if i < Suc k then drop MAX_MSG_DEQUEUE (dbq_elems (ig_queue (b_ingates b ! i))) else dbq_elems (ig_queue (b_ingates b ! i)))"
    using 1(4,5) q(2,3) k(1) by (auto simp: b2_def nth_list_update less_Suc_eq)
  ultimately show ?case using 1(3,4) by (intro exI[of _ b2]) (simp add: b2_def flip: fun_upd_def)
qed



end
