(* ===== verification/Block_Links.thy ===== *)
theory Block_Links
  imports Block_Run
begin

text \<open>
  The links between gates are stored twice, in the peer list of the output gate and in that of
  the input gate. This theory shows that connecting and disconnecting keep the two in step, and
  where \<open>disconnect_all\<close> does not.
\<close>

definition in_exists :: "('m, 't, 'u) heap \<Rightarrow> gptr \<Rightarrow> bool" where
  "in_exists h g \<longleftrightarrow> (\<exists>b. h (fst g) = Some b \<and> snd g < length (b_ingates b))"

definition out_exists :: "('m, 't, 'u) heap \<Rightarrow> gptr \<Rightarrow> bool" where
  "out_exists h g \<longleftrightarrow> (\<exists>b. h (fst g) = Some b \<and> snd g < length (b_outgates b))"

definition peers_in :: "('m, 't, 'u) heap \<Rightarrow> gptr \<Rightarrow> gptr list" where
  "peers_in h g = (case gate_of h g of None \<Rightarrow> [] | Some x \<Rightarrow> ig_peers x)"

definition peers_out :: "('m, 't, 'u) heap \<Rightarrow> gptr \<Rightarrow> gptr list" where
  "peers_out h g = (case h (fst g) of
     None \<Rightarrow> [] | Some b \<Rightarrow> if snd g < length (b_outgates b) then b_outgates b ! snd g else [])"

text \<open>Each link is recorded equally often on both sides.\<close>

definition symmetric_links :: "('m, 't, 'u) heap \<Rightarrow> bool" where
  "symmetric_links h \<longleftrightarrow> (\<forall>p g. count_list (peers_out h p) g = count_list (peers_in h g) p)"

definition same_gates :: "('m, 't, 'u) heap \<Rightarrow> ('m, 't, 'u) heap \<Rightarrow> bool" where
  "same_gates h h' \<longleftrightarrow> in_exists h' = in_exists h \<and> out_exists h' = out_exists h"

lemma same_gates_refl [simp]: "same_gates h h"
  by (simp add: same_gates_def)

lemma same_gates_trans: "same_gates h h1 \<Longrightarrow> same_gates h1 h2 \<Longrightarrow> same_gates h h2"
  by (simp add: same_gates_def)

lemma with_in_effect:
  assumes "in_exists h g" and "\<And>x. f x = (r, x\<lparr>ig_peers := ps (ig_peers x), ig_queue := qf (ig_queue x)\<rparr>)"
  shows "\<exists>h'. with_in g f h = (r, h') \<and> same_gates h h' \<and> peers_out h' = peers_out h \<and>
    peers_in h' = (peers_in h)(g := ps (peers_in h g))"
proof -
  obtain b where b: "h (fst g) = Some b" "snd g < length (b_ingates b)" using assms(1) by (auto simp: in_exists_def)
  let ?x = "b_ingates b ! snd g"
  define x' where "x' = ?x\<lparr>ig_peers := ps (ig_peers ?x), ig_queue := qf (ig_queue ?x)\<rparr>"
  define h' where "h' = h(fst g \<mapsto> b\<lparr>b_ingates := (b_ingates b)[snd g := x']\<rparr>)"
  have "with_in g f h = (r, h')" using b assms(2) by (simp add: with_in_def with_block_def h'_def x'_def)
  moreover have "same_gates h h'" using b by (auto simp: same_gates_def in_exists_def out_exists_def h'_def fun_eq_iff)
  moreover have "peers_out h' = peers_out h" using b by (auto simp: peers_out_def h'_def fun_eq_iff)
  moreover have "gate_of h' p = (if p = g then Some x' else gate_of h p)" for p
    using b by (cases p; cases g) (auto simp: gate_of_def h'_def)
  then have "peers_in h' = (peers_in h)(g := ps (peers_in h g))"
    using b by (auto simp: peers_in_def fun_eq_iff x'_def gate_of_def)
  ultimately show ?thesis by blast
qed

lemma with_out_effect:
  assumes "out_exists h g" and "f (peers_out h g) = (r, ps)"
  shows "\<exists>h'. with_out g f h = (r, h') \<and> same_gates h h' \<and> peers_in h' = peers_in h \<and>
    peers_out h' = (peers_out h)(g := ps)"
proof -
  obtain b where b: "h (fst g) = Some b" "snd g < length (b_outgates b)" using assms(1) by (auto simp: out_exists_def)
  then have p: "peers_out h g = b_outgates b ! snd g" by (simp add: peers_out_def)
  define h' where "h' = h(fst g \<mapsto> b\<lparr>b_outgates := (b_outgates b)[snd g := ps]\<rparr>)"
  have "with_out g f h = (r, h')" using b assms(2) p by (simp add: with_out_def with_block_def h'_def)
  moreover have "same_gates h h'" using b by (auto simp: same_gates_def in_exists_def out_exists_def h'_def fun_eq_iff)
  moreover have "peers_in h' = peers_in h" using b by (auto simp: peers_in_def gate_of_def h'_def fun_eq_iff)
  moreover have "peers_out h' q = ((peers_out h)(g := ps)) q" for q
    using b by (cases q; cases g) (auto simp: peers_out_def h'_def)
  ultimately show ?thesis by blast
qed

lemma in_connect_ok:
  "in_exists h g \<Longrightarrow> \<exists>h'. in_connect g p h = (Inr (), h') \<and> same_gates h h' \<and> peers_out h' = peers_out h \<and>
     peers_in h' = (peers_in h)(g := peers_in h g @ [p])"
  unfolding in_connect_def by (rule with_in_effect[where ps = "\<lambda>ps. ps @ [p]" and qf = "\<lambda>q. q"]) simp_all

lemma out_connect_ok:
  "out_exists h p \<Longrightarrow> \<exists>h'. out_connect p g h = (Inr (), h') \<and> same_gates h h' \<and> peers_in h' = peers_in h \<and>
     peers_out h' = (peers_out h)(p := peers_out h p @ [g])"
  unfolding out_connect_def by (rule with_out_effect) simp_all

lemma in_disconnect_ok:
  assumes "in_exists h g" and "p \<in> set (peers_in h g)"
  shows "\<exists>h'. in_disconnect g p h = (Inr (), h') \<and> same_gates h h' \<and> peers_out h' = peers_out h \<and>
     peers_in h' = (peers_in h)(g := filter (\<lambda>q. q \<noteq> p) (peers_in h g))"
proof -
  obtain b where b: "h (fst g) = Some b" "snd g < length (b_ingates b)" using assms(1) by (auto simp: in_exists_def)
  then have "p \<in> set (ig_peers (b_ingates b ! snd g))" using assms(2) by (simp add: peers_in_def gate_of_def)
  then have "in_disconnect g p h = with_in g (\<lambda>x. (Inr (), x\<lparr>ig_peers := filter (\<lambda>q. q \<noteq> p) (ig_peers x), ig_queue := ig_queue x\<rparr>)) h"
    using b by (simp add: in_disconnect_def with_in_def with_block_def erase_peer_def)
  with with_in_effect[OF assms(1), of "\<lambda>x. (Inr (), x\<lparr>ig_peers := filter (\<lambda>q. q \<noteq> p) (ig_peers x), ig_queue := ig_queue x\<rparr>)"
      "Inr ()" "\<lambda>q. q" "filter (\<lambda>q. q \<noteq> p)"]
  show ?thesis by simp
qed

lemma out_disconnect_ok:
  assumes "out_exists h p" and "g \<in> set (peers_out h p)"
  shows "\<exists>h'. out_disconnect p g h = (Inr (), h') \<and> same_gates h h' \<and> peers_in h' = peers_in h \<and>
     peers_out h' = (peers_out h)(p := filter (\<lambda>q. q \<noteq> g) (peers_out h p))"
  unfolding out_disconnect_def using assms by (intro with_out_effect) (simp_all add: erase_peer_def)

lemma disconnect_missing:
  assumes "in_exists h g" and "p \<notin> set (peers_in h g)"
  shows "in_disconnect g p h = (Inl (Runtime_Error ''trying to disconect a non-connected gate''), h)"
proof -
  obtain b where b: "h (fst g) = Some b" "snd g < length (b_ingates b)" using assms(1) by (auto simp: in_exists_def)
  then have "p \<notin> set (ig_peers (b_ingates b ! snd g))" using assms(2) by (simp add: peers_in_def gate_of_def)
  then show ?thesis using b by (simp add: in_disconnect_def with_in_def with_block_def erase_peer_def map_upd_triv)
qed

subsection \<open>Connecting and disconnecting a pair\<close>

lemma symmetric_connect:
  assumes "symmetric_links h" and "peers_out h' = (peers_out h)(p := peers_out h p @ [g])"
    and "peers_in h' = (peers_in h)(g := peers_in h g @ [p])"
  shows "symmetric_links h'"
  using assms by (auto simp: symmetric_links_def)

lemma symmetric_disconnect:
  assumes "symmetric_links h" and "peers_out h' = (peers_out h)(p := filter (\<lambda>q. q \<noteq> g) (peers_out h p))"
    and "peers_in h' = (peers_in h)(g := filter (\<lambda>q. q \<noteq> p) (peers_in h g))"
  shows "symmetric_links h'"
proof -
  have c: "count_list (filter (\<lambda>q. q \<noteq> y) xs) x = (if x = y then 0 else count_list xs x)" for x y and xs :: "gptr list"
    by (induction xs) auto
  show ?thesis using assms(1) unfolding symmetric_links_def assms(2,3) by (auto simp: c)
qed

lemma symmetric_mem: "symmetric_links h \<Longrightarrow> g \<in> set (peers_out h p) \<longleftrightarrow> p \<in> set (peers_in h g)"
  unfolding symmetric_links_def by (metis count_list_0_iff)

subsection \<open>Disconnecting a gate from all its peers\<close>

lemma disconnect_from_all:
  assumes "distinct ps" and "\<And>g. g \<in> set ps \<Longrightarrow> in_exists h g \<and> p \<in> set (peers_in h g)"
  shows "\<exists>h'. forX ps (\<lambda>g. in_disconnect g p) h = (Inr (), h') \<and> same_gates h h' \<and> peers_out h' = peers_out h \<and>
    (\<forall>g. peers_in h' g = (if g \<in> set ps then filter (\<lambda>q. q \<noteq> p) (peers_in h g) else peers_in h g))"
  using assms
proof (induction ps arbitrary: h)
  case Nil
  then show ?case by simp
next
  case (Cons g ps)
  obtain h1 where 1: "in_disconnect g p h = (Inr (), h1)" "same_gates h h1" "peers_out h1 = peers_out h"
    "peers_in h1 = (peers_in h)(g := filter (\<lambda>q. q \<noteq> p) (peers_in h g))"
    using in_disconnect_ok[of h g p] Cons.prems(2)[of g] by auto
  have "in_exists h1 q \<and> p \<in> set (peers_in h1 q)" if "q \<in> set ps" for q
    using Cons.prems that 1(2,4) by (auto simp: same_gates_def)
  with Cons.IH[of h1] Cons.prems(1) obtain h2 where 2: "forX ps (\<lambda>g. in_disconnect g p) h1 = (Inr (), h2)" "same_gates h1 h2"
    "peers_out h2 = peers_out h1"
    "\<forall>q. peers_in h2 q = (if q \<in> set ps then filter (\<lambda>q. q \<noteq> p) (peers_in h1 q) else peers_in h1 q)" by auto
  have "\<forall>q. peers_in h2 q = (if q \<in> set (g # ps) then filter (\<lambda>q. q \<noteq> p) (peers_in h q) else peers_in h q)"
    using 2(4) 1(4) Cons.prems(1) by auto
  with 1 2 show ?case using same_gates_trans by (auto simp: bindX_apply)
qed

text \<open>
  C11: disconnecting an output gate from all its peers succeeds when no link was made twice:
  afterwards the gate has no peer, no input gate refers to it, every other link is kept and
  both sides still agree.
\<close>

theorem out_disconnect_all_ok:
  assumes "symmetric_links h" and "out_exists h p" and "distinct (peers_out h p)"
    and "\<forall>g \<in> set (peers_out h p). in_exists h g"
  shows "\<exists>h'. out_disconnect_all p h = (Inr (), h') \<and> peers_out h' = (peers_out h)(p := []) \<and>
    (\<forall>g. peers_in h' g = filter (\<lambda>q. q \<noteq> p) (peers_in h g)) \<and> symmetric_links h'"
proof -
  let ?ps = "peers_out h p"
  have get: "with_out p (getX (\<lambda>ps. ps)) h = (Inr ?ps, h)"
    using assms(2) by (auto simp: out_exists_def with_out_def with_block_def peers_out_def map_upd_triv)
  obtain h1 where 1: "forX ?ps (\<lambda>g. in_disconnect g p) h = (Inr (), h1)" "same_gates h h1" "peers_out h1 = peers_out h"
    "\<forall>g. peers_in h1 g = (if g \<in> set ?ps then filter (\<lambda>q. q \<noteq> p) (peers_in h g) else peers_in h g)"
    using disconnect_from_all[OF assms(3), of h p] assms(4) symmetric_mem[OF assms(1)] by blast
  have "out_exists h1 p" using assms(2) 1(2) by (simp add: same_gates_def)
  then obtain h2 where 2: "with_out p (modifyX (\<lambda>_. [])) h1 = (Inr (), h2)" "peers_in h2 = peers_in h1"
    "peers_out h2 = (peers_out h1)(p := [])"
    using with_out_effect[of h1 p "modifyX (\<lambda>_. [])" "Inr ()" "[]"] by auto
  have i: "peers_in h2 g = filter (\<lambda>q. q \<noteq> p) (peers_in h g)" for g
  proof (cases "g \<in> set ?ps")
    case False
    then have "p \<notin> set (peers_in h g)" using symmetric_mem[OF assms(1)] by blast
    then have "filter (\<lambda>q. q \<noteq> p) (peers_in h g) = peers_in h g" by (intro filter_True) auto
    with False 1(4)[rule_format, of g] 2(2) show ?thesis by simp
  qed (use 1(4)[rule_format, of g] 2(2) in simp)
  have c: "count_list (filter (\<lambda>q. q \<noteq> y) xs) x = (if x = y then 0 else count_list xs x)" for x y and xs :: "gptr list"
    by (induction xs) auto
  have "symmetric_links h2"
    using assms(1) unfolding symmetric_links_def i 2(3) 1(3) by (auto simp: c)
  moreover have "out_disconnect_all p h = (Inr (), h2)"
    by (simp add: out_disconnect_all_def bindX_apply get 1(1) 2(1))
  ultimately show ?thesis using i 2(3) 1(3) by auto
qed

text \<open>Two blocks joined by the given number of links.\<close>

definition pair_heap :: "nat \<Rightarrow> (nat, nat, nat) heap" where
  "pair_heap n = [0 \<mapsto> (snd (register_output_gate ''out'' (block_new ''a'' Direct 0)))\<lparr>b_outgates := [replicate n (1, 0)]\<rparr>,
     1 \<mapsto> (snd (register_input_gate ''in'' (block_new ''b'' Indirect 0)))\<lparr>b_ingates := [\<lparr>ig_queue = dbq_init, ig_peers = replicate n (0, 0)\<rparr>]\<rparr>]"

lemmas pair_defs = pair_heap_def register_output_gate_def register_input_gate_def block_new_def

lemma pair_symmetric: "symmetric_links (pair_heap n)"
proof -
  have c: "count_list (replicate n x) y = (if y = x then n else 0)" for x y :: gptr by (induction n) auto
  have "peers_out (pair_heap n) p = (if p = (0, 0) then replicate n (1, 0) else [])" for p
    by (cases p) (auto simp: peers_out_def pair_defs)
  moreover have "peers_in (pair_heap n) g = (if g = (1, 0) then replicate n (0, 0) else [])" for g
    by (cases g) (auto simp: peers_in_def gate_of_def pair_defs)
  ultimately show ?thesis by (auto simp: symmetric_links_def c)
qed

theorem out_disconnect_all_ok_witness:
  "symmetric_links (pair_heap 1) \<and> (\<exists>h'. out_disconnect_all (0, 0) (pair_heap 1) = (Inr (), h') \<and>
     peers_out h' = (peers_out (pair_heap 1))((0, 0) := []) \<and>
     (\<forall>g. peers_in h' g = filter (\<lambda>q. q \<noteq> (0, 0)) (peers_in (pair_heap 1) g)) \<and> symmetric_links h')"
proof -
  have o: "out_exists (pair_heap 1) (0, 0)" "peers_out (pair_heap 1) (0, 0) = [(1, 0)]" "in_exists (pair_heap 1) (1, 0)"
    by (simp_all add: out_exists_def in_exists_def peers_out_def pair_defs)
  show ?thesis using out_disconnect_all_ok[OF pair_symmetric o(1)] pair_symmetric o(2,3) by simp
qed

text \<open>
  a link made twice cannot be taken down by \<open>disconnect_all\<close>: the peer drops both
  copies at the first call, the second call throws, and the output gate is left with peers that
  no longer know it.
\<close>

theorem duplicate_link_breaks_disconnect_all:
  "symmetric_links (pair_heap 2) \<and>
   (case out_disconnect_all (0, 0) (pair_heap 2) of (r, h') \<Rightarrow>
      r = Inl (Runtime_Error ''trying to disconect a non-connected gate'') \<and>
      peers_out h' (0, 0) = [(1, 0), (1, 0)] \<and> peers_in h' (1, 0) = [])"
proof -
  have "case out_disconnect_all (0, 0) (pair_heap 2) of (r, h') \<Rightarrow>
      r = Inl (Runtime_Error ''trying to disconect a non-connected gate'') \<and>
      peers_out h' (0, 0) = [(1, 0), (1, 0)] \<and> peers_in h' (1, 0) = []"
    by (simp add: out_disconnect_all_def bindX_apply with_out_def with_in_def with_block_def in_disconnect_def erase_peer_def
        peers_out_def peers_in_def gate_of_def pair_defs numeral_2_eq_2)
  with pair_symmetric show ?thesis by blast
qed

end
