(* ===== verification/Schedulers.thy ===== *)
theory Schedulers
  imports Task_Queues
begin

text \<open>
  The scheduling policies of \<open>core/scheduler/schedulers\<close> behind the template class
  \<open>PluginScheduler\<close> of \<open>core/scheduler/Scheduler.hpp\<close>. The build selects
  \<open>DumbScheduler\<close>; \<open>RRScheduler\<close> is the other policy of the tree. The locale
  \<open>task_scheduler\<close> states what a thread pool relies on; both policies provide it.
\<close>

subsection \<open>The policy interface\<close>

record ('s, 'b) sched =
  sc_new :: "nat \<Rightarrow> 's"
  sc_register :: "nat \<Rightarrow> nat list \<Rightarrow> ('s, unit) op"
  sc_unregister :: "nat \<Rightarrow> ('s, unit) op"
  sc_add :: "'b \<Rightarrow> ('s, unit) op"
  sc_remove :: "'b \<Rightarrow> ('s, unit) op"
  sc_next :: "nat \<Rightarrow> ('s, 'b option) op"
  sc_done :: "nat \<Rightarrow> 'b \<Rightarrow> ('s, unit) op"

subsection \<open>DumbScheduler\<close>

definition DumbScheduler :: "('b mpmc, 'b) sched" where
  "DumbScheduler =
     \<lparr>sc_new = (\<lambda>_. []),
      sc_register = (\<lambda>_ _. returnX ()),
      sc_unregister = (\<lambda>_. returnX ()),
      sc_add = (\<lambda>b. modifyX (mpmc_push b)),
      sc_remove = (\<lambda>b. modifyX (mpmc_remove b)),
      sc_next = (\<lambda>_ q. case mpmc_pop q of (x, q') \<Rightarrow> (Inr x, q')),
      sc_done = (\<lambda>_ b. modifyX (mpmc_push b))\<rparr>"

subsection \<open>RRScheduler\<close>

record 'b rr =
  rr_last_id :: u32
  rr_nq :: u32
  rr_queues :: "'b ring list"

definition rr_new :: "nat \<Rightarrow> 'b rr" where
  "rr_new nq = \<lparr>rr_last_id = 0, rr_nq = of_nat nq, rr_queues = replicate (unat (of_nat nq :: u32)) ring_init\<rparr>"

definition rr_check :: "nat \<Rightarrow> ('b rr, unit) op" where
  "rr_check i = bindX (getX rr_nq) (\<lambda>nq.
     if nq \<le> of_nat i then throwX (Runtime_Error ''RRSCheduler::thread index out of range'') else returnX ())"

definition rr_upd :: "nat \<Rightarrow> 'b ring \<Rightarrow> 'b rr \<Rightarrow> 'b rr" where
  "rr_upd i r s = s\<lparr>rr_queues := (rr_queues s)[i := r]\<rparr>"

text \<open>An empty policy (\<open>nq = 0\<close>) divides by zero in \<open>add_block\<close>.\<close>

definition rr_add :: "'b \<Rightarrow> ('b rr, unit) op" where
  "rr_add b s =
     (if rr_nq s = 0 then (Inl Undefined_Behaviour, s)
      else
        let i = unat (rr_last_id s mod rr_nq s);
            s1 = s\<lparr>rr_last_id := rr_last_id s + 1\<rparr>
        in case ring_push_back 32 (Some b) (rr_queues s ! i) of
             (True, r) \<Rightarrow> (Inr (), rr_upd i r s1)
           | (False, r) \<Rightarrow> (Inl (Runtime_Error ''RRScheduler:: task queue is full''), rr_upd i r s1))"

fun rr_scan :: "nat \<Rightarrow> 'b \<Rightarrow> ('b ring, bool) op" where
  "rr_scan 0 b r = (Inr False, r)"
| "rr_scan (Suc n) b r =
     (case ring_pop_front 32 r of
        (None, r1) \<Rightarrow> (Inl (Runtime_Error ''RRScheduler:: wrong size''), r1)
      | (Some x, r1) \<Rightarrow> if x = Some b then (Inr True, r1) else rr_scan n b (snd (ring_push_back 32 x r1)))"

fun rr_remove_from :: "'b \<Rightarrow> ('b ring list, unit) op" where
  "rr_remove_from b [] = (Inl (Runtime_Error ''RRScheduler:: block to be removed was not found''), [])"
| "rr_remove_from b (q # qs) =
     (case rr_scan (ring_size 32 q) b q of
        (Inl e, q') \<Rightarrow> (Inl e, q' # qs)
      | (Inr True, q') \<Rightarrow> (Inr (), q' # qs)
      | (Inr False, q') \<Rightarrow> (case rr_remove_from b qs of (r, qs') \<Rightarrow> (r, q' # qs')))"

definition rr_remove :: "'b \<Rightarrow> ('b rr, unit) op" where
  "rr_remove b s = (case rr_remove_from b (rr_queues s) of (r, qs) \<Rightarrow> (r, s\<lparr>rr_queues := qs\<rparr>))"

definition rr_next :: "nat \<Rightarrow> ('b rr, 'b option) op" where
  "rr_next i = bindX (rr_check i) (\<lambda>_ s.
     case ring_pop_front 32 (rr_queues s ! i) of
       (None, r) \<Rightarrow> (Inr None, rr_upd i r s)
     | (Some x, r) \<Rightarrow> (Inr x, rr_upd i r s))"

definition rr_done :: "nat \<Rightarrow> 'b \<Rightarrow> ('b rr, unit) op" where
  "rr_done i b = bindX (rr_check i) (\<lambda>_ s.
     case ring_push_back 32 (Some b) (rr_queues s ! i) of
       (True, r) \<Rightarrow> (Inr (), rr_upd i r s)
     | (False, r) \<Rightarrow> (Inl (Runtime_Error ''RRScheduler:: after taks execution task queue has become full''), rr_upd i r s))"

definition RRScheduler :: "('b rr, 'b) sched" where
  "RRScheduler =
     \<lparr>sc_new = rr_new, sc_register = (\<lambda>i _. rr_check i), sc_unregister = (\<lambda>_. returnX ()),
      sc_add = rr_add, sc_remove = rr_remove, sc_next = rr_next, sc_done = rr_done\<rparr>"

subsection \<open>What a thread pool relies on\<close>

text \<open>
  \<open>inv s h\<close> relates the scheduler's state to the blocks the threads hold. A scheduler hands
  out a block it has, takes it back from the thread that has it, and never fails there.
\<close>

locale task_scheduler =
  fixes S :: "('s, 'b) sched"
    and n :: nat
    and inv :: "'s \<Rightarrow> (nat \<Rightarrow> 'b option) \<Rightarrow> bool"
    and tasks :: "'s \<Rightarrow> 'b multiset"
  assumes new_ok: "inv (sc_new S n) (\<lambda>_. None)" "tasks (sc_new S n) = {#}"
    and register_ok: "inv s h \<Longrightarrow> i < n \<Longrightarrow> sc_register S i aff s = (Inr (), s)"
    and next_ok: "inv s h \<Longrightarrow> i < n \<Longrightarrow> h i = None \<Longrightarrow> \<exists>xo s'. sc_next S i s = (Inr xo, s') \<and>
      inv s' (h(i := xo)) \<and> tasks s = (case xo of None \<Rightarrow> {#} | Some b \<Rightarrow> {#b#}) + tasks s'"
    and done_ok: "inv s h \<Longrightarrow> i < n \<Longrightarrow> h i = Some b \<Longrightarrow> \<exists>s'. sc_done S i b s = (Inr (), s') \<and>
      inv s' (h(i := None)) \<and> tasks s' = add_mset b (tasks s)"
    and drop_ok: "inv s h \<Longrightarrow> inv s (h(i := None))"
    and add_ok: "inv s (\<lambda>_. None) \<Longrightarrow> 0 < n \<Longrightarrow> sc_add S b s = (r, s') \<Longrightarrow> inv s' (\<lambda>_. None) \<and>
      tasks s' = (case r of Inl _ \<Rightarrow> tasks s | Inr _ \<Rightarrow> add_mset b (tasks s))"
    and remove_ok: "inv s (\<lambda>_. None) \<Longrightarrow> sc_remove S b s = (r, s') \<Longrightarrow> inv s' (\<lambda>_. None) \<and>
      (\<forall>c. c \<noteq> b \<longrightarrow> count (tasks s') c = count (tasks s) c) \<and>
      (count (tasks s) b \<le> 1 \<longrightarrow> count (tasks s') b = 0)"

interpretation dumb: task_scheduler DumbScheduler n "\<lambda>_ _. True" mset for n
proof (unfold_locales, goal_cases)
  case (4 q h i)
  then show ?case by (cases q) (auto simp: DumbScheduler_def)
next
  case (7 q b r q')
  then show ?case by (auto simp: DumbScheduler_def mpmc_push_def)
next
  case (8 q b r q')
  then show ?case by (auto simp: DumbScheduler_def mpmc_remove_def)
qed (auto simp: DumbScheduler_def mpmc_push_def)

subsection \<open>RRScheduler provides the contract\<close>

lemma ring32:
  shows ring32_push: "ring_inv 5 r \<Longrightarrow> \<exists>r'. ring_push_back 32 (Some x) r = (length (ring_elems 5 r) < 31, r') \<and>
      ring_inv 5 r' \<and> ring_elems 5 r' = (if length (ring_elems 5 r) < 31 then ring_elems 5 r @ [x] else ring_elems 5 r)"
    and ring32_pop_nil: "ring_inv 5 r \<Longrightarrow> ring_elems 5 r = [] \<Longrightarrow> ring_pop_front 32 r = (None, r)"
    and ring32_pop: "ring_inv 5 r \<Longrightarrow> ring_elems 5 r = x # xs \<Longrightarrow>
      \<exists>r'. ring_pop_front 32 r = (Some (Some x), r') \<and> ring_inv 5 r' \<and> ring_elems 5 r' = xs"
    and ring32_size: "ring_inv 5 r \<Longrightarrow> ring_size 32 r = length (ring_elems 5 r)"
    and ring32_length: "length (ring_elems 5 r) \<le> 31"
  using ring_push_ok[of 5 r x] ring_pop_nil[of 5 r] ring_pop_cons[of 5 r x xs] ring_size_eq[of 5 r]
  by (simp_all add: length_ring_elems ring_cnt_def)

definition rr_held :: "(nat \<Rightarrow> 'b option) \<Rightarrow> nat \<Rightarrow> nat" where
  "rr_held h i = (if h i = None then 0 else 1)"

definition rr_inv :: "u32 \<Rightarrow> 'b rr \<Rightarrow> (nat \<Rightarrow> 'b option) \<Rightarrow> bool" where
  "rr_inv w s h \<longleftrightarrow> rr_nq s = w \<and> length (rr_queues s) = unat w \<and>
     (\<forall>i < unat w. ring_inv 5 (rr_queues s ! i) \<and> length (ring_elems 5 (rr_queues s ! i)) + rr_held h i \<le> 31)"

definition rr_tasks :: "'b rr \<Rightarrow> 'b multiset" where
  "rr_tasks s = mset (concat (map (ring_elems 5) (rr_queues s)))"

lemma mset_concat_update:
  "i < length qs \<Longrightarrow> mset (concat (map f (qs[i := r]))) + mset (f (qs ! i)) = mset (concat (map f qs)) + mset (f r)"
  by (induction qs arbitrary: i) (auto split: nat.split simp: ac_simps)

lemma rr_tasks_upd:
  "i < length (rr_queues s) \<Longrightarrow>
   rr_tasks (rr_upd i r s) + mset (ring_elems 5 (rr_queues s ! i)) = rr_tasks s + mset (ring_elems 5 r)"
  by (simp add: rr_tasks_def rr_upd_def mset_concat_update)

lemma rr_inv_upd:
  assumes "rr_inv w s h" and "ring_inv 5 r" and "length (ring_elems 5 r) + rr_held h' i \<le> 31"
    and "\<And>j. j \<noteq> i \<Longrightarrow> h' j = h j"
  shows "rr_inv w (rr_upd i r s) h'"
proof -
  have "ring_inv 5 ((rr_queues s)[i := r] ! j) \<and> length (ring_elems 5 ((rr_queues s)[i := r] ! j)) + rr_held h' j \<le> 31"
    if "j < unat w" for j
    using assms that by (cases "j = i") (auto simp: rr_inv_def rr_held_def)
  with assms(1) show ?thesis by (simp add: rr_inv_def rr_upd_def)
qed

lemma rr_check_ok: "rr_nq s = w \<Longrightarrow> i < unat w \<Longrightarrow> rr_check i s = (Inr (), s)"
proof -
  assume w: "rr_nq s = w" "i < unat w"
  moreover have "unat w < 2 ^ 32" by (rule less_le_trans[OF unsigned_less]) simp
  ultimately have "i < 2 ^ 32" by simp
  then have "unat (of_nat i :: u32) = i" by (simp add: unat_of_nat take_bit_nat_eq_self)
  with w have "\<not> w \<le> of_nat i" by (simp add: word_le_nat_alt)
  with w show ?thesis by (simp add: rr_check_def bindX_apply)
qed

lemma rr_scan_ok:
  assumes "ring_inv 5 r" and "k \<le> length (ring_elems 5 r)"
  shows "\<exists>f r'. rr_scan k b r = (Inr f, r') \<and> ring_inv 5 r' \<and> f = (b \<in> set (take k (ring_elems 5 r))) \<and>
    mset (ring_elems 5 r') = mset (ring_elems 5 r) - (if f then {#b#} else {#})"
  using assms
proof (induction k arbitrary: r)
  case 0
  then show ?case by auto
next
  case (Suc k)
  then obtain x xs where e: "ring_elems 5 r = x # xs" by (cases "ring_elems 5 r") auto
  obtain r1 where 1: "ring_pop_front 32 r = (Some (Some x), r1)" "ring_inv 5 r1" "ring_elems 5 r1 = xs"
    using ring32_pop[OF Suc.prems(1) e] by blast
  show ?case
  proof (cases "x = b")
    case True
    then show ?thesis using 1 e by auto
  next
    case False
    have lt: "length xs < 31" using ring32_length[of r] e by simp
    obtain r2 where 2: "ring_push_back 32 (Some x) r1 = (True, r2)" "ring_inv 5 r2" "ring_elems 5 r2 = xs @ [x]"
      using ring32_push[OF 1(2), of x] lt 1(3) by auto
    have "k \<le> length xs" using Suc.prems(2) e by simp
    then have "take k (ring_elems 5 r2) = take k xs" using 2(3) by simp
    with Suc.IH[OF 2(2)] \<open>k \<le> length xs\<close> 2 1 False e show ?thesis
      by (force simp: diff_add_mset_swap)
  qed
qed

lemma mset_union_diff: "b \<notin> set xs \<Longrightarrow> mset xs + (B - {#b#}) = mset xs + B - {#b#}"
  using diff_union_single_conv[of b B "mset xs"] by (cases "b \<in># B") (auto simp: diff_single_trivial)

lemma rr_remove_from_ok:
  assumes "\<forall>q \<in> set qs. ring_inv 5 q" and "rr_remove_from b qs = (r, qs')"
  shows "length qs' = length qs \<and> (\<forall>q \<in> set qs'. ring_inv 5 q) \<and>
    (\<forall>i < length qs. length (ring_elems 5 (qs' ! i)) \<le> length (ring_elems 5 (qs ! i))) \<and>
    mset (concat (map (ring_elems 5) qs')) = mset (concat (map (ring_elems 5) qs)) - {#b#}"
  using assms
proof (induction qs arbitrary: r qs')
  case Nil
  then show ?case by simp
next
  case (Cons q qs)
  have "ring_size 32 q = length (ring_elems 5 q)" using Cons.prems by (intro ring32_size) simp
  then obtain f q1 where 1: "rr_scan (ring_size 32 q) b q = (Inr f, q1)" "ring_inv 5 q1" "f = (b \<in> set (ring_elems 5 q))"
    "mset (ring_elems 5 q1) = mset (ring_elems 5 q) - (if f then {#b#} else {#})"
    using rr_scan_ok[of q "ring_size 32 q" b] Cons.prems by auto
  have len: "length (ring_elems 5 q1) \<le> length (ring_elems 5 q)"
    using 1(4) by (metis diff_subset_eq_self size_mset size_mset_mono)
  show ?case
  proof (cases f)
    case True
    then have "b \<in># mset (ring_elems 5 q)" using 1(3) by simp
    with True 1 len Cons.prems show ?thesis by (auto simp: nth_Cons split: nat.split)
  next
    case False
    obtain r2 qs2 where 2: "rr_remove_from b qs = (r2, qs2)" by fastforce
    have "b \<notin># mset (ring_elems 5 q)" using False 1(3) by simp
    with 1 2 len False Cons.prems Cons.IH[OF _ 2] show ?thesis
      by (auto simp: nth_Cons mset_union_diff split: nat.split)
  qed
qed

interpretation rr: task_scheduler RRScheduler "unat w" "rr_inv w" rr_tasks for w
proof (unfold_locales, goal_cases)
  case 1
  then show ?case by (auto simp: RRScheduler_def rr_inv_def rr_new_def rr_held_def ring_init_inv)
next
  case 2
  then show ?case by (simp add: RRScheduler_def rr_tasks_def rr_new_def ring_init_inv)
next
  case (3 s h i aff)
  then show ?case by (simp add: RRScheduler_def rr_check_ok rr_inv_def)
next
  case (4 s h i)
  let ?q = "rr_queues s ! i"
  have q: "ring_inv 5 ?q" "i < length (rr_queues s)" "rr_check i s = (Inr (), s)"
    using 4 by (simp_all add: rr_inv_def rr_check_ok)
  show ?case
  proof (cases "ring_elems 5 ?q")
    case Nil
    then show ?thesis using 4 q ring32_pop_nil[OF q(1)] by (simp add: RRScheduler_def rr_next_def bindX_apply rr_upd_def fun_upd_idem)
  next
    case (Cons x xs)
    obtain r where r: "ring_pop_front 32 ?q = (Some (Some x), r)" "ring_inv 5 r" "ring_elems 5 r = xs"
      using ring32_pop[OF q(1) Cons] by blast
    have "length xs + 1 \<le> 31" using ring32_length[of ?q] Cons by simp
    then have "rr_inv w (rr_upd i r s) (h(i := Some x))"
      using r by (intro rr_inv_upd[OF 4(1)]) (auto simp: rr_held_def)
    moreover have "rr_tasks s = {#x#} + rr_tasks (rr_upd i r s)" using rr_tasks_upd[OF q(2), of r] r(3) Cons by simp
    ultimately show ?thesis using q r by (simp add: RRScheduler_def rr_next_def bindX_apply)
  qed
next
  case (5 s h i b)
  let ?q = "rr_queues s ! i"
  have q: "ring_inv 5 ?q" "i < length (rr_queues s)" "rr_check i s = (Inr (), s)" "length (ring_elems 5 ?q) < 31"
    using 5 by (auto simp: rr_inv_def rr_check_ok rr_held_def)
  obtain r where r: "ring_push_back 32 (Some b) ?q = (True, r)" "ring_inv 5 r" "ring_elems 5 r = ring_elems 5 ?q @ [b]"
    using ring32_push[OF q(1), of b] q(4) by auto
  have "rr_inv w (rr_upd i r s) (h(i := None))"
    using r q(4) by (intro rr_inv_upd[OF 5(1)]) (auto simp: rr_held_def)
  with q r rr_tasks_upd[OF q(2), of r] show ?case by (simp add: RRScheduler_def rr_done_def bindX_apply)
next
  case (6 s h i)
  then show ?case by (fastforce simp: rr_inv_def rr_held_def)
next
  case (7 s b r s')
  define i where "i = unat (rr_last_id s mod rr_nq s)"
  have nz: "rr_nq s \<noteq> 0" and w: "rr_nq s = w" using 7 by (auto simp: rr_inv_def)
  have i: "i < unat w" using nz w by (simp add: i_def unat_mod_distrib word_gt_0_no unat_gt_0)
  let ?q = "rr_queues s ! i"
  have q: "ring_inv 5 ?q" "i < length (rr_queues s)" using 7 i by (simp_all add: rr_inv_def)
  obtain q' where q': "ring_push_back 32 (Some b) ?q = (length (ring_elems 5 ?q) < 31, q')" "ring_inv 5 q'"
    "ring_elems 5 q' = (if length (ring_elems 5 ?q) < 31 then ring_elems 5 ?q @ [b] else ring_elems 5 ?q)"
    using ring32_push[OF q(1), of b] by blast
  have "rr_inv w (rr_upd i q' (s\<lparr>rr_last_id := rr_last_id s + 1\<rparr>)) (\<lambda>_. None)"
    using 7(1) q'(2) ring32_length[of q'] by (intro rr_inv_upd) (auto simp: rr_inv_def rr_held_def)
  moreover have "rr_tasks (rr_upd i q' (s\<lparr>rr_last_id := rr_last_id s + 1\<rparr>)) + mset (ring_elems 5 ?q) =
      rr_tasks s + mset (ring_elems 5 q')"
    using rr_tasks_upd[of i "s\<lparr>rr_last_id := rr_last_id s + 1\<rparr>" q'] q(2) by (simp add: rr_tasks_def)
  ultimately show ?case using 7(3) nz q' by (auto simp: RRScheduler_def rr_add_def Let_def i_def[symmetric] split: if_splits)
next
  case (8 s b r s')
  obtain qs where qs: "rr_remove_from b (rr_queues s) = (r, qs)" "s' = s\<lparr>rr_queues := qs\<rparr>"
    using 8(2) by (auto simp: RRScheduler_def rr_remove_def split: prod.splits)
  have "\<forall>q \<in> set (rr_queues s). ring_inv 5 q" using 8(1) by (auto simp: rr_inv_def in_set_conv_nth)
  from rr_remove_from_ok[OF this qs(1)] have r: "length qs = length (rr_queues s)" "\<forall>q \<in> set qs. ring_inv 5 q"
    "rr_tasks s' = rr_tasks s - {#b#}" using qs(2) by (auto simp: rr_tasks_def)
  have "rr_inv w s' (\<lambda>_. None)"
    using 8(1) r(1,2) ring32_length by (auto simp: rr_inv_def qs(2) rr_held_def)
  with r(3) show ?case by simp
qed

end
