(* ===== verification/Thread_Pools.thy ===== *)
theory Thread_Pools
  imports Schedulers
begin

text \<open>
  Worker threads and pools (\<open>core/scheduler/ThreadHandler.hpp\<close>,
  \<open>ThreadPool.hpp\<close>). A pool is a shared scheduler, a list of handlers and the thread that
  calls \<open>run\<close> and \<open>stop\<close>; they interleave at the grain of the atomic stop flag, the
  locked scheduler calls and the calls of a block's \<open>run\<close>. The call
  \<open>pthread_setaffinity_np\<close> is taken to succeed.
\<close>

subsection \<open>State\<close>

datatype 'b tpc = T_Off | T_Start | T_Check | T_Next | T_Run 'b | T_Done 'b | T_Exit | T_Ended

record 'b handler =
  th_stop :: bool
  th_mask :: "nat list"
  th_pc :: "'b tpc"

text \<open>Where the controlling thread is: outside, in \<open>run\<close>, or in \<open>stop\<close> at handler \<open>i\<close>.\<close>

datatype mpc = M_Idle | M_Start nat | M_Stop nat | M_Join nat

record ('s, 'b) pool =
  tp_sched :: 's
  tp_affinity :: "nat list"
  tp_running :: bool
  tp_threads :: "'b handler list"
  tp_main :: mpc

definition handler_new :: "'b handler" where
  "handler_new = \<lparr>th_stop = True, th_mask = [], th_pc = T_Off\<rparr>"

text \<open>A negative thread number makes the constructor's loop end at once.\<close>

definition pool_new :: "('s, 'b) sched \<Rightarrow> int \<Rightarrow> nat list \<Rightarrow> ('s, 'b) pool" where
  "pool_new S tnum aff =
     \<lparr>tp_sched = sc_new S (unat (of_int tnum :: u32)), tp_affinity = aff, tp_running = False,
      tp_threads = replicate (nat tnum) handler_new, tp_main = M_Idle\<rparr>"

subsection \<open>The handler\<close>

definition CPU_SETSIZE :: nat where
  "CPU_SETSIZE = 1024"

text \<open>\<open>CPU_SET\<close> ignores a number that has no bit in the mask.\<close>

fun cpu_mask :: "nat list \<Rightarrow> nat list res" where
  "cpu_mask [] = Inr []"
| "cpu_mask (a # as) =
     bindE (guardE (\<not> CPU_SETSIZE < a) (Runtime_Error ''affinity value higher than maximum allowed'')) (\<lambda>_.
     bindE (cpu_mask as) (\<lambda>m. Inr (if a < CPU_SETSIZE then a # m else m)))"

definition handler_run :: "('s, 'b) sched \<Rightarrow> nat \<Rightarrow> nat list \<Rightarrow> ('s \<times> 'b handler, unit) op" where
  "handler_run S i aff = (\<lambda>(s, th).
     case cpu_mask aff of
       Inl e \<Rightarrow> (Inl e, (s, th))
     | Inr m \<Rightarrow>
         (case sc_register S i aff s of
            (Inl e, s') \<Rightarrow> (Inl e, (s', th\<lparr>th_mask := m\<rparr>))
          | (Inr _, s') \<Rightarrow> (Inr (), (s', th\<lparr>th_mask := m, th_pc := T_Start\<rparr>))))"

text \<open>
  One step of \<open>operator()\<close>. \<open>throws\<close> says whether the block's \<open>run\<close> ends in an
  exception, which the loop catches and forgets.
\<close>

definition handler_step :: "('s, 'b) sched \<Rightarrow> nat \<Rightarrow> bool \<Rightarrow> 's \<Rightarrow> 'b handler \<Rightarrow> ('s \<times> 'b handler) option" where
  "handler_step S i throws s th =
     (case th_pc th of
        T_Off \<Rightarrow> None
      | T_Start \<Rightarrow> Some (s, th\<lparr>th_stop := False, th_pc := T_Check\<rparr>)
      | T_Check \<Rightarrow> Some (s, th\<lparr>th_pc := (if th_stop th then T_Exit else T_Next)\<rparr>)
      | T_Next \<Rightarrow>
          (case sc_next S i s of
             (Inl _, s') \<Rightarrow> Some (s', th\<lparr>th_pc := T_Check\<rparr>)
           | (Inr None, s') \<Rightarrow> Some (s', th\<lparr>th_pc := T_Check\<rparr>)
           | (Inr (Some b), s') \<Rightarrow> Some (s', th\<lparr>th_pc := T_Run b\<rparr>))
      | T_Run b \<Rightarrow> Some (s, th\<lparr>th_pc := (if throws then T_Check else T_Done b)\<rparr>)
      | T_Done b \<Rightarrow> (case sc_done S i b s of (_, s') \<Rightarrow> Some (s', th\<lparr>th_pc := T_Check\<rparr>))
      | T_Exit \<Rightarrow> Some (s, th\<lparr>th_stop := True, th_pc := T_Ended\<rparr>)
      | T_Ended \<Rightarrow> None)"

subsection \<open>The pool\<close>

definition pool_add_task :: "('s, 'b) sched \<Rightarrow> 'b \<Rightarrow> (('s, 'b) pool, unit) op" where
  "pool_add_task S b p =
     (if tp_running p then (Inl (Runtime_Error ''cannot add task when thread pool is already running''), p)
      else case sc_add S b (tp_sched p) of (r, s) \<Rightarrow> (r, p\<lparr>tp_sched := s\<rparr>))"

definition pool_remove_task :: "('s, 'b) sched \<Rightarrow> 'b \<Rightarrow> (('s, 'b) pool, unit) op" where
  "pool_remove_task S b p =
     (if tp_running p then (Inl (Runtime_Error ''cannot remove task when thread pool is already running''), p)
      else case sc_remove S b (tp_sched p) of (r, s) \<Rightarrow> (r, p\<lparr>tp_sched := s\<rparr>))"

definition set_handler :: "nat \<Rightarrow> 'b handler \<Rightarrow> ('s, 'b) pool \<Rightarrow> ('s, 'b) pool" where
  "set_handler i th p = p\<lparr>tp_threads := (tp_threads p)[i := th]\<rparr>"

text \<open>\<open>run\<close>: one handler is started per step; an exception leaves the loop.\<close>

definition pool_run_call :: "(('s, 'b) pool, unit) op" where
  "pool_run_call p =
     (if tp_running p then (Inl (Runtime_Error ''thread pool il already running''), p)
      else (Inr (), p\<lparr>tp_main := M_Start 0\<rparr>))"

definition pool_start :: "('s, 'b) sched \<Rightarrow> nat \<Rightarrow> (('s, 'b) pool, unit) op" where
  "pool_start S i p =
     (if i < length (tp_threads p) then
        case handler_run S i (tp_affinity p) (tp_sched p, tp_threads p ! i) of
          (Inl e, (s, th)) \<Rightarrow> (Inl e, (set_handler i th p)\<lparr>tp_sched := s, tp_main := M_Idle\<rparr>)
        | (Inr _, (s, th)) \<Rightarrow> (Inr (), (set_handler i th p)\<lparr>tp_sched := s, tp_main := M_Start (i + 1)\<rparr>)
      else (Inr (), p\<lparr>tp_running := True, tp_main := M_Idle\<rparr>))"

text \<open>\<open>stop\<close>: each handler is told to stop and joined before the next.\<close>

definition pool_stop_call :: "(('s, 'b) pool, unit) op" where
  "pool_stop_call p =
     (if \<not> tp_running p then (Inl (Runtime_Error ''thread pool is not running''), p)
      else (Inr (), p\<lparr>tp_main := M_Stop 0\<rparr>))"

definition pool_stop_at :: "nat \<Rightarrow> ('s, 'b) pool \<Rightarrow> ('s, 'b) pool" where
  "pool_stop_at i p =
     (if i < length (tp_threads p)
      then (set_handler i ((tp_threads p ! i)\<lparr>th_stop := True\<rparr>) p)\<lparr>tp_main := M_Join i\<rparr>
      else p\<lparr>tp_running := False, tp_main := M_Idle\<rparr>)"

definition pool_join_at :: "nat \<Rightarrow> ('s, 'b) pool \<Rightarrow> ('s, 'b) pool" where
  "pool_join_at i p = (set_handler i ((tp_threads p ! i)\<lparr>th_pc := T_Off\<rparr>) p)\<lparr>tp_main := M_Stop (i + 1)\<rparr>"

datatype 'b plabel = L_Add 'b bool | L_Remove 'b bool | L_Main | L_Thread nat | L_Throw nat 'b

inductive pool_step :: "('s, 'b) sched \<Rightarrow> 'b plabel \<Rightarrow> ('s, 'b) pool \<Rightarrow> ('s, 'b) pool \<Rightarrow> bool" for S where
  add: "tp_main p = M_Idle \<Longrightarrow> pool_add_task S b p = (r, p') \<Longrightarrow> pool_step S (L_Add b (r = Inr ())) p p'"
| remove: "tp_main p = M_Idle \<Longrightarrow> pool_remove_task S b p = (r, p') \<Longrightarrow> pool_step S (L_Remove b (r = Inr ())) p p'"
| run_call: "tp_main p = M_Idle \<Longrightarrow> pool_run_call p = (r, p') \<Longrightarrow> pool_step S L_Main p p'"
| start: "tp_main p = M_Start i \<Longrightarrow> pool_start S i p = (r, p') \<Longrightarrow> pool_step S L_Main p p'"
| stop_call: "tp_main p = M_Idle \<Longrightarrow> pool_stop_call p = (r, p') \<Longrightarrow> pool_step S L_Main p p'"
| stop: "tp_main p = M_Stop i \<Longrightarrow> pool_step S L_Main p (pool_stop_at i p)"
| join: "tp_main p = M_Join i \<Longrightarrow> th_pc (tp_threads p ! i) = T_Ended \<Longrightarrow> pool_step S L_Main p (pool_join_at i p)"
| thread: "i < length (tp_threads p) \<Longrightarrow> handler_step S i False (tp_sched p) (tp_threads p ! i) = Some (s, th) \<Longrightarrow>
    pool_step S (L_Thread i) p ((set_handler i th p)\<lparr>tp_sched := s\<rparr>)"
| throw: "i < length (tp_threads p) \<Longrightarrow> th_pc (tp_threads p ! i) = T_Run b \<Longrightarrow>
    handler_step S i True (tp_sched p) (tp_threads p ! i) = Some (s, th) \<Longrightarrow>
    pool_step S (L_Throw i b) p ((set_handler i th p)\<lparr>tp_sched := s\<rparr>)"

inductive pool_exec :: "('s, 'b) sched \<Rightarrow> 'b plabel list \<Rightarrow> ('s, 'b) pool \<Rightarrow> ('s, 'b) pool \<Rightarrow> bool" for S where
  none: "pool_exec S [] p p"
| more: "pool_exec S ls p p' \<Longrightarrow> pool_step S l p' p'' \<Longrightarrow> pool_exec S (ls @ [l]) p p''"

inductive_cases pool_stepE: "pool_step S l p p'"
inductive_simps pool_exec_nil: "pool_exec S [] p p'"

subsection \<open>Who holds which block\<close>

definition holding :: "'b handler \<Rightarrow> 'b option" where
  "holding th = (case th_pc th of T_Run b \<Rightarrow> Some b | T_Done b \<Rightarrow> Some b | _ \<Rightarrow> None)"

definition held :: "('s, 'b) pool \<Rightarrow> nat \<Rightarrow> 'b option" where
  "held p i = (if i < length (tp_threads p) then holding (tp_threads p ! i) else None)"

definition held_blocks :: "('s, 'b) pool \<Rightarrow> 'b list" where
  "held_blocks p = List.map_filter holding (tp_threads p)"

fun lost :: "'b plabel list \<Rightarrow> 'b list" where
  "lost [] = []"
| "lost (L_Throw i b # ls) = b # lost ls"
| "lost (_ # ls) = lost ls"

text \<open>No block is added or removed.\<close>

fun steady :: "'b plabel list \<Rightarrow> bool" where
  "steady [] \<longleftrightarrow> True"
| "steady (L_Add _ _ # ls) \<longleftrightarrow> False"
| "steady (L_Remove _ _ # ls) \<longleftrightarrow> False"
| "steady (_ # ls) \<longleftrightarrow> steady ls"

definition opt_mset :: "'b option \<Rightarrow> 'b multiset" where
  "opt_mset xo = (case xo of None \<Rightarrow> {#} | Some b \<Rightarrow> {#b#})"

lemma opt_mset_simps [simp]: "opt_mset None = {#}" "opt_mset (Some b) = {#b#}"
  by (simp_all add: opt_mset_def)

lemma lost_append: "lost (ls @ ls') = lost ls @ lost ls'"
  by (induction ls rule: lost.induct) auto

lemma steady_append: "steady (ls @ ls') \<longleftrightarrow> steady ls \<and> steady ls'"
  by (induction ls rule: steady.induct) auto

lemma mset_map_filter_update:
  "i < length xs \<Longrightarrow>
   mset (List.map_filter f (xs[i := y])) + opt_mset (f (xs ! i)) = mset (List.map_filter f xs) + opt_mset (f y)"
  by (induction xs arbitrary: i) (auto simp: map_filter_simps split: nat.split option.split)

lemma mset_exchange:
  assumes "T' + X' = T + X" and "H' + X = H + X'"
  shows "T' + H' = T + (H :: 'a multiset)"
proof (rule multiset_eqI)
  fix x
  show "count (T' + H') x = count (T + H) x"
    using arg_cong[OF assms(1), of "\<lambda>m. count m x"] arg_cong[OF assms(2), of "\<lambda>m. count m x"] by simp
qed

lemma held_set:
  "i < length (tp_threads p) \<Longrightarrow> held ((set_handler i th p)\<lparr>tp_sched := s\<rparr>) = (held p)(i := holding th)"
  by (auto simp: held_def set_handler_def fun_eq_iff)

lemma held_blocks_set:
  assumes "i < length (tp_threads p)"
  shows "mset (held_blocks ((set_handler i th p)\<lparr>tp_sched := s\<rparr>)) + opt_mset (held p i) =
    mset (held_blocks p) + opt_mset (holding th)"
  using mset_map_filter_update[OF assms, of holding th] assms by (simp add: held_blocks_def held_def set_handler_def)

lemma held_main [simp]:
  "held (p\<lparr>tp_main := m\<rparr>) = held p" "held (p\<lparr>tp_running := b\<rparr>) = held p"
  "held_blocks (p\<lparr>tp_main := m\<rparr>) = held_blocks p" "held_blocks (p\<lparr>tp_running := b\<rparr>) = held_blocks p"
  "held (p\<lparr>tp_sched := s\<rparr>) = held p" "held_blocks (p\<lparr>tp_sched := s\<rparr>) = held_blocks p"
  by (simp_all add: held_def held_blocks_def fun_eq_iff)

definition off :: "('s, 'b) pool \<Rightarrow> nat \<Rightarrow> bool" where
  "off p i \<longleftrightarrow> th_pc (tp_threads p ! i) = T_Off"

definition phase_ok :: "('s, 'b) pool \<Rightarrow> bool" where
  "phase_ok p \<longleftrightarrow> (let n = length (tp_threads p) in
     case tp_main p of
       M_Idle \<Rightarrow> tp_running p \<or> (\<forall>j < n. off p j)
     | M_Start i \<Rightarrow> \<not> tp_running p \<and> (\<forall>j < n. i \<le> j \<longrightarrow> off p j) \<and> (0 < i \<longrightarrow> (\<exists>m. cpu_mask (tp_affinity p) = Inr m))
     | M_Stop i \<Rightarrow> tp_running p \<and> (\<forall>j < n. j < i \<longrightarrow> off p j)
     | M_Join i \<Rightarrow> tp_running p \<and> i < n \<and> (\<forall>j < n. j < i \<longrightarrow> off p j))"

lemma held_off: "off p i \<Longrightarrow> held p i = None"
  by (simp add: off_def held_def holding_def)

lemma all_off_held: "\<forall>j < length (tp_threads p). off p j \<Longrightarrow> held p = (\<lambda>_. None)"
  by (auto simp: fun_eq_iff held_def off_def holding_def)

lemma all_off_blocks: "\<forall>j < length (tp_threads p). off p j \<Longrightarrow> held_blocks p = []"
  by (auto simp: held_blocks_def map_filter_def filter_empty_conv in_set_conv_nth off_def holding_def)

context task_scheduler
begin

definition pool_inv :: "('s, 'b) pool \<Rightarrow> bool" where
  "pool_inv p \<longleftrightarrow> length (tp_threads p) = n \<and> inv (tp_sched p) (held p) \<and> phase_ok p"

definition bill :: "('s, 'b) pool \<Rightarrow> 'b multiset" where
  "bill p = tasks (tp_sched p) + mset (held_blocks p)"

text \<open>A step of a handler moves a block between the scheduler and the handler; a throw drops it.\<close>

lemma handler_step_ok:
  assumes inv: "inv s h" and i: "i < n" and h: "h i = holding th"
    and st: "handler_step S i False s th = Some (s', th')"
  shows "inv s' (h(i := holding th')) \<and> tasks s' + opt_mset (holding th') = tasks s + opt_mset (h i)"
proof (cases "th_pc th")
  case T_Next
  then have none: "h i = None" using h by (simp add: holding_def)
  then obtain xo s1 where 1: "sc_next S i s = (Inr xo, s1)" "inv s1 (h(i := xo))"
    "tasks s = (case xo of None \<Rightarrow> {#} | Some b \<Rightarrow> {#b#}) + tasks s1"
    using next_ok[OF inv i] by blast
  with T_Next st none show ?thesis by (auto simp: handler_step_def holding_def split: option.splits)
next
  case (T_Done b)
  then have "h i = Some b" using h by (simp add: holding_def)
  with done_ok[OF inv i this] T_Done st show ?thesis by (auto simp: handler_step_def holding_def)
qed (use inv h st in \<open>auto simp: handler_step_def holding_def fun_upd_idem\<close>)

lemma handler_throw_ok:
  assumes "inv s h" and "th_pc th = T_Run b" and "handler_step S i True s th = Some (s', th')"
  shows "s' = s \<and> holding th' = None \<and> inv s (h(i := holding th'))"
  using assms drop_ok[OF assms(1), of i] by (auto simp: handler_step_def holding_def)

lemma phase_ok_thread:
  assumes "phase_ok p" and "\<not> off p i"
  shows "phase_ok ((set_handler i th p)\<lparr>tp_sched := s\<rparr>)"
proof -
  have "off ((set_handler i th p)\<lparr>tp_sched := s\<rparr>) j" if "off p j" for j
    using that assms(2) by (cases "j = i") (auto simp: off_def set_handler_def)
  moreover have "tp_main ((set_handler i th p)\<lparr>tp_sched := s\<rparr>) = tp_main p" "tp_running ((set_handler i th p)\<lparr>tp_sched := s\<rparr>) = tp_running p"
    "tp_affinity ((set_handler i th p)\<lparr>tp_sched := s\<rparr>) = tp_affinity p"
    "length (tp_threads ((set_handler i th p)\<lparr>tp_sched := s\<rparr>)) = length (tp_threads p)"
    by (simp_all add: set_handler_def)
  ultimately show ?thesis using assms(1) by (auto simp: phase_ok_def Let_def split: mpc.splits)
qed

lemma thread_step_inv:
  assumes p: "pool_inv p" and i: "i < length (tp_threads p)"
    and st: "handler_step S i False (tp_sched p) (tp_threads p ! i) = Some (s, th)"
  shows "pool_inv ((set_handler i th p)\<lparr>tp_sched := s\<rparr>) \<and> bill ((set_handler i th p)\<lparr>tp_sched := s\<rparr>) = bill p"
proof -
  let ?p = "(set_handler i th p)\<lparr>tp_sched := s\<rparr>"
  have h: "held p i = holding (tp_threads p ! i)" using i by (simp add: held_def)
  have 1: "inv s ((held p)(i := holding th))" "tasks s + opt_mset (holding th) = tasks (tp_sched p) + opt_mset (held p i)"
    using handler_step_ok[where h = "held p", OF _ _ h st] p i by (simp_all add: pool_inv_def)
  have "\<not> off p i" using st by (auto simp: off_def handler_step_def)
  then have "phase_ok ?p" using p by (intro phase_ok_thread) (simp_all add: pool_inv_def)
  moreover have "length (tp_threads ?p) = n" using p by (simp add: pool_inv_def set_handler_def)
  ultimately have "pool_inv ?p" using 1(1) held_set[OF i, where th = th and s = s] by (simp add: pool_inv_def)
  moreover have "bill ?p = bill p"
    unfolding bill_def using mset_exchange[OF 1(2) held_blocks_set[OF i, where th = th and s = s]] by simp
  ultimately show ?thesis by simp
qed

lemma throw_step_inv:
  assumes p: "pool_inv p" and i: "i < length (tp_threads p)" and pc: "th_pc (tp_threads p ! i) = T_Run b"
    and st: "handler_step S i True (tp_sched p) (tp_threads p ! i) = Some (s, th)"
  shows "pool_inv ((set_handler i th p)\<lparr>tp_sched := s\<rparr>) \<and> add_mset b (bill ((set_handler i th p)\<lparr>tp_sched := s\<rparr>)) = bill p"
proof -
  let ?p = "(set_handler i th p)\<lparr>tp_sched := s\<rparr>"
  have 1: "s = tp_sched p" "holding th = None" "inv s ((held p)(i := holding th))"
    using handler_throw_ok[OF _ pc st] p by (auto simp: pool_inv_def)
  have h: "held p i = Some b" using i pc by (simp add: held_def holding_def)
  have "\<not> off p i" using pc by (simp add: off_def)
  then have "phase_ok ?p" using p by (intro phase_ok_thread) (simp_all add: pool_inv_def)
  moreover have "length (tp_threads ?p) = n" using p by (simp add: pool_inv_def set_handler_def)
  ultimately have "pool_inv ?p" using 1(3) held_set[OF i, where th = th and s = s] by (simp add: pool_inv_def)
  moreover have "add_mset b (bill ?p) = bill p"
    using held_blocks_set[OF i, where th = th and s = s] h 1 by (simp add: bill_def)
  ultimately show ?thesis by simp
qed

lemma start_step_inv:
  assumes p: "pool_inv p" and m: "tp_main p = M_Start i" and st: "pool_start S i p = (r, p')"
  shows "pool_inv p' \<and> bill p' = bill p"
proof (cases "i < length (tp_threads p)")
  case False
  with assms show ?thesis by (auto simp: pool_start_def pool_inv_def bill_def phase_ok_def off_def split: prod.splits)
next
  case True
  then have o: "off p i" using p m by (auto simp: pool_inv_def phase_ok_def Let_def)
  then have h: "held p i = None" by (rule held_off)
  show ?thesis
  proof (cases "cpu_mask (tp_affinity p)")
    case (Inl e)
    then have "i = 0" using p m by (auto simp: pool_inv_def phase_ok_def Let_def)
    with Inl st True p m show ?thesis
      by (auto simp: pool_start_def handler_run_def set_handler_def pool_inv_def bill_def phase_ok_def off_def)
  next
    case (Inr msk)
    have reg: "sc_register S i (tp_affinity p) (tp_sched p) = (Inr (), tp_sched p)"
      using register_ok p True by (auto simp: pool_inv_def)
    define th where "th = (tp_threads p ! i)\<lparr>th_mask := msk, th_pc := T_Start\<rparr>"
    define q where "q = (set_handler i th p)\<lparr>tp_sched := tp_sched p\<rparr>"
    have p': "p' = q\<lparr>tp_main := M_Start (i + 1)\<rparr>"
      using st True Inr reg by (simp add: pool_start_def handler_run_def th_def q_def set_handler_def)
    have "holding th = None" by (simp add: th_def holding_def)
    then have "held q = held p" "mset (held_blocks q) = mset (held_blocks p)"
      using held_set[OF True, where th = th and s = "tp_sched p"] held_blocks_set[OF True, where th = th and s = "tp_sched p"] h by (simp_all add: q_def fun_upd_idem)
    moreover have "phase_ok p'" "length (tp_threads p') = n" "tp_sched p' = tp_sched p"
      using p m Inr by (auto simp: p' q_def phase_ok_def Let_def set_handler_def off_def pool_inv_def)
    ultimately show ?thesis using p by (simp add: pool_inv_def bill_def p')
  qed
qed

lemma stop_step_inv:
  assumes p: "pool_inv p" and m: "tp_main p = M_Stop i"
  shows "pool_inv (pool_stop_at i p) \<and> bill (pool_stop_at i p) = bill p"
proof (cases "i < length (tp_threads p)")
  case False
  with assms show ?thesis by (auto simp: pool_stop_at_def pool_inv_def bill_def phase_ok_def off_def)
next
  case True
  define th where "th = (tp_threads p ! i)\<lparr>th_stop := True\<rparr>"
  define q where "q = (set_handler i th p)\<lparr>tp_sched := tp_sched p\<rparr>"
  have p': "pool_stop_at i p = q\<lparr>tp_main := M_Join i\<rparr>" using True by (simp add: pool_stop_at_def th_def q_def set_handler_def)
  have "holding th = held p i" using True by (simp add: th_def holding_def held_def)
  then have "held q = held p" "mset (held_blocks q) = mset (held_blocks p)"
    using held_set[OF True, where th = th and s = "tp_sched p"] held_blocks_set[OF True, where th = th and s = "tp_sched p"] by (simp_all add: q_def fun_upd_idem)
  moreover have "phase_ok (pool_stop_at i p)" "length (tp_threads q) = n" "tp_sched q = tp_sched p"
    using p m True by (auto simp: p' q_def phase_ok_def Let_def set_handler_def off_def pool_inv_def)
  ultimately show ?thesis using p by (simp add: pool_inv_def bill_def p')
qed

lemma join_step_inv:
  assumes p: "pool_inv p" and m: "tp_main p = M_Join i" and e: "th_pc (tp_threads p ! i) = T_Ended"
  shows "pool_inv (pool_join_at i p) \<and> bill (pool_join_at i p) = bill p"
proof -
  have i: "i < length (tp_threads p)" using p m by (simp add: pool_inv_def phase_ok_def Let_def)
  define th where "th = (tp_threads p ! i)\<lparr>th_pc := T_Off\<rparr>"
  define q where "q = (set_handler i th p)\<lparr>tp_sched := tp_sched p\<rparr>"
  have p': "pool_join_at i p = q\<lparr>tp_main := M_Stop (i + 1)\<rparr>" by (simp add: pool_join_at_def th_def q_def set_handler_def)
  have "holding th = held p i" using i e by (simp add: th_def holding_def held_def)
  then have "held q = held p" "mset (held_blocks q) = mset (held_blocks p)"
    using held_set[OF i, where th = th and s = "tp_sched p"] held_blocks_set[OF i, where th = th and s = "tp_sched p"] by (simp_all add: q_def fun_upd_idem)
  moreover have "phase_ok (pool_join_at i p)" "length (tp_threads q) = n" "tp_sched q = tp_sched p"
    using p m i by (auto simp: p' q_def phase_ok_def Let_def set_handler_def off_def pool_inv_def th_def nth_list_update less_Suc_eq)
  ultimately show ?thesis using p by (simp add: pool_inv_def bill_def p')
qed

lemma pool_step_inv:
  assumes "pool_step S l p p'" and "pool_inv p" and "steady [l]"
  shows "pool_inv p' \<and> bill p' + mset (lost [l]) = bill p"
  using assms
proof cases
  case (run_call r)
  with assms(2) show ?thesis
    by (auto simp: pool_run_call_def pool_inv_def bill_def phase_ok_def off_def split: if_splits)
next
  case (stop_call r)
  with assms(2) show ?thesis
    by (auto simp: pool_stop_call_def pool_inv_def bill_def phase_ok_def off_def split: if_splits)
qed (use assms(2,3) thread_step_inv throw_step_inv start_step_inv stop_step_inv join_step_inv in auto)

lemma pool_exec_inv:
  "pool_exec S ls p p' \<Longrightarrow> pool_inv p \<Longrightarrow> steady ls \<Longrightarrow> pool_inv p' \<and> bill p' + mset (lost ls) = bill p"
proof (induction rule: pool_exec.induct)
  case (none p)
  then show ?case by simp
next
  case (more ls p p' l p'')
  then have 1: "pool_inv p'" "bill p' + mset (lost ls) = bill p" "steady [l]" by (simp_all add: steady_append)
  from pool_step_inv[OF more.hyps(2) 1(1,3)] 1(2) show ?case
    by (simp add: lost_append) (metis union_assoc union_commute)
qed

lemma pool_inv_idle:
  "pool_inv p \<Longrightarrow> tp_main p = M_Idle \<Longrightarrow> \<not> tp_running p \<Longrightarrow> held_blocks p = [] \<and> held p = (\<lambda>_. None)"
  using all_off_blocks[of p] all_off_held[of p] by (auto simp: pool_inv_def phase_ok_def)

lemma pool_new_inv:
  assumes "nat tnum = n" and "unat (of_int tnum :: u32) = n"
  shows "pool_inv (pool_new S tnum aff) \<and> bill (pool_new S tnum aff) = {#}"
proof -
  have off: "\<forall>j < length (tp_threads (pool_new S tnum aff)). off (pool_new S tnum aff) j"
    by (simp add: pool_new_def handler_new_def off_def)
  have "tp_sched (pool_new S tnum aff) = sc_new S n" using assms(2) by (simp add: pool_new_def)
  with new_ok all_off_held[OF off] all_off_blocks[OF off] off assms(1) show ?thesis
    by (simp add: pool_inv_def bill_def phase_ok_def) (simp add: pool_new_def)
qed

lemma pool_add_inv:
  assumes "pool_inv p" and "tp_main p = M_Idle" and "\<not> tp_running p" and "0 < n" and "pool_add_task S b p = (r, p')"
  shows "pool_inv p' \<and> tp_main p' = M_Idle \<and> \<not> tp_running p' \<and> (r = Inr () \<longrightarrow> bill p' = add_mset b (bill p))"
proof -
  have idle: "held_blocks p = []" "held p = (\<lambda>_. None)" using pool_inv_idle[OF assms(1-3)] by auto
  obtain s where s: "sc_add S b (tp_sched p) = (r, s)" "p' = p\<lparr>tp_sched := s\<rparr>"
    using assms(3,5) by (auto simp: pool_add_task_def split: prod.splits)
  have "inv (tp_sched p) (\<lambda>_. None)" using assms(1) idle by (simp add: pool_inv_def)
  from add_ok[OF this assms(4) s(1)] have "inv s (\<lambda>_. None)" "r = Inr () \<longrightarrow> tasks s = add_mset b (tasks (tp_sched p))"
    by auto
  with assms(1-3) s(2) idle show ?thesis by (auto simp: pool_inv_def bill_def phase_ok_def off_def)
qed

lemma pool_load_inv:
  "forX bs (pool_add_task S) p = (Inr (), p') \<Longrightarrow> pool_inv p \<Longrightarrow> tp_main p = M_Idle \<Longrightarrow> \<not> tp_running p \<Longrightarrow> 0 < n \<Longrightarrow>
   pool_inv p' \<and> bill p' = bill p + mset bs"
proof (induction bs arbitrary: p)
  case Nil
  then show ?case by simp
next
  case (Cons b bs)
  from Cons.prems(1) obtain p1 where p1: "pool_add_task S b p = (Inr (), p1)" "forX bs (pool_add_task S) p1 = (Inr (), p')"
    by (auto simp: bindX_apply split: prod.splits sum.splits)
  from pool_add_inv[OF Cons.prems(2-5) p1(1)] Cons.IH[OF p1(2)] Cons.prems(5) show ?case by auto
qed

text \<open>What holds of every execution of a pool that was loaded before it was started.\<close>

lemma pool_account:
  assumes "0 < n" and "nat tnum = n" and "unat (of_int tnum :: u32) = n"
    and "forX bs (pool_add_task S) (pool_new S tnum aff) = (Inr (), p0)" and "pool_exec S ls p0 p" and "steady ls"
  shows "mset bs = tasks (tp_sched p) + mset (held_blocks p) + mset (lost ls) \<and>
    (tp_main p = M_Idle \<and> \<not> tp_running p \<longrightarrow> held_blocks p = [])"
proof -
  have "tp_main (pool_new S tnum aff) = M_Idle" "\<not> tp_running (pool_new S tnum aff)" by (simp_all add: pool_new_def)
  with pool_load_inv[OF assms(4)] pool_new_inv[OF assms(2,3)] assms(1)
  have p0: "pool_inv p0" "bill p0 = mset bs" by auto
  from pool_exec_inv[OF assms(5) p0(1) assms(6)] p0(2) pool_inv_idle[of p] show ?thesis by (auto simp: bill_def)
qed

end

lemma thread_count: "0 < tnum \<Longrightarrow> tnum < 2 ^ 31 \<Longrightarrow> unat (of_int tnum :: u32) = nat tnum"
proof -
  assume t: "0 < tnum" "tnum < 2 ^ 31"
  have "(of_int tnum :: u32) = of_nat (nat tnum)" using t(1) by simp
  moreover have "nat tnum < 2 ^ 32" using t by simp
  ultimately show ?thesis by (simp add: unat_of_nat take_bit_nat_eq_self)
qed

text \<open>
  C7: under the selected policy, in every interleaving of the workers of a pool with
  \<open>run\<close> and \<open>stop\<close>, each block assigned to the pool is in the queue, in the hands of one
  worker, or was dropped because its \<open>run\<close> threw; two workers never run the same block at
  the same time, and a pool that was stopped has all its blocks back in the queue.
\<close>

theorem pool_conserves_blocks:
  assumes "0 < tnum" and "tnum < 2 ^ 31"
    and "forX bs (pool_add_task DumbScheduler) (pool_new DumbScheduler tnum aff) = (Inr (), p0)"
    and "pool_exec DumbScheduler ls p0 p" and "steady ls"
  shows "mset bs = mset (tp_sched p) + mset (held_blocks p) + mset (lost ls) \<and>
    (distinct bs \<longrightarrow> distinct (tp_sched p @ held_blocks p)) \<and>
    (tp_main p = M_Idle \<and> \<not> tp_running p \<longrightarrow> mset bs = mset (tp_sched p) + mset (lost ls))"
proof -
  have 1: "mset bs = mset (tp_sched p) + mset (held_blocks p) + mset (lost ls) \<and>
      (tp_main p = M_Idle \<and> \<not> tp_running p \<longrightarrow> held_blocks p = [])"
    using dumb.pool_account[of "nat tnum" tnum, OF _ refl thread_count[OF assms(1,2)] assms(3-5)] assms(1) by simp
  have "mset bs = mset ((tp_sched p @ held_blocks p) @ lost ls)" using 1 by simp
  then have "distinct bs \<longrightarrow> distinct (tp_sched p @ held_blocks p)" by (metis distinct_append mset_eq_imp_distinct_iff)
  with 1 show ?thesis by auto
qed

lemma pool_exec_Cons:
  assumes "pool_step S l p p1" and "pool_exec S ls p1 p2"
  shows "pool_exec S (l # ls) p p2"
  using assms(2,1)
proof (induction rule: pool_exec.induct)
  case (none p1)
  then show ?case using pool_exec.more[OF pool_exec.none, of S l p p1] by simp
next
  case (more ls p1 p2 l' p3)
  then have "pool_exec S (l # ls) p p2" by simp
  from pool_exec.more[OF this more.hyps(2)] show ?case by simp
qed

lemma thread_stepI:
  assumes "i < length (tp_threads p)" and "handler_step S i False (tp_sched p) (tp_threads p ! i) = Some (s, th)"
    and "p' = (set_handler i th p)\<lparr>tp_sched := s\<rparr>"
  shows "pool_step S (L_Thread i) p p'"
  unfolding assms(3) using assms(1,2) by (rule pool_step.thread)

text \<open>A short run: one worker is started and takes the first of two blocks.\<close>

definition demo_pool :: "nat tpc \<Rightarrow> bool \<Rightarrow> bool \<Rightarrow> mpc \<Rightarrow> nat list \<Rightarrow> (nat mpmc, nat) pool" where
  "demo_pool pc st run m q = \<lparr>tp_sched = q, tp_affinity = [], tp_running = run,
     tp_threads = [\<lparr>th_stop = st, th_mask = [], th_pc = pc\<rparr>], tp_main = m\<rparr>"

lemmas demo_simps = demo_pool_def pool_new_def handler_new_def pool_run_call_def pool_start_def handler_run_def
  set_handler_def handler_step_def pool_stop_call_def pool_stop_at_def DumbScheduler_def

lemma demo_main:
  "pool_step DumbScheduler L_Main (demo_pool T_Off True False M_Idle q) (demo_pool T_Off True False (M_Start 0) q)"
  "pool_step DumbScheduler L_Main (demo_pool pc st True M_Idle q) (demo_pool pc st True (M_Stop 0) q)"
  "pool_step DumbScheduler L_Main (demo_pool pc st True (M_Stop 0) q) (demo_pool pc True True (M_Join 0) q)"
    apply (rule pool_step.run_call[where r = "Inr ()"]; simp add: demo_simps)
   apply (rule pool_step.stop_call[where r = "Inr ()"]; simp add: demo_simps)
  using pool_step.stop[of "demo_pool pc st True (M_Stop 0) q" 0 DumbScheduler] by (simp add: demo_simps)

lemma demo_started:
  "pool_step DumbScheduler L_Main (demo_pool T_Off True False (M_Start 0) q) (demo_pool T_Start True False (M_Start 1) q)"
  "pool_step DumbScheduler L_Main (demo_pool T_Start True False (M_Start 1) q) (demo_pool T_Start True True M_Idle q)"
  by (rule pool_step.start[where r = "Inr ()" and i = 0] pool_step.start[where r = "Inr ()" and i = 1]; simp add: demo_simps; fail)+

lemma demo_thread:
  "pool_step DumbScheduler (L_Thread 0) (demo_pool T_Start st run m q) (demo_pool T_Check False run m q)"
  "pool_step DumbScheduler (L_Thread 0) (demo_pool T_Check False run m q) (demo_pool T_Next False run m q)"
  "pool_step DumbScheduler (L_Thread 0) (demo_pool T_Next False run m (b # q)) (demo_pool (T_Run b) False run m q)"
  by (rule thread_stepI; simp add: demo_simps)+

lemma demo_start:
  "pool_exec DumbScheduler [L_Main, L_Main, L_Main] (demo_pool T_Off True False M_Idle q) (demo_pool T_Start True True M_Idle q)"
  by (rule pool_exec_Cons[OF demo_main(1) pool_exec_Cons[OF demo_started(1) pool_exec_Cons[OF demo_started(2) pool_exec.none]]])

lemma demo_take:
  "pool_exec DumbScheduler [L_Thread 0, L_Thread 0, L_Thread 0] (demo_pool T_Start True True M_Idle (b # q))
     (demo_pool (T_Run b) False True M_Idle q)"
  by (rule pool_exec_Cons[OF demo_thread(1) pool_exec_Cons[OF demo_thread(2) pool_exec_Cons[OF demo_thread(3) pool_exec.none]]])

lemma pool_exec_append:
  "pool_exec S ls' p1 p2 \<Longrightarrow> pool_exec S ls p p1 \<Longrightarrow> pool_exec S (ls @ ls') p p2"
proof (induction rule: pool_exec.induct)
  case (none p)
  then show ?case by simp
next
  case (more ls' p1 p2 l p3)
  then show ?case using pool_exec.more[of S "ls @ ls'" p p2 l p3] by simp
qed

theorem pool_conserves_blocks_witness:
  "\<exists>p. pool_exec DumbScheduler ([L_Main, L_Main, L_Main] @ [L_Thread 0, L_Thread 0, L_Thread 0]) (demo_pool T_Off True False M_Idle [1, 2]) p \<and>
     tp_sched p = [2] \<and> held_blocks p = [1] \<and>
     mset [1, 2] = mset (tp_sched p) + mset (held_blocks p) + mset (lost ([L_Main, L_Main, L_Main] @ [L_Thread 0, L_Thread 0, L_Thread 0]))"
proof -
  let ?ls = "[L_Main, L_Main, L_Main] @ [L_Thread 0, L_Thread 0, L_Thread 0] :: nat plabel list"
  let ?p = "demo_pool (T_Run 1) False True M_Idle [2]"
  have ex: "pool_exec DumbScheduler ?ls (demo_pool T_Off True False M_Idle [1, 2]) ?p"
    by (rule pool_exec_append[OF demo_take demo_start])
  have ld: "forX [1, 2] (pool_add_task DumbScheduler) (pool_new DumbScheduler 1 []) = (Inr (), demo_pool T_Off True False M_Idle [1, 2])"
    by (simp add: bindX_apply pool_add_task_def demo_simps mpmc_push_def)
  have "mset [1, 2] = mset (tp_sched ?p) + mset (held_blocks ?p) + mset (lost ?ls)"
    using pool_conserves_blocks[OF _ _ ld ex] by simp
  moreover have "tp_sched ?p = [2]" "held_blocks ?p = [1]"
    by (simp_all add: demo_pool_def held_blocks_def map_filter_simps holding_def)
  ultimately show ?thesis using ex by blast
qed

text \<open>
  under the round-robin policy the same accounting holds: no call of the policy ever
  fails, a worker always finds room to give a block back to its own queue, and every assigned
  block is queued, held by one worker, or was dropped by a throwing \<open>run\<close>.
\<close>

theorem rr_pool_conserves_blocks:
  assumes "0 < tnum" and "tnum < 2 ^ 31"
    and "forX bs (pool_add_task RRScheduler) (pool_new RRScheduler tnum aff) = (Inr (), p0)"
    and "pool_exec RRScheduler ls p0 p" and "steady ls"
  shows "mset bs = rr_tasks (tp_sched p) + mset (held_blocks p) + mset (lost ls) \<and>
    (tp_main p = M_Idle \<and> \<not> tp_running p \<longrightarrow> mset bs = rr_tasks (tp_sched p) + mset (lost ls))"
proof -
  have w: "unat (of_int tnum :: u32) = nat tnum" using thread_count[OF assms(1,2)] .
  have "0 < unat (of_int tnum :: u32)" unfolding w using assms(1) by simp
  from rr.pool_account[OF this w[symmetric] refl assms(3-5)] show ?thesis by auto
qed

theorem rr_pool_conserves_blocks_witness:
  "\<exists>p0. forX [7, 8] (pool_add_task RRScheduler) (pool_new RRScheduler 2 []) = (Inr (), p0) \<and>
     pool_exec RRScheduler [] p0 p0 \<and> mset [7, 8 :: nat] = rr_tasks (tp_sched p0) + mset (held_blocks p0) + mset (lost [])"
proof -
  obtain p0 where p0: "forX [7, 8 :: nat] (pool_add_task RRScheduler) (pool_new RRScheduler 2 []) = (Inr (), p0)"
    by (simp add: bindX_apply pool_add_task_def pool_new_def RRScheduler_def rr_new_def rr_add_def ring_push_back_def Let_def
        S_mod_def ring_init_def rr_upd_def)
  from rr_pool_conserves_blocks[OF _ _ p0 pool_exec.none] p0 show ?thesis by (auto intro: pool_exec.none)
qed

definition deaf :: "(nat mpmc, nat) pool \<Rightarrow> bool" where
  "deaf p \<longleftrightarrow> tp_main p = M_Join 0 \<and> (\<exists>th. tp_threads p = [th] \<and> \<not> th_stop th \<and>
     th_pc th \<notin> {T_Off, T_Start, T_Exit, T_Ended})"

lemma deaf_step: "pool_step DumbScheduler l p p' \<Longrightarrow> deaf p \<Longrightarrow> deaf p'"
  by (erule pool_step.cases)
    (auto simp: deaf_def handler_step_def set_handler_def DumbScheduler_def split: tpc.splits prod.splits option.splits if_splits)

lemma deaf_exec: "pool_exec DumbScheduler ls p p' \<Longrightarrow> deaf p \<Longrightarrow> deaf p'"
  by (induction rule: pool_exec.induct) (auto intro: deaf_step)

text \<open>
  C39: \<open>stop\<close> can be lost. A worker clears its stop flag when it starts; if \<open>stop\<close>
  sets the flag before that, the request is overwritten and \<open>stop\<close> waits for ever in
  \<open>join\<close>: from there on no execution lets it return.
\<close>

theorem pool_stop_can_hang:
  "\<exists>ls p. pool_exec DumbScheduler ls (pool_new DumbScheduler 1 [] :: (nat mpmc, nat) pool) p \<and>
     \<not> (\<exists>ls' p'. pool_exec DumbScheduler ls' p p' \<and> tp_main p' \<noteq> M_Join 0)"
proof (intro exI conjI notI)
  have "pool_new DumbScheduler 1 [] = demo_pool T_Off True False M_Idle []" by (simp add: demo_simps)
  moreover have "pool_exec DumbScheduler [L_Main, L_Main, L_Thread 0] (demo_pool T_Start True True M_Idle []) (demo_pool T_Check False True (M_Join 0) [])"
    by (rule pool_exec_Cons[OF demo_main(2) pool_exec_Cons[OF demo_main(3) pool_exec_Cons[OF demo_thread(1) pool_exec.none]]])
  ultimately show "pool_exec DumbScheduler ([L_Main, L_Main, L_Main] @ [L_Main, L_Main, L_Thread 0])
      (pool_new DumbScheduler 1 [] :: (nat mpmc, nat) pool) (demo_pool T_Check False True (M_Join 0) [])"
    using pool_exec_append[OF _ demo_start] by simp
next
  assume "\<exists>ls' p'. pool_exec DumbScheduler ls' (demo_pool T_Check False True (M_Join 0) []) p' \<and> tp_main p' \<noteq> M_Join 0"
  then obtain ls' p' where p': "pool_exec DumbScheduler ls' (demo_pool T_Check False True (M_Join 0) []) p'" "tp_main p' \<noteq> M_Join 0"
    by blast
  from p'(1) have "deaf p'" by (rule deaf_exec) (simp add: deaf_def demo_pool_def)
  with p'(2) show False by (simp add: deaf_def)
qed

end
