(* ===== verification/Timers.thy ===== *)
theory Timers
  imports Bm_Prelude
begin

text \<open>
  Clocks and timers (\<open>core/time\<close>): the packet clock, one-shot and periodic timers and the
  timer thread that hands due timers to their blocks. Time is in microseconds, 64 bits wide.
  The priority queue is a list in order of expiration time.
\<close>

subsection \<open>Clocks\<close>

datatype clock_source_t = WALL | PACKET | UNSET

record packet_time =
  pt_time :: u64
  pt_writers :: u32

definition packet_time_new :: packet_time where
  "packet_time_new = \<lparr>pt_time = 0, pt_writers = 0\<rparr>"

definition register_time_writer :: "packet_time \<Rightarrow> packet_time" where
  "register_time_writer pt = pt\<lparr>pt_writers := pt_writers pt + 1\<rparr>"

definition get_BM_time :: "clock_source_t \<Rightarrow> u64 \<Rightarrow> packet_time \<Rightarrow> u64 res" where
  "get_BM_time src wall pt =
     (case src of WALL \<Rightarrow> Inr wall | PACKET \<Rightarrow> Inr (pt_time pt) | UNSET \<Rightarrow> Inl (Runtime_Error ''clock source not set''))"

subsection \<open>Timers\<close>

text \<open>A timer with a period is a \<open>PeriodicTimer\<close>, one without a \<open>OneShotTimer\<close>.\<close>

record timer =
  tm_time :: u64
  tm_owner :: nat
  tm_name :: string
  tm_id :: u32
  tm_period :: "u64 option"

definition next_time :: "u64 \<Rightarrow> timer \<Rightarrow> timer" where
  "next_time now t = (case tm_period t of None \<Rightarrow> t | Some p \<Rightarrow> t\<lparr>tm_time := now + p\<rparr>)"

fun heap_push :: "timer \<Rightarrow> timer list \<Rightarrow> timer list" where
  "heap_push t [] = [t]"
| "heap_push t (u # us) = (if tm_time t < tm_time u then t # u # us else u # heap_push t us)"

subsection \<open>The timer thread\<close>

record timer_thread =
  tt_stop :: bool
  tt_running :: bool
  tt_queue :: "timer list"
  tt_heap :: "timer list"

definition timer_thread_new :: timer_thread where
  "timer_thread_new = \<lparr>tt_stop = False, tt_running = False, tt_queue = [], tt_heap = []\<rparr>"

definition schedule_timer :: "timer \<Rightarrow> timer_thread \<Rightarrow> timer_thread" where
  "schedule_timer t tt = tt\<lparr>tt_queue := tt_queue tt @ [t]\<rparr>"

definition set_timer_at :: "nat \<Rightarrow> u64 \<Rightarrow> string \<Rightarrow> u32 \<Rightarrow> timer_thread \<Rightarrow> timer_thread" where
  "set_timer_at owner ts name i =
     schedule_timer \<lparr>tm_time = ts, tm_owner = owner, tm_name = name, tm_id = i, tm_period = None\<rparr>"

definition set_periodic_timer ::
  "clock_source_t \<Rightarrow> u64 \<Rightarrow> packet_time \<Rightarrow> nat \<Rightarrow> u64 \<Rightarrow> string \<Rightarrow> u32 \<Rightarrow> (timer_thread, unit) op" where
  "set_periodic_timer src wall pt owner us name i tt =
     (case get_BM_time src wall pt of
        Inl e \<Rightarrow> (Inl e, tt)
      | Inr now \<Rightarrow> (Inr (), schedule_timer
          \<lparr>tm_time = now + us, tm_owner = owner, tm_name = name, tm_id = i, tm_period = Some us\<rparr> tt))"

definition timer_stop :: "timer_thread \<Rightarrow> timer_thread" where
  "timer_stop tt = tt\<lparr>tt_stop := True\<rparr>"

text \<open>The thread empties its inbox from the back.\<close>

definition drain_queue :: "timer_thread \<Rightarrow> timer_thread" where
  "drain_queue tt = tt\<lparr>tt_heap := fold heap_push (rev (tt_queue tt)) (tt_heap tt), tt_queue := []\<rparr>"

text \<open>
  The loop of \<open>process_timer_events\<close>. \<open>clk n\<close> is the \<open>n\<close>-th reading of the clock
  and \<open>fails t\<close> the exception, if any, with which the handler of \<open>t\<close> ends. Unless the
  build defines \<open>NDEBUG\<close> (\<open>nd\<close>), the assertion after the removal reads the top of the
  heap, which has no meaning when the heap is empty.
\<close>

partial_function (option) fire_loop ::
  "bool \<Rightarrow> (nat \<Rightarrow> u64) \<Rightarrow> (timer \<Rightarrow> bm_exn option) \<Rightarrow> u64 \<Rightarrow> timer list \<Rightarrow> nat \<Rightarrow> timer list \<Rightarrow>
   (unit res \<times> timer list \<times> nat \<times> timer list) option" where
  "fire_loop nd clk fails tnow hp k ev =
     (case hp of
        [] \<Rightarrow> Some (Inr (), hp, k, ev)
      | t # rest \<Rightarrow>
          if tm_time t \<le> tnow then
            (if \<not> nd \<and> rest = [] then Some (Inl Undefined_Behaviour, rest, k, ev)
             else if \<not> nd \<and> \<not> tm_time t \<le> tm_time (hd rest) then Some (Inl Assert_Fail, rest, k, ev)
             else case fails t of
               Some e \<Rightarrow> Some (Inl e, rest, k, ev @ [t])
             | None \<Rightarrow>
                 let t' = next_time (clk k) t;
                     k' = (if tm_period t = None then k else k + 1)
                 in fire_loop nd clk fails tnow (if tm_time t' \<noteq> tm_time t then heap_push t' rest else rest) k' (ev @ [t]))
          else Some (Inr (), hp, k, ev))"

definition process_timer_events ::
  "bool \<Rightarrow> (nat \<Rightarrow> u64) \<Rightarrow> (timer \<Rightarrow> bm_exn option) \<Rightarrow> timer_thread \<Rightarrow> (unit res \<times> timer_thread \<times> timer list) option" where
  "process_timer_events nd clk fails tt =
     map_option (\<lambda>(r, hp, k, ev). (r, tt\<lparr>tt_heap := hp\<rparr>, ev)) (fire_loop nd clk fails (clk 0) (tt_heap tt) 1 [])"

text \<open>One turn of the thread's loop.\<close>

definition timer_turn ::
  "bool \<Rightarrow> (nat \<Rightarrow> u64) \<Rightarrow> (timer \<Rightarrow> bm_exn option) \<Rightarrow> timer_thread \<Rightarrow> (unit res \<times> timer_thread \<times> timer list) option" where
  "timer_turn nd clk fails tt =
     (if tt_stop tt then Some (Inr (), tt\<lparr>tt_running := False\<rparr>, [])
      else process_timer_events nd clk fails (drain_queue tt))"

text \<open>
  \<open>time_past\<close>, with the packet clock as the clock of the system: the loop moves the clock in
  steps of at most a millisecond and looks for due timers after each. The list collects the timers
  handed to their blocks, each with the time the clock showed.
\<close>

partial_function (option) time_steps ::
  "bool \<Rightarrow> (timer \<Rightarrow> bm_exn option) \<Rightarrow> u64 \<Rightarrow> u64 \<Rightarrow> packet_time \<Rightarrow> timer_thread \<Rightarrow> (u64 \<times> timer) list \<Rightarrow>
   (unit res \<times> packet_time \<times> timer_thread \<times> (u64 \<times> timer) list) option" where
  "time_steps nd fails target next pt tt ev =
     (let next1 = min (next + 1000) target in
      if pt_writers pt = 0
      then Some (Inl (Runtime_Error ''inconsistent number of packet time writers''), pt, tt, ev)
      else
        let last_time = pt_time pt; pt1 = pt\<lparr>pt_time := next1\<rparr> in
        if next1 < last_time then Some (Inl (Runtime_Error ''packet time value out of order''), pt1, tt, ev)
        else Option.bind (process_timer_events nd (\<lambda>_. next1) fails tt) (\<lambda>(r, tt1, fired).
          let ev1 = ev @ map (Pair next1) fired in
          case r of
            Inl e \<Rightarrow> Some (Inl e, pt1, tt1, ev1)
          | Inr _ \<Rightarrow>
              if next1 < target then time_steps nd fails target next1 pt1 tt1 ev1
              else Some (Inr (), pt1, tt1, ev1)))"

definition time_past ::
  "bool \<Rightarrow> (timer \<Rightarrow> bm_exn option) \<Rightarrow> u64 \<Rightarrow> packet_time \<Rightarrow> timer_thread \<Rightarrow>
   (unit res \<times> packet_time \<times> timer_thread \<times> (u64 \<times> timer) list) option" where
  "time_past nd fails target pt tt =
     (let now = pt_time pt in time_steps nd fails target (if now = 0 then target else now) pt tt [])"

definition timer_start :: "(timer_thread, unit) op" where
  "timer_start tt =
     (if tt_running tt then (Inl (Runtime_Error ''trying to start timer thread while it is already running''), tt)
      else (Inr (), tt\<lparr>tt_running := True\<rparr>))"

definition remove_references :: "nat \<Rightarrow> (timer_thread, unit) op" where
  "remove_references b tt =
     (if tt_running tt
      then (Inl (Runtime_Error ''timer thread::cannot remove references while the thread is running''), tt)
      else (Inr (), tt\<lparr>tt_queue := filter (\<lambda>t. tm_owner t \<noteq> b) (tt_queue tt), tt_heap := []\<rparr>))"

subsection \<open>The heap\<close>

abbreviation by_time :: "timer list \<Rightarrow> bool" where
  "by_time \<equiv> sorted_wrt (\<lambda>t u. tm_time t \<le> tm_time u)"

lemma mset_heap_push [simp]: "mset (heap_push t us) = add_mset t (mset us)"
  by (induction us) auto

lemma set_heap_push [simp]: "set (heap_push t us) = insert t (set us)"
  by (induction us) auto

lemma sorted_heap_push: "by_time us \<Longrightarrow> by_time (heap_push t us)"
  by (induction us) auto

lemma drain_queue_ok:
  "by_time (tt_heap tt) \<Longrightarrow> by_time (tt_heap (drain_queue tt)) \<and>
   mset (tt_heap (drain_queue tt)) = mset (tt_heap tt) + mset (tt_queue tt) \<and> tt_queue (drain_queue tt) = []"
proof -
  have "by_time hs \<Longrightarrow> by_time (fold heap_push us hs) \<and> mset (fold heap_push us hs) = mset hs + mset us" for us hs
    by (induction us arbitrary: hs) (auto simp: sorted_heap_push)
  from this[of "tt_heap tt" "rev (tt_queue tt)"] show "by_time (tt_heap tt) \<Longrightarrow> ?thesis" by (simp add: drain_queue_def)
qed

lemma due_heap_push:
  "tnow < tm_time t \<Longrightarrow> takeWhile (\<lambda>u. tm_time u \<le> tnow) (heap_push t us) = takeWhile (\<lambda>u. tm_time u \<le> tnow) us"
  by (induction us) auto

lemma mset_due_split:
  "by_time us \<Longrightarrow> mset (takeWhile (\<lambda>u. tm_time u \<le> tnow) us) = filter_mset (\<lambda>u. tm_time u \<le> tnow) (mset us)"
proof (induction us)
  case Nil
  then show ?case by simp
next
  case (Cons u us)
  show ?case
  proof (cases "tm_time u \<le> tnow")
    case True
    with Cons show ?thesis by simp
  next
    case False
    then have "\<forall>v \<in> set us. \<not> tm_time v \<le> tnow" using Cons.prems by auto
    then have "filter_mset (\<lambda>u. tm_time u \<le> tnow) (mset us) = {#}" by (induction us) auto
    with False show ?thesis by simp
  qed
qed

subsection \<open>Firing\<close>

text \<open>
  What the analysis relies on: the clock does not go back during the round, periods are
  positive and the time of the next expiration fits in 64 bits.
\<close>

definition clock_ok :: "(nat \<Rightarrow> u64) \<Rightarrow> u64 \<Rightarrow> timer \<Rightarrow> bool" where
  "clock_ok clk tnow t \<longleftrightarrow>
     (\<forall>p. tm_period t = Some p \<longrightarrow> (\<forall>k. tnow \<le> clk k \<and> 0 < p \<and> uint (clk k) + uint p < 2 ^ 64))"

lemma next_time_later:
  assumes "clock_ok clk tnow t" and "tm_period t = Some p"
  shows "tnow < tm_time (next_time (clk k) t)"
proof -
  have a: "tnow \<le> clk k" "0 < p" "uint (clk k) + uint p < 2 ^ 64" using assms by (auto simp: clock_ok_def)
  then have "uint (clk k + p) = uint (clk k) + uint p" by (simp add: uint_word_ariths)
  moreover have "0 < uint p" using a(2) by (simp add: word_less_def)
  ultimately have "clk k < clk k + p" by (simp add: word_less_def)
  with a(1) assms(2) show ?thesis by (simp add: next_time_def)
qed

definition due :: "u64 \<Rightarrow> timer \<Rightarrow> bool" where
  "due tnow t \<longleftrightarrow> tm_time t \<le> tnow"

definition untimed :: "timer \<Rightarrow> timer" where
  "untimed t = t\<lparr>tm_time := 0\<rparr>"

text \<open>The outcome of a round: the due timers fired, the others kept, the periodic ones back with a later time.\<close>

definition round_outcome :: "u64 \<Rightarrow> timer list \<Rightarrow> timer list \<Rightarrow> bool" where
  "round_outcome tnow hp hp' \<longleftrightarrow> by_time hp' \<and> (\<forall>t \<in> set hp'. \<not> due tnow t) \<and>
     filter_mset (\<lambda>t. \<not> due tnow t) (mset hp) \<subseteq># mset hp' \<and>
     image_mset untimed (mset hp') = image_mset untimed (filter_mset (\<lambda>t. \<not> due tnow t \<or> tm_period t \<noteq> None) (mset hp))"

lemma untimed_next_time [simp]: "untimed (next_time now t) = untimed t"
  by (simp add: untimed_def next_time_def split: option.splits)

lemma next_time_oneshot [simp]: "tm_period t = None \<Longrightarrow> next_time now t = t"
  by (simp add: next_time_def)

lemma period_next_time [simp]: "tm_period (next_time now t) = tm_period t"
  by (simp add: next_time_def split: option.splits)

lemma round_outcome_idle: "by_time hp \<Longrightarrow> (\<forall>t \<in> set hp. \<not> due tnow t) \<Longrightarrow> round_outcome tnow hp hp"
proof -
  assume a: "by_time hp" "\<forall>t \<in> set hp. \<not> due tnow t"
  have "filter_mset (\<lambda>t. \<not> due tnow t) (mset hp) = mset hp"
    "filter_mset (\<lambda>t. \<not> due tnow t \<or> tm_period t \<noteq> None) (mset hp) = mset hp"
    using a(2) by (induction hp) auto
  with a show ?thesis by (simp add: round_outcome_def)
qed

lemma round_outcome_fire:
  assumes "due tnow t" and "tm_period t = None" and "round_outcome tnow rest hp'"
  shows "round_outcome tnow (t # rest) hp'"
  using assms by (simp add: round_outcome_def)

lemma round_outcome_refire:
  assumes "due tnow t" and "tm_period t = Some p" and "\<not> due tnow t'" and "untimed t' = untimed t"
    and "round_outcome tnow (heap_push t' rest) hp'"
  shows "round_outcome tnow (t # rest) hp'"
  using assms by (auto simp: round_outcome_def intro: subset_mset.order_trans[rotated])

lemma takeWhile_due_Nil: "hp = [] \<or> \<not> due tnow (hd hp) \<Longrightarrow> takeWhile (due tnow) hp = []"
  by (cases hp) auto

lemma fire_round_aux:
  assumes "by_time hp" and "\<forall>t \<in> set hp. clock_ok clk tnow t" and "nd \<or> (\<exists>t \<in> set hp. \<not> due tnow t)"
  shows "\<exists>hp' k'. fire_loop nd clk (\<lambda>_. None) tnow hp k ev = Some (Inr (), hp', k', ev @ takeWhile (due tnow) hp) \<and>
           round_outcome tnow hp hp'"
  using assms
proof (induction "length (takeWhile (due tnow) hp)" arbitrary: hp k ev)
  case 0
  then have z: "hp = [] \<or> \<not> due tnow (hd hp)" by (cases hp) (auto split: if_splits)
  then have "\<forall>t \<in> set hp. \<not> due tnow t" using 0(2) by (cases hp) (auto simp: due_def)
  then have "round_outcome tnow hp hp" using 0(2) by (rule round_outcome_idle[rotated])
  moreover have "fire_loop nd clk (\<lambda>_. None) tnow hp k ev = Some (Inr (), hp, k, ev @ takeWhile (due tnow) hp)"
    using z by (subst fire_loop.simps) (cases hp; auto simp: due_def)
  ultimately show ?case by blast
next
  case (Suc n)
  then obtain t rest where hp: "hp = t # rest" and t: "due tnow t" by (cases hp) (auto split: if_splits)
  have rest: "by_time rest" "\<forall>t \<in> set rest. clock_ok clk tnow t" "nd \<or> (\<exists>t \<in> set rest. \<not> due tnow t)"
    using Suc.prems t by (auto simp: hp)
  have noassert: "nd \<or> rest \<noteq> [] \<and> tm_time t \<le> tm_time (hd rest)" using Suc.prems(1) rest(3) by (cases rest) (auto simp: hp)
  let ?u = "next_time (clk k) t"
  show ?case
  proof (cases "tm_period t")
    case None
    have "fire_loop nd clk (\<lambda>_. None) tnow hp k ev = fire_loop nd clk (\<lambda>_. None) tnow rest k (ev @ [t])"
      using noassert t None by (subst fire_loop.simps) (auto simp: hp due_def)
    moreover have "n = length (takeWhile (due tnow) rest)" using Suc.hyps(2) t by (simp add: hp)
    ultimately show ?thesis using Suc.hyps(1)[OF _ rest, of k "ev @ [t]"] t None
      by (auto simp: hp intro: round_outcome_fire)
  next
    case (Some p)
    have late: "\<not> due tnow ?u" using Suc.prems(2) Some by (auto simp: hp due_def not_le intro: next_time_later)
    then have "tm_time ?u \<noteq> tm_time t" using t by (auto simp: due_def)
    then have "fire_loop nd clk (\<lambda>_. None) tnow hp k ev = fire_loop nd clk (\<lambda>_. None) tnow (heap_push ?u rest) (Suc k) (ev @ [t])"
      using noassert t Some by (subst fire_loop.simps) (auto simp: hp due_def)
    moreover have tw: "takeWhile (due tnow) (heap_push ?u rest) = takeWhile (due tnow) rest"
      using late due_heap_push[of tnow ?u rest] by (simp add: due_def[abs_def] not_le)
    moreover have "n = length (takeWhile (due tnow) (heap_push ?u rest))" using Suc.hyps(2) t tw by (simp add: hp)
    moreover have "clock_ok clk tnow ?u" using Suc.prems(2) by (auto simp: hp clock_ok_def)
    ultimately show ?thesis using Suc.hyps(1)[of "heap_push ?u rest" "Suc k" "ev @ [t]"] t Some rest late
      by (auto simp: hp sorted_heap_push intro: round_outcome_refire[OF t Some late untimed_next_time])
  qed
qed

text \<open>
  C14: A turn of the timer thread ends. It takes in every timer of the inbox and hands each due
  timer to its block exactly once, in order of expiration time; timers that are not due stay as they
  are, one-shot timers leave, and each periodic timer that fired is waiting again for a later time.
  (The round needs a clock that does not go back and, in a build with assertions, a timer that
  is not due.)
\<close>
theorem timer_turn_fires:
  assumes "\<not> tt_stop tt" and "by_time (tt_heap tt)"
    and "\<forall>t \<in> set (tt_heap tt) \<union> set (tt_queue tt). clock_ok clk (clk 0) t"
    and "nd \<or> (\<exists>t \<in> set (tt_heap tt) \<union> set (tt_queue tt). \<not> due (clk 0) t)"
  shows "\<exists>fired hp'. timer_turn nd clk (\<lambda>_. None) tt = Some (Inr (), tt\<lparr>tt_queue := [], tt_heap := hp'\<rparr>, fired) \<and>
     by_time fired \<and> mset fired = filter_mset (due (clk 0)) (mset (tt_heap tt) + mset (tt_queue tt)) \<and>
     round_outcome (clk 0) (tt_heap tt @ tt_queue tt) hp'"
proof -
  let ?hp = "tt_heap (drain_queue tt)"
  have d: "by_time ?hp" "mset ?hp = mset (tt_heap tt @ tt_queue tt)" using drain_queue_ok[OF assms(2)] by simp_all
  have set: "set ?hp = set (tt_heap tt) \<union> set (tt_queue tt)" using arg_cong[OF d(2), of set_mset] by simp
  obtain hp' k' where f: "fire_loop nd clk (\<lambda>_. None) (clk 0) ?hp 1 [] = Some (Inr (), hp', k', takeWhile (due (clk 0)) ?hp)"
    and r: "round_outcome (clk 0) ?hp hp'"
    using fire_round_aux[of ?hp clk "clk 0" nd 1 "[]"] d(1) assms(3,4) by (auto simp: set)
  have "by_time (takeWhile (due (clk 0)) ?hp)" using d(1) by (metis sorted_wrt_append takeWhile_dropWhile_id)
  moreover have "mset (takeWhile (due (clk 0)) ?hp) = filter_mset (due (clk 0)) (mset (tt_heap tt) + mset (tt_queue tt))"
    using mset_due_split[OF d(1), of "clk 0"] d(2) by (simp add: due_def[abs_def])
  moreover have "round_outcome (clk 0) (tt_heap tt @ tt_queue tt) hp'" using r d(2) by (simp add: round_outcome_def)
  moreover have "timer_turn nd clk (\<lambda>_. None) tt = Some (Inr (), tt\<lparr>tt_queue := [], tt_heap := hp'\<rparr>, takeWhile (due (clk 0)) ?hp)"
    using assms(1) f by (simp add: timer_turn_def process_timer_events_def drain_queue_def)
  ultimately show ?thesis by blast
qed

definition sample_timers :: "timer list" where
  "sample_timers = [\<lparr>tm_time = 10, tm_owner = 1, tm_name = ''a'', tm_id = 0, tm_period = Some 50\<rparr>,
                    \<lparr>tm_time = 90, tm_owner = 2, tm_name = ''b'', tm_id = 0, tm_period = None\<rparr>]"

definition sample_thread :: timer_thread where
  "sample_thread = set_timer_at 3 5 ''c'' 7 (timer_thread_new\<lparr>tt_running := True, tt_heap := sample_timers\<rparr>)"

theorem timer_turn_fires_witness:
  "\<exists>fired hp'. timer_turn False (\<lambda>_. 40) (\<lambda>_. None) sample_thread =
      Some (Inr (), sample_thread\<lparr>tt_queue := [], tt_heap := hp'\<rparr>, fired) \<and> size (mset fired) = 2"
proof -
  have "\<not> tt_stop sample_thread" "by_time (tt_heap sample_thread)"
    "\<forall>t \<in> set (tt_heap sample_thread) \<union> set (tt_queue sample_thread). clock_ok (\<lambda>_. 40) 40 t"
    "False \<or> (\<exists>t \<in> set (tt_heap sample_thread) \<union> set (tt_queue sample_thread). \<not> due 40 t)"
    by (auto simp: sample_thread_def sample_timers_def set_timer_at_def schedule_timer_def timer_thread_new_def clock_ok_def due_def)
  from timer_turn_fires[OF this] obtain fired hp' where
    "timer_turn False (\<lambda>_. 40) (\<lambda>_. None) sample_thread = Some (Inr (), sample_thread\<lparr>tt_queue := [], tt_heap := hp'\<rparr>, fired)"
    "mset fired = filter_mset (due 40) (mset (tt_heap sample_thread) + mset (tt_queue sample_thread))" by blast
  moreover have "size (filter_mset (due 40) (mset (tt_heap sample_thread) + mset (tt_queue sample_thread))) = 2"
    by (simp add: sample_thread_def sample_timers_def set_timer_at_def schedule_timer_def timer_thread_new_def due_def)
  ultimately show ?thesis by (metis)
qed

text \<open>
  In a build with assertions, a round that fires the only timer of the heap reads the top of
  an empty priority queue.
\<close>
theorem last_timer_undefined:
  assumes "tt_heap tt = [t]" and "due (clk 0) t"
  shows "process_timer_events False clk fails tt = Some (Inl Undefined_Behaviour, tt\<lparr>tt_heap := []\<rparr>, [])"
  using assms by (simp add: process_timer_events_def fire_loop.simps due_def)

theorem last_timer_undefined_witness:
  "process_timer_events False (\<lambda>_. 95) (\<lambda>_. None) (timer_thread_new\<lparr>tt_heap := [sample_timers ! 1]\<rparr>) =
     Some (Inl Undefined_Behaviour, timer_thread_new, [])"
  by (subst last_timer_undefined[where t = "sample_timers ! 1"]) (simp_all add: sample_timers_def due_def timer_thread_new_def)

subsection \<open>Removing a block\<close>

text \<open>
  With the thread at rest, removing a block's references leaves no timer of that block; of
  the other blocks' timers it keeps those of the inbox only and drops all that had reached the
  heap.
\<close>
theorem remove_references_effect:
  assumes "\<not> tt_running tt"
  shows "\<exists>tt'. remove_references b tt = (Inr (), tt') \<and> tt_heap tt' = [] \<and>
           mset (tt_queue tt') = filter_mset (\<lambda>t. tm_owner t \<noteq> b) (mset (tt_queue tt)) \<and>
           (\<forall>t \<in> set (tt_heap tt' @ tt_queue tt'). tm_owner t \<noteq> b)"
  using assms by (simp add: remove_references_def)

theorem remove_references_effect_witness:
  "\<exists>tt'. remove_references 1 (timer_thread_new\<lparr>tt_heap := sample_timers\<rparr>) = (Inr (), tt') \<and> tt_heap tt' = []"
  using remove_references_effect[of "timer_thread_new\<lparr>tt_heap := sample_timers\<rparr>" 1] by (auto simp: timer_thread_new_def)

subsection \<open>The packet clock\<close>

text \<open>A heap on which the clock can run up to \<open>target\<close>.\<close>

definition heap_fit :: "bool \<Rightarrow> u64 \<Rightarrow> timer list \<Rightarrow> bool" where
  "heap_fit nd target hp \<longleftrightarrow> by_time hp \<and> (\<forall>t \<in> set hp. clock_ok (\<lambda>_. target) 0 t) \<and>
     (nd \<or> (\<exists>t \<in> set hp. \<not> due target t))"

text \<open>An event that happened on time: less than a millisecond after the timer's expiration.\<close>

definition on_time :: "u64 \<Rightarrow> u64 \<times> timer \<Rightarrow> bool" where
  "on_time target = (\<lambda>(c, t). due c t \<and> c \<le> target \<and> unat c - unat (tm_time t) < 1000)"

lemma due_mono: "due a t \<Longrightarrow> a \<le> b \<Longrightarrow> due b t"
  by (auto simp: due_def)

lemma clock_ok_earlier: "clock_ok (\<lambda>_. target) 0 t \<Longrightarrow> n \<le> target \<Longrightarrow> clock_ok (\<lambda>_. n) n t"
  by (fastforce simp: clock_ok_def word_le_def)

lemma round_outcome_fit:
  assumes "heap_fit nd target hp" and "round_outcome n hp hp'" and "n \<le> target"
  shows "heap_fit nd target hp'"
proof -
  have sub: "filter_mset (\<lambda>t. \<not> due n t) (mset hp) \<subseteq># mset hp'"
    and img: "image_mset untimed (mset hp') = image_mset untimed (filter_mset (\<lambda>t. \<not> due n t \<or> tm_period t \<noteq> None) (mset hp))"
    using assms(2) by (auto simp: round_outcome_def)
  have "clock_ok (\<lambda>_. target) 0 t" if t: "t \<in> set hp'" for t
  proof -
    have "untimed t \<in># image_mset untimed (mset hp')" using t by simp
    then obtain u where u: "u \<in> set hp" "untimed t = untimed u" unfolding img by auto
    then have "tm_period t = tm_period u" by (metis untimed_def timer.select_convs(5) timer.surjective timer.update_convs(1))
    with u assms(1) show ?thesis by (auto simp: heap_fit_def clock_ok_def)
  qed
  moreover have "nd \<or> (\<exists>t \<in> set hp'. \<not> due target t)"
  proof (cases nd)
    case False
    then obtain t where t: "t \<in> set hp" "\<not> due target t" using assms(1) by (auto simp: heap_fit_def)
    then have "t \<in># filter_mset (\<lambda>t. \<not> due n t) (mset hp)" using assms(3) due_mono by auto
    with sub t(2) show ?thesis by (metis mset_subset_eqD set_mset_mset)
  qed simp
  ultimately show ?thesis using assms(2) by (auto simp: heap_fit_def round_outcome_def)
qed

lemma process_round:
  assumes "heap_fit nd target (tt_heap tt)" and "n \<le> target"
  shows "\<exists>hp'. process_timer_events nd (\<lambda>_. n) (\<lambda>_. None) tt =
      Some (Inr (), tt\<lparr>tt_heap := hp'\<rparr>, takeWhile (due n) (tt_heap tt)) \<and> round_outcome n (tt_heap tt) hp'"
proof -
  have "nd \<or> (\<exists>t \<in> set (tt_heap tt). \<not> due n t)" using assms due_mono unfolding heap_fit_def by blast
  then show ?thesis
    using fire_round_aux[of "tt_heap tt" "\<lambda>_. n" n nd 1 "[]"] assms clock_ok_earlier[OF _ assms(2)]
    by (auto simp: heap_fit_def process_timer_events_def)
qed

lemma add_1000:
  fixes a :: u64
  assumes "unat a + 1000 < 2 ^ 64"
  shows "unat (a + 1000) = unat a + 1000" and "a < a + 1000"
proof -
  show *: "unat (a + 1000) = unat a + 1000" using assms by (simp add: unat_word_ariths)
  show "a < a + 1000" unfolding word_less_nat_alt * by simp
qed

lemma fired_on_time:
  assumes "\<forall>t \<in> set hp. \<not> due a t" and "a \<le> n" and "n \<le> target" and "unat n - unat a \<le> 1000"
  shows "\<forall>e \<in> set (map (Pair n) (takeWhile (due n) hp)). on_time target e"
proof -
  have "on_time target (n, t)" if "t \<in> set (takeWhile (due n) hp)" for t
  proof -
    have "due n t" "\<not> due a t" using that assms(1) by (auto dest: set_takeWhileD)
    then have "unat a < unat (tm_time t)" "unat (tm_time t) \<le> unat n" by (auto simp: due_def word_le_nat_alt)
    with assms(3,4) \<open>due n t\<close> show ?thesis by (simp add: on_time_def)
  qed
  then show ?thesis by auto
qed

lemma round_keeps:
  assumes "by_time hp" and "round_outcome n hp hp'"
  shows "\<forall>t \<in> set hp. if due n t then t \<in> set (takeWhile (due n) hp) else t \<in> set hp'"
proof
  fix t assume t: "t \<in> set hp"
  have "set_mset (mset (takeWhile (due n) hp)) = {t \<in> set hp. due n t}"
    using mset_due_split[OF assms(1), of n] by (simp add: due_def[abs_def])
  moreover have "{t \<in> set hp. \<not> due n t} \<subseteq> set hp'"
    using assms(2) set_mset_mono[of "filter_mset (\<lambda>t. \<not> due n t) (mset hp)" "mset hp'"] by (simp add: round_outcome_def)
  ultimately show "if due n t then t \<in> set (takeWhile (due n) hp) else t \<in> set hp'" using t by auto
qed

lemma snd_set_Pair: "snd ` set (map (Pair n) xs) = set xs"
  by (simp add: image_image)

lemma rounds_keep:
  assumes "\<forall>t \<in> H. if due n t then t \<in> snd ` set e else t \<in> H1"
    and "\<forall>t \<in> H1. if due target t then t \<in> snd ` set l else t \<in> H2" and "n \<le> target"
  shows "\<forall>t \<in> H. if due target t then t \<in> snd ` set (e @ l) else t \<in> H2"
proof
  fix t assume t: "t \<in> H"
  show "if due target t then t \<in> snd ` set (e @ l) else t \<in> H2"
  proof (cases "due n t")
    case True
    with assms(1) t due_mono[OF True assms(3)] show ?thesis by (simp add: image_Un)
  next
    case False
    with assms(1,2) t show ?thesis by (auto simp: image_Un)
  qed
qed

lemma time_steps_run:
  assumes "pt_writers pt \<noteq> 0" and "pt_time pt \<le> target" and "unat target + 1000 < 2 ^ 64"
    and "heap_fit nd target (tt_heap tt)" and "\<forall>t \<in> set (tt_heap tt). \<not> due (pt_time pt) t"
  shows "\<exists>hp' l. time_steps nd (\<lambda>_. None) target (pt_time pt) pt tt ev =
       Some (Inr (), pt\<lparr>pt_time := target\<rparr>, tt\<lparr>tt_heap := hp'\<rparr>, ev @ l) \<and>
     heap_fit nd target hp' \<and> (\<forall>t \<in> set hp'. \<not> due target t) \<and> (\<forall>e \<in> set l. on_time target e) \<and>
     (\<forall>t \<in> set (tt_heap tt). if due target t then t \<in> snd ` set l else t \<in> set hp')"
  using assms
proof (induction "unat target - unat (pt_time pt)" arbitrary: pt tt ev rule: less_induct)
  case less
  let ?a = "pt_time pt"
  let ?n = "min (?a + 1000) target"
  have le: "unat ?a \<le> unat target" using less.prems(2) by (simp add: word_le_nat_alt)
  have up: "unat (?a + 1000) = unat ?a + 1000" "?a < ?a + 1000" using le less.prems(3) by (auto intro!: add_1000)
  then have step: "?a \<le> ?n" "unat ?n - unat ?a \<le> 1000" "?n \<le> target"
    using less.prems(2) le by (auto simp: min_def word_le_nat_alt)
  obtain hp where r: "process_timer_events nd (\<lambda>_. ?n) (\<lambda>_. None) tt =
      Some (Inr (), tt\<lparr>tt_heap := hp\<rparr>, takeWhile (due ?n) (tt_heap tt))" "round_outcome ?n (tt_heap tt) hp"
    using process_round[OF less.prems(4) step(3)] by blast
  have fit: "heap_fit nd target hp" using round_outcome_fit[OF less.prems(4) r(2) step(3)] .
  have none: "\<forall>t \<in> set hp. \<not> due ?n t" using r(2) by (simp add: round_outcome_def)
  let ?e = "map (Pair ?n) (takeWhile (due ?n) (tt_heap tt))"
  have ontime: "\<forall>e \<in> set ?e. on_time target e" by (rule fired_on_time[OF less.prems(5) step(1,3,2)])
  have run: "time_steps nd (\<lambda>_. None) target ?a pt tt ev =
     (if ?n < target then time_steps nd (\<lambda>_. None) target ?n (pt\<lparr>pt_time := ?n\<rparr>) (tt\<lparr>tt_heap := hp\<rparr>) (ev @ ?e)
      else Some (Inr (), pt\<lparr>pt_time := ?n\<rparr>, tt\<lparr>tt_heap := hp\<rparr>, ev @ ?e))"
    using less.prems(1) step(1) r(1) by (subst time_steps.simps) (simp add: Let_def not_less[symmetric])
  note keep = round_keeps[OF _ r(2)] and fired_set = snd_set_Pair[of ?n "takeWhile (due ?n) (tt_heap tt)"]
  have srt: "by_time (tt_heap tt)" using less.prems(4) by (simp add: heap_fit_def)
  show ?case
  proof (cases "?n < target")
    case False
    then have "?n = target" by (auto simp: min_def)
    moreover note keep[OF srt, folded fired_set]
    ultimately show ?thesis using run ontime none fit by (intro exI[of _ hp] exI[of _ ?e]) simp
  next
    case True
    then have "?n = ?a + 1000" by (auto simp: min_def split: if_splits)
    then have "unat target - unat ?n < unat target - unat ?a" using True up le by (auto simp: word_less_nat_alt)
    from less.hyps[of "pt\<lparr>pt_time := ?n\<rparr>" "tt\<lparr>tt_heap := hp\<rparr>" "ev @ ?e"] this less.prems(1,3) step(3) none fit
    obtain hp' l where "time_steps nd (\<lambda>_. None) target ?n (pt\<lparr>pt_time := ?n\<rparr>) (tt\<lparr>tt_heap := hp\<rparr>) (ev @ ?e) =
        Some (Inr (), pt\<lparr>pt_time := target\<rparr>, tt\<lparr>tt_heap := hp'\<rparr>, (ev @ ?e) @ l)"
      "heap_fit nd target hp'" "\<forall>t \<in> set hp'. \<not> due target t" "\<forall>e \<in> set l. on_time target e"
      and l: "\<forall>t \<in> set hp. if due target t then t \<in> snd ` set l else t \<in> set hp'" by auto
    moreover have "\<forall>t \<in> set (tt_heap tt). if due target t then t \<in> snd ` set (?e @ l) else t \<in> set hp'"
      using rounds_keep[OF keep[OF srt, folded fired_set] l step(3)] by simp
    ultimately show ?thesis using run True ontime by (intro exI[of _ hp'] exI[of _ "?e @ l"]) auto
  qed
qed

text \<open>
  C15: When a packet moves the packet clock forward, \<open>time_past\<close> returns with the clock at the
  packet's time. Every timer that was due by then has been handed to its block less than a
  millisecond of packet time after its expiration, and the timers that are not due are still waiting.
\<close>
theorem time_past_forward:
  assumes "pt_writers pt \<noteq> 0" and "0 < pt_time pt" and "pt_time pt \<le> target" and "unat target + 1000 < 2 ^ 64"
    and "heap_fit nd target (tt_heap tt)" and "\<forall>t \<in> set (tt_heap tt). \<not> due (pt_time pt) t"
  shows "\<exists>hp' events. time_past nd (\<lambda>_. None) target pt tt =
       Some (Inr (), pt\<lparr>pt_time := target\<rparr>, tt\<lparr>tt_heap := hp'\<rparr>, events) \<and>
     by_time hp' \<and> (\<forall>t \<in> set hp'. \<not> due target t) \<and> (\<forall>e \<in> set events. on_time target e) \<and>
     (\<forall>t \<in> set (tt_heap tt). if due target t then t \<in> snd ` set events else t \<in> set hp')"
proof -
  have "pt_time pt \<noteq> 0" using assms(2) by auto
  with time_steps_run[OF assms(1,3-6), of "[]"] show ?thesis
    unfolding time_past_def Let_def heap_fit_def append_Nil if_not_P[OF \<open>pt_time pt \<noteq> 0\<close>] by blast
qed

theorem time_past_forward_witness:
  "\<exists>hp' events. time_past True (\<lambda>_. None) 4500 \<lparr>pt_time = 5, pt_writers = 1\<rparr> (timer_thread_new\<lparr>tt_heap := sample_timers\<rparr>) =
     Some (Inr (), \<lparr>pt_time = 4500, pt_writers = 1\<rparr>, timer_thread_new\<lparr>tt_heap := hp'\<rparr>, events)"
proof -
  have "heap_fit True 4500 sample_timers" "\<forall>t \<in> set sample_timers. \<not> due 5 t"
    by (simp_all add: heap_fit_def sample_timers_def clock_ok_def due_def)
  then show ?thesis using time_past_forward[of "\<lparr>pt_time = 5, pt_writers = 1\<rparr>" 4500 True "timer_thread_new\<lparr>tt_heap := sample_timers\<rparr>"]
    by (auto simp: timer_thread_new_def)
qed

text \<open>
  A packet older than the clock is answered with an exception, but the clock has been set
  back to the packet's time by then.
\<close>
theorem time_past_backward:
  assumes "pt_writers pt \<noteq> 0" and "target < pt_time pt" and "unat (pt_time pt) + 1000 < 2 ^ 64"
  shows "time_past nd fails target pt tt =
     Some (Inl (Runtime_Error ''packet time value out of order''), pt\<lparr>pt_time := target\<rparr>, tt, [])"
proof -
  have "pt_time pt \<noteq> 0" using assms(2) by auto
  moreover have "min (pt_time pt + 1000) target = target"
    using assms(2) add_1000(2)[OF assms(3)] by (auto simp: min_def)
  ultimately show ?thesis using assms
    by (subst time_past_def, subst time_steps.simps) (simp add: Let_def)
qed

theorem time_past_backward_witness:
  "time_past False (\<lambda>_. None) 900 \<lparr>pt_time = 1000, pt_writers = 2\<rparr> timer_thread_new =
     Some (Inl (Runtime_Error ''packet time value out of order''), \<lparr>pt_time = 900, pt_writers = 2\<rparr>, timer_thread_new, [])"
  by (subst time_past_backward) simp_all

end
