(* ===== verification/Composition.thy ===== *)
theory Composition
  imports Block_Links Thread_Pools Timers
begin

text \<open>
  Compositions (\<open>core/composition\<close>) and the directory of thread pools
  (\<open>core/scheduler/PoolManager.hpp\<close>): creating blocks and links from a parsed description
  and the singletons that hold them. The XML parser is not part of the repository: a
  description is given by the attribute values the code reads (an absent attribute is the empty
  string), and the block classes by what the factory and the virtual methods return.
\<close>

subsection \<open>Ordered maps\<close>

text \<open>\<open>std::map\<close> with string keys: an association list in key order.\<close>

fun str_less :: "string \<Rightarrow> string \<Rightarrow> bool" where
  "str_less xs [] \<longleftrightarrow> False"
| "str_less [] (y # ys) \<longleftrightarrow> True"
| "str_less (x # xs) (y # ys) \<longleftrightarrow>
     (of_char x :: nat) < of_char y \<or> (x = y \<and> str_less xs ys)"

type_synonym 'v smap = "(string \<times> 'v) list"

fun smap_put :: "string \<Rightarrow> 'v \<Rightarrow> 'v smap \<Rightarrow> 'v smap" where
  "smap_put k v [] = [(k, v)]"
| "smap_put k v ((k', v') # m) =
     (if k = k' then (k, v) # m
      else if str_less k k' then (k, v) # (k', v') # m
      else (k', v') # smap_put k v m)"

definition smap_erase :: "string \<Rightarrow> 'v smap \<Rightarrow> 'v smap" where
  "smap_erase k m = filter (\<lambda>e. fst e \<noteq> k) m"

lemma map_of_smap_put: "map_of (smap_put k v m) = (map_of m)(k \<mapsto> v)"
  by (induction m) auto

lemma map_of_smap_erase: "map_of (smap_erase k m) = (map_of m)(k := None)"
  by (induction m) (auto simp: smap_erase_def)

subsection \<open>State\<close>

type_synonym bpool = "(addr mpmc, addr) pool"

record comp =
  cm_map :: "addr smap"
  cm_id :: string

record ('m, 't, 'u) system =
  sy_heap :: "('m, 't, 'u) heap"
  sy_next :: addr
  sy_pools :: "bpool smap"
  sy_pools_running :: bool
  sy_comps :: "comp smap"

text \<open>
  The generic factory of \<open>lib/external/factory\<close>: registered allocators by key; the first
  registration of a key stays.
\<close>

type_synonym ('k, 'arg, 'b) factory = "'k \<Rightarrow> ('arg \<Rightarrow> 'b) option"

definition factory_regist :: "'k \<Rightarrow> ('arg \<Rightarrow> 'b) \<Rightarrow> ('k, 'arg, 'b) factory \<Rightarrow> bool \<times> ('k, 'arg, 'b) factory" where
  "factory_regist k f m = (m k = None, map_insert k f m)"

definition factory_unregist :: "'k \<Rightarrow> ('k, 'arg, 'b) factory \<Rightarrow> bool \<times> ('k, 'arg, 'b) factory" where
  "factory_unregist k m = (m k \<noteq> None, m(k := None))"

definition factory_is_registered :: "'k \<Rightarrow> ('k, 'arg, 'b) factory \<Rightarrow> bool" where
  "factory_is_registered k m \<longleftrightarrow> m k \<noteq> None"

definition factory_shared :: "('k, 'arg, 'b) factory \<Rightarrow> 'k \<Rightarrow> 'arg \<Rightarrow> 'b option" where
  "factory_shared m k x = map_option (\<lambda>f. f x) (m k)"

text \<open>The block classes: the factory's content, and the methods a composition calls.\<close>

record ('m, 't, 'u, 'x) classes =
  cl_factory :: "(string, string \<times> invocation_type, ('m, 't, 'u) block) factory"
  cl_configure :: "'x \<Rightarrow> (('m, 't, 'u) block, unit) op"
  cl_initialize :: "(('m, 't, 'u) block, unit) op"
  cl_synchronize :: "('m, 't, 'u) block \<Rightarrow> bool"

subsection \<open>The pool directory\<close>

record xml_pool =
  xp_id :: string
  xp_num_threads :: int
  xp_cores :: "nat option list"

text \<open>\<open>sscanf\<close> leaves the marker 0xffffffff in place when it cannot read a number.\<close>

fun parse_cores :: "nat option list \<Rightarrow> nat list res" where
  "parse_cores [] = Inr []"
| "parse_cores (c # cs) =
     (let corenum = (case c of None \<Rightarrow> 4294967295 | Some v \<Rightarrow> v) in
      if corenum = 4294967295 then Inl (Runtime_Error ''cannot parse core number'')
      else bindE (parse_cores cs) (\<lambda>r. Inr (corenum # r)))"

definition create_pool :: "xml_pool \<Rightarrow> (('m, 't, 'u) system, unit) op" where
  "create_pool x s =
     (if xp_id x = [] \<or> xp_num_threads x = 0 then (Inl (Runtime_Error ''could not parse thread pool paramters''), s)
      else case parse_cores (xp_cores x) of
        Inl e \<Rightarrow> (Inl e, s)
      | Inr aff \<Rightarrow>
          if map_of (sy_pools s) (xp_id x) \<noteq> None
          then (Inl (Runtime_Error (xp_id x @ '' : thread pool already exists'')), s)
          else (Inr (), s\<lparr>sy_pools := smap_put (xp_id x) (pool_new DumbScheduler (xp_num_threads x) aff) (sy_pools s)\<rparr>))"

definition with_pool :: "string \<Rightarrow> (bpool, 'a) op \<Rightarrow> (('m, 't, 'u) system, 'a) op" where
  "with_pool name f s =
     (case map_of (sy_pools s) name of
        None \<Rightarrow> (Inl (Runtime_Error (name @ '' : thread pool does noe exist'')), s)
      | Some p \<Rightarrow> (case f p of (r, p') \<Rightarrow> (r, s\<lparr>sy_pools := smap_put name p' (sy_pools s)\<rparr>)))"

definition add_to_pool :: "string \<Rightarrow> addr \<Rightarrow> (('m, 't, 'u) system, unit) op" where
  "add_to_pool name b = with_pool name (pool_add_task DumbScheduler b)"

definition remove_from_pool :: "string \<Rightarrow> addr \<Rightarrow> (('m, 't, 'u) system, unit) op" where
  "remove_from_pool name b = with_pool name (pool_remove_task DumbScheduler b)"

definition delete_pool :: "string \<Rightarrow> (('m, 't, 'u) system, unit) op" where
  "delete_pool name = modifyX (\<lambda>s. s\<lparr>sy_pools := smap_erase name (sy_pools s)\<rparr>)"

definition pool_run :: "(bpool, unit) op" where
  "pool_run = bindX pool_run_call (\<lambda>_. bindX (getX (\<lambda>p. length (tp_threads p))) (\<lambda>n.
     forX [0..<Suc n] (pool_start DumbScheduler)))"

definition pools_start :: "(('m, 't, 'u) system, unit) op" where
  "pools_start =
     bindX (modifyX (\<lambda>s. s\<lparr>sy_pools_running := True\<rparr>)) (\<lambda>_.
     bindX (getX (\<lambda>s. map fst (sy_pools s))) (\<lambda>names.
     forX names (\<lambda>name. with_pool name pool_run)))"

text \<open>\<open>stop\<close> waits for the workers: a relation between the pools before and after.\<close>

inductive pools_stop :: "bpool smap \<Rightarrow> unit res \<Rightarrow> bpool smap \<Rightarrow> bool" where
  pools_stop_nil: "pools_stop [] (Inr ()) []"
| pools_stop_throw: "pool_stop_call p = (Inl e, p') \<Longrightarrow> pools_stop ((k, p) # m) (Inl e) ((k, p') # m)"
| pools_stop_next: "pool_stop_call p = (Inr (), p') \<Longrightarrow> pool_exec DumbScheduler ls p' p'' \<Longrightarrow> tp_main p'' = M_Idle \<Longrightarrow>
    \<not> tp_running p'' \<Longrightarrow> pools_stop m r m' \<Longrightarrow> pools_stop ((k, p) # m) r ((k, p'') # m')"

subsection \<open>Blocks of a composition\<close>

text \<open>
  A block lives as long as a composition or a pool refers to it. \<open>release\<close> drops a
  reference; the block goes when it was the last.
\<close>

definition pool_blocks :: "bpool \<Rightarrow> addr list" where
  "pool_blocks p = tp_sched p @ held_blocks p"

definition referenced :: "('m, 't, 'u) system \<Rightarrow> addr \<Rightarrow> bool" where
  "referenced s a \<longleftrightarrow> (\<exists>c \<in> set (sy_comps s). a \<in> set (map snd (cm_map (snd c)))) \<or>
     (\<exists>p \<in> set (sy_pools s). a \<in> set (pool_blocks (snd p)))"

definition release :: "addr \<Rightarrow> ('m, 't, 'u) system \<Rightarrow> ('m, 't, 'u) system" where
  "release a s = (if referenced s a then s else s\<lparr>sy_heap := (sy_heap s)(a := None)\<rparr>)"

definition get_comp :: "string \<Rightarrow> (('m, 't, 'u) system, comp) op" where
  "get_comp cid s =
     (case map_of (sy_comps s) cid of
        None \<Rightarrow> (Inl (Runtime_Error ''CompositionManager:: composition not found''), s)
      | Some c \<Rightarrow> (Inr c, s))"

definition put_comp :: "string \<Rightarrow> comp \<Rightarrow> ('m, 't, 'u) system \<Rightarrow> ('m, 't, 'u) system" where
  "put_comp cid c s = s\<lparr>sy_comps := smap_put cid c (sy_comps s)\<rparr>"

definition block_instantiate ::
  "('m, 't, 'u, 'x) classes \<Rightarrow> string \<Rightarrow> string \<Rightarrow> invocation_type \<Rightarrow> ('m, 't, 'u) block option" where
  "block_instantiate cl type name ivk = factory_shared (cl_factory cl) type (name, ivk)"

definition block_configure :: "('m, 't, 'u, 'x) classes \<Rightarrow> 'x \<Rightarrow> (('m, 't, 'u) block, unit) op" where
  "block_configure cl x = bindX (cl_configure cl x) (\<lambda>_. modifyX (\<lambda>b. b\<lparr>b_sync := cl_synchronize cl b\<rparr>))"

text \<open>\<open>m_map[name] = sp\<close> replaces a block that has the name already.\<close>

definition create_block_from_parsed ::
  "('m, 't, 'u, 'x) classes \<Rightarrow> string \<Rightarrow> string \<Rightarrow> string \<Rightarrow> invocation_type \<Rightarrow> 'x \<Rightarrow> (('m, 't, 'u) system, addr) op" where
  "create_block_from_parsed cl cid type name ivk x = bindX (get_comp cid) (\<lambda>c s.
     case block_instantiate cl type name ivk of
       None \<Rightarrow> (Inl (Runtime_Error (type @ '': block type not supported'')), s)
     | Some b \<Rightarrow>
         (case block_configure cl x b of
            (Inl e, _) \<Rightarrow> (Inl e, s)
          | (Inr _, b') \<Rightarrow>
              let a = sy_next s;
                  s1 = s\<lparr>sy_heap := (sy_heap s)(a \<mapsto> b'), sy_next := a + 1\<rparr>;
                  s2 = put_comp cid (c\<lparr>cm_map := smap_put name a (cm_map c)\<rparr>) s1
              in (Inr a, case map_of (cm_map c) name of None \<Rightarrow> s2 | Some old \<Rightarrow> release old s2)))"

definition delete_block :: "string \<Rightarrow> string \<Rightarrow> (('m, 't, 'u) system, unit) op" where
  "delete_block cid name = bindX (get_comp cid) (\<lambda>c s.
     case map_of (cm_map c) name of
       None \<Rightarrow> (Inl (Runtime_Error ''Composition:: trying to delete non-existing block''), s)
     | Some a \<Rightarrow> (Inr (), release a (put_comp cid (c\<lparr>cm_map := smap_erase name (cm_map c)\<rparr>) s)))"

definition get_block :: "string \<Rightarrow> string \<Rightarrow> (('m, 't, 'u) system, addr) op" where
  "get_block cid name = bindX (get_comp cid) (\<lambda>c s.
     case map_of (cm_map c) name of
       None \<Rightarrow> (Inl (Runtime_Error (''Composition:: requested non-existing block '' @ name)), s)
     | Some a \<Rightarrow> (Inr a, s))"

subsection \<open>Links of a composition\<close>

definition find_gate ::
  "(string \<Rightarrow> ('m, 't, 'u) block \<Rightarrow> nat res) \<Rightarrow> string \<Rightarrow> comp \<Rightarrow> string \<Rightarrow> string \<Rightarrow> ('m, 't, 'u) heap \<Rightarrow> gptr res" where
  "find_gate get msg c bname gate h =
     (case map_of (cm_map c) bname of
        None \<Rightarrow> Inl (Runtime_Error (msg @ bname @ '': no such block.''))
      | Some a \<Rightarrow>
          (case h a of
             None \<Rightarrow> Inl Undefined_Behaviour
           | Some b \<Rightarrow> bindE (get gate b) (\<lambda>i. Inr (a, i))))"

definition find_output_gate :: "comp \<Rightarrow> string \<Rightarrow> string \<Rightarrow> ('m, 't, 'u) heap \<Rightarrow> gptr res" where
  "find_output_gate = find_gate get_output_gate ''Cannot create connection from block ''"

definition find_input_gate :: "comp \<Rightarrow> string \<Rightarrow> string \<Rightarrow> ('m, 't, 'u) heap \<Rightarrow> gptr res" where
  "find_input_gate = find_gate get_input_gate ''Cannot create connection to block ''"

definition on_heap :: "(('m, 't, 'u) heap, 'a) op \<Rightarrow> (('m, 't, 'u) system, 'a) op" where
  "on_heap f s = (case f (sy_heap s) of (r, h) \<Rightarrow> (r, s\<lparr>sy_heap := h\<rparr>))"

definition liftR :: "('s \<Rightarrow> 'a res) \<Rightarrow> ('s, 'a) op" where
  "liftR f s = (f s, s)"

record xml_link =
  xl_src_block :: string
  xl_src_gate :: string
  xl_dst_block :: string
  xl_dst_gate :: string

definition link_gates :: "comp \<Rightarrow> xml_link \<Rightarrow> (('m, 't, 'u) heap, gptr \<times> gptr) op" where
  "link_gates c l =
     bindX (liftR (find_output_gate c (xl_src_block l) (xl_src_gate l))) (\<lambda>from.
     bindX (liftR (find_input_gate c (xl_dst_block l) (xl_dst_gate l))) (\<lambda>to.
     returnX (from, to)))"

definition comp_create_link :: "comp \<Rightarrow> xml_link \<Rightarrow> (('m, 't, 'u) heap, unit) op" where
  "comp_create_link c l = bindX (link_gates c l) (\<lambda>(from, to).
     bindX (in_connect to from) (\<lambda>_. out_connect from to))"

definition comp_delete_link :: "comp \<Rightarrow> xml_link \<Rightarrow> (('m, 't, 'u) heap, unit) op" where
  "comp_delete_link c l = bindX (link_gates c l) (\<lambda>(from, to).
     bindX (in_disconnect to from) (\<lambda>_. out_disconnect from to))"

subsection \<open>Installing a composition\<close>

record 'x xml_block =
  xb_id :: string
  xb_type :: string
  xb_threadpool :: string
  xb_sched_type :: string
  xb_invocation :: string
  xb_config :: 'x

text \<open>
  The two attributes that select the invocation type. The branches for an unknown value build a
  \<open>std::runtime_error\<close> object and drop it.
\<close>

definition parse_invocation :: "string \<Rightarrow> string \<Rightarrow> invocation_type" where
  "parse_invocation sched_type invocation_str =
     (let i1 = (if 0 < length sched_type \<and> sched_type = ''active'' then Indirect else Direct) in
      if 0 < length invocation_str then
        (if invocation_str = ''direct'' then Direct
         else if invocation_str = ''indirect'' then Indirect
         else if invocation_str = ''async'' then Async
         else i1)
      else i1)"

definition install_block :: "('m, 't, 'u, 'x) classes \<Rightarrow> string \<Rightarrow> 'x xml_block \<Rightarrow> (('m, 't, 'u) system, unit) op" where
  "install_block cl cid n =
     (if xb_id n = [] \<or> xb_type n = [] then throwX (Runtime_Error ''block name or type missing'')
      else
        let ivk = parse_invocation (xb_sched_type n) (xb_invocation n) in
        bindX (create_block_from_parsed cl cid (xb_type n) (xb_id n) ivk (xb_config n)) (\<lambda>a.
        if ivk = Indirect \<or> ivk = Async then
          (if xb_threadpool n = [] then throwX (Runtime_Error ''need a threadpool for active/async invocation'')
           else add_to_pool (xb_threadpool n) a)
        else returnX ()))"

definition install_link :: "string \<Rightarrow> xml_link \<Rightarrow> (('m, 't, 'u) system, unit) op" where
  "install_link cid l =
     (if xl_src_block l = [] then throwX (Runtime_Error ''missing begin block in connection'')
      else if xl_src_gate l = [] then throwX (Runtime_Error ''missing begin gate in connection'')
      else if xl_dst_block l = [] then throwX (Runtime_Error ''missing dst block in connection'')
      else if xl_dst_gate l = [] then throwX (Runtime_Error ''missing begin gate in connection'')
      else bindX (get_comp cid) (\<lambda>c. on_heap (comp_create_link c l)))"

definition comp_initialize :: "('m, 't, 'u, 'x) classes \<Rightarrow> string \<Rightarrow> (('m, 't, 'u) system, unit) op" where
  "comp_initialize cl cid = bindX (get_comp cid) (\<lambda>c.
     forX (map snd (cm_map c)) (\<lambda>a. on_heap (with_block a (cl_initialize cl))))"

definition install ::
  "('m, 't, 'u, 'x) classes \<Rightarrow> string \<Rightarrow> 'x xml_block list \<Rightarrow> xml_link list \<Rightarrow> (('m, 't, 'u) system, unit) op" where
  "install cl cid blocks links =
     bindX (forX blocks (install_block cl cid)) (\<lambda>_.
     bindX (forX links (install_link cid)) (\<lambda>_.
     comp_initialize cl cid))"

subsection \<open>The composition directory\<close>

definition delete_composition :: "string \<Rightarrow> (('m, 't, 'u) system, unit) op" where
  "delete_composition name s =
     (case map_of (sy_comps s) name of
        None \<Rightarrow> (Inl (Runtime_Error (name @ '' : composition does not exist'')), s)
      | Some c \<Rightarrow>
          (Inr (), fold release (map snd (cm_map c)) (s\<lparr>sy_comps := smap_erase name (sy_comps s)\<rparr>)))"

definition add_composition :: "string \<Rightarrow> (('m, 't, 'u) system, unit) op" where
  "add_composition name s =
     (if map_of (sy_comps s) name \<noteq> None
      then (Inl (Runtime_Error (name @ '' : composition already exists'')), s)
      else (Inr (), put_comp name \<lparr>cm_map = [], cm_id = name\<rparr> s))"

definition init_composition :: "('m, 't, 'u, 'x) classes \<Rightarrow> string \<Rightarrow> (('m, 't, 'u) system, unit) op" where
  "init_composition = comp_initialize"

text \<open>
  \<open>add_config_from_file\<close> after the file has been loaded; \<open>None\<close> for a part that is
  missing from the document.
\<close>

record 'x xml_config =
  xc_id :: string
  xc_app_id :: string
  xc_clock :: "string option option option"
  xc_install :: "(xml_pool list \<times> 'x xml_block list \<times> xml_link list) option"

definition parse_clock :: "string option option option \<Rightarrow> clock_source_t res" where
  "parse_clock x =
     (case x of
        None \<Rightarrow> Inl (Runtime_Error ''init: No <general> tag found in composition XML'')
      | Some None \<Rightarrow> Inl (Runtime_Error ''init: No <clock> tag found within <general> tag in composition XML'')
      | Some (Some None) \<Rightarrow> Inl (Runtime_Error ''init: No type attribute within <clock> tag found'')
      | Some (Some (Some t)) \<Rightarrow>
          if t = ''wall'' \<or> t = ''WALL'' then Inr WALL
          else if t = ''packet'' \<or> t = ''PACKET'' then Inr PACKET
          else Inl (Runtime_Error (''init: Clock type '' @ t @ '' is invalid'')))"

definition add_config ::
  "('m, 't, 'u, 'x) classes \<Rightarrow> 'x xml_config option \<Rightarrow> (clock_source_t \<times> ('m, 't, 'u) system, unit) op" where
  "add_config cl doc cs =
     (case doc of
        None \<Rightarrow> (Inl (Runtime_Error ''composition node not found''), cs)
      | Some x \<Rightarrow>
          (case parse_clock (xc_clock x) of
             Inl e \<Rightarrow> (Inl e, cs)
           | Inr clk \<Rightarrow>
               (case xc_install x of
                  None \<Rightarrow> (Inl (Runtime_Error '' only installation is allowed through this entry point''), (clk, snd cs))
                | Some (pools, blocks, links) \<Rightarrow>
                    (case bindX (forX pools create_pool) (\<lambda>_ s.
                       if map_of (sy_comps s) (xc_id x) \<noteq> None
                       then (Inl (Runtime_Error (xc_id x @ '' : composition already exists'')), s)
                       else install cl (xc_id x) blocks links (put_comp (xc_id x) \<lparr>cm_map = [], cm_id = xc_app_id x\<rparr> s)) (snd cs)
                     of (r, s) \<Rightarrow> (r, (clk, s))))))"

subsection \<open>Looking up gates\<close>

text \<open>What a lookup depends on does not change when gates are connected.\<close>

definition gate_names :: "('m, 't, 'u) heap \<Rightarrow> addr \<Rightarrow> (string \<times> (string \<rightharpoonup> nat) \<times> (string \<rightharpoonup> nat) \<times> nat \<times> nat) option" where
  "gate_names h a = map_option (\<lambda>b. (b_name b, b_input_ids b, b_output_ids b, length (b_ingates b), length (b_outgates b))) (h a)"

lemma with_in_names: "with_in g f h = (r, h') \<Longrightarrow> gate_names h' = gate_names h"
  by (rule ext) (auto simp: with_in_def with_block_def gate_names_def split: option.splits prod.splits if_splits)

lemma with_out_names: "with_out g f h = (r, h') \<Longrightarrow> gate_names h' = gate_names h"
  by (rule ext) (auto simp: with_out_def with_block_def gate_names_def split: option.splits prod.splits if_splits)

lemma find_output_gate_cong:
  assumes "gate_names h' = gate_names h"
  shows "find_output_gate c bn g h' = find_output_gate c bn g h"
proof (cases "map_of (cm_map c) bn")
  case (Some a)
  have "gate_names h' a = gate_names h a" using assms by simp
  with Some show ?thesis
    by (cases "h a"; cases "h' a") (auto simp: find_output_gate_def find_gate_def get_output_gate_def gate_names_def split: option.split)
qed (simp add: find_output_gate_def find_gate_def)

lemma find_input_gate_cong:
  assumes "gate_names h' = gate_names h"
  shows "find_input_gate c bn g h' = find_input_gate c bn g h"
proof (cases "map_of (cm_map c) bn")
  case (Some a)
  have "gate_names h' a = gate_names h a" using assms by simp
  with Some show ?thesis
    by (cases "h a"; cases "h' a") (auto simp: find_input_gate_def find_gate_def get_input_gate_def gate_names_def split: option.split)
qed (simp add: find_input_gate_def find_gate_def)

lemma find_output_gate_exists: "find_output_gate c bn g h = Inr p \<Longrightarrow> out_exists h p"
  by (auto simp: find_output_gate_def find_gate_def get_output_gate_def out_exists_def bindE_guardE_Inr bindE_Inr_conv
      split: option.splits)

lemma find_input_gate_exists: "find_input_gate c bn g h = Inr p \<Longrightarrow> in_exists h p"
  by (auto simp: find_input_gate_def find_gate_def get_input_gate_def in_exists_def bindE_guardE_Inr bindE_Inr_conv
      split: option.splits)

text \<open>The two ends of a link, when both are there.\<close>

definition link_ends :: "comp \<Rightarrow> xml_link \<Rightarrow> ('m, 't, 'u) heap \<Rightarrow> (gptr \<times> gptr) res" where
  "link_ends c l h = bindE (find_output_gate c (xl_src_block l) (xl_src_gate l) h) (\<lambda>p.
     bindE (find_input_gate c (xl_dst_block l) (xl_dst_gate l) h) (\<lambda>g. Inr (p, g)))"

lemma link_gates_eq: "link_gates c l h = (link_ends c l h, h)"
  by (cases "find_output_gate c (xl_src_block l) (xl_src_gate l) h"; cases "find_input_gate c (xl_dst_block l) (xl_dst_gate l) h")
    (simp_all add: link_gates_def link_ends_def bindX_apply liftR_def)

lemma link_ends_cong: "gate_names h' = gate_names h \<Longrightarrow> link_ends c l h' = link_ends c l h"
  unfolding link_ends_def by (simp only: find_output_gate_cong[of h' h] find_input_gate_cong[of h' h])

lemma link_ends_exist: "link_ends c l h = Inr (p, g) \<Longrightarrow> out_exists h p \<and> in_exists h g"
  by (auto simp: link_ends_def bindE_Inr_conv dest: find_output_gate_exists find_input_gate_exists)

lemma create_link_effect:
  assumes "link_ends c l h = Inr (p, g)"
  shows "\<exists>h'. comp_create_link c l h = (Inr (), h') \<and> gate_names h' = gate_names h \<and> same_gates h h' \<and>
    peers_out h' = (peers_out h)(p := peers_out h p @ [g]) \<and> peers_in h' = (peers_in h)(g := peers_in h g @ [p])"
proof -
  have ex: "out_exists h p" "in_exists h g" using link_ends_exist[OF assms] by auto
  obtain h1 where 1: "in_connect g p h = (Inr (), h1)" "same_gates h h1" "peers_out h1 = peers_out h"
    "peers_in h1 = (peers_in h)(g := peers_in h g @ [p])" using in_connect_ok[OF ex(2), of p] by auto
  have "out_exists h1 p" using ex(1) 1(2) by (simp add: same_gates_def)
  then obtain h2 where 2: "out_connect p g h1 = (Inr (), h2)" "same_gates h1 h2" "peers_in h2 = peers_in h1"
    "peers_out h2 = (peers_out h1)(p := peers_out h1 p @ [g])" using out_connect_ok[of h1 p g] by auto
  have "gate_names h1 = gate_names h" using 1(1) by (auto simp: in_connect_def dest: with_in_names)
  moreover have "gate_names h2 = gate_names h1" using 2(1) by (auto simp: out_connect_def dest: with_out_names)
  ultimately show ?thesis using 1 2 assms same_gates_trans
    by (auto simp: comp_create_link_def bindX_apply link_gates_eq)
qed

text \<open>
  C12: creating a link between two named gates either adds exactly that link, once on each
  side, or, when a block or gate of that name is missing, throws and changes nothing; the two
  sides agree afterwards if they did before.
\<close>

theorem create_link_correct:
  assumes "symmetric_links h"
  shows "case comp_create_link c l h of (r, h') \<Rightarrow> symmetric_links h' \<and>
    (case link_ends c l h of
       Inl e \<Rightarrow> r = Inl e \<and> h' = h
     | Inr (p, g) \<Rightarrow> r = Inr () \<and> peers_out h' = (peers_out h)(p := peers_out h p @ [g]) \<and>
         peers_in h' = (peers_in h)(g := peers_in h g @ [p]))"
proof (cases "link_ends c l h")
  case (Inl e)
  then show ?thesis using assms by (simp add: comp_create_link_def bindX_apply link_gates_eq)
next
  case (Inr pg)
  obtain p g where pg: "pg = (p, g)" by (cases pg)
  with create_link_effect[of c l h p g] Inr obtain h' where
    h': "comp_create_link c l h = (Inr (), h')" "peers_out h' = (peers_out h)(p := peers_out h p @ [g])"
    "peers_in h' = (peers_in h)(g := peers_in h g @ [p])" by auto
  with symmetric_connect[OF assms h'(2,3)] Inr pg show ?thesis by simp
qed

definition demo_comp :: comp where
  "demo_comp = \<lparr>cm_map = [(''a'', 0), (''b'', 1)], cm_id = ''demo''\<rparr>"

definition demo_link :: xml_link where
  "demo_link = \<lparr>xl_src_block = ''a'', xl_src_gate = ''out'', xl_dst_block = ''b'', xl_dst_gate = ''in''\<rparr>"

lemma demo_link_ends: "link_ends demo_comp demo_link (pair_heap n) = Inr ((0, 0), (1, 0))"
  by (simp add: link_ends_def find_output_gate_def find_input_gate_def find_gate_def get_output_gate_def get_input_gate_def
      demo_comp_def demo_link_def pair_defs map_insert_def)

theorem create_link_correct_witness:
  "symmetric_links (pair_heap 0) \<and> (case comp_create_link demo_comp demo_link (pair_heap 0) of (r, h') \<Rightarrow>
     symmetric_links h' \<and> r = Inr ())"
  using create_link_correct[where h = "pair_heap 0", OF pair_symmetric, of demo_comp demo_link] pair_symmetric[of 0] demo_link_ends[of 0]
  by (auto split: prod.splits)

text \<open>
  deleting a link that was just created between two gates that had none restores all peer
  lists.
\<close>

theorem link_roundtrip:
  assumes "symmetric_links h" and "link_ends c l h = Inr (p, g)" and "g \<notin> set (peers_out h p)"
  shows "\<exists>h1 h2. comp_create_link c l h = (Inr (), h1) \<and> comp_delete_link c l h1 = (Inr (), h2) \<and>
    peers_out h2 = peers_out h \<and> peers_in h2 = peers_in h"
proof -
  obtain h1 where 1: "comp_create_link c l h = (Inr (), h1)" "gate_names h1 = gate_names h" "same_gates h h1"
    "peers_out h1 = (peers_out h)(p := peers_out h p @ [g])" "peers_in h1 = (peers_in h)(g := peers_in h g @ [p])"
    using create_link_effect[OF assms(2)] by auto
  have ends: "link_ends c l h1 = Inr (p, g)" using link_ends_cong[OF 1(2)] assms(2) by simp
  have ex: "out_exists h1 p" "in_exists h1 g" using link_ends_exist[OF ends] by auto
  have np: "p \<notin> set (peers_in h g)" using symmetric_mem[OF assms(1)] assms(3) by blast
  obtain h2 where 2: "in_disconnect g p h1 = (Inr (), h2)" "same_gates h1 h2" "peers_out h2 = peers_out h1"
    "peers_in h2 = (peers_in h1)(g := filter (\<lambda>q. q \<noteq> p) (peers_in h1 g))"
    using in_disconnect_ok[OF ex(2), of p] 1(5) by auto
  obtain h3 where 3: "out_disconnect p g h2 = (Inr (), h3)" "peers_in h3 = peers_in h2"
    "peers_out h3 = (peers_out h2)(p := filter (\<lambda>q. q \<noteq> g) (peers_out h2 p))"
    using out_disconnect_ok[of h2 p g] ex(1) 1(4) 2(2,3) by (auto simp: same_gates_def)
  have "filter (\<lambda>q. q \<noteq> p) (peers_in h g) = peers_in h g" "filter (\<lambda>q. q \<noteq> g) (peers_out h p) = peers_out h p"
    using np assms(3) by (auto intro!: filter_True)
  then have "peers_in h3 = peers_in h" "peers_out h3 = peers_out h"
    using 1(4,5) 2(3,4) 3(2,3) by (auto simp: fun_eq_iff)
  moreover have "comp_delete_link c l h1 = (Inr (), h3)"
    by (simp add: comp_delete_link_def bindX_apply link_gates_eq ends 2(1) 3(1))
  ultimately show ?thesis using 1(1) by blast
qed

theorem link_roundtrip_witness:
  "\<exists>h1 h2. comp_create_link demo_comp demo_link (pair_heap 0) = (Inr (), h1) \<and>
     comp_delete_link demo_comp demo_link h1 = (Inr (), h2) \<and>
     peers_out h2 = peers_out (pair_heap 0) \<and> peers_in h2 = peers_in (pair_heap 0)"
proof -
  have "(1, 0) \<notin> set (peers_out (pair_heap 0) (0, 0))" by (simp add: peers_out_def pair_defs)
  with link_roundtrip[OF pair_symmetric demo_link_ends] show ?thesis by blast
qed

subsection \<open>Installing\<close>

lemma get_comp_ok: "map_of (sy_comps s) cid = Some c \<Longrightarrow> get_comp cid s = (Inr c, s)"
  by (simp add: get_comp_def)

definition link_complete :: "xml_link \<Rightarrow> bool" where
  "link_complete l \<longleftrightarrow> xl_src_block l \<noteq> [] \<and> xl_src_gate l \<noteq> [] \<and> xl_dst_block l \<noteq> [] \<and> xl_dst_gate l \<noteq> []"

lemma install_links_effect:
  assumes "map_of (sy_comps s) cid = Some c"
    and "\<And>l. l \<in> set ls \<Longrightarrow> link_complete l \<and> link_ends c l (sy_heap s) = Inr (src l, dst l)"
  shows "\<exists>s'. forX ls (install_link cid) s = (Inr (), s') \<and> sy_comps s' = sy_comps s \<and> sy_pools s' = sy_pools s \<and>
    gate_names (sy_heap s') = gate_names (sy_heap s) \<and>
    (\<forall>p. peers_out (sy_heap s') p = peers_out (sy_heap s) p @ map dst (filter (\<lambda>l. src l = p) ls)) \<and>
    (\<forall>g. peers_in (sy_heap s') g = peers_in (sy_heap s) g @ map src (filter (\<lambda>l. dst l = g) ls))"
  using assms
proof (induction ls arbitrary: s)
  case Nil
  then show ?case by simp
next
  case (Cons l ls)
  have l: "link_complete l" "link_ends c l (sy_heap s) = Inr (src l, dst l)" using Cons.prems(2) by auto
  obtain h where h: "comp_create_link c l (sy_heap s) = (Inr (), h)" "gate_names h = gate_names (sy_heap s)"
    "peers_out h = (peers_out (sy_heap s))(src l := peers_out (sy_heap s) (src l) @ [dst l])"
    "peers_in h = (peers_in (sy_heap s))(dst l := peers_in (sy_heap s) (dst l) @ [src l])"
    using create_link_effect[OF l(2)] by auto
  define s1 where "s1 = s\<lparr>sy_heap := h\<rparr>"
  have step: "install_link cid l s = (Inr (), s1)"
    using l(1) Cons.prems(1) h(1) by (simp add: install_link_def link_complete_def bindX_apply get_comp_ok on_heap_def s1_def)
  have "link_complete k \<and> link_ends c k (sy_heap s1) = Inr (src k, dst k)" if "k \<in> set ls" for k
    using Cons.prems(2)[of k] that link_ends_cong[OF h(2), of c k] by (simp add: s1_def)
  then obtain s2 where s2: "forX ls (install_link cid) s1 = (Inr (), s2)" "sy_comps s2 = sy_comps s1" "sy_pools s2 = sy_pools s1"
    "gate_names (sy_heap s2) = gate_names (sy_heap s1)"
    "\<forall>p. peers_out (sy_heap s2) p = peers_out (sy_heap s1) p @ map dst (filter (\<lambda>l. src l = p) ls)"
    "\<forall>g. peers_in (sy_heap s2) g = peers_in (sy_heap s1) g @ map src (filter (\<lambda>l. dst l = g) ls)"
    using Cons.IH[of s1] Cons.prems(1) by (auto simp: s1_def)
  have "forX (l # ls) (install_link cid) s = (Inr (), s2)" by (simp add: bindX_apply step s2(1))
  with s2 h(2-4) show ?case by (auto simp: s1_def)
qed

text \<open>
  C13: the connection part of an installation builds exactly the described wiring: if every
  connection names existing gates, each output gate gets, after the peers it had, the input
  gates that the description connects to it, in the order of the description, each input gate
  the corresponding output gates, and the two sides still agree.
\<close>

theorem install_links_correct:
  assumes "symmetric_links (sy_heap s)" and "map_of (sy_comps s) cid = Some c"
    and "\<forall>l \<in> set ls. link_complete l \<and> link_ends c l (sy_heap s) = Inr (src l, dst l)"
  shows "\<exists>s'. forX ls (install_link cid) s = (Inr (), s') \<and>
    (\<forall>p. peers_out (sy_heap s') p = peers_out (sy_heap s) p @ map dst (filter (\<lambda>l. src l = p) ls)) \<and>
    (\<forall>g. peers_in (sy_heap s') g = peers_in (sy_heap s) g @ map src (filter (\<lambda>l. dst l = g) ls)) \<and>
    symmetric_links (sy_heap s')"
proof -
  obtain s' where s': "forX ls (install_link cid) s = (Inr (), s')"
    "\<forall>p. peers_out (sy_heap s') p = peers_out (sy_heap s) p @ map dst (filter (\<lambda>l. src l = p) ls)"
    "\<forall>g. peers_in (sy_heap s') g = peers_in (sy_heap s) g @ map src (filter (\<lambda>l. dst l = g) ls)"
    using install_links_effect[OF assms(2), of ls src dst] assms(3) by blast
  have "count_list (map dst (filter (\<lambda>l. src l = p) ls)) g = count_list (map src (filter (\<lambda>l. dst l = g) ls)) p" for p g
    by (induction ls) auto
  then have "symmetric_links (sy_heap s')" using assms(1) s'(2,3) by (auto simp: symmetric_links_def)
  with s' show ?thesis by blast
qed

definition demo_system :: "(nat, nat, nat) system" where
  "demo_system = \<lparr>sy_heap = pair_heap 0, sy_next = 2, sy_pools = [], sy_pools_running = False, sy_comps = [(''demo'', demo_comp)]\<rparr>"

theorem install_links_correct_witness:
  "\<exists>s'. forX [demo_link] (install_link ''demo'') demo_system = (Inr (), s') \<and> symmetric_links (sy_heap s') \<and>
     peers_out (sy_heap s') (0, 0) = [(1, 0)]"
proof -
  have l: "\<forall>l \<in> set [demo_link]. link_complete l \<and> link_ends demo_comp l (sy_heap demo_system) = Inr ((\<lambda>_. (0, 0)) l, (\<lambda>_. (1, 0)) l)"
    using demo_link_ends[of 0] by (simp add: demo_system_def link_complete_def demo_link_def)
  have p: "peers_out (sy_heap demo_system) (0, 0) = []" by (simp add: demo_system_def peers_out_def pair_defs)
  have s: "symmetric_links (sy_heap demo_system)" "map_of (sy_comps demo_system) ''demo'' = Some demo_comp"
    using pair_symmetric[of 0] by (simp_all add: demo_system_def)
  obtain s' where s': "forX [demo_link] (install_link ''demo'') demo_system = (Inr (), s')" "symmetric_links (sy_heap s')"
    "\<forall>p. peers_out (sy_heap s') p = peers_out (sy_heap demo_system) p @ map (\<lambda>_. (1, 0)) (filter (\<lambda>l. (0, 0) = p) [demo_link])"
    using install_links_correct[OF s l] by blast
  with p s'(3)[rule_format, of "(0, 0)"] show ?thesis by simp
qed

text \<open>
  an unknown value of the \<open>invocation\<close> attribute is not rejected: whatever the block
  and its class, it is created as if the attribute were absent.
\<close>

theorem unknown_invocation_ignored:
  assumes "ivk \<notin> {''direct'', ''indirect'', ''async''}"
  shows "install_block cl cid (n\<lparr>xb_invocation := ivk\<rparr>) = install_block cl cid (n\<lparr>xb_invocation := []\<rparr>)"
proof -
  have "parse_invocation t ivk = parse_invocation t []" for t using assms by (simp add: parse_invocation_def)
  then show ?thesis by (simp add: install_block_def Let_def cong: if_cong)
qed

theorem unknown_invocation_ignored_witness:
  "''indrect'' \<notin> {''direct'', ''indirect'', ''async''} \<and>
   (\<forall>cl n. install_block cl ''c'' (n\<lparr>xb_invocation := ''indrect''\<rparr>) = install_block cl ''c'' (n\<lparr>xb_invocation := []\<rparr>))"
  by (intro conjI allI unknown_invocation_ignored) simp_all

text \<open>No step of an installation takes a composition out of the directory.\<close>

definition has_comp :: "string \<Rightarrow> ('m, 't, 'u) system \<Rightarrow> bool" where
  "has_comp cid s \<longleftrightarrow> map_of (sy_comps s) cid \<noteq> None"

lemma has_comp_put: "has_comp cid s \<Longrightarrow> has_comp cid (put_comp k c s)"
  by (simp add: has_comp_def put_comp_def map_of_smap_put)

lemma has_comp_heap [simp]: "has_comp cid (s\<lparr>sy_heap := h\<rparr>) = has_comp cid s" "has_comp cid (s\<lparr>sy_next := a\<rparr>) = has_comp cid s"
  "has_comp cid (s\<lparr>sy_pools := ps\<rparr>) = has_comp cid s" "has_comp cid (release a s) = has_comp cid s"
  by (simp_all add: has_comp_def release_def)

lemma has_comp_bindX:
  assumes "has_comp cid (snd (m s))" and "\<And>x s'. has_comp cid s' \<Longrightarrow> has_comp cid (snd (f x s'))"
  shows "has_comp cid (snd (bindX m f s))"
  using assms by (auto simp: bindX_apply split: prod.splits sum.splits)

lemma has_comp_create_block: "has_comp cid s \<Longrightarrow> has_comp cid (snd (create_block_from_parsed cl k t n i x s))"
  unfolding create_block_from_parsed_def
  by (rule has_comp_bindX)
    (auto simp: get_comp_def Let_def has_comp_put split: option.splits prod.splits sum.splits)

lemma has_comp_install_block: "has_comp cid s \<Longrightarrow> has_comp cid (snd (install_block cl k n s))"
  by (auto simp: install_block_def Let_def add_to_pool_def with_pool_def intro!: has_comp_bindX has_comp_create_block
      split: option.splits prod.splits)

lemma has_comp_install_link: "has_comp cid s \<Longrightarrow> has_comp cid (snd (install_link k l s))"
  by (auto simp: install_link_def on_heap_def get_comp_def intro!: has_comp_bindX split: option.splits prod.splits)

lemma has_comp_install:
  assumes "has_comp cid s"
  shows "has_comp cid (snd (install cl k blocks links s))"
  unfolding install_def
proof (intro has_comp_bindX)
  show "has_comp cid (snd (forX blocks (install_block cl k) s))"
    by (rule forX_inv[where I = "has_comp cid"]) (simp_all add: has_comp_install_block assms)
  show "has_comp cid (snd (forX links (install_link k) s'))" if "has_comp cid s'" for s'
    by (rule forX_inv[where I = "has_comp cid"]) (simp_all add: has_comp_install_link that)
  show "has_comp cid (snd (comp_initialize cl k s'))" if "has_comp cid s'" for s'
    unfolding comp_initialize_def
    by (rule has_comp_bindX)
      (auto simp: get_comp_def on_heap_def that intro!: forX_inv[where I = "has_comp cid"] split: option.splits prod.splits)
qed

text \<open>
  a failed installation is not undone: when the installation of a configuration throws
  after its pools were created, the composition stays in the directory with whatever was built,
  and adding a composition of that name is refused from then on.
\<close>

theorem failed_install_stays:
  assumes "xc_install x = Some (pools, blocks, links)" and "parse_clock (xc_clock x) = Inr clk"
    and "forX pools create_pool s = (Inr (), s0)" and "map_of (sy_comps s0) (xc_id x) = None"
    and "add_config cl (Some x) (clk0, s) = (Inl e, (clk1, s1))"
  shows "add_composition (xc_id x) s1 = (Inl (Runtime_Error (xc_id x @ '' : composition already exists'')), s1)"
proof -
  let ?s = "put_comp (xc_id x) \<lparr>cm_map = [], cm_id = xc_app_id x\<rparr> s0"
  have "s1 = snd (install cl (xc_id x) blocks links ?s)"
    using assms by (auto simp: add_config_def bindX_apply split: prod.splits)
  moreover have "has_comp (xc_id x) ?s" by (simp add: has_comp_def put_comp_def map_of_smap_put)
  ultimately have "has_comp (xc_id x) s1" by (simp add: has_comp_install)
  then show ?thesis by (simp add: has_comp_def add_composition_def)
qed

definition no_classes :: "(nat, nat, nat, unit) classes" where
  "no_classes = \<lparr>cl_factory = (\<lambda>_. None), cl_configure = (\<lambda>_. returnX ()), cl_initialize = returnX (), cl_synchronize = (\<lambda>_. True)\<rparr>"

definition bad_config :: "unit xml_config" where
  "bad_config = \<lparr>xc_id = ''c'', xc_app_id = ''app'', xc_clock = Some (Some (Some ''wall'')),
     xc_install = Some ([], [\<lparr>xb_id = ''x'', xb_type = ''T'', xb_threadpool = [], xb_sched_type = [], xb_invocation = [], xb_config = ()\<rparr>], [])\<rparr>"

definition empty_system :: "(nat, nat, nat) system" where
  "empty_system = \<lparr>sy_heap = (\<lambda>_. None), sy_next = 0, sy_pools = [], sy_pools_running = False, sy_comps = []\<rparr>"

theorem failed_install_stays_witness:
  "\<exists>s1. add_config no_classes (Some bad_config) (PACKET, empty_system) =
       (Inl (Runtime_Error ''T: block type not supported''), (WALL, s1)) \<and>
     add_composition ''c'' s1 = (Inl (Runtime_Error ''c : composition already exists''), s1)"
proof -
  have run: "add_config no_classes (Some bad_config) (PACKET, empty_system) =
      (Inl (Runtime_Error ''T: block type not supported''), (WALL, put_comp ''c'' \<lparr>cm_map = [], cm_id = ''app''\<rparr> empty_system))"
    by (simp add: add_config_def bad_config_def parse_clock_def bindX_apply install_def install_block_def Let_def parse_invocation_def
        create_block_from_parsed_def get_comp_def put_comp_def empty_system_def block_instantiate_def factory_shared_def no_classes_def)
  show ?thesis
    using failed_install_stays[OF _ _ _ _ run] run
    by (simp add: bad_config_def parse_clock_def empty_system_def)
qed

end
