(* ===== verification/Json_Tokens.thy ===== *)
theory Json_Tokens
  imports Bm_Prelude
begin

text \<open>
  The JSON tokeniser (\<open>lib/jsmn\<close>) with which the Twitter application reads its input. A C
  string is its characters without the terminating NUL; reading past the terminator or indexing
  the token array out of range is \<open>Undefined_Behaviour\<close>. The array given to the parser is
  the list of its \<open>num_tokens\<close> elements. Offsets are unbounded: the texts are shorter than
  \<open>INT_MAX\<close> bytes.
\<close>

subsection \<open>Data\<close>

datatype jsmntype = JSMN_PRIMITIVE | JSMN_OBJECT | JSMN_ARRAY | JSMN_STRING

datatype jsmnerr = JSMN_ERROR_NOMEM | JSMN_ERROR_INVAL | JSMN_ERROR_PART | JSMN_SUCCESS

record jsmntok =
  tk_type :: jsmntype
  tk_start :: int
  tk_end :: int
  tk_size :: int

record jsmn_parser =
  js_pos :: nat
  js_toknext :: nat
  js_toksuper :: int

type_synonym jsmn_run = "jsmnerr res \<times> jsmn_parser \<times> jsmntok list"

definition jsmn_init :: jsmn_parser where
  "jsmn_init = \<lparr>js_pos = 0, js_toknext = 0, js_toksuper = -1\<rparr>"

definition jsmn_fill_token :: "jsmntype \<Rightarrow> int \<Rightarrow> int \<Rightarrow> jsmntok" where
  "jsmn_fill_token ty st en = \<lparr>tk_type = ty, tk_start = st, tk_end = en, tk_size = 0\<rparr>"

abbreviation blank :: jsmntok where
  "blank \<equiv> jsmn_fill_token JSMN_PRIMITIVE (-1) (-1)"

subsection \<open>The token array\<close>

function alloc_scan :: "jsmntok list \<Rightarrow> nat \<Rightarrow> nat option" where
  "alloc_scan toks i =
     (if i < length toks then
        if tk_start (toks ! i) = -1 \<and> tk_end (toks ! i) = -1 then Some i else alloc_scan toks (i + 1)
      else None)"
  by pat_completeness auto
termination by (relation "measure (\<lambda>(toks, i). length toks - i)") auto

declare alloc_scan.simps [simp del]

definition jsmn_alloc_token :: "jsmn_parser \<Rightarrow> jsmntok list \<Rightarrow> (nat \<times> jsmn_parser) option" where
  "jsmn_alloc_token p toks =
     map_option (\<lambda>i. (i, p\<lparr>js_toknext := i + 1\<rparr>)) (alloc_scan toks (js_toknext p))"

text \<open>The loops that look for the last token opened and not closed, below index \<open>n\<close>.\<close>

fun open_scan :: "jsmntok list \<Rightarrow> nat \<Rightarrow> nat option res" where
  "open_scan toks 0 = Inr None"
| "open_scan toks (Suc i) =
     (if length toks \<le> i then Inl Undefined_Behaviour
      else if tk_start (toks ! i) \<noteq> -1 \<and> tk_end (toks ! i) = -1 then Inr (Some i)
      else open_scan toks i)"

text \<open>\<open>if (toksuper != -1) tokens[toksuper].size++\<close>\<close>

definition bump_super :: "jsmn_parser \<Rightarrow> jsmntok list \<Rightarrow> jsmntok list res" where
  "bump_super p toks =
     (if js_toksuper p = -1 then Inr toks
      else let s = nat (js_toksuper p) in
        if js_toksuper p < 0 \<or> length toks \<le> s then Inl Undefined_Behaviour
        else Inr (toks[s := (toks ! s)\<lparr>tk_size := tk_size (toks ! s) + 1\<rparr>]))"

subsection \<open>Primitives and strings\<close>

definition prim_ends :: "char \<Rightarrow> bool" where
  "prim_ends c \<longleftrightarrow> c \<in> set [CHR 0x09, CHR 0x0D, CHR 0x0A, CHR '' '', CHR '':'', CHR '','', CHR '']'', CHR ''}'']"

definition prim_bad :: "char \<Rightarrow> bool" where
  "prim_bad c \<longleftrightarrow> (of_char c :: nat) < 32 \<or> 127 \<le> (of_char c :: nat)"

text \<open>Where the scan stops, and whether it did so at the end of the primitive.\<close>

function prim_scan :: "string \<Rightarrow> nat \<Rightarrow> (bool \<times> nat) res" where
  "prim_scan js pos =
     (if length js < pos then Inl Undefined_Behaviour
      else if pos = length js then Inr (True, pos)
      else if prim_ends (js ! pos) then Inr (True, pos)
      else if prim_bad (js ! pos) then Inr (False, pos)
      else prim_scan js (pos + 1))"
  by pat_completeness auto
termination by (relation "measure (\<lambda>(js, pos). length js - pos)") auto

declare prim_scan.simps [simp del]

definition jsmn_parse_primitive :: "string \<Rightarrow> jsmn_parser \<Rightarrow> jsmntok list \<Rightarrow> jsmn_run" where
  "jsmn_parse_primitive js p toks =
     (case prim_scan js (js_pos p) of
        Inl e \<Rightarrow> (Inl e, p, toks)
      | Inr (False, _) \<Rightarrow> (Inr JSMN_ERROR_INVAL, p, toks)
      | Inr (True, pos) \<Rightarrow>
          (case jsmn_alloc_token p toks of
             None \<Rightarrow> (Inr JSMN_ERROR_NOMEM, p, toks)
           | Some (i, p1) \<Rightarrow>
               (Inr JSMN_SUCCESS, p1\<lparr>js_pos := pos - 1\<rparr>,
                toks[i := jsmn_fill_token JSMN_PRIMITIVE (int (js_pos p)) (int pos)])))"

definition escapable :: "char \<Rightarrow> bool" where
  "escapable c \<longleftrightarrow> c \<in> set [CHR 0x22, CHR ''/'', CHR 0x5C, CHR ''b'', CHR ''f'', CHR ''r'', CHR ''n'', CHR ''t'', CHR ''u'']"

text \<open>The scan for the closing quote: \<open>Inr (Inr pos)\<close> its position, \<open>Inr (Inl e)\<close> the error returned.\<close>

function str_scan :: "string \<Rightarrow> nat \<Rightarrow> (jsmnerr + nat) res" where
  "str_scan js pos =
     (if length js < pos then Inl Undefined_Behaviour
      else if pos = length js then Inr (Inl JSMN_ERROR_PART)
      else if js ! pos = CHR 0x22 then Inr (Inr pos)
      else if js ! pos = CHR 0x5C then
        (if pos + 1 < length js \<and> escapable (js ! (pos + 1)) then str_scan js (pos + 2)
         else Inr (Inl JSMN_ERROR_INVAL))
      else str_scan js (pos + 1))"
  by pat_completeness auto
termination by (relation "measure (\<lambda>(js, pos). length js - pos)") auto

declare str_scan.simps [simp del]

definition jsmn_parse_string :: "string \<Rightarrow> jsmn_parser \<Rightarrow> jsmntok list \<Rightarrow> jsmn_run" where
  "jsmn_parse_string js p toks =
     (case str_scan js (js_pos p + 1) of
        Inl e \<Rightarrow> (Inl e, p, toks)
      | Inr (Inl err) \<Rightarrow> (Inr err, p, toks)
      | Inr (Inr pos) \<Rightarrow>
          (case jsmn_alloc_token p toks of
             None \<Rightarrow> (Inr JSMN_ERROR_NOMEM, p, toks)
           | Some (i, p1) \<Rightarrow>
               (Inr JSMN_SUCCESS, p1\<lparr>js_pos := pos\<rparr>,
                toks[i := jsmn_fill_token JSMN_STRING (int (js_pos p + 1)) (int pos)])))"

subsection \<open>Brackets\<close>

definition jsmn_open :: "char \<Rightarrow> jsmn_parser \<Rightarrow> jsmntok list \<Rightarrow> jsmn_run" where
  "jsmn_open c p toks =
     (case jsmn_alloc_token p toks of
        None \<Rightarrow> (Inr JSMN_ERROR_NOMEM, p, toks)
      | Some (i, p1) \<Rightarrow>
          (case bump_super p1 toks of
             Inl e \<Rightarrow> (Inl e, p1, toks)
           | Inr toks1 \<Rightarrow>
               (Inr JSMN_SUCCESS, p1\<lparr>js_toksuper := int (js_toknext p1) - 1\<rparr>,
                toks1[i := (toks1 ! i)\<lparr>tk_type := (if c = CHR ''{'' then JSMN_OBJECT else JSMN_ARRAY),
                                       tk_start := int (js_pos p1)\<rparr>])))"

definition jsmn_close :: "char \<Rightarrow> jsmn_parser \<Rightarrow> jsmntok list \<Rightarrow> jsmn_run" where
  "jsmn_close c p toks =
     (case open_scan toks (js_toknext p) of
        Inl e \<Rightarrow> (Inl e, p, toks)
      | Inr None \<Rightarrow> (Inr JSMN_ERROR_INVAL, p, toks)
      | Inr (Some i) \<Rightarrow>
          if tk_type (toks ! i) \<noteq> (if c = CHR ''}'' then JSMN_OBJECT else JSMN_ARRAY)
          then (Inr JSMN_ERROR_INVAL, p, toks)
          else
            let toks1 = toks[i := (toks ! i)\<lparr>tk_end := int (js_pos p) + 1\<rparr>] in
            (case open_scan toks1 (i + 1) of
               Inl e \<Rightarrow> (Inl e, p\<lparr>js_toksuper := -1\<rparr>, toks1)
             | Inr None \<Rightarrow> (Inr JSMN_SUCCESS, p\<lparr>js_toksuper := -1\<rparr>, toks1)
             | Inr (Some k) \<Rightarrow> (Inr JSMN_SUCCESS, p\<lparr>js_toksuper := int k\<rparr>, toks1)))"

subsection \<open>The parser\<close>

definition then_bump :: "jsmn_run \<Rightarrow> jsmn_run" where
  "then_bump r =
     (case r of
        (Inr JSMN_SUCCESS, p, toks) \<Rightarrow>
          (case bump_super p toks of Inl e \<Rightarrow> (Inl e, p, toks) | Inr toks1 \<Rightarrow> (Inr JSMN_SUCCESS, p, toks1))
      | _ \<Rightarrow> r)"

text \<open>One turn of the main loop, before the increment of the position.\<close>

definition jsmn_step :: "string \<Rightarrow> jsmn_parser \<Rightarrow> jsmntok list \<Rightarrow> jsmn_run" where
  "jsmn_step js p toks =
     (let c = js ! js_pos p in
      if c = CHR ''{'' \<or> c = CHR ''['' then jsmn_open c p toks
      else if c = CHR ''}'' \<or> c = CHR '']'' then jsmn_close c p toks
      else if c = CHR 0x22 then then_bump (jsmn_parse_string js p toks)
      else if c \<in> set [CHR 0x09, CHR 0x0D, CHR 0x0A, CHR '':'', CHR '','', CHR '' ''] then (Inr JSMN_SUCCESS, p, toks)
      else then_bump (jsmn_parse_primitive js p toks))"

definition jsmn_finish :: "jsmn_parser \<Rightarrow> jsmntok list \<Rightarrow> jsmn_run" where
  "jsmn_finish p toks =
     (case open_scan toks (js_toknext p) of
        Inl e \<Rightarrow> (Inl e, p, toks)
      | Inr None \<Rightarrow> (Inr JSMN_SUCCESS, p, toks)
      | Inr (Some _) \<Rightarrow> (Inr JSMN_ERROR_PART, p, toks))"

lemma prim_scan_ge: "prim_scan js pos = Inr (b, q) \<Longrightarrow> pos \<le> q \<and> q \<le> length js"
proof (induction js pos rule: prim_scan.induct)
  case (1 js pos)
  from 1(2) show ?case
    by (subst (asm) prim_scan.simps) (use 1(1) in \<open>fastforce split: if_splits\<close>)
qed

lemma str_scan_ge: "str_scan js pos = Inr (Inr q) \<Longrightarrow> pos \<le> q \<and> q < length js"
proof (induction js pos rule: str_scan.induct)
  case (1 js pos)
  from 1(3) show ?case
    by (subst (asm) str_scan.simps) (use 1(1,2) in \<open>fastforce split: if_splits\<close>)
qed

lemma str_scan_err: "str_scan js pos = Inr (Inl e) \<Longrightarrow> e = JSMN_ERROR_PART \<or> e = JSMN_ERROR_INVAL"
proof (induction js pos rule: str_scan.induct)
  case (1 js pos)
  from 1(3) show ?case
    by (subst (asm) str_scan.simps) (use 1(1,2) in \<open>auto split: if_splits\<close>)
qed

lemma prim_scan_later:
  assumes "prim_scan js pos = Inr (b, q)" and "pos < length js" and "\<not> prim_ends (js ! pos)" and "b"
  shows "pos < q"
proof -
  have "prim_scan js pos = (if prim_bad (js ! pos) then Inr (False, pos) else prim_scan js (pos + 1))"
    using assms(2,3) by (subst prim_scan.simps) simp
  with assms prim_scan_ge show ?thesis by (fastforce split: if_splits)
qed

lemma alloc_pos: "jsmn_alloc_token p toks = Some (i, p1) \<Longrightarrow> js_pos p1 = js_pos p"
  by (auto simp: jsmn_alloc_token_def)

lemma then_bump_success:
  "then_bump r = (Inr JSMN_SUCCESS, p1, toks1) \<longleftrightarrow>
     (\<exists>toks. r = (Inr JSMN_SUCCESS, p1, toks) \<and> bump_super p1 toks = Inr toks1)"
  by (auto simp: then_bump_def split: sum.splits jsmnerr.splits prod.splits)

lemma jsmn_step_pos:
  assumes "jsmn_step js p toks = (Inr JSMN_SUCCESS, p1, toks1)" and "js_pos p < length js"
  shows "js_pos p \<le> js_pos p1 \<and> js_pos p1 < length js"
proof -
  consider "jsmn_open (js ! js_pos p) p toks = (Inr JSMN_SUCCESS, p1, toks1)"
    | "jsmn_close (js ! js_pos p) p toks = (Inr JSMN_SUCCESS, p1, toks1)"
    | t where "jsmn_parse_string js p toks = (Inr JSMN_SUCCESS, p1, t)"
    | "p1 = p"
    | t where "jsmn_parse_primitive js p toks = (Inr JSMN_SUCCESS, p1, t)" "\<not> prim_ends (js ! js_pos p)"
    using assms(1) by (auto simp: jsmn_step_def Let_def then_bump_success prim_ends_def split: if_splits)
  then show ?thesis
  proof cases
    case 1
    then show ?thesis using assms(2) by (auto simp: jsmn_open_def alloc_pos split: option.splits sum.splits)
  next
    case 2
    then show ?thesis using assms(2) by (auto simp: jsmn_close_def Let_def split: option.splits sum.splits if_splits)
  next
    case 3
    then show ?thesis by (auto simp: jsmn_parse_string_def dest!: str_scan_ge dest: str_scan_err split: option.splits sum.splits)
  next
    case 4
    then show ?thesis using assms(2) by simp
  next
    case 5
    then obtain q where "prim_scan js (js_pos p) = Inr (True, q)" "js_pos p1 = q - 1"
      by (auto simp: jsmn_parse_primitive_def split: option.splits sum.splits bool.splits)
    with prim_scan_ge[of js "js_pos p" True q] prim_scan_later[of js "js_pos p" True q] assms(2) 5(2)
    show ?thesis by auto
  qed
qed

function jsmn_loop :: "string \<Rightarrow> jsmn_parser \<Rightarrow> jsmntok list \<Rightarrow> jsmn_run" where
  "jsmn_loop js p toks =
     (if length js < js_pos p then (Inl Undefined_Behaviour, p, toks)
      else if js_pos p = length js then jsmn_finish p toks
      else case jsmn_step js p toks of
        (r, p1, toks1) \<Rightarrow>
          if r = Inr JSMN_SUCCESS then jsmn_loop js (p1\<lparr>js_pos := js_pos p1 + 1\<rparr>) toks1
          else (r, p1, toks1))"
  by pat_completeness auto
termination
proof (relation "measure (\<lambda>(js, p, toks). length js - js_pos p)", goal_cases)
  case (2 js p toks r q p1 toks1)
  then have "jsmn_step js p toks = (Inr JSMN_SUCCESS, p1, toks1)" by simp
  from jsmn_step_pos[OF this] 2 show ?case by (simp add: diff_less_mono2)
qed simp

declare jsmn_loop.simps [simp del]

definition jsmn_parse :: "string \<Rightarrow> jsmn_parser \<Rightarrow> jsmntok list \<Rightarrow> jsmn_run" where
  "jsmn_parse js p toks =
     jsmn_loop js p (take (js_toknext p) toks @ replicate (length toks - js_toknext p) blank)"

subsection \<open>Memory safety\<close>

text \<open>
  The invariant of a run on the text \<open>js\<close>: the position is inside the text, tokens handed out
  lie inside it, those not yet handed out are blank, and the parent is an open token.
\<close>

definition tok_ok :: "string \<Rightarrow> jsmntok \<Rightarrow> bool" where
  "tok_ok js t \<longleftrightarrow> 0 \<le> tk_start t \<and> tk_start t \<le> int (length js) \<and>
     (if tk_end t = -1 then tk_type t \<in> {JSMN_OBJECT, JSMN_ARRAY}
      else tk_start t \<le> tk_end t \<and> tk_end t \<le> int (length js))"

definition run_ok :: "string \<Rightarrow> jsmn_parser \<Rightarrow> jsmntok list \<Rightarrow> bool" where
  "run_ok js p toks \<longleftrightarrow> js_pos p \<le> length js \<and> js_toknext p \<le> length toks \<and>
     -1 \<le> js_toksuper p \<and> js_toksuper p < int (js_toknext p) \<and>
     (\<forall>i < js_toknext p. tok_ok js (toks ! i) \<and> (tk_end (toks ! i) = -1 \<longrightarrow> tk_start (toks ! i) \<le> int (js_pos p))) \<and>
     (\<forall>i. js_toknext p \<le> i \<and> i < length toks \<longrightarrow> toks ! i = blank)"

lemma blank_sel [simp]: "tk_start blank = -1" "tk_end blank = -1" "tk_size blank = 0" "tk_type blank = JSMN_PRIMITIVE"
  by (simp_all add: jsmn_fill_token_def)

lemma fill_sel [simp]:
  "tk_start (jsmn_fill_token ty st en) = st" "tk_end (jsmn_fill_token ty st en) = en"
  "tk_size (jsmn_fill_token ty st en) = 0" "tk_type (jsmn_fill_token ty st en) = ty"
  by (simp_all add: jsmn_fill_token_def)

lemma alloc_run_ok:
  assumes "run_ok js p toks"
  shows "jsmn_alloc_token p toks =
     (if js_toknext p < length toks then Some (js_toknext p, p\<lparr>js_toknext := js_toknext p + 1\<rparr>) else None)"
proof (cases "js_toknext p < length toks")
  case True
  then have "toks ! js_toknext p = blank" using assms by (simp add: run_ok_def)
  with True show ?thesis by (simp add: jsmn_alloc_token_def alloc_scan.simps)
qed (simp add: jsmn_alloc_token_def alloc_scan.simps)

lemma open_scan_total: "n \<le> length toks \<Longrightarrow> \<exists>r. open_scan toks n = Inr r"
  by (induction n) auto

lemma open_scan_Some:
  "open_scan toks n = Inr (Some i) \<Longrightarrow> i < n \<and> tk_start (toks ! i) \<noteq> -1 \<and> tk_end (toks ! i) = -1"
  by (induction n) (auto split: if_splits)

lemma open_scan_None:
  "open_scan toks n = Inr None \<Longrightarrow> i < n \<Longrightarrow> tk_start (toks ! i) = -1 \<or> tk_end (toks ! i) \<noteq> -1"
  by (induction n) (auto simp: less_Suc_eq split: if_splits)

lemma bump_run_ok:
  assumes "run_ok js p toks"
  shows "\<exists>toks1. bump_super p toks = Inr toks1 \<and> run_ok js p toks1 \<and> length toks1 = length toks"
proof (cases "js_toksuper p = -1")
  case True
  with assms show ?thesis by (simp add: bump_super_def)
next
  case False
  then have "0 \<le> js_toksuper p" "nat (js_toksuper p) < js_toknext p" using assms by (auto simp: run_ok_def)
  moreover have "nat (js_toksuper p) < length toks" using calculation assms by (auto simp: run_ok_def)
  ultimately show ?thesis using False assms by (auto simp: bump_super_def Let_def run_ok_def nth_list_update tok_ok_def)
qed

text \<open>A turn of the loop keeps the invariant and touches nothing outside the text and the array.\<close>

definition turn_ok :: "string \<Rightarrow> jsmn_parser \<Rightarrow> jsmntok list \<Rightarrow> jsmn_run \<Rightarrow> bool" where
  "turn_ok js p toks r \<longleftrightarrow> (\<exists>err p1 toks1. r = (Inr err, p1, toks1) \<and> run_ok js p1 toks1 \<and> length toks1 = length toks \<and>
     (err = JSMN_ERROR_NOMEM \<longrightarrow> p1 = p \<and> toks1 = toks \<and> js_toknext p = length toks))"

lemma turn_okI:
  "run_ok js p1 toks1 \<Longrightarrow> length toks1 = length toks \<Longrightarrow> err \<noteq> JSMN_ERROR_NOMEM \<Longrightarrow> turn_ok js p toks (Inr err, p1, toks1)"
  by (simp add: turn_ok_def)

lemma then_bump_ok:
  assumes "turn_ok js p toks r"
  shows "turn_ok js p toks (then_bump r)"
proof -
  obtain err p1 toks1 where r: "r = (Inr err, p1, toks1)" and ok: "run_ok js p1 toks1" "length toks1 = length toks"
    using assms by (auto simp: turn_ok_def)
  show ?thesis
  proof (cases "err = JSMN_SUCCESS")
    case True
    obtain t where "bump_super p1 toks1 = Inr t" "run_ok js p1 t" "length t = length toks1" using bump_run_ok[OF ok(1)] by blast
    with True ok show ?thesis by (simp add: r then_bump_def turn_ok_def)
  next
    case False
    then have "then_bump r = r" by (cases err) (simp_all add: r then_bump_def)
    with assms show ?thesis by simp
  qed
qed

lemma run_ok_fill:
  assumes "run_ok js p toks" and "js_toknext p < length toks" and "a \<le> b" and "b \<le> length js" and "q \<le> length js" and "js_pos p \<le> q"
  shows "run_ok js (p\<lparr>js_toknext := js_toknext p + 1, js_pos := q\<rparr>) (toks[js_toknext p := jsmn_fill_token ty (int a) (int b)])"
  using assms by (auto simp: run_ok_def nth_list_update less_Suc_eq tok_ok_def)

lemma prim_scan_total: "pos \<le> length js \<Longrightarrow> \<exists>b q. prim_scan js pos = Inr (b, q)"
proof (induction js pos rule: prim_scan.induct)
  case (1 js pos)
  show ?case
    by (subst prim_scan.simps) (use 1 in auto)
qed

lemma run_ok_full: "run_ok js p toks \<Longrightarrow> \<not> js_toknext p < length toks \<Longrightarrow> js_toknext p = length toks"
  by (simp add: run_ok_def)

lemma parse_primitive_ok:
  assumes "run_ok js p toks" and "js_pos p < length js" and "\<not> prim_ends (js ! js_pos p)"
  shows "turn_ok js p toks (jsmn_parse_primitive js p toks)"
proof -
  obtain b q where scan: "prim_scan js (js_pos p) = Inr (b, q)"
    using assms(1) prim_scan_total[of "js_pos p" js] by (auto simp: run_ok_def)
  show ?thesis
  proof (cases b)
    case True
    with scan prim_scan_ge[OF scan] prim_scan_later[OF scan assms(2,3)]
      run_ok_fill[OF assms(1), of "js_pos p" q "q - 1" JSMN_PRIMITIVE] show ?thesis
      by (auto simp: jsmn_parse_primitive_def alloc_run_ok[OF assms(1)] turn_ok_def assms(1) intro: run_ok_full[OF assms(1)])
  next
    case False
    with scan show ?thesis by (auto simp: jsmn_parse_primitive_def intro: turn_okI assms(1))
  qed
qed

lemma str_scan_total: "pos \<le> length js \<Longrightarrow> \<exists>r. str_scan js pos = Inr r \<and> r \<noteq> Inl JSMN_ERROR_NOMEM"
proof (induction js pos rule: str_scan.induct)
  case (1 js pos)
  show ?case
    by (subst str_scan.simps) (use 1 in auto)
qed

lemma parse_string_ok:
  assumes "run_ok js p toks" and "js_pos p < length js"
  shows "turn_ok js p toks (jsmn_parse_string js p toks)"
proof -
  obtain r where scan: "str_scan js (js_pos p + 1) = Inr r" "r \<noteq> Inl JSMN_ERROR_NOMEM" using str_scan_total[of "js_pos p + 1" js] assms(2) by auto
  show ?thesis
  proof (cases r)
    case (Inl err)
    with scan show ?thesis by (auto simp: jsmn_parse_string_def intro!: turn_okI assms(1))
  next
    case (Inr q)
    with scan str_scan_ge[of js "js_pos p + 1" q] run_ok_fill[OF assms(1), of "js_pos p + 1" q q JSMN_STRING] show ?thesis
      by (auto simp: jsmn_parse_string_def alloc_run_ok[OF assms(1)] turn_ok_def assms(1) add_ac intro: run_ok_full[OF assms(1)])
  qed
qed

lemma open_ok:
  assumes "run_ok js p toks"
  shows "turn_ok js p toks (jsmn_open c p toks)"
proof (cases "js_toknext p < length toks")
  case True
  let ?p = "p\<lparr>js_toknext := js_toknext p + 1\<rparr>"
  obtain t where b: "bump_super p toks = Inr t" "run_ok js p t" "length t = length toks" using bump_run_ok[OF assms] by blast
  have "bump_super ?p toks = Inr t" using b(1) by (simp add: bump_super_def split: if_splits)
  moreover have "t ! js_toknext p = blank" using b(2,3) True by (simp add: run_ok_def)
  moreover have "run_ok js (?p\<lparr>js_toksuper := int (js_toknext p)\<rparr>)
      (t[js_toknext p := blank\<lparr>tk_type := (if c = CHR ''{'' then JSMN_OBJECT else JSMN_ARRAY), tk_start := int (js_pos p)\<rparr>])"
    using b(2,3) True by (auto simp: run_ok_def nth_list_update less_Suc_eq tok_ok_def)
  ultimately show ?thesis using True b(3) by (simp add: jsmn_open_def alloc_run_ok[OF assms] turn_ok_def)
next
  case False
  then show ?thesis using assms by (simp add: jsmn_open_def alloc_run_ok[OF assms] turn_ok_def run_ok_full[OF assms])
qed

lemma run_ok_close:
  assumes "run_ok js p toks" and "js_pos p < length js" and "i < js_toknext p" and "tk_end (toks ! i) = -1"
    and "-1 \<le> s" and "s < int (js_toknext p)"
  shows "run_ok js (p\<lparr>js_toksuper := s\<rparr>) (toks[i := (toks ! i)\<lparr>tk_end := int (js_pos p) + 1\<rparr>])"
  using assms by (auto simp: run_ok_def nth_list_update tok_ok_def)

lemma close_ok:
  assumes "run_ok js p toks" and "js_pos p < length js"
  shows "turn_ok js p toks (jsmn_close c p toks)"
proof -
  have len: "js_toknext p \<le> length toks" using assms(1) by (simp add: run_ok_def)
  obtain r where r: "open_scan toks (js_toknext p) = Inr r" using open_scan_total[OF len] by blast
  show ?thesis
  proof (cases r)
    case None
    with r show ?thesis by (simp add: jsmn_close_def turn_okI assms(1))
  next
    case (Some i)
    let ?t = "toks[i := (toks ! i)\<lparr>tk_end := int (js_pos p) + 1\<rparr>]"
    have i: "i < js_toknext p" "tk_end (toks ! i) = -1" using open_scan_Some r Some by blast+
    obtain k where k: "open_scan ?t (i + 1) = Inr k" using open_scan_total[of "i + 1" ?t] i(1) len by auto
    have "k = Some j \<Longrightarrow> j < js_toknext p" for j using open_scan_Some[of ?t "i + 1" j] k i(1) by simp
    then show ?thesis using r Some k i
      by (auto simp: jsmn_close_def Let_def split: option.splits intro!: turn_okI run_ok_close assms)
  qed
qed

lemma step_ok:
  assumes "run_ok js p toks" and "js_pos p < length js"
  shows "turn_ok js p toks (jsmn_step js p toks)"
proof -
  have "\<not> prim_ends (js ! js_pos p)"
    if "js ! js_pos p \<notin> set [CHR 0x09, CHR 0x0D, CHR 0x0A, CHR '':'', CHR '','', CHR '' '']"
      "js ! js_pos p \<noteq> CHR ''}''" "js ! js_pos p \<noteq> CHR '']''"
    using that by (auto simp: prim_ends_def)
  then show ?thesis using assms
    unfolding jsmn_step_def Let_def
    by (auto intro!: open_ok close_ok then_bump_ok parse_string_ok parse_primitive_ok turn_okI simp del: list.set)
qed

lemma finish_ok: "run_ok js p toks \<Longrightarrow> \<exists>err. jsmn_finish p toks = (Inr err, p, toks) \<and> err \<noteq> JSMN_ERROR_NOMEM"
  using open_scan_total[of "js_toknext p" toks] by (auto simp: jsmn_finish_def run_ok_def split: option.splits)

text \<open>What a run returns: the array is full when it asks for more tokens, every token is closed when it succeeds.\<close>

definition outcome_ok :: "string \<Rightarrow> nat \<Rightarrow> jsmn_run \<Rightarrow> bool" where
  "outcome_ok js n r \<longleftrightarrow> (\<exists>err p toks. r = (Inr err, p, toks) \<and> run_ok js p toks \<and> length toks = n \<and>
     (err = JSMN_ERROR_NOMEM \<longrightarrow> js_toknext p = n) \<and>
     (err = JSMN_SUCCESS \<longrightarrow> (\<forall>i < js_toknext p. 0 \<le> tk_start (toks ! i) \<and> tk_start (toks ! i) \<le> tk_end (toks ! i) \<and>
        tk_end (toks ! i) \<le> int (length js))))"

lemma finish_closed:
  assumes "run_ok js p toks" and "jsmn_finish p toks = (Inr JSMN_SUCCESS, p1, toks1)" and "i < js_toknext p1"
  shows "0 \<le> tk_start (toks1 ! i) \<and> tk_start (toks1 ! i) \<le> tk_end (toks1 ! i) \<and> tk_end (toks1 ! i) \<le> int (length js)"
proof -
  have e: "p1 = p" "toks1 = toks" "open_scan toks (js_toknext p) = Inr None"
    using assms(2) by (auto simp: jsmn_finish_def split: sum.splits option.splits)
  with open_scan_None assms(3) have "tk_start (toks ! i) = -1 \<or> tk_end (toks ! i) \<noteq> -1" by blast
  moreover have "tok_ok js (toks ! i)" using assms(1,3) e by (simp add: run_ok_def)
  ultimately show ?thesis using e by (auto simp: tok_ok_def)
qed

lemma loop_ok: "run_ok js p toks \<Longrightarrow> outcome_ok js (length toks) (jsmn_loop js p toks)"
proof (induction js p toks rule: jsmn_loop.induct)
  case (1 js p toks)
  show ?case
  proof (cases "js_pos p = length js")
    case True
    then have run: "jsmn_loop js p toks = jsmn_finish p toks" by (simp add: jsmn_loop.simps)
    obtain err where "jsmn_finish p toks = (Inr err, p, toks)" "err \<noteq> JSMN_ERROR_NOMEM" using finish_ok[OF 1(2)] by blast
    with finish_closed[OF 1(2)] 1(2) show ?thesis by (auto simp: run outcome_ok_def)
  next
    case False
    then have pos: "js_pos p < length js" using 1(2) by (simp add: run_ok_def)
    obtain err p1 toks1 where s: "jsmn_step js p toks = (Inr err, p1, toks1)" and ok: "run_ok js p1 toks1" "length toks1 = length toks"
      and nm: "err = JSMN_ERROR_NOMEM \<longrightarrow> p1 = p \<and> toks1 = toks \<and> js_toknext p = length toks"
      using step_ok[OF 1(2) pos] by (auto simp: turn_ok_def)
    show ?thesis
    proof (cases "err = JSMN_SUCCESS")
      case True
      have "run_ok js (p1\<lparr>js_pos := js_pos p1 + 1\<rparr>) toks1" using ok(1) jsmn_step_pos[OF s[unfolded True] pos] by (auto simp: run_ok_def)
      then show ?thesis using 1(1)[OF _ _ s[symmetric] refl _] True pos s ok(2) by (simp add: jsmn_loop.simps[of js p])
    next
      case False
      then show ?thesis using pos s ok nm by (auto simp: jsmn_loop.simps[of js p] outcome_ok_def)
    qed
  qed
qed

subsection \<open>Going on with a larger array\<close>

lemma open_scan_append [simp]: "n \<le> length toks \<Longrightarrow> open_scan (toks @ ts) n = open_scan toks n"
  by (induction n) (auto simp: nth_append)

lemma alloc_more:
  assumes "run_ok js p toks" and "js_toknext p < length toks"
  shows "jsmn_alloc_token p (toks @ ts) = jsmn_alloc_token p toks"
proof -
  have "toks ! js_toknext p = blank" using assms by (simp add: run_ok_def)
  then show ?thesis using assms(2) by (simp add: jsmn_alloc_token_def alloc_scan.simps nth_append)
qed

lemma bump_more: "bump_super p toks = Inr t \<Longrightarrow> bump_super p (toks @ ts) = Inr (t @ ts)"
  by (auto simp: bump_super_def Let_def nth_append list_update_append split: if_splits)

definition more :: "jsmntok list \<Rightarrow> jsmn_run \<Rightarrow> jsmn_run" where
  "more ts = (\<lambda>(r, p, toks). (r, p, toks @ ts))"

lemma more_simp: "more ts (r, p, toks) = (r, p, toks @ ts)"
  by (simp add: more_def)

lemma fill_more:
  assumes "run_ok js p toks" and "js_toknext p < length toks"
  shows "(case jsmn_alloc_token p (toks @ ts) of None \<Rightarrow> a | Some (i, p1) \<Rightarrow> (r, g p1, (toks @ ts)[i := x])) =
     more ts (case jsmn_alloc_token p toks of None \<Rightarrow> a' | Some (i, p1) \<Rightarrow> (r, g p1, toks[i := x]))"
  using assms by (simp add: alloc_more[OF assms] alloc_run_ok[OF assms(1)] more_def list_update_append)

lemma then_bump_more:
  assumes "turn_ok js p toks r"
  shows "then_bump (more ts r) = more ts (then_bump r)"
proof -
  obtain err p1 toks1 where r: "r = (Inr err, p1, toks1)" and ok: "run_ok js p1 toks1" using assms by (auto simp: turn_ok_def)
  obtain t where "bump_super p1 toks1 = Inr t" using bump_run_ok[OF ok] by blast
  with bump_more[OF this] show ?thesis by (cases err) (simp_all add: r more_def then_bump_def)
qed

lemma then_bump_NOMEM: "fst (then_bump r) = Inr JSMN_ERROR_NOMEM \<longleftrightarrow> fst r = Inr JSMN_ERROR_NOMEM"
  by (auto simp: then_bump_def split: sum.splits jsmnerr.splits prod.splits)

lemma parse_primitive_more:
  assumes "run_ok js p toks" and "fst (jsmn_parse_primitive js p toks) \<noteq> Inr JSMN_ERROR_NOMEM"
  shows "jsmn_parse_primitive js p (toks @ ts) = more ts (jsmn_parse_primitive js p toks)"
proof (cases "js_toknext p < length toks")
  case True
  from fill_more[OF assms(1) this] show ?thesis
    by (auto simp: jsmn_parse_primitive_def more_def split: sum.split bool.split prod.split)
next
  case False
  with assms show ?thesis
    by (auto simp: jsmn_parse_primitive_def alloc_run_ok[OF assms(1)] more_def split: sum.splits bool.splits prod.splits)
qed

lemma parse_string_more:
  assumes "run_ok js p toks" and "fst (jsmn_parse_string js p toks) \<noteq> Inr JSMN_ERROR_NOMEM"
  shows "jsmn_parse_string js p (toks @ ts) = more ts (jsmn_parse_string js p toks)"
proof (cases "js_toknext p < length toks")
  case True
  from fill_more[OF assms(1) this] show ?thesis
    by (auto simp: jsmn_parse_string_def more_def split: sum.split)
next
  case False
  with assms show ?thesis
    by (auto simp: jsmn_parse_string_def alloc_run_ok[OF assms(1)] more_def split: sum.splits)
qed

lemma open_more:
  assumes "run_ok js p toks" and "fst (jsmn_open c p toks) \<noteq> Inr JSMN_ERROR_NOMEM"
  shows "jsmn_open c p (toks @ ts) = more ts (jsmn_open c p toks)"
proof (cases "js_toknext p < length toks")
  case True
  let ?p = "p\<lparr>js_toknext := Suc (js_toknext p)\<rparr>"
  obtain t where b: "bump_super p toks = Inr t" "length t = length toks" using bump_run_ok[OF assms(1)] by blast
  then have b': "bump_super ?p toks = Inr t" by (simp add: bump_super_def split: if_splits)
  then show ?thesis using True b(2)
    by (simp add: jsmn_open_def alloc_more[OF assms(1) True] alloc_run_ok[OF assms(1)] bump_more[OF b'] more_def list_update_append nth_append)
next
  case False
  with assms show ?thesis by (simp add: jsmn_open_def alloc_run_ok[OF assms(1)])
qed

lemma close_more:
  assumes "run_ok js p toks"
  shows "jsmn_close c p (toks @ ts) = more ts (jsmn_close c p toks)"
proof -
  have len: "js_toknext p \<le> length toks" using assms by (simp add: run_ok_def)
  obtain r where r: "open_scan toks (js_toknext p) = Inr r" using open_scan_total[OF len] by blast
  show ?thesis
  proof (cases r)
    case None
    with r len show ?thesis by (simp add: jsmn_close_def more_def)
  next
    case (Some i)
    then have i: "i < length toks" using open_scan_Some[of toks "js_toknext p" i] r len by simp
    then have *: "(toks @ ts)[i := x] = toks[i := x] @ ts" "(toks @ ts) ! i = toks ! i"
      "open_scan (toks[i := x] @ ts) (Suc i) = open_scan (toks[i := x]) (Suc i)" for x
      using open_scan_append[of "Suc i" "toks[i := x]" ts] by (simp_all add: list_update_append nth_append del: open_scan.simps)
    show ?thesis using r Some len i
      by (auto simp: jsmn_close_def Let_def * more_def simp del: open_scan.simps split: sum.split option.split)
  qed
qed

lemma step_more:
  assumes "run_ok js p toks" and "js_pos p < length js" and "fst (jsmn_step js p toks) \<noteq> Inr JSMN_ERROR_NOMEM"
  shows "jsmn_step js p (toks @ ts) = more ts (jsmn_step js p toks)"
proof -
  have pr: "\<not> prim_ends (js ! js_pos p)"
    if "js ! js_pos p \<notin> set [CHR 0x09, CHR 0x0D, CHR 0x0A, CHR '':'', CHR '','', CHR '' '']"
      "js ! js_pos p \<noteq> CHR ''}''" "js ! js_pos p \<noteq> CHR '']''"
    using that by (auto simp: prim_ends_def)
  show ?thesis using assms(3) unfolding jsmn_step_def Let_def
    by (auto simp: open_more[OF assms(1)] close_more[OF assms(1)] parse_string_more[OF assms(1)] parse_primitive_more[OF assms(1)]
        then_bump_NOMEM more_simp simp del: list.set
        intro!: then_bump_more[OF parse_string_ok[OF assms(1,2)]] then_bump_more[OF parse_primitive_ok[OF assms(1,2) pr]])
qed

text \<open>With more blank tokens the run goes on where it would have stopped for lack of them.\<close>

definition blanks :: "nat \<Rightarrow> jsmntok list" where
  "blanks m = replicate m blank"

lemma blanks_simps [simp]: "length (blanks m) = m" "blanks 0 = []" "i < m \<Longrightarrow> blanks m ! i = blank"
  by (simp_all add: blanks_def)

lemma blanks_add: "blanks (a + b) = blanks a @ blanks b"
  by (simp add: blanks_def replicate_add)

lemma run_ok_more: "run_ok js p toks \<Longrightarrow> run_ok js p (toks @ blanks m)"
  by (auto simp: run_ok_def nth_append)

lemma loop_more:
  assumes "run_ok js p toks" and "jsmn_loop js p toks = (Inr err, p1, toks1)"
  shows "jsmn_loop js p (toks @ blanks m) =
     (if err = JSMN_ERROR_NOMEM then jsmn_loop js p1 (toks1 @ blanks m) else (Inr err, p1, toks1 @ blanks m))"
  using assms
proof (induction js p toks rule: jsmn_loop.induct)
  case (1 js p toks)
  show ?case
  proof (cases "js_pos p = length js")
    case True
    obtain e where f: "jsmn_finish p toks = (Inr e, p, toks)" "e \<noteq> JSMN_ERROR_NOMEM" using finish_ok[OF 1(2)] by blast
    moreover have "js_toknext p \<le> length toks" using 1(2) by (simp add: run_ok_def)
    ultimately have "jsmn_finish p (toks @ blanks m) = (Inr e, p, toks @ blanks m)"
      by (auto simp: jsmn_finish_def split: sum.splits option.splits)
    with True f 1(3) show ?thesis by (auto simp: jsmn_loop.simps)
  next
    case False
    then have pos: "js_pos p < length js" using 1(2) by (simp add: run_ok_def)
    obtain e q t where s: "jsmn_step js p toks = (Inr e, q, t)" and ok: "run_ok js q t"
      and nm: "e = JSMN_ERROR_NOMEM \<longrightarrow> q = p \<and> t = toks"
      using step_ok[OF 1(2) pos] by (auto simp: turn_ok_def)
    have run: "jsmn_loop js p toks =
        (if e = JSMN_SUCCESS then jsmn_loop js (q\<lparr>js_pos := js_pos q + 1\<rparr>) t else (Inr e, q, t))"
      using pos s by (subst jsmn_loop.simps) simp
    show ?thesis
    proof (cases "e = JSMN_ERROR_NOMEM")
      case True
      with run nm 1(3) show ?thesis by auto
    next
      case ne: False
      then have more: "jsmn_step js p (toks @ blanks m) = (Inr e, q, t @ blanks m)"
        using step_more[OF 1(2) pos] s by (simp add: more_simp)
      have "run_ok js (q\<lparr>js_pos := js_pos q + 1\<rparr>) t" if "e = JSMN_SUCCESS"
        using ok jsmn_step_pos[OF s[unfolded that] pos] by (auto simp: run_ok_def)
      then show ?thesis using 1(1)[OF _ _ s[symmetric] refl _] 1(3) run more pos ne
        by (auto simp: jsmn_loop.simps[of js p "toks @ _"])
    qed
  qed
qed

lemma run_ok_init: "run_ok js jsmn_init (blanks m)"
  by (simp add: run_ok_def jsmn_init_def)

lemma parse_init: "jsmn_parse js jsmn_init toks = jsmn_loop js jsmn_init (blanks (length toks))"
  by (simp add: jsmn_parse_def jsmn_init_def blanks_def)

lemma parse_resume:
  "js_toknext p = length toks \<Longrightarrow> jsmn_parse js p (toks @ fresh) = jsmn_loop js p (toks @ blanks (length fresh))"
  by (simp add: jsmn_parse_def blanks_def)

text \<open>
  C16: The tokeniser works on any text and any array. It ends, reads nothing outside the text and
  its terminator and writes nothing outside the array. It answers that there are too few tokens only
  when all of them are used, and when it succeeds every token describes a range of the text.
\<close>
theorem jsmn_parse_safe: "outcome_ok js (length toks) (jsmn_parse js jsmn_init toks)"
  using loop_ok[OF run_ok_init, of js "length toks"] by (simp add: parse_init)

text \<open>
  Growing the array and calling the tokeniser again gives what one call with the larger
  array would have given.
\<close>
theorem jsmn_parse_resumes:
  assumes "jsmn_parse js jsmn_init toks = (Inr JSMN_ERROR_NOMEM, p, toks1)"
  shows "jsmn_parse js p (toks1 @ fresh) = jsmn_parse js jsmn_init (toks1 @ fresh)"
proof -
  have l: "jsmn_loop js jsmn_init (blanks (length toks)) = (Inr JSMN_ERROR_NOMEM, p, toks1)" using assms by (simp add: parse_init)
  have ok: "outcome_ok js (length toks) (Inr JSMN_ERROR_NOMEM, p, toks1)" using loop_ok[OF run_ok_init, of js "length toks"] by (simp add: l)
  then have "js_toknext p = length toks1" "length toks1 = length toks" by (auto simp: outcome_ok_def)
  then show ?thesis using loop_more[OF run_ok_init l, of "length fresh"] parse_resume[of p toks1 js fresh]
    by (simp add: parse_init blanks_add)
qed

theorem jsmn_parse_resumes_witness:
  "jsmn_parse ''[1,2]'' \<lparr>js_pos = 1, js_toknext = 1, js_toksuper = 0\<rparr> ([\<lparr>tk_type = JSMN_ARRAY, tk_start = 0, tk_end = -1, tk_size = 0\<rparr>] @ [blank, blank])
   = jsmn_parse ''[1,2]'' jsmn_init ([\<lparr>tk_type = JSMN_ARRAY, tk_start = 0, tk_end = -1, tk_size = 0\<rparr>] @ [blank, blank])"
  by (rule jsmn_parse_resumes[where toks = "[blank]"]) code_simp

end
