(* ===== verification/Json_Roundtrip.thy ===== *)
theory Json_Roundtrip
  imports Json_Tokens
begin

text \<open>
  What the tokeniser makes of the text of a JSON value: exactly the value's tokens in preorder,
  each with its range in the text and its number of children. The argument composes runs over
  consecutive stretches of the text.
\<close>

subsection \<open>JSON values, their text and their tokens\<close>

datatype json = JPrim string | JStr string | JArr "json list" | JObj "(string \<times> json) list"

fun str_body :: "string \<Rightarrow> bool" where
  "str_body [] \<longleftrightarrow> True"
| "str_body (c # cs) \<longleftrightarrow> c \<noteq> CHR 0x22 \<and> c \<noteq> CHR 0x00 \<and>
     (if c = CHR 0x5C then (case cs of [] \<Rightarrow> False | d # ds \<Rightarrow> escapable d \<and> str_body ds) else str_body cs)"

definition prim_body :: "string \<Rightarrow> bool" where
  "prim_body s \<longleftrightarrow> s \<noteq> [] \<and> (\<forall>c \<in> set s. \<not> prim_ends c \<and> \<not> prim_bad c) \<and> hd s \<notin> {CHR ''{'', CHR ''['', CHR 0x22}"

fun json_ok :: "json \<Rightarrow> bool" and jsons_ok :: "json list \<Rightarrow> bool" and jpairs_ok :: "(string \<times> json) list \<Rightarrow> bool" where
  "json_ok (JPrim s) \<longleftrightarrow> prim_body s"
| "json_ok (JStr s) \<longleftrightarrow> str_body s"
| "json_ok (JArr vs) \<longleftrightarrow> jsons_ok vs"
| "json_ok (JObj kvs) \<longleftrightarrow> jpairs_ok kvs"
| "jsons_ok [] \<longleftrightarrow> True"
| "jsons_ok (v # vs) \<longleftrightarrow> json_ok v \<and> jsons_ok vs"
| "jpairs_ok [] \<longleftrightarrow> True"
| "jpairs_ok ((k, v) # kvs) \<longleftrightarrow> str_body k \<and> json_ok v \<and> jpairs_ok kvs"

definition quote :: "string \<Rightarrow> string" where
  "quote s = CHR 0x22 # s @ [CHR 0x22]"

fun jprint :: "json \<Rightarrow> string" and jprints :: "json list \<Rightarrow> string" and jprint_pairs :: "(string \<times> json) list \<Rightarrow> string" where
  "jprint (JPrim s) = s"
| "jprint (JStr s) = quote s"
| "jprint (JArr vs) = CHR ''['' # jprints vs @ [CHR '']'']"
| "jprint (JObj kvs) = CHR ''{'' # jprint_pairs kvs @ [CHR ''}'']"
| "jprints [] = []"
| "jprints (v # vs) = jprint v @ (if vs = [] then [] else CHR '','' # jprints vs)"
| "jprint_pairs [] = []"
| "jprint_pairs ((k, v) # kvs) = quote k @ CHR '':'' # jprint v @ (if kvs = [] then [] else CHR '','' # jprint_pairs kvs)"

definition tok :: "jsmntype \<Rightarrow> nat \<Rightarrow> nat \<Rightarrow> nat \<Rightarrow> jsmntok" where
  "tok ty a b k = \<lparr>tk_type = ty, tk_start = int a, tk_end = int b, tk_size = int k\<rparr>"

fun jtoks :: "nat \<Rightarrow> json \<Rightarrow> jsmntok list" and jtokss :: "nat \<Rightarrow> json list \<Rightarrow> jsmntok list"
  and jtok_pairs :: "nat \<Rightarrow> (string \<times> json) list \<Rightarrow> jsmntok list" where
  "jtoks a (JPrim s) = [tok JSMN_PRIMITIVE a (a + length s) 0]"
| "jtoks a (JStr s) = [tok JSMN_STRING (a + 1) (a + 1 + length s) 0]"
| "jtoks a (JArr vs) = tok JSMN_ARRAY a (a + length (jprint (JArr vs))) (length vs) # jtokss (a + 1) vs"
| "jtoks a (JObj kvs) = tok JSMN_OBJECT a (a + length (jprint (JObj kvs))) (2 * length kvs) # jtok_pairs (a + 1) kvs"
| "jtokss a [] = []"
| "jtokss a (v # vs) = jtoks a v @ jtokss (a + length (jprint v) + 1) vs"
| "jtok_pairs a [] = []"
| "jtok_pairs a ((k, v) # kvs) = tok JSMN_STRING (a + 1) (a + 1 + length k) 0 # jtoks (a + length k + 3) v @
     jtok_pairs (a + length k + length (jprint v) + 4) kvs"

subsection \<open>Runs over a stretch of the text\<close>

abbreviation St :: "nat \<Rightarrow> nat \<Rightarrow> int \<Rightarrow> jsmn_parser" where
  "St pos n s \<equiv> \<lparr>js_pos = pos, js_toknext = n, js_toksuper = s\<rparr>"

definition closed_tok :: "jsmntok \<Rightarrow> bool" where
  "closed_tok t \<longleftrightarrow> tk_end t \<noteq> -1"

text \<open>\<open>s\<close> is the index of the last open token, or -1 if there is none.\<close>

definition sup_ok :: "int \<Rightarrow> jsmntok list \<Rightarrow> bool" where
  "sup_ok s toks \<longleftrightarrow> -1 \<le> s \<and> open_scan toks (length toks) = Inr (if s = -1 then None else Some (nat s))"

definition bump_by :: "nat \<Rightarrow> int \<Rightarrow> jsmntok list \<Rightarrow> jsmntok list" where
  "bump_by k s toks = (if s = -1 then toks else toks[nat s := (toks ! nat s)\<lparr>tk_size := tk_size (toks ! nat s) + int k\<rparr>])"

text \<open>
  \<open>runs_to js a b k ts\<close>: started at position \<open>a\<close>, the parser arrives at position
  \<open>b\<close> having appended the tokens \<open>ts\<close> and counted \<open>k\<close> children of the parent.
\<close>

definition runs_to :: "string \<Rightarrow> nat \<Rightarrow> nat \<Rightarrow> nat \<Rightarrow> jsmntok list \<Rightarrow> bool" where
  "runs_to js a b k ts \<longleftrightarrow> (\<forall>toks s m. sup_ok s toks \<longrightarrow>
     jsmn_loop js (St a (length toks) s) (toks @ blanks (length ts + m)) =
     jsmn_loop js (St b (length toks + length ts) s) (bump_by k s toks @ ts @ blanks m))"

lemma length_bump_by [simp]: "length (bump_by k s toks) = length toks"
  by (simp add: bump_by_def)

lemma open_scan_cong:
  assumes "length toks = length toks1" and "\<And>i. i < n \<Longrightarrow> tk_start (toks ! i) = tk_start (toks1 ! i) \<and> tk_end (toks ! i) = tk_end (toks1 ! i)"
  shows "open_scan toks n = open_scan toks1 n"
  using assms(2) by (induction n) (simp_all add: assms(1))

lemma open_scan_closed:
  "list_all closed_tok ts \<Longrightarrow> open_scan (toks @ ts) (length toks + length ts) = open_scan toks (length toks)"
  by (induction ts rule: rev_induct) (simp_all add: closed_tok_def nth_append flip: append_assoc)

lemma sup_ok_less: "sup_ok s toks \<Longrightarrow> s \<noteq> -1 \<Longrightarrow> 0 \<le> s \<and> nat s < length toks"
  using open_scan_Some[of toks "length toks" "nat s"] by (auto simp: sup_ok_def)

lemma sup_ok_bump: "sup_ok s toks \<Longrightarrow> sup_ok s (bump_by k s toks)"
proof -
  have "open_scan (bump_by k s toks) (length toks) = open_scan toks (length toks)"
    by (rule open_scan_cong, simp, rename_tac i) (case_tac "i = nat s"; simp add: bump_by_def)
  then show "sup_ok s toks \<Longrightarrow> ?thesis" by (simp add: sup_ok_def)
qed

lemma sup_ok_append: "sup_ok s toks \<Longrightarrow> list_all closed_tok ts \<Longrightarrow> sup_ok s (toks @ ts)"
  by (simp add: sup_ok_def open_scan_closed)

lemma bump_by_append: "sup_ok s toks \<Longrightarrow> bump_by k s (bump_by j s toks @ ts) = bump_by (j + k) s toks @ ts"
  using sup_ok_less[of s toks] by (auto simp: bump_by_def list_update_append nth_append add.assoc)

lemma bump_by_0 [simp]: "bump_by 0 s toks = toks"
  by (simp add: bump_by_def)

lemma runs_to_refl: "runs_to js a a 0 []"
  by (simp add: runs_to_def)

lemma runs_to_trans:
  assumes "runs_to js a b j ts" and "runs_to js b c k us" and "list_all closed_tok ts"
  shows "runs_to js a c (j + k) (ts @ us)"
  unfolding runs_to_def
proof (intro allI impI)
  fix toks s m
  assume s: "sup_ok s toks"
  then have s1: "sup_ok s (bump_by j s toks @ ts)" using assms(3) by (intro sup_ok_append sup_ok_bump)
  have "jsmn_loop js (St a (length toks) s) (toks @ blanks (length (ts @ us) + m)) =
      jsmn_loop js (St b (length toks + length ts) s) (bump_by j s toks @ ts @ blanks (length us + m))"
    using assms(1) s by (simp add: runs_to_def add.assoc)
  also have "\<dots> = jsmn_loop js (St c (length toks + length (ts @ us)) s) (bump_by (j + k) s toks @ (ts @ us) @ blanks m)"
    using assms(2)[unfolded runs_to_def, rule_format, OF s1, of m] by (simp add: bump_by_append[OF s] add.assoc)
  finally show "jsmn_loop js (St a (length toks) s) (toks @ blanks (length (ts @ us) + m)) =
      jsmn_loop js (St c (length toks + length (ts @ us)) s) (bump_by (j + k) s toks @ (ts @ us) @ blanks m)" .
qed

lemma runs_to_step:
  assumes "\<And>toks s m. sup_ok s toks \<Longrightarrow>
      jsmn_step js (St a (length toks) s) (toks @ blanks (length ts + m)) =
        (Inr JSMN_SUCCESS, St b (length toks + length ts) s, bump_by k s toks @ ts @ blanks m)"
    and "a < length js"
  shows "runs_to js a (b + 1) k ts"
  unfolding runs_to_def using assms by (subst jsmn_loop.simps) simp

lemma runs_to_skip:
  assumes "js ! a \<in> set [CHR 0x09, CHR 0x0D, CHR 0x0A, CHR '':'', CHR '','', CHR '' '']" and "a < length js"
  shows "runs_to js a (a + 1) 0 []"
  using assms by (intro runs_to_step) (auto simp: jsmn_step_def Let_def)

lemma alloc_St:
  "jsmn_alloc_token (St a (length toks) s) (toks @ blank # bs) = Some (length toks, St a (Suc (length toks)) s)"
  by (simp add: jsmn_alloc_token_def alloc_scan.simps nth_append)

lemma blanks_Suc: "blanks (Suc m) = blank # blanks m"
  by (simp add: blanks_def)

lemma bump_super_St:
  assumes "sup_ok s toks"
  shows "bump_super (St a n s) (toks @ ts) = Inr (bump_by 1 s toks @ ts)"
proof (cases "s = -1")
  case False
  with sup_ok_less[OF assms False] show ?thesis by (simp add: bump_super_def bump_by_def list_update_append nth_append Let_def)
qed (simp add: bump_super_def bump_by_def)

lemma tok_fill: "tok ty a b 0 = jsmn_fill_token ty (int a) (int b)"
  by (simp add: tok_def jsmn_fill_token_def)

lemma prim_scan_at:
  assumes "js = pre @ s @ post" and "\<forall>c \<in> set s. \<not> prim_ends c \<and> \<not> prim_bad c" and "post = [] \<or> prim_ends (hd post)"
  shows "prim_scan js (length pre) = Inr (True, length pre + length s)"
  using assms
proof (induction s arbitrary: pre)
  case Nil
  then show ?case by (cases post) (auto simp: prim_scan.simps nth_append)
next
  case (Cons c s)
  from Cons.IH[of "pre @ [c]"] Cons.prems have "prim_scan js (length pre + 1) = Inr (True, length pre + 1 + length s)" by simp
  with Cons.prems show ?case by (subst prim_scan.simps) (simp add: nth_append)
qed

lemma runs_to_prim:
  assumes "js = pre @ s @ post" and "prim_body s" and "post = [] \<or> prim_ends (hd post)"
  shows "runs_to js (length pre) (length pre + length s) 1 [tok JSMN_PRIMITIVE (length pre) (length pre + length s) 0]"
proof -
  obtain c cs where s: "s = c # cs" and c: "\<not> prim_ends c" "c \<notin> {CHR ''{'', CHR ''['', CHR 0x22}"
    using assms(2) by (cases s) (auto simp: prim_body_def)
  have scan: "prim_scan js (length pre) = Inr (True, length pre + length s)"
    using assms by (intro prim_scan_at) (auto simp: prim_body_def)
  have "js ! length pre = c" using assms(1) s by simp
  then have "runs_to js (length pre) (length pre + length s - 1 + 1) 1 [tok JSMN_PRIMITIVE (length pre) (length pre + length s) 0]"
    using scan c assms(1) s
    by (intro runs_to_step)
       (auto simp: jsmn_step_def Let_def prim_ends_def jsmn_parse_primitive_def alloc_St then_bump_def bump_super_St
          list_update_append blanks_Suc tok_fill)
  then show ?thesis by (simp add: s)
qed

lemma str_scan_at:
  assumes "str_body s" and "js = pre @ s @ CHR 0x22 # post"
  shows "str_scan js (length pre) = Inr (Inr (length pre + length s))"
  using assms
proof (induction s arbitrary: pre rule: str_body.induct)
  case 1
  then show ?case by (subst str_scan.simps) simp
next
  case (2 c cs)
  show ?case
  proof (cases "c = CHR 0x5C")
    case True
    then obtain d ds where cs: "cs = d # ds" "escapable d" "str_body ds" using 2 by (auto split: list.splits)
    with True 2(1)[OF True cs(1), of "pre @ [c, d]"] 2(4) have "str_scan js (length pre + 2) = Inr (Inr (length pre + 2 + length ds))"
      by simp
    with True cs 2(4) show ?thesis by (subst str_scan.simps) (simp add: nth_append)
  next
    case False
    then have "str_scan js (length pre + 1) = Inr (Inr (length pre + 1 + length cs))"
      using 2(2)[OF False, of "pre @ [c]"] 2(3,4) by simp
    with False 2(3,4) show ?thesis by (subst str_scan.simps) (simp add: nth_append)
  qed
qed

lemma runs_to_string:
  assumes "js = pre @ quote s @ post" and "str_body s"
  shows "runs_to js (length pre) (length pre + length s + 2) 1 [tok JSMN_STRING (length pre + 1) (length pre + 1 + length s) 0]"
proof -
  have scan: "str_scan js (length pre + 1) = Inr (Inr (length pre + 1 + length s))"
    using str_scan_at[OF assms(2), of js "pre @ [CHR 0x22]" post] assms(1) by (simp add: quote_def)
  have "js ! length pre = CHR 0x22" using assms(1) by (simp add: quote_def)
  then have "runs_to js (length pre) (length pre + 1 + length s + 1) 1 [tok JSMN_STRING (length pre + 1) (length pre + 1 + length s) 0]"
    using scan assms(1)
    by (intro runs_to_step)
       (auto simp: jsmn_step_def Let_def jsmn_parse_string_def alloc_St then_bump_def bump_super_St
          list_update_append blanks_Suc tok_fill quote_def)
  then show ?thesis by simp
qed

subsection \<open>Brackets\<close>

definition bracket :: "char \<Rightarrow> char \<Rightarrow> jsmntype \<Rightarrow> bool" where
  "bracket c d ty \<longleftrightarrow> (c, d, ty) \<in> {(CHR ''{'', CHR ''}'', JSMN_OBJECT), (CHR ''['', CHR '']'', JSMN_ARRAY)}"

definition open_tok :: "jsmntype \<Rightarrow> nat \<Rightarrow> nat \<Rightarrow> jsmntok" where
  "open_tok ty a k = \<lparr>tk_type = ty, tk_start = int a, tk_end = -1, tk_size = int k\<rparr>"

lemma tk_type_open_tok [simp]: "tk_type (open_tok ty a k) = ty"
  by (simp add: open_tok_def)

lemma close_open_tok: "(open_tok ty a k)\<lparr>tk_end := int b + 1\<rparr> = tok ty a (Suc b) k"
  by (simp add: open_tok_def tok_def)

lemma open_blank: "blank\<lparr>tk_type := ty, tk_start := int a\<rparr> = open_tok ty a 0"
  by (simp add: open_tok_def jsmn_fill_token_def)

lemma sup_ok_open: "sup_ok (int (length toks)) (toks @ [open_tok ty a k])"
  by (simp add: sup_ok_def open_tok_def)

lemma bump_by_open:
  "bump_by k (int (length toks)) (toks @ [open_tok ty a j]) = toks @ [open_tok ty a (j + k)]"
  by (simp add: bump_by_def open_tok_def nth_append list_update_append)

lemma step_open:
  assumes "js ! a = c" and "bracket c d ty" and "sup_ok s toks"
  shows "jsmn_step js (St a (length toks) s) (toks @ blank # bs) =
     (Inr JSMN_SUCCESS, St a (Suc (length toks)) (int (length toks)), bump_by 1 s toks @ open_tok ty a 0 # bs)"
proof -
  let ?n = "length toks"
  have n: "(bump_by 1 s toks @ blank # bs) ! ?n = blank" "(bump_by 1 s toks @ blank # bs)[?n := x] = bump_by 1 s toks @ x # bs" for x
    by (simp_all add: nth_append list_update_append)
  show ?thesis using assms
    by (auto simp: jsmn_step_def Let_def bracket_def jsmn_open_def alloc_St bump_super_St n open_blank simp del: One_nat_def)
qed

lemma step_close:
  assumes "js ! b = d" and "bracket c d ty" and "sup_ok s toks" and "list_all closed_tok ts"
  shows "jsmn_step js (St b (length toks + 1 + length ts) (int (length toks))) (toks @ open_tok ty a k # ts @ bs) =
     (Inr JSMN_SUCCESS, St b (length toks + 1 + length ts) s, toks @ tok ty a (b + 1) k # ts @ bs)"
proof -
  let ?n = "length toks" and ?T = "toks @ open_tok ty a k # ts @ bs"
  have "open_scan ((toks @ [open_tok ty a k]) @ ts) (length (toks @ [open_tok ty a k]) + length ts) = Inr (Some ?n)"
    using assms(4) by (subst open_scan_closed) (simp_all add: open_tok_def)
  then have scan: "open_scan ?T (?n + 1 + length ts) = Inr (Some ?n)"
    using open_scan_append[of "?n + 1 + length ts" "toks @ open_tok ty a k # ts" bs] by simp
  have upd: "?T ! ?n = open_tok ty a k" "?T[?n := x] = toks @ x # ts @ bs" for x
    by (simp_all add: nth_append list_update_append)
  have "open_scan (toks @ tok ty a (b + 1) k # ts @ bs) (?n + 1) = open_scan toks ?n"
    using open_scan_append[of ?n toks "tok ty a (b + 1) k # ts @ bs"] by (simp add: nth_append tok_def)
  then have scan1: "open_scan (toks @ tok ty a (b + 1) k # ts @ bs) (?n + 1) = Inr (if s = -1 then None else Some (nat s))"
    using assms(3) by (simp add: sup_ok_def)
  have "jsmn_close d (St b (?n + 1 + length ts) (int ?n)) ?T =
      (Inr JSMN_SUCCESS, St b (?n + 1 + length ts) s, toks @ tok ty a (b + 1) k # ts @ bs)"
    unfolding jsmn_close_def using scan scan1 assms(2,3)
    by (cases "s = -1") (auto simp: upd close_open_tok bracket_def sup_ok_def Let_def simp del: open_scan.simps)
  then show ?thesis using assms(1,2) by (auto simp: jsmn_step_def Let_def bracket_def)
qed

lemma runs_to_bracket:
  assumes "js ! a = c" and "a < length js" and "js ! b = d" and "b < length js" and "bracket c d ty"
    and "runs_to js (a + 1) b k ts" and "list_all closed_tok ts"
  shows "runs_to js a (b + 1) 1 (tok ty a (b + 1) k # ts)"
  unfolding runs_to_def
proof (intro allI impI)
  fix toks s m
  assume s: "sup_ok s toks"
  let ?n = "length toks" and ?B = "bump_by 1 s toks"
  have "jsmn_loop js (St a ?n s) (toks @ blanks (length (tok ty a (b + 1) k # ts) + m)) =
      jsmn_loop js (St (a + 1) (?n + 1) (int ?n)) ((?B @ [open_tok ty a 0]) @ blanks (length ts + m))"
    using assms(2) step_open[OF assms(1,5) s] by (subst jsmn_loop.simps) (simp add: blanks_Suc)
  also have "\<dots> = jsmn_loop js (St b (?n + 1 + length ts) (int ?n)) (?B @ open_tok ty a k # ts @ blanks m)"
    using assms(6)[unfolded runs_to_def, rule_format, OF sup_ok_open[of ?B ty a 0], of m] bump_by_open[of k ?B ty a 0] by simp
  also have "\<dots> = jsmn_loop js (St (b + 1) (?n + 1 + length ts) s) (?B @ tok ty a (b + 1) k # ts @ blanks m)"
    using assms(4) step_close[OF assms(3,5) sup_ok_bump[OF s, of 1] assms(7), of a k "blanks m"]
    by (subst jsmn_loop.simps) simp
  finally show "jsmn_loop js (St a ?n s) (toks @ blanks (length (tok ty a (b + 1) k # ts) + m)) =
      jsmn_loop js (St (b + 1) (?n + length (tok ty a (b + 1) k # ts)) s) (?B @ (tok ty a (b + 1) k # ts) @ blanks m)"
    by (simp add: add.assoc)
qed

lemma runs_to_sep:
  assumes "runs_to js a b j ts" and "list_all closed_tok ts" and "b < length js" and "js ! b = CHR '','' \<or> js ! b = CHR '':''"
    and "runs_to js (b + 1) c k us"
  shows "runs_to js a c (j + k) (ts @ us)"
proof -
  have "runs_to js b (b + 1) 0 []" using assms(3,4) by (intro runs_to_skip) auto
  from runs_to_trans[OF this assms(5)] have "runs_to js b c k us" by simp
  from runs_to_trans[OF assms(1) this assms(2)] show ?thesis .
qed

subsection \<open>Values\<close>

lemma closed_tok_tok [simp]: "closed_tok (tok ty a b k)"
  by (simp add: closed_tok_def tok_def)

lemma jtoks_closed:
  "list_all closed_tok (jtoks a v)" "list_all closed_tok (jtokss a vs)" "list_all closed_tok (jtok_pairs a kvs)"
  by (induction a v and a vs and a kvs rule: jtoks_jtokss_jtok_pairs.induct) simp_all

text \<open>What may follow a value: the end of the text or a character that ends a primitive.\<close>

definition follows :: "string \<Rightarrow> bool" where
  "follows post \<longleftrightarrow> post = [] \<or> prim_ends (hd post)"

lemma follows_Cons [simp]: "follows (c # cs) \<longleftrightarrow> prim_ends c"
  by (simp add: follows_def)

lemma prim_ends_seps [simp]: "prim_ends CHR '',''" "prim_ends CHR '']''" "prim_ends CHR ''}''" "prim_ends CHR '':''"
  by (simp_all add: prim_ends_def)

lemma runs_to_value:
  "json_ok v \<Longrightarrow> js = pre @ jprint v @ post \<Longrightarrow> follows post \<Longrightarrow> a = length pre \<Longrightarrow>
     runs_to js a (a + length (jprint v)) 1 (jtoks a v)"
  "jsons_ok vs \<Longrightarrow> js = pre @ jprints vs @ post \<Longrightarrow> follows post \<Longrightarrow> a = length pre \<Longrightarrow>
     runs_to js a (a + length (jprints vs)) (length vs) (jtokss a vs)"
  "jpairs_ok kvs \<Longrightarrow> js = pre @ jprint_pairs kvs @ post \<Longrightarrow> follows post \<Longrightarrow> a = length pre \<Longrightarrow>
     runs_to js a (a + length (jprint_pairs kvs)) (2 * length kvs) (jtok_pairs a kvs)"
proof (induction v and vs and kvs arbitrary: pre post a and pre post a and pre post a rule: jprint_jprints_jprint_pairs.induct)
  case (1 s)
  then show ?case using runs_to_prim[of js pre s post] by (simp add: follows_def)
next
  case (2 s)
  then show ?case using runs_to_string[of js pre s post] by (simp add: quote_def)
next
  case (3 vs)
  then have "runs_to js (a + 1) (a + 1 + length (jprints vs)) (length vs) (jtokss (a + 1) vs)"
    using "3.IH"[of "pre @ ''[''" "CHR '']'' # post" "a + 1"] by simp
  with 3 show ?case
    using runs_to_bracket[of js a "CHR ''[''" "a + 1 + length (jprints vs)" "CHR '']''" JSMN_ARRAY "length vs" "jtokss (a + 1) vs"]
    by (simp add: bracket_def jtoks_closed nth_append)
next
  case (4 kvs)
  then have "runs_to js (a + 1) (a + 1 + length (jprint_pairs kvs)) (2 * length kvs) (jtok_pairs (a + 1) kvs)"
    using "4.IH"[of "pre @ ''{''" "CHR ''}'' # post" "a + 1"] by simp
  with 4 show ?case
    using runs_to_bracket[of js a "CHR ''{''" "a + 1 + length (jprint_pairs kvs)" "CHR ''}''" JSMN_OBJECT "2 * length kvs" "jtok_pairs (a + 1) kvs"]
    by (simp add: bracket_def jtoks_closed nth_append)
next
  case 5
  then show ?case by (simp add: runs_to_refl)
next
  case (6 v vs)
  let ?b = "a + length (jprint v)"
  show ?case
  proof (cases "vs = []")
    case True
    with 6 show ?thesis by simp
  next
    case False
    have js: "js = pre @ jprint v @ CHR '','' # jprints vs @ post" using 6(4) False by simp
    have v: "runs_to js a ?b 1 (jtoks a v)" using "6.IH"(1)[of pre "CHR '','' # jprints vs @ post" a] 6 js by simp
    have "runs_to js (?b + 1) (?b + 1 + length (jprints vs)) (length vs) (jtokss (?b + 1) vs)"
      using "6.IH"(2)[OF False, of "pre @ jprint v @ '',''" post "?b + 1"] 6 js by simp
    from runs_to_sep[OF v jtoks_closed(1) _ _ this] show ?thesis using False js 6(6) by (simp add: add.assoc nth_append)
  qed
next
  case 7
  then show ?case by (simp add: runs_to_refl)
next
  case (8 k v kvs)
  let ?c = "a + length k + 3" let ?d = "?c + length (jprint v)" let ?t = "tok JSMN_STRING (a + 1) (a + 1 + length k) 0"
  let ?post = "(if kvs = [] then [] else CHR '','' # jprint_pairs kvs) @ post"
  have js: "js = pre @ quote k @ CHR '':'' # jprint v @ ?post" using 8(4) by simp
  have k: "runs_to js a (a + length k + 2) 1 [?t]" using runs_to_string[OF js] 8 by simp
  have "runs_to js ?c ?d 1 (jtoks ?c v)"
    using "8.IH"(1)[of "pre @ quote k @ '':''" ?post ?c] 8 js by (auto simp: quote_def)
  then have v: "runs_to js a ?d 2 (?t # jtoks ?c v)"
    using runs_to_sep[OF k, of ?d 1 "jtoks ?c v"] js 8(6) by (simp add: quote_def nth_append numeral_2_eq_2 numeral_3_eq_3)
  show ?case
  proof (cases "kvs = []")
    case True
    with v show ?thesis by (simp add: quote_def numeral_3_eq_3 add.assoc)
  next
    case False
    have "runs_to js (?d + 1) (?d + 1 + length (jprint_pairs kvs)) (2 * length kvs) (jtok_pairs (?d + 1) kvs)"
      using "8.IH"(2)[OF False, of "pre @ quote k @ '':'' @ jprint v @ '',''" post "?d + 1"] 8 js False by (simp add: quote_def)
    moreover have "?d < length js" "js ! ?d = CHR '',''" using False js 8(6) by (simp_all add: quote_def nth_append)
    ultimately have r: "runs_to js a (?d + 1 + length (jprint_pairs kvs)) (2 + 2 * length kvs) ((?t # jtoks ?c v) @ jtok_pairs (?d + 1) kvs)"
      by (intro runs_to_sep[OF v]) (simp_all add: jtoks_closed)
    have d: "?d + 1 = a + length k + length (jprint v) + 4"
      and len: "a + length (jprint_pairs ((k, v) # kvs)) = ?d + 1 + length (jprint_pairs kvs)"
      using False by (simp_all add: quote_def)
    show ?thesis using r unfolding len by (simp only: jtok_pairs.simps d append_Cons) simp
  qed
qed

lemma roundtrip_loop:
  assumes "json_ok v"
  shows "jsmn_loop (jprint v) jsmn_init (blanks (length (jtoks 0 v) + m)) =
     (Inr JSMN_SUCCESS, St (length (jprint v)) (length (jtoks 0 v)) (-1), jtoks 0 v @ blanks m)"
proof -
  let ?js = "jprint v" and ?ts = "jtoks 0 v"
  have r: "runs_to ?js 0 (length ?js) 1 ?ts" using runs_to_value(1)[of v ?js "[]" "[]" 0] assms by (simp add: follows_def)
  have s: "sup_ok (-1) []" by (simp add: sup_ok_def)
  have "jsmn_loop ?js (St 0 0 (-1)) (blanks (length ?ts + m)) = jsmn_loop ?js (St (length ?js) (length ?ts) (-1)) (?ts @ blanks m)"
    using r[unfolded runs_to_def, rule_format, OF s, of m] by (simp add: bump_by_def)
  also have "\<dots> = (Inr JSMN_SUCCESS, St (length ?js) (length ?ts) (-1), ?ts @ blanks m)"
  proof -
    have "open_scan ?ts (length ?ts) = Inr None" using open_scan_closed[OF jtoks_closed(1), of "[]"] by simp
    then show ?thesis by (subst jsmn_loop.simps) (simp add: jsmn_finish_def)
  qed
  finally show ?thesis by (simp add: jsmn_init_def)
qed

text \<open>
  C17: Tokenising the text of a JSON value gives exactly the value's tokens in preorder: their kinds,
  their ranges of the text and their numbers of children (an object counts its keys and its
  values).
\<close>
theorem jsmn_roundtrip:
  assumes "json_ok v" and "length (jtoks 0 v) \<le> length toks"
  shows "jsmn_parse (jprint v) jsmn_init toks =
     (Inr JSMN_SUCCESS, \<lparr>js_pos = length (jprint v), js_toknext = length (jtoks 0 v), js_toksuper = -1\<rparr>,
      jtoks 0 v @ blanks (length toks - length (jtoks 0 v)))"
  using roundtrip_loop[OF assms(1), of "length toks - length (jtoks 0 v)"] assms(2) by (simp add: parse_init)

definition sample_json :: json where
  "sample_json = JObj [(''id'', JPrim ''17''), (''text'', JStr ''go #isabelle''), (''urls'', JArr [JStr ''a'', JPrim ''null''])]"

theorem jsmn_roundtrip_witness:
  "jsmn_parse (jprint sample_json) jsmn_init (blanks 20) =
     (Inr JSMN_SUCCESS, \<lparr>js_pos = 49, js_toknext = 9, js_toksuper = -1\<rparr>, jtoks 0 sample_json @ blanks 11)"
proof -
  have "json_ok sample_json" "length (jtoks 0 sample_json) = 9" "length (jprint sample_json) = 49" by code_simp+
  with jsmn_roundtrip[of sample_json "blanks 20"] show ?thesis by simp
qed

end
