(* ===== verification/Twitter_App.thy ===== *)
theory Twitter_App
  imports Json_Roundtrip
begin

text \<open>
  The Twitter-trending application (\<open>usr/app_twittertrending\<close>): \<open>TweetReader\<close> sends the
  lines of a file as tweets to its output gates in turn, \<open>TweetFinder\<close> takes the first hashtag of each tweet and
  collects hashtags in one batch per output gate, \<open>WordCounter\<close> counts them. What a block sends
  is the list of the output gate and the message of each call of \<open>send_out_through\<close>.
\<close>

subsection \<open>TweetReader\<close>

record tweet_reader =
  tr_lines :: "string list"
  tr_gates :: nat
  tr_next :: nat
  tr_sent :: nat

text \<open>A line is empty once the file is exhausted; a division by a number of gates of 0 has no meaning.\<close>

definition tweet_reader_async :: "tweet_reader \<Rightarrow> ((nat \<times> string) res \<times> tweet_reader)" where
  "tweet_reader_async r =
     (let line = (case tr_lines r of [] \<Rightarrow> [] | l # _ \<Rightarrow> l) in
      if tr_gates r \<le> tr_next r then (Inl Undefined_Behaviour, r)
      else (Inr (tr_next r, line),
            r\<lparr>tr_lines := tl (tr_lines r), tr_next := (tr_next r + 1) mod tr_gates r, tr_sent := tr_sent r + 1\<rparr>))"

subsection \<open>TweetFinder\<close>

definition ALLOC_TOKEN :: nat where "ALLOC_TOKEN = 10"
definition BATH_SIZE :: nat where "BATH_SIZE = 200"
definition TMPBUF :: nat where "TMPBUF = 16384"

record tweet_finder =
  tf_tokens :: "jsmntok list"
  tf_batch :: "string list list"
  tf_sent_tuples :: int
  tf_sent_messages :: int
  tf_received :: nat
  tf_hashtags :: nat
  tf_tweets :: nat
  tf_ignored :: int

text \<open>
  The parsing loop: when the tokeniser runs out of tokens the array grows by ten and parsing goes
  on. \<open>fresh\<close> is the content of newly allocated memory.
\<close>

partial_function (option) finder_parse ::
  "jsmntok list \<Rightarrow> string \<Rightarrow> jsmn_parser \<Rightarrow> jsmntok list \<Rightarrow> jsmn_run option" where
  "finder_parse fresh js p toks =
     (case jsmn_parse js p toks of
        (Inr JSMN_ERROR_NOMEM, p1, toks1) \<Rightarrow> finder_parse fresh js p1 (toks1 @ fresh)
      | r \<Rightarrow> Some r)"

function scan_while :: "(char \<Rightarrow> bool) \<Rightarrow> string \<Rightarrow> nat \<Rightarrow> nat \<Rightarrow> nat" where
  "scan_while P buf i e = (if i < e \<and> P (buf ! i) then scan_while P buf (i + 1) e else i)"
  by pat_completeness auto
termination by (relation "measure (\<lambda>(P, buf, i, e). e - i)") auto

declare scan_while.simps [simp del]

definition isalnum :: "char \<Rightarrow> bool" where
  "isalnum c \<longleftrightarrow> (let n = (of_char c :: nat) in 48 \<le> n \<and> n \<le> 57 \<or> 65 \<le> n \<and> n \<le> 90 \<or> 97 \<le> n \<and> n \<le> 122)"

text \<open>The hashtag copied to the local buffer, if the text has a \<open>#\<close>.\<close>

definition find_hashtag :: "string \<Rightarrow> jsmntok \<Rightarrow> string option res" where
  "find_hashtag buf t =
     (if tk_start t < 0 \<or> int (length buf) < tk_end t then Inl Undefined_Behaviour
      else
        let e = nat (tk_end t); jcn = scan_while (\<lambda>c. c \<noteq> CHR ''#'') buf (nat (tk_start t)) e in
        if jcn < e then
          (let hashtag_len = scan_while isalnum buf (jcn + 1) e - jcn in
           if TMPBUF \<le> hashtag_len then Inl Undefined_Behaviour
           else Inr (Some (take hashtag_len (drop jcn buf))))
        else Inr None)"

text \<open>The search among the first tokens for the value of the key that starts with \<open>text\<close>.\<close>

function find_text :: "string \<Rightarrow> jsmntok list \<Rightarrow> nat \<Rightarrow> nat \<Rightarrow> jsmntok option res" where
  "find_text buf toks sz jj =
     (if jj < sz then
        if length toks \<le> 1 + jj then Inl Undefined_Behaviour
        else if tk_type (toks ! (1 + jj)) = JSMN_STRING then
          if length toks \<le> 2 + jj then Inl Undefined_Behaviour
          else if tk_type (toks ! (2 + jj)) = JSMN_STRING \<and>
              take 4 (drop (nat (tk_start (toks ! (1 + jj)))) buf) = ''text''
          then Inr (Some (toks ! (2 + jj)))
          else find_text buf toks sz (jj + 2)
        else find_text buf toks sz (jj + 2)
      else Inr None)"
  by pat_completeness auto
termination by (relation "measure (\<lambda>(buf, toks, sz, jj). sz - jj)") auto

declare find_text.simps [simp del]

text \<open>Adding a word to the batch of its gate; a full batch is sent and replaced.\<close>

definition add_hashtag :: "(string \<Rightarrow> nat) \<Rightarrow> string \<Rightarrow> tweet_finder \<Rightarrow> (unit res \<times> tweet_finder \<times> (nat \<times> string list) list)" where
  "add_hashtag hash_fn w f =
     (if tf_batch f = [] then (Inl Undefined_Behaviour, f, [])
      else
        let ogate = hash_fn w mod length (tf_batch f); b = tf_batch f ! ogate @ [w] in
        if BATH_SIZE \<le> length b
        then (Inr (), f\<lparr>tf_batch := (tf_batch f)[ogate := []], tf_sent_tuples := tf_sent_tuples f + 1,
                tf_sent_messages := tf_sent_messages f + int BATH_SIZE\<rparr>, [(ogate, b)])
        else (Inr (), f\<lparr>tf_batch := (tf_batch f)[ogate := b]\<rparr>, []))"

definition use_tokens ::
  "(string \<Rightarrow> nat) \<Rightarrow> string \<Rightarrow> jsmntok list \<Rightarrow> tweet_finder \<Rightarrow> (unit res \<times> tweet_finder \<times> (nat \<times> string list) list)" where
  "use_tokens hash_fn buf toks f =
     (if toks = [] then (Inl Undefined_Behaviour, f, [])
      else if tk_type (toks ! 0) \<noteq> JSMN_OBJECT then (Inr (), f\<lparr>tf_ignored := tf_ignored f + 1\<rparr>, [])
      else case find_text buf toks (nat (tk_size (toks ! 0))) 0 of
        Inl e \<Rightarrow> (Inl e, f, [])
      | Inr None \<Rightarrow> (Inr (), f, [])
      | Inr (Some t) \<Rightarrow>
          (let f1 = f\<lparr>tf_tweets := tf_tweets f + 1\<rparr> in
           case find_hashtag buf t of
             Inl e \<Rightarrow> (Inl e, f1, [])
           | Inr None \<Rightarrow> (Inr (), f1, [])
           | Inr (Some w) \<Rightarrow> add_hashtag hash_fn w (f1\<lparr>tf_hashtags := tf_hashtags f1 + 1\<rparr>)))"

text \<open>
  \<open>_receive_msg\<close> on a tweet. (The pointer \<open>buf\<close> is taken from a copy of the tweet that the
  library keeps alive; see the findings of the development.)
\<close>

definition tweet_finder_receive ::
  "(string \<Rightarrow> nat) \<Rightarrow> jsmntok list \<Rightarrow> string \<Rightarrow> tweet_finder \<Rightarrow> (unit res \<times> tweet_finder \<times> (nat \<times> string list) list) option" where
  "tweet_finder_receive hash_fn fresh tweet f =
     map_option (\<lambda>(r, p, toks).
       let f1 = f\<lparr>tf_tokens := toks\<rparr>;
           (r1, f2, sent) = (case r of
               Inl e \<Rightarrow> (Inl e, f1, [])
             | Inr JSMN_SUCCESS \<Rightarrow> use_tokens hash_fn tweet toks f1
             | Inr _ \<Rightarrow> (Inr (), f1, []))
       in (r1, (if r1 = Inr () then f2\<lparr>tf_received := tf_received f2 + 1\<rparr> else f2), sent))
     (finder_parse fresh tweet jsmn_init (tf_tokens f))"

subsection \<open>WordCounter\<close>

record word_counter =
  wc_words :: "string \<rightharpoonup> u64"
  wc_tuples :: nat
  wc_messages :: nat

definition count_word :: "string \<Rightarrow> (string \<rightharpoonup> u64) \<Rightarrow> (string \<rightharpoonup> u64)" where
  "count_word w m = (case m w of Some n \<Rightarrow> m(w \<mapsto> n + 1) | None \<Rightarrow> m(w \<mapsto> 1))"

fun count_words :: "string list \<Rightarrow> word_counter \<Rightarrow> word_counter" where
  "count_words [] wc = wc"
| "count_words (w # ws) wc = count_words ws
     (wc\<lparr>wc_messages := wc_messages wc + 1, wc_words := count_word w (wc_words wc)\<rparr>)"

definition word_counter_receive :: "string list \<Rightarrow> word_counter \<Rightarrow> word_counter" where
  "word_counter_receive ws wc = count_words ws (wc\<lparr>wc_tuples := wc_tuples wc + 1\<rparr>)"

definition word_counter_new :: word_counter where
  "word_counter_new = \<lparr>wc_words = Map.empty, wc_tuples = 0, wc_messages = 0\<rparr>"

subsection \<open>The parsing loop ends\<close>

lemma alloc_next: "run_ok js p toks \<Longrightarrow> jsmn_alloc_token p toks = Some (i, p1) \<Longrightarrow> js_toknext p1 = js_toknext p + 1"
  by (auto simp: alloc_run_ok split: if_splits)

lemma step_next:
  assumes "run_ok js p toks" and "jsmn_step js p toks = (Inr JSMN_SUCCESS, p1, toks1)"
  shows "js_toknext p1 \<le> js_toknext p + 1"
proof -
  note next_token = alloc_next[OF assms(1)]
  show ?thesis using assms(2)
    by (auto simp: jsmn_step_def Let_def then_bump_success jsmn_open_def jsmn_close_def jsmn_parse_string_def jsmn_parse_primitive_def
        dest: next_token str_scan_err split: if_splits option.splits sum.splits bool.splits prod.splits)
qed

text \<open>Every token has a character of its own, so the tokeniser never asks for more tokens than the text has characters.\<close>

lemma loop_NOMEM:
  assumes "run_ok js p toks" and "js_toknext p \<le> js_pos p" and "jsmn_loop js p toks = (Inr JSMN_ERROR_NOMEM, p1, toks1)"
  shows "js_toknext p1 \<le> js_pos p1 \<and> js_pos p1 < length js"
  using assms
proof (induction js p toks rule: jsmn_loop.induct)
  case (1 js p toks)
  show ?case
  proof (cases "js_pos p = length js")
    case True
    with 1(2,4) finish_ok[OF 1(2)] show ?thesis by (auto simp: jsmn_loop.simps)
  next
    case False
    then have pos: "js_pos p < length js" using 1(2) by (simp add: run_ok_def)
    obtain e q t where s: "jsmn_step js p toks = (Inr e, q, t)" and ok: "run_ok js q t"
      and nm: "e = JSMN_ERROR_NOMEM \<longrightarrow> q = p \<and> t = toks"
      using step_ok[OF 1(2) pos] by (auto simp: turn_ok_def)
    have run: "jsmn_loop js p toks =
        (if e = JSMN_SUCCESS then jsmn_loop js (q\<lparr>js_pos := js_pos q + 1\<rparr>) t else (Inr e, q, t))"
      using pos s by (subst jsmn_loop.simps) simp
    show ?thesis
    proof (cases "e = JSMN_SUCCESS")
      case True
      have "run_ok js (q\<lparr>js_pos := js_pos q + 1\<rparr>) t" "js_toknext q \<le> js_pos q + 1"
        using ok jsmn_step_pos[OF s[unfolded True] pos] step_next[OF 1(2) s[unfolded True]] 1(3) by (auto simp: run_ok_def)
      then show ?thesis using 1(1)[OF _ _ s[symmetric] refl _] 1(4) run True pos by auto
    next
      case False
      then show ?thesis using run 1(3,4) nm pos by auto
    qed
  qed
qed

lemma finder_parse_loop:
  assumes "fresh \<noteq> []" and "run_ok js p toks" and "js_toknext p \<le> js_pos p" and "jsmn_loop js p toks = (Inr err, p1, toks1)"
    and "jsmn_parse js p0 toks0 = (Inr err, p1, toks1)"
  shows "\<exists>err' p' toks' m. finder_parse fresh js p0 toks0 = Some (Inr err', p', toks') \<and> err' \<noteq> JSMN_ERROR_NOMEM \<and>
     jsmn_loop js p (toks @ blanks m) = (Inr err', p', toks') \<and> length toks' = length toks + m"
  using assms
proof (induction "length js - length toks" arbitrary: p toks err p1 toks1 p0 toks0 rule: less_induct)
  case less
  have out: "outcome_ok js (length toks) (Inr err, p1, toks1)" using loop_ok[OF less.prems(2)] less.prems(4) by simp
  show ?case
  proof (cases "err = JSMN_ERROR_NOMEM")
    case False
    then have "finder_parse fresh js p0 toks0 = Some (Inr err, p1, toks1)"
      using less.prems(5) by (subst finder_parse.simps) (cases err; simp)
    then show ?thesis using False less.prems(4) out by (auto simp: outcome_ok_def intro!: exI[of _ "0::nat"])
  next
    case True
    have next1: "js_toknext p1 \<le> js_pos p1" "js_pos p1 < length js" using loop_NOMEM[OF less.prems(2,3)] less.prems(4) True by auto
    have full: "js_toknext p1 = length toks1" "length toks1 = length toks" "run_ok js p1 toks1" using out True by (auto simp: outcome_ok_def)
    have grow: "length js - length (toks1 @ blanks (length fresh)) < length js - length toks"
      using less.prems(1) next1 full by (cases fresh) auto
    obtain r where r: "jsmn_loop js p1 (toks1 @ blanks (length fresh)) = r" "outcome_ok js (length (toks1 @ blanks (length fresh))) r"
      using loop_ok[OF run_ok_more[OF full(3)], of "length fresh"] by blast
    then obtain e2 p2 t2 where l2: "jsmn_loop js p1 (toks1 @ blanks (length fresh)) = (Inr e2, p2, t2)" by (auto simp: outcome_ok_def)
    then have "jsmn_parse js p1 (toks1 @ fresh) = (Inr e2, p2, t2)" using full(1) by (simp add: parse_resume)
    from less.hyps[OF grow less.prems(1) run_ok_more[OF full(3)] next1(1) l2 this] obtain err' p' toks' m where
      f: "finder_parse fresh js p1 (toks1 @ fresh) = Some (Inr err', p', toks')" "err' \<noteq> JSMN_ERROR_NOMEM"
      "jsmn_loop js p1 ((toks1 @ blanks (length fresh)) @ blanks m) = (Inr err', p', toks')"
      "length toks' = length (toks1 @ blanks (length fresh)) + m" by blast
    have "jsmn_loop js p (toks @ blanks (length fresh + m)) = (Inr err', p', toks')"
      using loop_more[OF less.prems(2,4), of "length fresh + m"] True f(3) by (simp add: blanks_add)
    moreover have "finder_parse fresh js p0 toks0 = Some (Inr err', p', toks')"
      using less.prems(5) True f(1) by (subst finder_parse.simps) simp
    ultimately show ?thesis using f(2,4) full(2) by (intro exI[of _ err'] exI[of _ p'] exI[of _ toks'] exI[of _ "length fresh + m"]) simp
  qed
qed

lemma finder_parse_returns_aux:
  assumes "length fresh = ALLOC_TOKEN"
  shows "\<exists>err p toks1. finder_parse fresh js jsmn_init toks = Some (Inr err, p, toks1) \<and> err \<noteq> JSMN_ERROR_NOMEM \<and>
     length toks \<le> length toks1 \<and> jsmn_loop js jsmn_init (blanks (length toks1)) = (Inr err, p, toks1)"
proof -
  have "fresh \<noteq> []" using assms by (auto simp: ALLOC_TOKEN_def)
  moreover obtain err p1 toks1 where l: "jsmn_loop js jsmn_init (blanks (length toks)) = (Inr err, p1, toks1)"
    using loop_ok[OF run_ok_init, of js "length toks"] by (auto simp: outcome_ok_def)
  moreover have "jsmn_parse js jsmn_init toks = (Inr err, p1, toks1)" using l by (simp add: parse_init)
  moreover have "js_toknext jsmn_init \<le> js_pos jsmn_init" by (simp add: jsmn_init_def)
  ultimately obtain err' p' toks' m where "finder_parse fresh js jsmn_init toks = Some (Inr err', p', toks')" "err' \<noteq> JSMN_ERROR_NOMEM"
    "jsmn_loop js jsmn_init (blanks (length toks) @ blanks m) = (Inr err', p', toks')" "length toks' = length (blanks (length toks)) + m"
    using finder_parse_loop[OF _ run_ok_init] by blast
  then show ?thesis by (simp add: blanks_add)
qed

text \<open>
  The loop that grows the token array and calls the tokeniser again ends for every text, with
  the answer that one call of the tokeniser would give with the array the loop ends with.
\<close>
theorem finder_parse_returns:
  assumes "length fresh = ALLOC_TOKEN"
  shows "\<exists>err p toks1. finder_parse fresh js jsmn_init toks = Some (Inr err, p, toks1) \<and> err \<noteq> JSMN_ERROR_NOMEM \<and>
     length toks \<le> length toks1 \<and> jsmn_parse js jsmn_init toks1 = (Inr err, p, toks1)"
  using finder_parse_returns_aux[OF assms] by (simp add: parse_init)

theorem finder_parse_returns_witness:
  "\<exists>err p toks1. finder_parse (blanks 10) (jprint sample_json) jsmn_init [] = Some (Inr err, p, toks1) \<and> err \<noteq> JSMN_ERROR_NOMEM"
  using finder_parse_returns[of "blanks 10" "jprint sample_json" "[]"] by (auto simp: ALLOC_TOKEN_def)

subsection \<open>The hashtag of a tweet\<close>

text \<open>What is looked for: the first \<open>#\<close> and the letters and digits after it.\<close>

definition hashtag_of :: "string \<Rightarrow> string option" where
  "hashtag_of s = (case dropWhile (\<lambda>c. c \<noteq> CHR ''#'') s of [] \<Rightarrow> None | c # cs \<Rightarrow> Some (c # takeWhile isalnum cs))"

lemma scan_while_at:
  "scan_while P (pre @ s @ post) (length pre) (length pre + length s) = length pre + length (takeWhile P s)"
proof (induction s arbitrary: pre)
  case Nil
  then show ?case by (simp add: scan_while.simps)
next
  case (Cons c s)
  from Cons[of "pre @ [c]"] show ?case by (subst scan_while.simps) (simp add: nth_append)
qed

lemma take_takeWhile: "take (length (takeWhile P xs)) (xs @ ys) = takeWhile P xs"
  by (induction xs) auto

lemma find_hashtag_at:
  assumes "buf = pre @ s @ post" and "tk_start t = int (length pre)" and "tk_end t = int (length pre + length s)"
  shows "find_hashtag buf t =
     (case hashtag_of s of None \<Rightarrow> Inr None | Some w \<Rightarrow> if TMPBUF \<le> length w then Inl Undefined_Behaviour else Inr (Some w))"
proof -
  let ?P = "\<lambda>c. c \<noteq> CHR ''#''"
  let ?a = "takeWhile ?P s" and ?d = "dropWhile ?P s"
  have s: "s = ?a @ ?d" by simp
  have e: "nat (tk_end t) = length pre + length s" "nat (tk_start t) = length pre" using assms by simp_all
  have first: "scan_while ?P buf (length pre) (length pre + length s) = length pre + length ?a"
    unfolding assms(1) by (rule scan_while_at)
  have ok: "\<not> (tk_start t < 0 \<or> int (length buf) < tk_end t)" using assms by simp
  show ?thesis
  proof (cases ?d)
    case Nil
    then have "?a = s" by (simp add: dropWhile_eq_Nil_conv takeWhile_eq_all_conv)
    then have "length s = length ?a" by (simp only:)
    then show ?thesis unfolding find_hashtag_def if_not_P[OF ok] Let_def e first hashtag_of_def Nil by simp
  next
    case (Cons c cs)
    have len: "length s = length ?a + 1 + length cs" using arg_cong[OF s, of length] Cons by simp
    have buf: "buf = (pre @ ?a @ [c]) @ cs @ post" using assms(1) s Cons by (metis append.assoc append_Cons append_Nil)
    have "scan_while isalnum buf (length (pre @ ?a @ [c])) (length (pre @ ?a @ [c]) + length cs) =
        length (pre @ ?a @ [c]) + length (takeWhile isalnum cs)" unfolding buf by (rule scan_while_at)
    then have second: "scan_while isalnum buf (length pre + length ?a + 1) (length pre + length s) - (length pre + length ?a) =
        1 + length (takeWhile isalnum cs)" by (simp add: len add.assoc)
    have "drop (length pre + length ?a) buf = c # cs @ post" unfolding buf by simp
    then have "take (1 + length (takeWhile isalnum cs)) (drop (length pre + length ?a) buf) = c # takeWhile isalnum cs"
      by (simp add: take_takeWhile del: take_append)
    with Cons len second show ?thesis unfolding find_hashtag_def if_not_P[OF ok] Let_def e first
      by (simp add: hashtag_of_def)
  qed
qed

text \<open>Values that take one token, and members that are not the text of the tweet.\<close>

fun flat :: "json \<Rightarrow> bool" where
  "flat (JPrim s) \<longleftrightarrow> True" | "flat (JStr s) \<longleftrightarrow> True" | "flat v \<longleftrightarrow> False"

definition skipped :: "string \<times> json \<Rightarrow> bool" where
  "skipped kv \<longleftrightarrow> flat (snd kv) \<and> (take 4 (fst kv) = ''text'' \<longrightarrow> (\<exists>s. snd kv = JPrim s))"

lemma nat_int_plus_1 [simp]: "nat (1 + int n) = Suc n" "nat (int n + 1) = Suc n"
  by simp_all

lemma key_is_text:
  assumes "str_body k"
  shows "take 4 (k @ CHR 0x22 # post) = ''text'' \<longleftrightarrow> take 4 k = ''text''"
proof (cases "4 \<le> length k")
  case False
  then have "CHR 0x22 \<in> set (take 4 (k @ CHR 0x22 # post))" by (cases "4 - length k") (simp_all)
  moreover have "CHR 0x22 \<notin> set ''text''" by simp
  ultimately have "take 4 (k @ CHR 0x22 # post) \<noteq> ''text''" by metis
  moreover have "take 4 k \<noteq> ''text''" using False by auto
  ultimately show ?thesis by blast
qed simp

text \<open>Where the members of an object are found among the tokens.\<close>

lemma find_text_at:
  assumes "jpairs_ok (ps @ (k, JStr s) # rest)" and "list_all skipped ps" and "take 4 k = ''text''"
    and "buf = pre @ jprint_pairs (ps @ (k, JStr s) # rest) @ post" and "front \<noteq> []"
    and "length front + 2 * length ps < sz + 1"
  shows "\<exists>a. find_text buf (front @ jtok_pairs (length pre) (ps @ (k, JStr s) # rest) @ tail) sz (length front - 1) =
      Inr (Some (tok JSMN_STRING a (a + length s) 0)) \<and> (\<exists>p q. buf = p @ s @ q \<and> a = length p)"
  using assms
proof (induction ps arbitrary: front pre)
  case Nil
  let ?a = "length pre + length k + 4"
  let ?q = "(if rest = [] then [] else CHR '','' # jprint_pairs rest) @ post"
  have buf: "buf = pre @ CHR 0x22 # k @ CHR 0x22 # CHR '':'' # CHR 0x22 # s @ CHR 0x22 # ?q" using Nil by (simp add: quote_def)
  have "take 4 (drop (nat (int (length pre + 1))) buf) = ''text''"
    unfolding buf using key_is_text[of k] Nil(1,3) by simp
  then have "find_text buf (front @ jtok_pairs (length pre) ([] @ (k, JStr s) # rest) @ tail) sz (length front - 1) =
      Inr (Some (tok JSMN_STRING ?a (?a + length s) 0))"
    using Nil(5,6) by (subst find_text.simps) (cases front; auto simp: nth_append tok_def)
  moreover have "buf = (pre @ CHR 0x22 # k @ CHR 0x22 # CHR '':'' # [CHR 0x22]) @ s @ CHR 0x22 # ?q" unfolding buf by simp
  moreover have "?a = length (pre @ CHR 0x22 # k @ CHR 0x22 # CHR '':'' # [CHR 0x22])" by simp
  ultimately show ?case by blast
next
  case (Cons p ps)
  obtain j v where p: "p = (j, v)" by (cases p)
  have v: "flat v" "take 4 j = ''text'' \<longrightarrow> (\<exists>s. v = JPrim s)" "str_body j" using Cons.prems(1,2) by (auto simp: p skipped_def)
  obtain t where t: "jtoks (length pre + length j + 3) v = [t]" "tk_type t = JSMN_STRING \<longrightarrow> take 4 j \<noteq> ''text''"
    using v(1,2) by (cases v) (auto simp: tok_def)
  let ?k = "tok JSMN_STRING (length pre + 1) (length pre + 1 + length j) 0"
  let ?pre = "pre @ quote j @ CHR '':'' # jprint v @ [CHR '','']"
  have lp: "length ?pre = length pre + length j + length (jprint v) + 4" by (simp add: quote_def)
  have toks: "front @ jtok_pairs (length pre) ((p # ps) @ (k, JStr s) # rest) @ tail =
      (front @ [?k, t]) @ jtok_pairs (length ?pre) (ps @ (k, JStr s) # rest) @ tail" unfolding lp by (simp add: p t)
  have buf: "buf = ?pre @ jprint_pairs (ps @ (k, JStr s) # rest) @ post" using Cons.prems(4) by (simp add: p)
  have "take 4 (drop (nat (int (length pre + 1))) buf) = ''text'' \<longleftrightarrow> take 4 j = ''text''"
    unfolding buf using key_is_text[OF v(3)] by (simp add: quote_def)
  then have "find_text buf (front @ jtok_pairs (length pre) ((p # ps) @ (k, JStr s) # rest) @ tail) sz (length front - 1) =
      find_text buf ((front @ [?k, t]) @ jtok_pairs (length ?pre) (ps @ (k, JStr s) # rest) @ tail) sz (length (front @ [?k, t]) - 1)"
    unfolding toks using t(2) Cons.prems(5,6)
    by (subst find_text.simps) (cases front; auto simp: nth_append tok_def[of JSMN_STRING])
  then show ?case using Cons.IH[of ?pre "front @ [?k, t]"] Cons.prems buf by (simp add: p)
qed

subsection \<open>From tweets to batches\<close>

text \<open>The words sent through a gate in a list of sends.\<close>

definition sent_to :: "nat \<Rightarrow> (nat \<times> string list) list \<Rightarrow> string list" where
  "sent_to g sent = concat (map snd (filter (\<lambda>(h, _). h = g) sent))"

lemma add_hashtag_effect:
  assumes "tf_batch f \<noteq> []"
  shows "\<exists>f' sent. add_hashtag hash_fn w f = (Inr (), f', sent) \<and> length (tf_batch f') = length (tf_batch f) \<and>
     tf_received f' = tf_received f \<and>
     (\<forall>g < length (tf_batch f). sent_to g sent @ tf_batch f' ! g =
        tf_batch f ! g @ (if g = hash_fn w mod length (tf_batch f) then [w] else []))"
proof -
  have "hash_fn w mod length (tf_batch f) < length (tf_batch f)" using assms by simp
  then show ?thesis using assms by (auto simp: add_hashtag_def Let_def sent_to_def nth_list_update)
qed

lemma finder_parse_json:
  assumes "length fresh = ALLOC_TOKEN" and "json_ok v"
  shows "\<exists>p m. finder_parse fresh (jprint v) jsmn_init toks = Some (Inr JSMN_SUCCESS, p, jtoks 0 v @ blanks m)"
proof -
  let ?n = "length (jtoks 0 v)"
  obtain err p toks1 where f: "finder_parse fresh (jprint v) jsmn_init toks = Some (Inr err, p, toks1)" "err \<noteq> JSMN_ERROR_NOMEM"
    and l: "jsmn_loop (jprint v) jsmn_init (blanks (length toks1)) = (Inr err, p, toks1)"
    using finder_parse_returns_aux[OF assms(1)] by blast
  have "outcome_ok (jprint v) (length toks1) (Inr err, p, toks1)" using loop_ok[OF run_ok_init, of "jprint v" "length toks1"] l by simp
  then have "js_toknext p \<le> length toks1" by (auto simp: outcome_ok_def run_ok_def)
  moreover have "jsmn_loop (jprint v) jsmn_init (blanks (length toks1 + ?n)) = (Inr err, p, toks1 @ blanks ?n)"
    using loop_more[OF run_ok_init l, of ?n] f(2) by (simp add: blanks_add)
  moreover note roundtrip_loop[OF assms(2), of "length toks1"]
  ultimately have "?n \<le> length toks1" by (auto simp: add.commute)
  then show ?thesis using f roundtrip_loop[OF assms(2), of "length toks1 - ?n"] l by auto
qed


definition finder_with :: "jsmntok list \<Rightarrow> string list list \<Rightarrow> tweet_finder" where
  "finder_with toks batches = \<lparr>tf_tokens = toks, tf_batch = batches, tf_sent_tuples = 0, tf_sent_messages = 0,
     tf_received = 0, tf_hashtags = 0, tf_tweets = 0, tf_ignored = 0\<rparr>"


text \<open>
  The search for the text looks at every second token, not at every second member: a nested
  object before the text hides it, and the hashtag of such a tweet is lost.
\<close>
theorem nested_tweet_loses_hashtag:
  "\<exists>f'. tweet_finder_receive hash_fn (blanks 10)
       (jprint (JObj [(''user'', JObj [(''id'', JPrim ''1'')]), (''text'', JStr ''go #isabelle'')])) (finder_with [] [[]]) = Some (Inr (), f', []) \<and>
     tf_batch f' = [[]] \<and> tf_tweets f' = 0"
proof -
  let ?v = "JObj [(''user'', JObj [(''id'', JPrim ''1'')]), (''text'', JStr ''go #isabelle'')]"
  obtain p m where parse: "finder_parse (blanks 10) (jprint ?v) jsmn_init [] = Some (Inr JSMN_SUCCESS, p, jtoks 0 ?v @ blanks m)"
    using finder_parse_json[of "blanks 10" ?v "[]"] by (auto simp: ALLOC_TOKEN_def prim_body_def prim_ends_def prim_bad_def)
  have "find_text (jprint ?v) (jtoks 0 ?v @ blanks m) 4 0 = Inr None"
    by (simp add: find_text.simps tok_def nth_append)
  then show ?thesis
    by (simp add: tweet_finder_receive_def finder_with_def parse use_tokens_def tok_def del: jprint.simps jprints.simps jprint_pairs.simps)
qed

text \<open>
  A first tweet without any token, such as the empty line the reader sends at the end of the
  file, makes the finder read a token array it has not allocated yet.
\<close>
theorem empty_first_tweet_undefined:
  assumes "list_all (\<lambda>c. c = CHR '' '') tweet" and "tf_tokens f = []"
  shows "\<exists>f'. tweet_finder_receive hash_fn fresh tweet f = Some (Inl Undefined_Behaviour, f', [])"
proof -
  have "jsmn_loop tweet (St n 0 (-1)) [] = (Inr JSMN_SUCCESS, St (length tweet) 0 (-1), [])" if "n \<le> length tweet" for n
    using that
  proof (induction "length tweet - n" arbitrary: n)
    case 0
    then show ?case by (subst jsmn_loop.simps) (simp add: jsmn_finish_def)
  next
    case (Suc d)
    then have n: "n < length tweet" by simp
    then have "tweet ! n = CHR '' ''" using assms(1) by (simp add: list_all_length)
    then have "jsmn_step tweet (St n 0 (-1)) [] = (Inr JSMN_SUCCESS, St n 0 (-1), [])" by (simp add: jsmn_step_def Let_def)
    with n Suc(1)[of "n + 1"] Suc(2) show ?case by (subst jsmn_loop.simps) simp
  qed
  from this[of 0] have "jsmn_parse tweet jsmn_init [] = (Inr JSMN_SUCCESS, St (length tweet) 0 (-1), [])"
    by (simp add: jsmn_parse_def jsmn_init_def)
  then have "finder_parse fresh tweet jsmn_init [] = Some (Inr JSMN_SUCCESS, St (length tweet) 0 (-1), [])"
    by (subst finder_parse.simps) simp
  with assms(2) show ?thesis by (simp add: tweet_finder_receive_def use_tokens_def)
qed

theorem empty_first_tweet_undefined_witness:
  "\<exists>f'. tweet_finder_receive length (blanks 10) [] (finder_with [] [[]]) = Some (Inl Undefined_Behaviour, f', [])"
  using empty_first_tweet_undefined[of "[]" "finder_with [] [[]]" length "blanks 10"] by (simp add: finder_with_def)

subsection \<open>Counting\<close>

lemma count_words_map: "wc_words (count_words ws wc) = fold count_word ws (wc_words wc)"
  by (induction ws arbitrary: wc) simp_all

lemma receive_all_words: "wc_words (fold word_counter_receive batches wc) = fold count_word (concat batches) (wc_words wc)"
  by (induction batches arbitrary: wc) (simp_all add: word_counter_receive_def count_words_map)

lemma fold_count_word:
  "fold count_word ws m w =
     (if w \<in> set ws then Some (of_nat (count_list ws w) + (case m w of None \<Rightarrow> 0 | Some k \<Rightarrow> k)) else m w)"
proof (induction ws arbitrary: m)
  case (Cons x ws)
  have "count_list ws w = 0" if "w \<notin> set ws" using that by (simp add: count_list_0_iff)
  with Cons[of "count_word x m"] show ?case by (auto simp: count_word_def split: option.split)
qed simp

text \<open>
  After any sequence of batches, the counter holds for each word the number of its occurrences
  in all of them, modulo the width of the counter, and no entry for other words.
\<close>
theorem word_counts_correct:
  "case wc_words (fold word_counter_receive batches word_counter_new) w of
     None \<Rightarrow> w \<notin> set (concat batches)
   | Some n \<Rightarrow> n = of_nat (count_list (concat batches) w)"
  by (simp add: receive_all_words fold_count_word word_counter_new_def)

end
