(* ===== verification/Packet_Parse.thy ===== *)
theory Packet_Parse
  imports Bm_Prelude
begin

text \<open>
  The packet message (\<open>messages/Packet\<close>): a captured frame whose Ethernet, IPv4, TCP and UDP
  headers are parsed on demand and cached in mutable members. A pointer into the frame is an offset;
  reading outside the captured bytes is \<open>Undefined_Behaviour\<close>. Members that the constructor
  leaves uninitialised take their value from an arbitrary earlier packet.
\<close>

subsection \<open>Data\<close>

record flow_key =
  src_ip4 :: u32
  dst_ip4 :: u32
  src_port :: u16
  dst_port :: u16
  proto :: byte

definition flow_key_0 :: flow_key where
  "flow_key_0 = \<lparr>src_ip4 = 0, dst_ip4 = 0, src_port = 0, dst_port = 0, proto = 0\<rparr>"

record packet =
  m_buffer :: "byte list"
  m_length :: u64
  m_tstamp :: "u64 \<times> u64"
  m_mactype :: int
  m_iphdr_ptr :: "nat option"
  m_l4hdr_ptr :: "nat option"
  m_l4payload_ptr :: "nat option"
  m_machdr_parsed :: bool
  m_iphdr_parsed :: bool
  m_ports_parsed :: bool
  m_l4hdr_parsed :: bool
  m_pkttype :: u16
  m_key :: flow_key
  m_iptos :: byte
  m_ipttl :: byte
  m_iplen :: u16
  m_iphlen :: byte
  m_tcpflags :: byte
  m_tcpseq :: u32
  m_tcpack :: u32
  m_tcpurg :: u32
  m_tcpwin :: u32
  m_tcphlen :: byte
  m_udplen :: u16
  m_payload_len :: u64

definition kEthernet :: int where "kEthernet = 1"
definition kRawIP :: int where "kRawIP = 2"
definition kPktTypeRuntL2 :: u16 where "kPktTypeRuntL2 = 0xFFF2"
definition kPktTypeRuntL3 :: u16 where "kPktTypeRuntL3 = 0xFFF3"
definition kPktTypeRuntL4 :: u16 where "kPktTypeRuntL4 = 0xFFF4"
definition kPktTypeIP4 :: u16 where "kPktTypeIP4 = 0x0800"
definition kPktType1q :: u16 where "kPktType1q = 0x8100"
definition kUDP :: byte where "kUDP = 17"
definition kTCP :: byte where "kTCP = 6"
definition kFIN :: byte where "kFIN = 0x01"
definition kSYN :: byte where "kSYN = 0x02"
definition kRST :: byte where "kRST = 0x04"
definition kPSH :: byte where "kPSH = 0x08"
definition kACK :: byte where "kACK = 0x10"
definition kURG :: byte where "kURG = 0x20"

text \<open>Sizes of the packed header structures.\<close>

definition sizeof_ethhdr :: nat where "sizeof_ethhdr = 14"
definition sizeof_eth1qhdr :: nat where "sizeof_eth1qhdr = 4"
definition sizeof_ip4hdr :: nat where "sizeof_ip4hdr = 20"
definition sizeof_porthdr :: nat where "sizeof_porthdr = 4"
definition sizeof_tcphdr :: nat where "sizeof_tcphdr = 17"
definition sizeof_udphdr :: nat where "sizeof_udphdr = 8"

lemmas pkt_consts = kEthernet_def kRawIP_def kPktTypeRuntL2_def kPktTypeRuntL3_def kPktTypeRuntL4_def
  kPktTypeIP4_def kPktType1q_def kUDP_def kTCP_def

lemmas hdr_sizes = sizeof_ethhdr_def sizeof_eth1qhdr_def sizeof_ip4hdr_def sizeof_porthdr_def sizeof_tcphdr_def sizeof_udphdr_def

definition packet_new :: "packet \<Rightarrow> byte list \<Rightarrow> u64 \<times> u64 \<Rightarrow> u64 \<Rightarrow> int \<Rightarrow> packet" where
  "packet_new junk buf ts len mac = junk\<lparr>m_buffer := buf, m_length := (if len = 0 then of_nat (length buf) else len),
     m_tstamp := ts, m_mactype := mac, m_iphdr_ptr := None, m_l4hdr_ptr := None, m_l4payload_ptr := None,
     m_machdr_parsed := False, m_iphdr_parsed := False, m_ports_parsed := False, m_l4hdr_parsed := False,
     m_key := flow_key_0, m_payload_len := 0\<rparr>"

text \<open>A clone copies the frame and forgets the parsed fields.\<close>

definition packet_clone :: "packet \<Rightarrow> packet \<Rightarrow> packet" where
  "packet_clone junk p = packet_new junk (m_buffer p) (m_tstamp p) (m_length p) (m_mactype p)"

subsection \<open>Reading the frame\<close>

definition rd8 :: "byte list \<Rightarrow> nat \<Rightarrow> byte res" where
  "rd8 buf i = (if i + 1 \<le> length buf then Inr (buf ! i) else Inl Undefined_Behaviour)"

definition rd16 :: "byte list \<Rightarrow> nat \<Rightarrow> u16 res" where
  "rd16 buf i = (if i + 2 \<le> length buf then Inr (bswap16 (of_le (take 2 (drop i buf)))) else Inl Undefined_Behaviour)"

definition rd32 :: "byte list \<Rightarrow> nat \<Rightarrow> u32 res" where
  "rd32 buf i = (if i + 4 \<le> length buf then Inr (bswap32 (of_le (take 4 (drop i buf)))) else Inl Undefined_Behaviour)"

text \<open>Subtraction of \<open>size_t\<close> values.\<close>

definition size_sub :: "nat \<Rightarrow> nat \<Rightarrow> nat" where
  "size_sub a b = nat ((int a - int b) mod 2 ^ 64)"

definition decode_hlv :: "byte \<Rightarrow> byte" where
  "decode_hlv hlv = push_bit 2 (hlv AND 0x0F)"

definition decode_payoff :: "byte \<Rightarrow> byte" where
  "decode_payoff payoff = drop_bit 2 (payoff AND 0xF0)"

subsection \<open>Layer 2\<close>

text \<open>The loop over 802.1q tags: \<open>None\<close> for a runt, else the type and the offset behind the tags.\<close>

function mac_loop :: "byte list \<Rightarrow> u16 \<Rightarrow> nat \<Rightarrow> (u16 \<times> nat) option res" where
  "mac_loop buf ty off =
     (if ty = kPktType1q then
        if size_sub (length buf) off < sizeof_ethhdr then Inr None
        else if length buf < off + sizeof_eth1qhdr then Inl Undefined_Behaviour
        else bindE (rd16 buf (off + 2)) (\<lambda>ty1. mac_loop buf ty1 (off + sizeof_eth1qhdr))
      else Inr (Some (ty, off)))"
  by pat_completeness auto
termination by (relation "measure (\<lambda>(buf, ty, off). length buf - off)") (auto simp: hdr_sizes)

declare mac_loop.simps [simp del]

abbreviation runt_l2 :: "packet \<Rightarrow> packet" where
  "runt_l2 p \<equiv> p\<lparr>m_pkttype := kPktTypeRuntL2, m_iphdr_parsed := True, m_ports_parsed := True,
     m_l4hdr_parsed := True, m_machdr_parsed := True\<rparr>"

definition mac_done :: "nat \<Rightarrow> packet \<Rightarrow> packet" where
  "mac_done off p =
     (if m_pkttype p = kPktTypeIP4 then p\<lparr>m_iphdr_ptr := Some off, m_machdr_parsed := True\<rparr>
      else p\<lparr>m_iphdr_parsed := True, m_ports_parsed := True, m_l4hdr_parsed := True, m_machdr_parsed := True\<rparr>)"

definition parse_mac :: "packet \<Rightarrow> packet res" where
  "parse_mac p =
     (if m_machdr_parsed p then Inr p
      else if m_mactype p = kEthernet then
        if length (m_buffer p) < sizeof_ethhdr then Inr (runt_l2 p)
        else bindE (rd16 (m_buffer p) 12) (\<lambda>ty.
             bindE (mac_loop (m_buffer p) ty sizeof_ethhdr) (\<lambda>r.
             case r of None \<Rightarrow> Inr (runt_l2 p) | Some (ty1, off) \<Rightarrow> Inr (mac_done off (p\<lparr>m_pkttype := ty1\<rparr>))))
      else if m_mactype p = kRawIP then Inr (mac_done 0 (p\<lparr>m_pkttype := kPktTypeIP4\<rparr>))
      else Inr (mac_done 0 p))"

subsection \<open>Layer 3\<close>

definition ip_body :: "packet \<Rightarrow> packet res" where
  "ip_body p =
     (case m_iphdr_ptr p of
        None \<Rightarrow> Inr (p\<lparr>m_iphdr_parsed := True\<rparr>)
      | Some ip \<Rightarrow>
          let buf = m_buffer p; left = size_sub (length buf) ip in
          if sizeof_ip4hdr \<le> left then
            bindE (rd32 buf (ip + 12)) (\<lambda>sip. bindE (rd32 buf (ip + 16)) (\<lambda>dip.
            bindE (rd8 buf (ip + 9)) (\<lambda>pr. bindE (rd8 buf (ip + 1)) (\<lambda>tos.
            bindE (rd8 buf (ip + 8)) (\<lambda>ttl. bindE (rd16 buf (ip + 2)) (\<lambda>iplen.
            bindE (rd8 buf ip) (\<lambda>hlv.
            let hlen = decode_hlv hlv in
            Inr (p\<lparr>m_key := (m_key p)\<lparr>src_ip4 := sip, dst_ip4 := dip, proto := pr\<rparr>,
                   m_iptos := tos, m_ipttl := ttl, m_iplen := iplen, m_iphlen := hlen,
                   m_l4hdr_ptr := (if unat hlen \<le> left then Some (ip + unat hlen) else m_l4hdr_ptr p),
                   m_iphdr_parsed := True\<rparr>))))))))
          else Inr (p\<lparr>m_pkttype := kPktTypeRuntL3, m_ports_parsed := True, m_l4hdr_parsed := True, m_iphdr_parsed := True\<rparr>))"

definition parse_iphdr :: "packet \<Rightarrow> packet res" where
  "parse_iphdr p = (if m_iphdr_parsed p then Inr p else bindE (parse_mac p) ip_body)"

subsection \<open>Layer 4\<close>

definition ports_body :: "packet \<Rightarrow> packet res" where
  "ports_body p =
     bindE
       (case m_l4hdr_ptr p of
          None \<Rightarrow> Inr p
        | Some l4 \<Rightarrow>
            if proto (m_key p) = kTCP \<or> proto (m_key p) = kUDP then
              let buf = m_buffer p; left = size_sub (length buf) l4 in
              if sizeof_porthdr \<le> left then
                bindE (rd16 buf l4) (\<lambda>sp. bindE (rd16 buf (l4 + 2)) (\<lambda>dp.
                let p1 = p\<lparr>m_key := (m_key p)\<lparr>src_port := sp, dst_port := dp\<rparr>\<rparr> in
                if proto (m_key p) = kUDP \<and> sizeof_udphdr \<le> left then
                  bindE (rd16 buf (l4 + 4)) (\<lambda>ulen.
                  Inr (p1\<lparr>m_udplen := ulen, m_l4payload_ptr := Some (l4 + sizeof_udphdr),
                          m_payload_len := ucast (m_iplen p) - ucast (m_iphlen p) - of_nat sizeof_udphdr\<rparr>))
                else Inr p1))
              else Inr (p\<lparr>m_pkttype := kPktTypeRuntL4, m_l4hdr_parsed := True\<rparr>)
            else Inr p)
       (\<lambda>p2. Inr (p2\<lparr>m_ports_parsed := True\<rparr>))"

definition parse_ports :: "packet \<Rightarrow> packet res" where
  "parse_ports p = (if m_ports_parsed p then Inr p else bindE (parse_iphdr p) ports_body)"

definition tcp_body :: "packet \<Rightarrow> packet res" where
  "tcp_body p =
     bindE
       (case m_l4hdr_ptr p of
          None \<Rightarrow> Inr p
        | Some l4 \<Rightarrow>
            if proto (m_key p) = kTCP then
              let buf = m_buffer p; left = size_sub (length buf) l4 in
              if sizeof_tcphdr \<le> left then
                bindE (rd16 buf l4) (\<lambda>sp. bindE (rd16 buf (l4 + 2)) (\<lambda>dp.
                bindE (rd8 buf (l4 + 13)) (\<lambda>flags. bindE (rd32 buf (l4 + 4)) (\<lambda>seq.
                bindE (rd32 buf (l4 + 8)) (\<lambda>ack. bindE (rd8 buf (l4 + 16)) (\<lambda>urg.
                bindE (rd8 buf (l4 + 14)) (\<lambda>win. bindE (rd8 buf (l4 + 12)) (\<lambda>payoff.
                let hlen = decode_payoff payoff;
                    p1 = p\<lparr>m_key := (m_key p)\<lparr>src_port := sp, dst_port := dp\<rparr>, m_tcpflags := flags, m_tcpseq := seq,
                           m_tcpack := ack, m_tcpurg := ucast urg, m_tcpwin := ucast win, m_tcphlen := hlen\<rparr>
                in Inr (if unat hlen \<le> left
                        then p1\<lparr>m_l4payload_ptr := Some (l4 + unat hlen),
                                m_payload_len := ucast (m_iplen p) - ucast (m_iphlen p) - ucast hlen\<rparr>
                        else p1)))))))))
              else Inr (p\<lparr>m_pkttype := kPktTypeRuntL4\<rparr>)
            else Inr p)
       (\<lambda>p2. Inr (p2\<lparr>m_l4hdr_parsed := True\<rparr>))"

definition parse_tcphdr :: "packet \<Rightarrow> packet res" where
  "parse_tcphdr p = (if m_l4hdr_parsed p then Inr p else bindE (parse_iphdr p) tcp_body)"

subsection \<open>Accessors\<close>

type_synonym 'a accessor = "packet \<Rightarrow> ('a \<times> packet) res"

text \<open>Every accessor makes sure that a header is parsed and returns a member.\<close>

definition after :: "(packet \<Rightarrow> packet res) \<Rightarrow> (packet \<Rightarrow> 'a) \<Rightarrow> 'a accessor" where
  "after parse get p = bindE (parse p) (\<lambda>p1. Inr (get p1, p1))"

definition timespec_to_us :: "u64 \<times> u64 \<Rightarrow> u64" where
  "timespec_to_us ts = fst ts * 1000000 + snd ts div 1000"

definition timestamp_us :: "packet \<Rightarrow> u64" where
  "timestamp_us p = timespec_to_us (m_tstamp p)"

definition timestamp_ms :: "packet \<Rightarrow> u64" where
  "timestamp_ms p = timespec_to_us (m_tstamp p) div 1000"

definition pkt_iphdr :: "nat option accessor" where "pkt_iphdr = after parse_mac m_iphdr_ptr"
definition pkt_l4hdr :: "nat option accessor" where "pkt_l4hdr = after parse_iphdr m_l4hdr_ptr"
definition pkt_l3_protocol :: "u16 accessor" where "pkt_l3_protocol = after parse_mac m_pkttype"
definition pkt_ip_src :: "u32 accessor" where "pkt_ip_src = after parse_iphdr (\<lambda>p. src_ip4 (m_key p))"
definition pkt_ip_dst :: "u32 accessor" where "pkt_ip_dst = after parse_iphdr (\<lambda>p. dst_ip4 (m_key p))"
definition pkt_src_port :: "u16 accessor" where "pkt_src_port = after parse_ports (\<lambda>p. src_port (m_key p))"
definition pkt_dst_port :: "u16 accessor" where "pkt_dst_port = after parse_ports (\<lambda>p. dst_port (m_key p))"
definition pkt_l4_protocol :: "byte accessor" where "pkt_l4_protocol = after parse_iphdr (\<lambda>p. proto (m_key p))"
definition pkt_key :: "flow_key accessor" where "pkt_key = after parse_ports m_key"
definition pkt_is_tcp :: "bool accessor" where "pkt_is_tcp = after parse_iphdr (\<lambda>p. proto (m_key p) = kTCP)"
definition pkt_is_udp :: "bool accessor" where "pkt_is_udp = after parse_iphdr (\<lambda>p. proto (m_key p) = kUDP)"
definition pkt_ip_tos :: "byte accessor" where "pkt_ip_tos = after parse_iphdr m_iptos"
definition pkt_ip_ttl :: "byte accessor" where "pkt_ip_ttl = after parse_iphdr m_ipttl"
definition pkt_ip_length :: "u16 accessor" where "pkt_ip_length = after parse_iphdr m_iplen"
definition pkt_ip_header_length :: "byte accessor" where "pkt_ip_header_length = after parse_iphdr m_iphlen"
definition pkt_tcp_flags :: "byte accessor" where "pkt_tcp_flags = after parse_tcphdr m_tcpflags"
definition pkt_tcp_has :: "byte \<Rightarrow> bool accessor" where "pkt_tcp_has flag = after parse_tcphdr (\<lambda>p. m_tcpflags p AND flag \<noteq> 0)"
definition pkt_tcp_seq :: "u32 accessor" where "pkt_tcp_seq = after parse_tcphdr m_tcpseq"
definition pkt_tcp_win :: "u32 accessor" where "pkt_tcp_win = after parse_tcphdr m_tcpwin"
definition pkt_tcp_header_length :: "byte accessor" where "pkt_tcp_header_length = after parse_tcphdr m_tcphlen"
definition pkt_udp_length :: "u16 accessor" where "pkt_udp_length = after parse_ports m_udplen"

definition pkt_tcp_ack :: "u32 option accessor" where
  "pkt_tcp_ack = after parse_tcphdr (\<lambda>p. if m_tcpflags p AND kACK \<noteq> 0 then Some (m_tcpack p) else None)"

definition pkt_tcp_urg :: "byte option accessor" where
  "pkt_tcp_urg = after parse_tcphdr (\<lambda>p. if m_tcpflags p AND kURG \<noteq> 0 then Some (ucast (m_tcpurg p)) else None)"

definition parse_payload :: "packet \<Rightarrow> packet res" where
  "parse_payload p = bindE (pkt_is_tcp p) (\<lambda>(tcp, p1). if tcp then parse_tcphdr p1 else parse_ports p1)"

definition pkt_payload :: "nat option accessor" where "pkt_payload = after parse_payload m_l4payload_ptr"
definition pkt_payload_len :: "u64 accessor" where "pkt_payload_len = after parse_payload m_payload_len"

subsection \<open>Memory safety\<close>

lemma size_sub_le: "b \<le> a \<Longrightarrow> a < 2 ^ 64 \<Longrightarrow> size_sub a b = a - b"
  by (simp add: size_sub_def nat_mod_distrib nat_diff_distrib)

lemma mac_loop_ok:
  assumes "off \<le> length buf" and "length buf < 2 ^ 64"
  shows "\<exists>r. mac_loop buf ty off = Inr r \<and> (\<forall>ty1 o1. r = Some (ty1, o1) \<longrightarrow> o1 \<le> length buf)"
  using assms
proof (induction buf ty off rule: mac_loop.induct)
  case (1 buf ty off)
  have s: "size_sub (length buf) off = length buf - off" using 1(2,3) by (rule size_sub_le)
  show ?case
  proof (cases "ty = kPktType1q \<and> sizeof_ethhdr \<le> length buf - off")
    case True
    then have room: "off + 14 \<le> length buf" using 1(2) by (auto simp: hdr_sizes)
    then obtain ty1 where "rd16 buf (off + 2) = Inr ty1" by (simp add: rd16_def)
    with 1(1)[of ty1] 1(3) True s room show ?thesis by (subst mac_loop.simps) (simp add: hdr_sizes)
  next
    case False
    then show ?thesis using s 1(2) by (subst mac_loop.simps) auto
  qed
qed

text \<open>Offsets stay inside the frame, and a header is marked as parsed only after the ones below it.\<close>

definition pkt_ok :: "packet \<Rightarrow> bool" where
  "pkt_ok p \<longleftrightarrow> length (m_buffer p) < 2 ^ 64 \<and>
     (\<forall>i. m_iphdr_ptr p = Some i \<longrightarrow> i \<le> length (m_buffer p)) \<and>
     (\<forall>i. m_l4hdr_ptr p = Some i \<longrightarrow> i \<le> length (m_buffer p)) \<and>
     (m_iphdr_parsed p \<longrightarrow> m_machdr_parsed p) \<and> (m_ports_parsed p \<longrightarrow> m_iphdr_parsed p) \<and> (m_l4hdr_parsed p \<longrightarrow> m_iphdr_parsed p) \<and>
     (\<not> m_machdr_parsed p \<longrightarrow> m_iphdr_ptr p = None) \<and> (\<not> m_iphdr_parsed p \<longrightarrow> m_l4hdr_ptr p = None)"

lemma packet_new_ok: "length buf < 2 ^ 64 \<Longrightarrow> pkt_ok (packet_new junk buf ts len mac)"
  by (simp add: pkt_ok_def packet_new_def)

text \<open>The two ways in which the layer 2 header can be parsed.\<close>

lemma parse_mac_cases:
  assumes "length (m_buffer p) < 2 ^ 64" and "\<not> m_machdr_parsed p"
  shows "parse_mac p = Inr (runt_l2 p) \<or>
     (\<exists>off ty. off \<le> length (m_buffer p) \<and> parse_mac p = Inr (mac_done off (p\<lparr>m_pkttype := ty\<rparr>)))"
proof -
  have same: "mac_done 0 p = mac_done 0 (p\<lparr>m_pkttype := m_pkttype p\<rparr>)" by simp
  consider (runt) "m_mactype p = kEthernet" "length (m_buffer p) < sizeof_ethhdr"
    | (eth) "m_mactype p = kEthernet" "sizeof_ethhdr \<le> length (m_buffer p)"
    | (other) "m_mactype p \<noteq> kEthernet" by linarith
  then show ?thesis
  proof cases
    case eth
    then obtain ty where ty: "rd16 (m_buffer p) 12 = Inr ty" by (auto simp: rd16_def hdr_sizes)
    obtain r where "mac_loop (m_buffer p) ty sizeof_ethhdr = Inr r" "\<forall>ty1 o1. r = Some (ty1, o1) \<longrightarrow> o1 \<le> length (m_buffer p)"
      using mac_loop_ok[OF eth(2) assms(1)] by blast
    with eth ty assms(2) show ?thesis by (cases r) (auto simp: parse_mac_def)
  next
    case other
    then have "parse_mac p = Inr (mac_done 0 (p\<lparr>m_pkttype := kPktTypeIP4\<rparr>)) \<or> parse_mac p = Inr (mac_done 0 (p\<lparr>m_pkttype := m_pkttype p\<rparr>))"
      using assms(2) by (simp add: parse_mac_def)
    then show ?thesis by (metis le0)
  qed (simp add: parse_mac_def assms(2))
qed

lemma parse_mac_parsed: "m_machdr_parsed p \<Longrightarrow> parse_mac p = Inr p"
  by (simp add: parse_mac_def)

lemma parse_mac_ok:
  assumes "pkt_ok p"
  shows "\<exists>q. parse_mac p = Inr q \<and> pkt_ok q \<and> m_machdr_parsed q \<and>
     (m_iphdr_parsed p \<longrightarrow> q = p) \<and> (\<not> m_iphdr_parsed p \<and> m_iphdr_parsed q \<longrightarrow>
        m_iphdr_ptr q = None \<and> m_ports_parsed q \<and> m_l4hdr_parsed q) \<and>
     (\<not> m_iphdr_parsed q \<longrightarrow> \<not> m_ports_parsed q \<and> \<not> m_l4hdr_parsed q) \<and> m_buffer q = m_buffer p \<and> m_length q = m_length p"
proof (cases "m_machdr_parsed p")
  case True
  with assms show ?thesis by (auto simp: parse_mac_parsed pkt_ok_def)
next
  case False
  have "length (m_buffer p) < 2 ^ 64" using assms by (simp add: pkt_ok_def)
  from parse_mac_cases[OF this False] show ?thesis
  proof (elim disjE exE conjE)
    assume "parse_mac p = Inr (runt_l2 p)"
    with assms False show ?thesis by (auto simp: pkt_ok_def)
  next
    fix off ty assume "off \<le> length (m_buffer p)" "parse_mac p = Inr (mac_done off (p\<lparr>m_pkttype := ty\<rparr>))"
    with assms False show ?thesis by (auto simp: pkt_ok_def mac_done_def)
  qed
qed

lemma parse_mac_l4:
  assumes "pkt_ok p" and "\<not> m_iphdr_parsed p" and "parse_mac p = Inr q"
  shows "m_l4hdr_ptr q = None"
proof (cases "m_machdr_parsed p")
  case True
  with assms show ?thesis by (simp add: parse_mac_parsed pkt_ok_def)
next
  case False
  have "length (m_buffer p) < 2 ^ 64" "m_l4hdr_ptr p = None" using assms by (auto simp: pkt_ok_def)
  with parse_mac_cases[OF this(1) False] assms(3) show ?thesis by (auto simp: mac_done_def)
qed

lemma rd_ok:
  "i + 1 \<le> length buf \<Longrightarrow> \<exists>v. rd8 buf i = Inr v" "i + 2 \<le> length buf \<Longrightarrow> \<exists>v. rd16 buf i = Inr v"
  "i + 4 \<le> length buf \<Longrightarrow> \<exists>v. rd32 buf i = Inr v"
  by (simp_all add: rd8_def rd16_def rd32_def)

text \<open>A pointer to the layer 4 header is kept only for a parsed IP header, and then lies inside the frame.\<close>

lemma ip_body_ok:
  assumes "pkt_ok p" and "m_machdr_parsed p" and "\<not> m_iphdr_parsed p" and "\<not> m_ports_parsed p" and "\<not> m_l4hdr_parsed p"
  shows "\<exists>q. ip_body p = Inr q \<and> pkt_ok q \<and> m_iphdr_parsed q \<and>
     (m_ports_parsed q \<longrightarrow> m_l4hdr_ptr q = None) \<and> (m_l4hdr_parsed q \<longrightarrow> m_l4hdr_ptr q = None)"
proof (cases "m_iphdr_ptr p")
  case None
  with assms show ?thesis by (auto simp: ip_body_def pkt_ok_def)
next
  case (Some ip)
  let ?b = "m_buffer p"
  have ip: "ip \<le> length ?b" "length ?b < 2 ^ 64" using assms(1) Some by (auto simp: pkt_ok_def)
  note left = size_sub_le[OF ip]
  show ?thesis
  proof (cases "sizeof_ip4hdr \<le> length ?b - ip")
    case True
    then have room: "ip + 20 \<le> length ?b" using ip by (auto simp: hdr_sizes)
    obtain sip dip pr tos ttl iplen hlv where
      "rd32 ?b (ip + 12) = Inr sip" "rd32 ?b (ip + 16) = Inr dip" "rd8 ?b (ip + 9) = Inr pr" "rd8 ?b (ip + 1) = Inr tos"
      "rd8 ?b (ip + 8) = Inr ttl" "rd16 ?b (ip + 2) = Inr iplen" "rd8 ?b ip = Inr hlv"
      using room by (auto simp: rd8_def rd16_def rd32_def)
    with assms Some True left ip show ?thesis by (auto simp: ip_body_def pkt_ok_def Let_def)
  next
    case False
    with assms Some left show ?thesis by (auto simp: ip_body_def pkt_ok_def Let_def)
  qed
qed

lemma parse_iphdr_ok:
  assumes "pkt_ok p"
  shows "\<exists>q. parse_iphdr p = Inr q \<and> pkt_ok q \<and> m_iphdr_parsed q \<and> (m_iphdr_parsed p \<longrightarrow> q = p) \<and>
     (\<not> m_iphdr_parsed p \<longrightarrow> (m_ports_parsed q \<longrightarrow> m_l4hdr_ptr q = None) \<and> (m_l4hdr_parsed q \<longrightarrow> m_l4hdr_ptr q = None))"
proof (cases "m_iphdr_parsed p")
  case True
  with assms show ?thesis by (simp add: parse_iphdr_def)
next
  case False
  obtain q where q: "parse_mac p = Inr q" "pkt_ok q" "m_machdr_parsed q"
    "m_iphdr_parsed q \<Longrightarrow> m_iphdr_ptr q = None" "\<not> m_iphdr_parsed q \<Longrightarrow> \<not> m_ports_parsed q \<and> \<not> m_l4hdr_parsed q"
    "m_l4hdr_ptr q = None"
    using parse_mac_ok[OF assms] False parse_mac_l4[OF assms False] by blast
  show ?thesis
  proof (cases "m_iphdr_parsed q")
    case True
    with q False show ?thesis by (auto simp: parse_iphdr_def ip_body_def pkt_ok_def)
  next
    case nq: False
    from ip_body_ok[OF q(2,3) nq] q(5)[OF nq] q(1) False show ?thesis by (auto simp: parse_iphdr_def)
  qed
qed

subsection \<open>The headers can be parsed in any order\<close>

text \<open>What the layer 4 parsers do to a packet whose IP header is parsed, with every read in range.\<close>

definition g8 :: "byte list \<Rightarrow> nat \<Rightarrow> byte" where "g8 buf i = buf ! i"
definition g16 :: "byte list \<Rightarrow> nat \<Rightarrow> u16" where "g16 buf i = bswap16 (of_le (take 2 (drop i buf)))"
definition g32 :: "byte list \<Rightarrow> nat \<Rightarrow> u32" where "g32 buf i = bswap32 (of_le (take 4 (drop i buf)))"

lemma rd_g:
  "i + 1 \<le> length buf \<Longrightarrow> rd8 buf i = Inr (g8 buf i)" "i + 2 \<le> length buf \<Longrightarrow> rd16 buf i = Inr (g16 buf i)"
  "i + 4 \<le> length buf \<Longrightarrow> rd32 buf i = Inr (g32 buf i)"
  by (simp_all add: rd8_def rd16_def rd32_def g8_def g16_def g32_def)

definition set_ports :: "nat \<Rightarrow> packet \<Rightarrow> packet" where
  "set_ports l4 p = p\<lparr>m_key := (m_key p)\<lparr>src_port := g16 (m_buffer p) l4, dst_port := g16 (m_buffer p) (l4 + 2)\<rparr>\<rparr>"

definition set_udp :: "nat \<Rightarrow> packet \<Rightarrow> packet" where
  "set_udp l4 p = p\<lparr>m_udplen := g16 (m_buffer p) (l4 + 4), m_l4payload_ptr := Some (l4 + sizeof_udphdr),
     m_payload_len := ucast (m_iplen p) - ucast (m_iphlen p) - of_nat sizeof_udphdr\<rparr>"

definition set_tcp :: "nat \<Rightarrow> packet \<Rightarrow> packet" where
  "set_tcp l4 p =
     (let b = m_buffer p; hlen = decode_payoff (g8 b (l4 + 12));
          p1 = p\<lparr>m_tcpflags := g8 b (l4 + 13), m_tcpseq := g32 b (l4 + 4), m_tcpack := g32 b (l4 + 8),
                 m_tcpurg := ucast (g8 b (l4 + 16)), m_tcpwin := ucast (g8 b (l4 + 14)), m_tcphlen := hlen\<rparr>
      in if unat hlen \<le> length b - l4
         then p1\<lparr>m_l4payload_ptr := Some (l4 + unat hlen), m_payload_len := ucast (m_iplen p) - ucast (m_iphlen p) - ucast hlen\<rparr>
         else p1)"

definition ports_upd :: "packet \<Rightarrow> packet" where
  "ports_upd p =
     (case m_l4hdr_ptr p of
        None \<Rightarrow> p
      | Some l4 \<Rightarrow>
          let left = length (m_buffer p) - l4 in
          if proto (m_key p) \<noteq> kTCP \<and> proto (m_key p) \<noteq> kUDP then p
          else if left < sizeof_porthdr then p\<lparr>m_pkttype := kPktTypeRuntL4, m_l4hdr_parsed := True\<rparr>
          else if proto (m_key p) = kUDP \<and> sizeof_udphdr \<le> left then set_udp l4 (set_ports l4 p)
          else set_ports l4 p)\<lparr>m_ports_parsed := True\<rparr>"

definition tcp_upd :: "packet \<Rightarrow> packet" where
  "tcp_upd p =
     (case m_l4hdr_ptr p of
        None \<Rightarrow> p
      | Some l4 \<Rightarrow>
          let left = length (m_buffer p) - l4 in
          if proto (m_key p) \<noteq> kTCP then p
          else if left < sizeof_tcphdr then p\<lparr>m_pkttype := kPktTypeRuntL4\<rparr>
          else set_tcp l4 (set_ports l4 p))\<lparr>m_l4hdr_parsed := True\<rparr>"

lemma pkt_ok_l4: "pkt_ok p \<Longrightarrow> m_l4hdr_ptr p = Some l4 \<Longrightarrow> l4 \<le> length (m_buffer p) \<and> size_sub (length (m_buffer p)) l4 = length (m_buffer p) - l4"
  by (simp add: pkt_ok_def size_sub_le)

lemma ports_body_upd:
  assumes "pkt_ok p"
  shows "ports_body p = Inr (ports_upd p)"
proof (cases "m_l4hdr_ptr p")
  case (Some l4)
  note l4 = pkt_ok_l4[OF assms Some]
  have "sizeof_porthdr \<le> length (m_buffer p) - l4 \<Longrightarrow> rd16 (m_buffer p) l4 = Inr (g16 (m_buffer p) l4) \<and>
      rd16 (m_buffer p) (l4 + 2) = Inr (g16 (m_buffer p) (l4 + 2))"
    "sizeof_udphdr \<le> length (m_buffer p) - l4 \<Longrightarrow> rd16 (m_buffer p) (l4 + 4) = Inr (g16 (m_buffer p) (l4 + 4))"
    using l4 by (auto intro!: rd_g simp: hdr_sizes)
  then show ?thesis using l4 Some
    by (simp add: ports_body_def ports_upd_def Let_def set_ports_def set_udp_def not_le)
qed (simp add: ports_body_def ports_upd_def)

lemma tcp_body_upd:
  assumes "pkt_ok p"
  shows "tcp_body p = Inr (tcp_upd p)"
proof (cases "m_l4hdr_ptr p")
  case (Some l4)
  note l4 = pkt_ok_l4[OF assms Some]
  let ?b = "m_buffer p"
  show ?thesis
  proof (cases "sizeof_tcphdr \<le> length ?b - l4")
    case True
    then have "l4 + 17 \<le> length ?b" using l4 by (auto simp: hdr_sizes)
    then have "rd16 ?b l4 = Inr (g16 ?b l4)" "rd16 ?b (l4 + 2) = Inr (g16 ?b (l4 + 2))" "rd8 ?b (l4 + 13) = Inr (g8 ?b (l4 + 13))"
      "rd32 ?b (l4 + 4) = Inr (g32 ?b (l4 + 4))" "rd32 ?b (l4 + 8) = Inr (g32 ?b (l4 + 8))" "rd8 ?b (l4 + 16) = Inr (g8 ?b (l4 + 16))"
      "rd8 ?b (l4 + 14) = Inr (g8 ?b (l4 + 14))" "rd8 ?b (l4 + 12) = Inr (g8 ?b (l4 + 12))"
      by (auto intro!: rd_g)
    with l4 Some True show ?thesis by (simp add: tcp_body_def tcp_upd_def Let_def set_tcp_def set_ports_def not_less)
  next
    case False
    with l4 Some show ?thesis by (simp add: tcp_body_def tcp_upd_def Let_def not_le)
  qed
qed (simp add: tcp_body_def tcp_upd_def)

lemmas upd_defs = ports_upd_def tcp_upd_def set_ports_def set_udp_def set_tcp_def Let_def

lemma upd_ok:
  assumes "pkt_ok p" and "m_iphdr_parsed p"
  shows "pkt_ok (ports_upd p)" "m_iphdr_parsed (ports_upd p)" "pkt_ok (tcp_upd p)" "m_iphdr_parsed (tcp_upd p)"
    "m_ports_parsed (ports_upd p)" "m_l4hdr_parsed (tcp_upd p)" "m_ports_parsed (tcp_upd p) = m_ports_parsed p"
  using assms by (auto simp: pkt_ok_def upd_defs split: option.splits)

text \<open>The two layer 4 parsers commute.\<close>

lemma l4_commute:
  assumes "pkt_ok p" and "m_iphdr_parsed p" and "\<not> m_l4hdr_parsed p"
  shows "ports_upd (tcp_upd p) = (if m_l4hdr_parsed (ports_upd p) then ports_upd p else tcp_upd (ports_upd p))"
proof (cases "m_l4hdr_ptr p")
  case (Some l4)
  have neq: "kTCP \<noteq> kUDP" by (simp add: pkt_consts)
  show ?thesis
  proof (cases "proto (m_key p) = kTCP")
    case True
    with Some neq assms(3) show ?thesis by (simp add: upd_defs hdr_sizes)
  next
    case False
    with Some assms(3) show ?thesis by (simp add: upd_defs hdr_sizes)
  qed
qed (use assms in \<open>simp add: upd_defs\<close>)

lemma ip_absorb:
  assumes "pkt_ok p" and "parse_iphdr p = Inr q"
  shows "parse_ports p = parse_ports q" "parse_tcphdr p = parse_tcphdr q"
    "parse_ports q = Inr (if m_ports_parsed q then q else ports_upd q)"
    "parse_tcphdr q = Inr (if m_l4hdr_parsed q then q else tcp_upd q)"
proof -
  obtain r where r: "parse_iphdr p = Inr r" "pkt_ok r" "m_iphdr_parsed r" "m_iphdr_parsed p \<longrightarrow> r = p"
    "\<not> m_iphdr_parsed p \<longrightarrow> (m_ports_parsed r \<longrightarrow> m_l4hdr_ptr r = None) \<and> (m_l4hdr_parsed r \<longrightarrow> m_l4hdr_ptr r = None)"
    using parse_iphdr_ok[OF assms(1)] by blast
  then have q: "r = q" using assms(2) by simp
  have ip: "parse_iphdr q = Inr q" using r(3) q by (simp add: parse_iphdr_def)
  show ports: "parse_ports q = Inr (if m_ports_parsed q then q else ports_upd q)"
    using ip ports_body_upd r(2) q by (simp add: parse_ports_def)
  show tcp: "parse_tcphdr q = Inr (if m_l4hdr_parsed q then q else tcp_upd q)"
    using ip tcp_body_upd r(2) q by (simp add: parse_tcphdr_def)
  show "parse_ports p = parse_ports q"
  proof (cases "m_iphdr_parsed p")
    case False
    then have "\<not> m_ports_parsed p" using assms(1) by (auto simp: pkt_ok_def)
    moreover have "m_ports_parsed q \<Longrightarrow> ports_upd q = q" using r(5) q False by (simp add: ports_upd_def)
    ultimately show ?thesis using ports assms(2) ports_body_upd r(2) q by (simp add: parse_ports_def[of p])
  qed (use r(4) q in simp)
  show "parse_tcphdr p = parse_tcphdr q"
  proof (cases "m_iphdr_parsed p")
    case False
    then have "\<not> m_l4hdr_parsed p" using assms(1) by (auto simp: pkt_ok_def)
    moreover have "m_l4hdr_parsed q \<Longrightarrow> tcp_upd q = q" using r(5) q False by (simp add: tcp_upd_def)
    ultimately show ?thesis using tcp assms(2) tcp_body_upd r(2) q by (simp add: parse_tcphdr_def[of p])
  qed (use r(4) q in simp)
qed

lemma mac_absorb:
  assumes "pkt_ok p" and "parse_mac p = Inr q"
  shows "parse_iphdr p = parse_iphdr q"
proof (cases "m_iphdr_parsed p")
  case True
  with parse_mac_ok[OF assms(1)] assms(2) show ?thesis by auto
next
  case False
  have q: "m_machdr_parsed q" "m_iphdr_parsed q \<longrightarrow> m_iphdr_ptr q = None" using parse_mac_ok[OF assms(1)] assms(2) False by auto
  have "m_iphdr_parsed q \<Longrightarrow> ip_body q = Inr q" using q by (simp add: ip_body_def)
  with False assms(2) parse_mac_parsed[OF q(1)] show ?thesis by (simp add: parse_iphdr_def)
qed

text \<open>Everything parsed.\<close>

definition parse_all :: "packet \<Rightarrow> packet res" where
  "parse_all p = bindE (parse_ports p) parse_tcphdr"

datatype parse_call = Call_mac | Call_iphdr | Call_ports | Call_tcphdr

fun parse_of :: "parse_call \<Rightarrow> packet \<Rightarrow> packet res" where
  "parse_of Call_mac = parse_mac"
| "parse_of Call_iphdr = parse_iphdr"
| "parse_of Call_ports = parse_ports"
| "parse_of Call_tcphdr = parse_tcphdr"

lemma parsed_normal:
  assumes "pkt_ok p"
  obtains q where "parse_iphdr p = Inr q" "pkt_ok q" "m_iphdr_parsed q" "parse_iphdr q = Inr q"
    "parse_ports p = Inr (if m_ports_parsed q then q else ports_upd q)"
    "parse_tcphdr p = Inr (if m_l4hdr_parsed q then q else tcp_upd q)"
  using parse_iphdr_ok[OF assms] ip_absorb[OF assms] by (metis parse_iphdr_def)

lemma parse_of_parsed:
  assumes "pkt_ok p" and "m_iphdr_parsed p"
  shows "parse_iphdr p = Inr p" "parse_ports p = Inr (if m_ports_parsed p then p else ports_upd p)"
    "parse_tcphdr p = Inr (if m_l4hdr_parsed p then p else tcp_upd p)"
proof -
  show "parse_iphdr p = Inr p" using assms(2) by (simp add: parse_iphdr_def)
  from ip_absorb(3,4)[OF assms(1) this] show "parse_ports p = Inr (if m_ports_parsed p then p else ports_upd p)"
    "parse_tcphdr p = Inr (if m_l4hdr_parsed p then p else tcp_upd p)" by simp_all
qed

lemma parse_all_tcp_first:
  assumes "pkt_ok p"
  shows "parse_all p = bindE (parse_tcphdr p) parse_ports"
proof -
  obtain q where q: "pkt_ok q" "m_iphdr_parsed q"
    "parse_ports p = Inr (if m_ports_parsed q then q else ports_upd q)"
    "parse_tcphdr p = Inr (if m_l4hdr_parsed q then q else tcp_upd q)"
    using parsed_normal[OF assms] by metis
  note ok = upd_ok[OF q(1,2)]
  have l4: "m_l4hdr_parsed q \<Longrightarrow> m_l4hdr_parsed (ports_upd q)" by (auto simp: upd_defs split: option.splits)
  show ?thesis unfolding parse_all_def q(3,4)
    using l4_commute[OF q(1,2)] parse_of_parsed[OF q(1,2)] parse_of_parsed[OF ok(1,2)] parse_of_parsed[OF ok(3,4)] ok l4 by auto
qed

lemma parse_step:
  assumes "pkt_ok p"
  shows "\<exists>q. parse_of c p = Inr q \<and> pkt_ok q \<and> parse_all q = parse_all p"
proof -
  obtain r where r: "parse_iphdr p = Inr r" "pkt_ok r" "m_iphdr_parsed r"
    "parse_ports p = Inr (if m_ports_parsed r then r else ports_upd r)"
    "parse_tcphdr p = Inr (if m_l4hdr_parsed r then r else tcp_upd r)"
    using parsed_normal[OF assms] by metis
  note ok = upd_ok[OF r(2,3)]
  show ?thesis
  proof (cases c)
    case Call_mac
    obtain q where q: "parse_mac p = Inr q" "pkt_ok q" using parse_mac_ok[OF assms] by blast
    have "parse_iphdr q = Inr r" using mac_absorb[OF assms q(1)] r(1) by simp
    then have "parse_ports q = parse_ports p" using ip_absorb(1)[OF q(2)] ip_absorb(1)[OF assms r(1)] by simp
    with Call_mac q show ?thesis by (simp add: parse_all_def)
  next
    case Call_iphdr
    with r(1,2) ip_absorb(1)[OF assms r(1)] show ?thesis by (simp add: parse_all_def)
  next
    case Call_ports
    let ?q = "if m_ports_parsed r then r else ports_upd r"
    have "pkt_ok ?q" "parse_ports ?q = Inr ?q"
      using r(2,3) ok parse_of_parsed(2)[OF r(2,3)] parse_of_parsed(2)[OF ok(1,2)] by auto
    with Call_ports r(4) show ?thesis by (simp add: parse_all_def)
  next
    case Call_tcphdr
    let ?q = "if m_l4hdr_parsed r then r else tcp_upd r"
    have "pkt_ok ?q" "parse_tcphdr ?q = Inr ?q"
      using r(2,3) ok parse_of_parsed(3)[OF r(2,3)] parse_of_parsed(3)[OF ok(3,4)] by auto
    moreover have "parse_all ?q = parse_all p"
      using parse_all_tcp_first[OF assms] parse_all_tcp_first[OF calculation(1)] calculation(2) r(5) by simp
    ultimately show ?thesis using Call_tcphdr r(5) by simp
  qed
qed

text \<open>Ports that are parsed are those of the frame.\<close>

definition ports_ok :: "packet \<Rightarrow> bool" where
  "ports_ok p \<longleftrightarrow> (\<forall>l4. m_ports_parsed p \<and> m_l4hdr_ptr p = Some l4 \<and> proto (m_key p) = kTCP \<and>
     sizeof_tcphdr \<le> length (m_buffer p) - l4 \<longrightarrow>
       src_port (m_key p) = g16 (m_buffer p) l4 \<and> dst_port (m_key p) = g16 (m_buffer p) (l4 + 2))"

lemma ports_ok_upd:
  assumes "ports_ok p"
  shows "ports_ok (ports_upd p)" "ports_ok (tcp_upd p)"
  using assms by (auto simp: ports_ok_def upd_defs hdr_sizes split: option.splits)

lemma ports_ok_iphdr:
  assumes "pkt_ok p" and "ports_ok p" and "parse_iphdr p = Inr q"
  shows "ports_ok q"
  using parse_iphdr_ok[OF assms(1)] assms(2,3) by (cases "m_iphdr_parsed p") (auto simp: ports_ok_def)

lemma ports_ok_step:
  assumes "pkt_ok p" and "ports_ok p" and "parse_of c p = Inr q"
  shows "ports_ok q"
proof -
  obtain r where r: "parse_iphdr p = Inr r" "parse_ports p = Inr (if m_ports_parsed r then r else ports_upd r)"
    "parse_tcphdr p = Inr (if m_l4hdr_parsed r then r else tcp_upd r)"
    using parsed_normal[OF assms(1)] by metis
  have ok: "ports_ok r" by (rule ports_ok_iphdr[OF assms(1,2) r(1)])
  show ?thesis
  proof (cases c)
    case Call_mac
    have "m_ports_parsed q \<Longrightarrow> q = p \<or> m_l4hdr_ptr q = None"
      using parse_mac_ok[OF assms(1)] parse_mac_l4[OF assms(1)] assms(3) Call_mac by auto
    with assms(2) show ?thesis by (auto simp: ports_ok_def)
  qed (use assms(3) r ok ports_ok_upd[OF ok] in auto)
qed

lemma run_calls_ok:
  assumes "pkt_ok p" and "ports_ok p"
  shows "\<exists>q. foldE parse_of cs p = Inr q \<and> pkt_ok q \<and> ports_ok q \<and> parse_all q = parse_all p"
  using assms
proof (induction cs arbitrary: p)
  case (Cons c cs)
  obtain q where "parse_of c p = Inr q" "pkt_ok q" "parse_all q = parse_all p" using parse_step[OF Cons.prems(1)] by blast
  with Cons.IH[of q] ports_ok_step[OF Cons.prems] show ?case by auto
qed simp

text \<open>What the layer 4 parsers leave alone.\<close>

lemma ports_upd_frame [simp]:
  "src_ip4 (m_key (ports_upd x)) = src_ip4 (m_key x)" "dst_ip4 (m_key (ports_upd x)) = dst_ip4 (m_key x)"
  "proto (m_key (ports_upd x)) = proto (m_key x)" "m_iptos (ports_upd x) = m_iptos x" "m_ipttl (ports_upd x) = m_ipttl x"
  "m_iplen (ports_upd x) = m_iplen x" "m_iphlen (ports_upd x) = m_iphlen x" "m_buffer (ports_upd x) = m_buffer x"
  "m_tcpflags (ports_upd x) = m_tcpflags x" "m_tcpseq (ports_upd x) = m_tcpseq x" "m_tcpack (ports_upd x) = m_tcpack x"
  "m_tcphlen (ports_upd x) = m_tcphlen x" "m_length (ports_upd x) = m_length x" "m_l4hdr_ptr (ports_upd x) = m_l4hdr_ptr x"
  by (auto simp: upd_defs split: option.splits)

lemma tcp_upd_frame [simp]:
  "src_ip4 (m_key (tcp_upd x)) = src_ip4 (m_key x)" "dst_ip4 (m_key (tcp_upd x)) = dst_ip4 (m_key x)"
  "proto (m_key (tcp_upd x)) = proto (m_key x)" "m_iptos (tcp_upd x) = m_iptos x" "m_ipttl (tcp_upd x) = m_ipttl x"
  "m_iplen (tcp_upd x) = m_iplen x" "m_iphlen (tcp_upd x) = m_iphlen x" "m_buffer (tcp_upd x) = m_buffer x"
  "m_udplen (tcp_upd x) = m_udplen x" "m_length (tcp_upd x) = m_length x" "m_l4hdr_ptr (tcp_upd x) = m_l4hdr_ptr x"
  by (auto simp: upd_defs split: option.splits)

lemma payload_frame:
  "proto (m_key x) = kTCP \<Longrightarrow> m_l4payload_ptr (ports_upd x) = m_l4payload_ptr x \<and> m_payload_len (ports_upd x) = m_payload_len x"
  "proto (m_key x) \<noteq> kTCP \<Longrightarrow> m_l4payload_ptr (tcp_upd x) = m_l4payload_ptr x \<and> m_payload_len (tcp_upd x) = m_payload_len x"
proof -
  have "kTCP \<noteq> kUDP" by (simp add: pkt_consts)
  then show "proto (m_key x) = kTCP \<Longrightarrow> m_l4payload_ptr (ports_upd x) = m_l4payload_ptr x \<and> m_payload_len (ports_upd x) = m_payload_len x"
    "proto (m_key x) \<noteq> kTCP \<Longrightarrow> m_l4payload_ptr (tcp_upd x) = m_l4payload_ptr x \<and> m_payload_len (tcp_upd x) = m_payload_len x"
    by (auto simp: upd_defs split: option.splits)
qed

lemma tcp_upd_key:
  assumes "ports_ok x" and "m_ports_parsed x"
  shows "m_key (tcp_upd x) = m_key x"
proof (cases "m_l4hdr_ptr x")
  case (Some l4)
  have "src_port (m_key x) = g16 (m_buffer x) l4" "dst_port (m_key x) = g16 (m_buffer x) (l4 + 2)"
    if "proto (m_key x) = kTCP" "sizeof_tcphdr \<le> length (m_buffer x) - l4"
    using assms Some that unfolding ports_ok_def by blast+
  with Some show ?thesis unfolding tcp_upd_def set_ports_def set_tcp_def Let_def by (auto simp: not_less)
qed (simp add: tcp_upd_def)

text \<open>The packet with everything parsed, seen from each of the layer 4 parsers.\<close>

lemma parse_all_forms:
  assumes "pkt_ok p" and "ports_ok p" and "parse_all p = Inr q"
  obtains r po tc where "parse_iphdr p = Inr r" "parse_ports p = Inr po" "parse_tcphdr p = Inr tc"
    "po = r \<or> po = ports_upd r" "tc = r \<or> tc = tcp_upd r" "q = po \<or> q = tcp_upd po" "q = tc \<or> q = ports_upd tc"
    "ports_ok po" "m_ports_parsed po" "parse_payload p = Inr (if proto (m_key r) = kTCP then tc else po)"
proof -
  obtain r where r: "parse_iphdr p = Inr r" "pkt_ok r" "m_iphdr_parsed r"
    "parse_ports p = Inr (if m_ports_parsed r then r else ports_upd r)"
    "parse_tcphdr p = Inr (if m_l4hdr_parsed r then r else tcp_upd r)"
    using parsed_normal[OF assms(1)] by metis
  have ok: "ports_ok r" by (rule ports_ok_iphdr[OF assms(1,2) r(1)])
  note upd = upd_ok[OF r(2,3)] and rr = parse_of_parsed[OF r(2,3)]
  define po tc where "po = (if m_ports_parsed r then r else ports_upd r)" and "tc = (if m_l4hdr_parsed r then r else tcp_upd r)"
  have po: "pkt_ok po" "m_iphdr_parsed po" "m_ports_parsed po" "ports_ok po" using r upd ok ports_ok_upd[OF ok] by (auto simp: po_def)
  have tc: "pkt_ok tc" "m_iphdr_parsed tc" using r upd by (auto simp: tc_def)
  have q1: "q = po \<or> q = tcp_upd po"
    using assms(3) r(4) parse_of_parsed(3)[OF po(1,2)] by (auto simp: parse_all_def po_def split: if_splits)
  have q2: "q = tc \<or> q = ports_upd tc"
    using assms(3) parse_all_tcp_first[OF assms(1)] r(5) parse_of_parsed(2)[OF tc] by (auto simp: tc_def split: if_splits)
  have pay: "parse_payload p = Inr (if proto (m_key r) = kTCP then tc else po)"
    using r(1) rr by (simp add: parse_payload_def pkt_is_tcp_def after_def tc_def po_def)
  show ?thesis
    by (rule that[OF r(1) _ _ _ _ q1 q2 po(4,3) pay]) (simp_all add: r(4,5) po_def tc_def)
qed

text \<open>
  The value an accessor returns.
\<close>

definition val :: "'a accessor \<Rightarrow> packet \<Rightarrow> 'a res" where
  "val acc p = bindE (acc p) (\<lambda>(v, _). Inr v)"

lemma val_after: "parse p = Inr q \<Longrightarrow> val (after parse get) p = Inr (get q)"
  by (simp add: val_def after_def)

lemmas accessor_defs = pkt_ip_src_def pkt_ip_dst_def pkt_l4_protocol_def pkt_key_def pkt_ip_tos_def pkt_ip_ttl_def
  pkt_ip_length_def pkt_tcp_flags_def pkt_tcp_seq_def pkt_tcp_has_def pkt_payload_def pkt_payload_len_def pkt_udp_length_def

text \<open>
  What the accessors return in any state of the cache is fixed by the packet with everything parsed.
\<close>

definition sees :: "packet \<Rightarrow> packet \<Rightarrow> bool" where
  "sees q p \<longleftrightarrow> pkt_ok p \<and> ports_ok p \<and> parse_all p = Inr q"

lemma sees_step:
  assumes "sees q p"
  obtains p' where "parse_of c p = Inr p'" "sees q p'"
  using assms parse_step[of p c] ports_ok_step[of p c] unfolding sees_def by metis

lemma sees_new:
  assumes "length buf < 2 ^ 64"
  obtains q where "sees q (packet_new junk buf ts len mac)"
proof -
  let ?p0 = "packet_new junk buf ts len mac"
  have p0: "pkt_ok ?p0" "ports_ok ?p0" using packet_new_ok[OF assms] by (simp_all add: ports_ok_def packet_new_def)
  obtain r1 where r1: "parse_ports ?p0 = Inr r1" "pkt_ok r1" using parse_step[OF p0(1), of Call_ports] by auto
  obtain q where "parse_all ?p0 = Inr q" using r1 parse_step[OF r1(2), of Call_tcphdr] by (auto simp: parse_all_def)
  with p0 show ?thesis using that by (simp add: sees_def)
qed

lemma sees_calls:
  assumes "sees q p"
  obtains p' where "foldE parse_of cs p = Inr p'" "sees q p'"
  using assms run_calls_ok[of p cs] unfolding sees_def by metis

lemma accessor_values:
  assumes "sees q p"
  shows "val pkt_key p = Inr (m_key q) \<and> val pkt_ip_src p = Inr (src_ip4 (m_key q)) \<and> val pkt_ip_dst p = Inr (dst_ip4 (m_key q)) \<and>
     val pkt_l4_protocol p = Inr (proto (m_key q)) \<and> val pkt_ip_tos p = Inr (m_iptos q) \<and> val pkt_ip_ttl p = Inr (m_ipttl q) \<and>
     val pkt_ip_length p = Inr (m_iplen q) \<and> val pkt_udp_length p = Inr (m_udplen q) \<and> val pkt_tcp_flags p = Inr (m_tcpflags q) \<and>
     val pkt_tcp_seq p = Inr (m_tcpseq q) \<and> val pkt_payload p = Inr (m_l4payload_ptr q) \<and> val pkt_payload_len p = Inr (m_payload_len q)"
proof -
  have p: "pkt_ok p" "ports_ok p" "parse_all p = Inr q" using assms by (simp_all add: sees_def)
  obtain r po tc where
    f: "parse_iphdr p = Inr r" "parse_ports p = Inr po" "parse_tcphdr p = Inr tc"
    "po = r \<or> po = ports_upd r" "tc = r \<or> tc = tcp_upd r" "q = po \<or> q = tcp_upd po" "q = tc \<or> q = ports_upd tc"
    "ports_ok po" "m_ports_parsed po" "parse_payload p = Inr (if proto (m_key r) = kTCP then tc else po)"
    by (rule parse_all_forms[OF p])
  have key: "m_key po = m_key q" and udp: "m_udplen po = m_udplen q" using f(6) tcp_upd_key[OF f(8,9)] by auto
  have tcp: "m_tcpflags tc = m_tcpflags q" "m_tcpseq tc = m_tcpseq q" using f(7) by auto
  have ip: "src_ip4 (m_key r) = src_ip4 (m_key q)" "dst_ip4 (m_key r) = dst_ip4 (m_key q)" "proto (m_key r) = proto (m_key q)"
    "m_iptos r = m_iptos q" "m_ipttl r = m_ipttl q" "m_iplen r = m_iplen q" using f(4,6) by auto
  have "proto (m_key tc) = proto (m_key r)" "proto (m_key po) = proto (m_key r)" using f(4,5) by auto
  then have pay: "m_l4payload_ptr (if proto (m_key r) = kTCP then tc else po) = m_l4payload_ptr q"
    "m_payload_len (if proto (m_key r) = kTCP then tc else po) = m_payload_len q"
    using f(6,7) payload_frame[of tc] payload_frame[of po] by auto
  show ?thesis
    by (simp add: accessor_defs val_after[where parse = parse_iphdr, OF f(1)] val_after[where parse = parse_ports, OF f(2)]
        val_after[where parse = parse_tcphdr, OF f(3)] val_after[where parse = parse_payload, OF f(10)[unfolded ip(3)]]
        key udp tcp ip pay[unfolded ip(3)])
qed


text \<open>Each accessor also leaves a packet of which the same is seen.\<close>

lemma sees_access:
  assumes "sees q p"
  shows "\<exists>p'. pkt_ip_src p = Inr (src_ip4 (m_key q), p') \<and> sees q p'" "\<exists>p'. pkt_ip_dst p = Inr (dst_ip4 (m_key q), p') \<and> sees q p'"
    "\<exists>p'. pkt_l4_protocol p = Inr (proto (m_key q), p') \<and> sees q p'" "\<exists>p'. pkt_key p = Inr (m_key q, p') \<and> sees q p'"
    "\<exists>p'. pkt_is_tcp p = Inr (proto (m_key q) = kTCP, p') \<and> sees q p'" "\<exists>p'. pkt_is_udp p = Inr (proto (m_key q) = kUDP, p') \<and> sees q p'"
    "\<exists>p'. pkt_src_port p = Inr (src_port (m_key q), p') \<and> sees q p'" "\<exists>p'. pkt_dst_port p = Inr (dst_port (m_key q), p') \<and> sees q p'"
proof -
  obtain r where r: "parse_iphdr p = Inr r" "sees q r" using sees_step[OF assms, of Call_iphdr] by auto
  obtain po where po: "parse_ports p = Inr po" "sees q po" using sees_step[OF assms, of Call_ports] by auto
  have ip: "src_ip4 (m_key r) = src_ip4 (m_key q)" "dst_ip4 (m_key r) = dst_ip4 (m_key q)" "proto (m_key r) = proto (m_key q)"
    using accessor_values[OF assms] r(1)
    by (simp_all add: pkt_ip_src_def pkt_ip_dst_def pkt_l4_protocol_def val_after[where parse = parse_iphdr, OF r(1)])
  have key: "m_key po = m_key q"
    using accessor_values[OF assms] by (simp add: pkt_key_def val_after[where parse = parse_ports, OF po(1)])
  show "\<exists>p'. pkt_ip_src p = Inr (src_ip4 (m_key q), p') \<and> sees q p'" "\<exists>p'. pkt_ip_dst p = Inr (dst_ip4 (m_key q), p') \<and> sees q p'"
    "\<exists>p'. pkt_l4_protocol p = Inr (proto (m_key q), p') \<and> sees q p'" "\<exists>p'. pkt_key p = Inr (m_key q, p') \<and> sees q p'"
    "\<exists>p'. pkt_is_tcp p = Inr (proto (m_key q) = kTCP, p') \<and> sees q p'" "\<exists>p'. pkt_is_udp p = Inr (proto (m_key q) = kUDP, p') \<and> sees q p'"
    "\<exists>p'. pkt_src_port p = Inr (src_port (m_key q), p') \<and> sees q p'" "\<exists>p'. pkt_dst_port p = Inr (dst_port (m_key q), p') \<and> sees q p'"
    using r po ip key by (simp_all add: pkt_ip_src_def pkt_ip_dst_def pkt_l4_protocol_def pkt_key_def pkt_is_tcp_def pkt_is_udp_def
        pkt_src_port_def pkt_dst_port_def after_def)
qed

lemma sees_l3:
  assumes "sees q p"
  obtains l3 p' where "pkt_l3_protocol p = Inr (l3, p')" "sees q p'" "pkt_l3_protocol p' = Inr (l3, p')"
proof -
  obtain p' where p': "parse_mac p = Inr p'" "sees q p'" using sees_step[OF assms, of Call_mac] by auto
  have "m_machdr_parsed p'" using parse_mac_ok[of p] assms p'(1) by (auto simp: sees_def)
  with p' that show ?thesis by (simp add: pkt_l3_protocol_def after_def parse_mac_parsed)
qed

subsection \<open>Frames and their headers\<close>

text \<open>Frames as they are on the wire: big-endian fields, any number of 802.1q tags, IP options of any length.\<close>

definition be16 :: "u16 \<Rightarrow> byte list" where "be16 w = le_bytes 2 (bswap16 w)"
definition be32 :: "u32 \<Rightarrow> byte list" where "be32 w = le_bytes 4 (bswap32 w)"

fun vlan_bytes :: "u16 list \<Rightarrow> byte list" where
  "vlan_bytes [] = be16 kPktTypeIP4"
| "vlan_bytes (tag # tags) = be16 kPktType1q @ be16 tag @ vlan_bytes tags"

definition eth_frame :: "byte list \<Rightarrow> u16 list \<Rightarrow> byte list \<Rightarrow> byte list" where
  "eth_frame macs tags ip = macs @ vlan_bytes tags @ ip"

definition ip_datagram :: "byte \<Rightarrow> byte \<Rightarrow> u16 \<Rightarrow> byte list \<Rightarrow> byte \<Rightarrow> byte \<Rightarrow> u16 \<Rightarrow> u32 \<Rightarrow> u32 \<Rightarrow> byte list \<Rightarrow> byte list" where
  "ip_datagram hlv tos len frag ttl pr cksum sip dip rest =
     [hlv, tos] @ be16 len @ frag @ [ttl, pr] @ be16 cksum @ be32 sip @ be32 dip @ rest"

lemma length_be [simp]: "length (be16 w) = 2" "length (be32 v) = 4"
  by (simp_all add: be16_def be32_def)

lemma g16_at: "buf = pre @ be16 w @ post \<Longrightarrow> i = length pre \<Longrightarrow> g16 buf i = w"
  by (simp add: g16_def be16_def)

lemma g32_at: "buf = pre @ be32 w @ post \<Longrightarrow> i = length pre \<Longrightarrow> g32 buf i = w"
  by (simp add: g32_def be32_def)

lemma g8_at: "buf = pre @ [b] @ post \<Longrightarrow> i = length pre \<Longrightarrow> g8 buf i = b"
  by (simp add: g8_def)

lemma length_vlan [simp]: "length (vlan_bytes tags) = 4 * length tags + 2"
  by (induction tags) simp_all

lemma mac_loop_tag:
  assumes "size_sub (length buf) off = length buf - off" and "off + 14 \<le> length buf"
  shows "mac_loop buf kPktType1q off = mac_loop buf (g16 buf (off + 2)) (off + 4)"
  using assms rd_g(2)[of "off + 2" buf] by (subst mac_loop.simps) (auto simp: hdr_sizes)

lemma mac_loop_vlan:
  assumes "buf = pre @ vlan_bytes tags @ rest" and "12 \<le> length rest" and "length buf < 2 ^ 64"
  shows "mac_loop buf (g16 buf (length pre)) (length pre + 2) = Inr (Some (kPktTypeIP4, length pre + 2 + 4 * length tags))"
  using assms
proof (induction tags arbitrary: pre)
  case Nil
  have "g16 buf (length pre) = kPktTypeIP4" using Nil(1) by (intro g16_at) simp_all
  then show ?case by (subst mac_loop.simps) (simp add: pkt_consts)
next
  case (Cons tag tags)
  let ?pre = "pre @ be16 kPktType1q @ be16 tag"
  have ty: "g16 buf (length pre) = kPktType1q" using Cons.prems(1) by (intro g16_at) simp_all
  have buf: "buf = ?pre @ vlan_bytes tags @ rest" using Cons.prems(1) by simp
  have room: "length pre + 2 + 14 \<le> length buf" using Cons.prems(2) buf by simp
  have "size_sub (length buf) (length pre + 2) = length buf - (length pre + 2)" using room Cons.prems(3) by (intro size_sub_le) auto
  then have "mac_loop buf kPktType1q (length pre + 2) = mac_loop buf (g16 buf (length pre + 2 + 2)) (length pre + 2 + 4)"
    by (rule mac_loop_tag[OF _ room])
  moreover have "length pre + 2 + 2 = length ?pre" "length pre + 2 + 4 = length ?pre + 2" by simp_all
  ultimately have "mac_loop buf (g16 buf (length pre)) (length pre + 2) = mac_loop buf (g16 buf (length ?pre)) (length ?pre + 2)"
    by (simp only: ty)
  with Cons.IH[OF buf Cons.prems(2,3)] show ?case by simp
qed

text \<open>A frame with a TCP segment; the last argument is what follows the part of the header that is read.\<close>

definition tcp_segment :: "u16 \<Rightarrow> u16 \<Rightarrow> u32 \<Rightarrow> u32 \<Rightarrow> byte \<Rightarrow> byte \<Rightarrow> byte list \<Rightarrow> byte list" where
  "tcp_segment sp dp seq ack payoff flags rest = be16 sp @ be16 dp @ be32 seq @ be32 ack @ [payoff, flags] @ rest"

lemma parse_mac_frame:
  assumes "m_buffer p = eth_frame macs tags ip" and "m_mactype p = kEthernet" and "\<not> m_machdr_parsed p"
    and "length macs = 12" and "12 \<le> length ip" and "length (m_buffer p) < 2 ^ 64"
  shows "parse_mac p = Inr (p\<lparr>m_pkttype := kPktTypeIP4, m_iphdr_ptr := Some (14 + 4 * length tags), m_machdr_parsed := True\<rparr>)"
proof -
  let ?b = "m_buffer p"
  have "14 \<le> length ?b" using assms(1,4) by (simp add: eth_frame_def)
  moreover have "rd16 ?b 12 = Inr (g16 ?b 12)" using calculation by (intro rd_g) simp
  moreover have "mac_loop ?b (g16 ?b 12) 14 = Inr (Some (kPktTypeIP4, 14 + 4 * length tags))"
    using mac_loop_vlan[of ?b macs tags ip] assms by (simp add: eth_frame_def)
  ultimately show ?thesis using assms(2,3) by (simp add: parse_mac_def mac_done_def hdr_sizes)
qed

lemma ip_body_datagram:
  assumes "m_buffer p = pre @ ip_datagram hlv tos len frag ttl pr cksum sip dip rest" and "length frag = 4"
    and "m_iphdr_ptr p = Some (length pre)" and "length (m_buffer p) < 2 ^ 64"
    and "unat (decode_hlv hlv) \<le> 20 + length rest"
  shows "ip_body p = Inr (p\<lparr>m_key := (m_key p)\<lparr>src_ip4 := sip, dst_ip4 := dip, proto := pr\<rparr>, m_iptos := tos, m_ipttl := ttl,
     m_iplen := len, m_iphlen := decode_hlv hlv, m_l4hdr_ptr := Some (length pre + unat (decode_hlv hlv)), m_iphdr_parsed := True\<rparr>)"
proof -
  let ?b = "m_buffer p" and ?i = "length pre"
  have len: "length ?b = ?i + 20 + length rest" using assms(1,2) by (simp add: ip_datagram_def)
  have left: "size_sub (length ?b) ?i = 20 + length rest" using len assms(4) by (subst size_sub_le) auto
  obtain f1 f2 f3 f4 where frag: "frag = [f1, f2, f3, f4]" using assms(2) by (auto simp: length_Suc_conv eval_nat_numeral)
  have at: "g32 ?b (?i + 12) = sip" "g32 ?b (?i + 16) = dip" "g8 ?b (?i + 9) = pr" "g8 ?b (?i + 1) = tos" "g8 ?b (?i + 8) = ttl"
    "g16 ?b (?i + 2) = len" "g8 ?b ?i = hlv"
    using assms(1) frag
      g32_at[of ?b "pre @ [hlv, tos] @ be16 len @ frag @ [ttl, pr] @ be16 cksum" sip "be32 dip @ rest"]
      g32_at[of ?b "pre @ [hlv, tos] @ be16 len @ frag @ [ttl, pr] @ be16 cksum @ be32 sip" dip rest]
      g8_at[of ?b "pre @ [hlv, tos] @ be16 len @ frag @ [ttl]" pr "be16 cksum @ be32 sip @ be32 dip @ rest"]
      g8_at[of ?b "pre @ [hlv]" tos "be16 len @ frag @ [ttl, pr] @ be16 cksum @ be32 sip @ be32 dip @ rest"]
      g8_at[of ?b "pre @ [hlv, tos] @ be16 len @ frag" ttl "[pr] @ be16 cksum @ be32 sip @ be32 dip @ rest"]
      g16_at[of ?b "pre @ [hlv, tos]" len "frag @ [ttl, pr] @ be16 cksum @ be32 sip @ be32 dip @ rest"]
      g8_at[of ?b pre hlv "[tos] @ be16 len @ frag @ [ttl, pr] @ be16 cksum @ be32 sip @ be32 dip @ rest"]
    by (simp_all add: ip_datagram_def)
  have "rd32 ?b (?i + 12) = Inr (g32 ?b (?i + 12))" "rd32 ?b (?i + 16) = Inr (g32 ?b (?i + 16))" "rd8 ?b (?i + 9) = Inr (g8 ?b (?i + 9))"
    "rd8 ?b (?i + 1) = Inr (g8 ?b (?i + 1))" "rd8 ?b (?i + 8) = Inr (g8 ?b (?i + 8))" "rd16 ?b (?i + 2) = Inr (g16 ?b (?i + 2))"
    "rd8 ?b ?i = Inr (g8 ?b ?i)" by (intro rd_g, simp add: len)+
  note rd = this[unfolded at]
  show ?thesis unfolding ip_body_def assms(3) option.case Let_def left rd bindE_Inr using assms(5) by (simp add: hdr_sizes)
qed

text \<open>
  C20: The parser reads a frame back: for an Ethernet frame with any 802.1q tags, an IPv4 header with any
  options and at least a port header behind it, the accessors return the addresses, the protocol and, for
  TCP and UDP, the ports that were written.
\<close>
theorem frame_key_roundtrip:
  assumes "buf = eth_frame macs tags (ip_datagram hlv tos len frag ttl pr cksum sip dip (opts @ be16 sp @ be16 dp @ rest))"
    and "length macs = 12" and "length frag = 4" and "unat (decode_hlv hlv) = 20 + length opts" and "length buf < 2 ^ 64"
    and "pr = kTCP \<or> pr = kUDP"
  shows "val pkt_key (packet_new junk buf ts plen kEthernet) =
     Inr \<lparr>src_ip4 = sip, dst_ip4 = dip, src_port = sp, dst_port = dp, proto = pr\<rparr>"
proof -
  let ?p = "packet_new junk buf ts plen kEthernet"
  let ?dg = "ip_datagram hlv tos len frag ttl pr cksum sip dip (opts @ be16 sp @ be16 dp @ rest)"
  let ?l4 = "14 + 4 * length tags + (20 + length opts)"
  have new: "m_buffer ?p = buf" "m_mactype ?p = kEthernet" "\<not> m_machdr_parsed ?p" "\<not> m_iphdr_parsed ?p" "\<not> m_ports_parsed ?p"
    by (simp_all add: packet_new_def)
  let ?m = "?p\<lparr>m_pkttype := kPktTypeIP4, m_iphdr_ptr := Some (14 + 4 * length tags), m_machdr_parsed := True\<rparr>"
  have mac: "parse_mac ?p = Inr ?m"
    by (rule parse_mac_frame[of _ macs tags ?dg, OF _ new(2,3) assms(2)])
      (use new(1) assms(1,3,5) in \<open>simp_all add: ip_datagram_def\<close>)
  have pre: "m_buffer ?m = (macs @ vlan_bytes tags) @ ?dg" "length (macs @ vlan_bytes tags) = 14 + 4 * length tags"
    using new assms(1,2) by (simp_all add: eth_frame_def)
  have ip: "ip_body ?m = Inr (?m\<lparr>m_key := (m_key ?m)\<lparr>src_ip4 := sip, dst_ip4 := dip, proto := pr\<rparr>, m_iptos := tos, m_ipttl := ttl,
     m_iplen := len, m_iphlen := decode_hlv hlv, m_l4hdr_ptr := Some ?l4, m_iphdr_parsed := True\<rparr>)" (is "_ = Inr ?i")
    using ip_body_datagram[OF pre(1) assms(3), unfolded pre(2)] new assms(4,5) by simp
  have "parse_iphdr ?p = Inr ?i" using mac ip new by (simp add: parse_iphdr_def)
  moreover have ok: "pkt_ok ?i"
    using parse_iphdr_ok[OF packet_new_ok[OF assms(5), of junk ts plen kEthernet]] calculation by (metis sum.inject(2))
  ultimately have ports: "parse_ports ?p = Inr (ports_upd ?i)" using new ports_body_upd by (simp add: parse_ports_def)
  have key: "m_key ?i = \<lparr>src_ip4 = sip, dst_ip4 = dip, src_port = 0, dst_port = 0, proto = pr\<rparr>"
    by (simp add: packet_new_def flow_key_0_def)
  have b: "buf = (macs @ vlan_bytes tags @ [hlv, tos] @ be16 len @ frag @ [ttl, pr] @ be16 cksum @ be32 sip @ be32 dip @ opts) @ be16 sp @ be16 dp @ rest"
    using assms(1) by (simp add: eth_frame_def ip_datagram_def)
  have g: "g16 buf ?l4 = sp" "g16 buf (?l4 + 2) = dp" "?l4 + 4 \<le> length buf"
    using g16_at[OF b] g16_at[of buf "(macs @ vlan_bytes tags @ [hlv, tos] @ be16 len @ frag @ [ttl, pr] @ be16 cksum @ be32 sip @ be32 dip @ opts) @ be16 sp" dp rest]
      b arg_cong[OF b, of length] assms(2,3) by simp_all
  have room: "\<not> length buf - ?l4 < sizeof_porthdr" using g(3) by (simp add: hdr_sizes)
  have "m_key (ports_upd ?i) = \<lparr>src_ip4 = sip, dst_ip4 = dip, src_port = sp, dst_port = dp, proto = pr\<rparr>"
    unfolding ports_upd_def using key room g(1,2) new(1) assms(6) by (auto simp: Let_def set_ports_def set_udp_def)
  then show ?thesis using ports by (simp add: pkt_key_def val_def after_def)
qed

definition sample_frame :: "byte list" where
  "sample_frame = eth_frame (replicate 12 0xAB) [7] (ip_datagram 0x46 0 44 (replicate 4 0) 64 kTCP 0 0x0A000001 0x0A000002
     (replicate 4 1 @ be16 4321 @ be16 80 @ replicate 16 0))"

definition junk_packet :: packet where
  "junk_packet = \<lparr>m_buffer = [], m_length = 0, m_tstamp = (0, 0), m_mactype = 0, m_iphdr_ptr = None, m_l4hdr_ptr = None,
     m_l4payload_ptr = None, m_machdr_parsed = False, m_iphdr_parsed = False, m_ports_parsed = False, m_l4hdr_parsed = False,
     m_pkttype = 0, m_key = flow_key_0, m_iptos = 0, m_ipttl = 0, m_iplen = 0, m_iphlen = 0, m_tcpflags = 0, m_tcpseq = 0,
     m_tcpack = 0, m_tcpurg = 0, m_tcpwin = 0, m_tcphlen = 0, m_udplen = 0, m_payload_len = 0\<rparr>"

theorem frame_key_roundtrip_witness:
  "val pkt_key (packet_new junk_packet sample_frame (0, 0) 0 kEthernet) =
     Inr \<lparr>src_ip4 = 0x0A000001, dst_ip4 = 0x0A000002, src_port = 4321, dst_port = 80, proto = kTCP\<rparr>"
proof (rule frame_key_roundtrip)
  show "sample_frame = eth_frame (replicate 12 0xAB) [7] (ip_datagram 0x46 0 44 (replicate 4 0) 64 kTCP 0 0x0A000001 0x0A000002
     (replicate 4 1 @ be16 4321 @ be16 80 @ replicate 16 0))" by (rule sample_frame_def)
  show "unat (decode_hlv 0x46) = 20 + length (replicate 4 (1 :: byte))" by code_simp
qed (simp_all add: sample_frame_def eth_frame_def ip_datagram_def)


text \<open>
  What the packet reports as its layer 3 protocol depends on which headers happen to have been parsed: an IPv4
  frame cut inside its IP header is IPv4 before its addresses are asked for and a runt after.
\<close>
theorem l3_protocol_depends_on_history:
  "\<exists>buf p1. parse_iphdr (packet_new junk_packet buf (0, 0) 0 kRawIP) = Inr p1 \<and>
     val pkt_l3_protocol (packet_new junk_packet buf (0, 0) 0 kRawIP) = Inr kPktTypeIP4 \<and> val pkt_l3_protocol p1 = Inr kPktTypeRuntL3"
proof -
  let ?p = "packet_new junk_packet [0x45] (0, 0) 0 kRawIP"
  let ?q = "?p\<lparr>m_pkttype := kPktTypeRuntL3, m_iphdr_ptr := Some 0, m_machdr_parsed := True,
        m_ports_parsed := True, m_l4hdr_parsed := True, m_iphdr_parsed := True\<rparr>"
  have "parse_iphdr ?p = Inr ?q"
    by (simp add: parse_iphdr_def parse_mac_def ip_body_def packet_new_def pkt_consts mac_done_def size_sub_def hdr_sizes)
  moreover have "val pkt_l3_protocol ?p = Inr kPktTypeIP4"
    by (simp add: val_def pkt_l3_protocol_def after_def parse_mac_def packet_new_def pkt_consts mac_done_def)
  moreover have "m_machdr_parsed ?q" "m_pkttype ?q = kPktTypeRuntL3" by simp_all
  moreover have "val pkt_l3_protocol q = Inr kPktTypeRuntL3" if "m_machdr_parsed q" "m_pkttype q = kPktTypeRuntL3" for q
    using that by (simp add: val_def pkt_l3_protocol_def after_def parse_mac_parsed)
  ultimately show ?thesis by blast
qed

text \<open>
  The payload length is a subtraction of unsigned numbers: a UDP datagram whose IP length field is smaller than
  its headers is reported with a payload of almost two to the power of 64 bytes.
\<close>
theorem payload_len_wraps:
  assumes "pkt_ok p" and "m_iphdr_parsed p" and "m_l4hdr_ptr p = Some l4" and "proto (m_key p) = kUDP"
    and "8 \<le> length (m_buffer p) - l4" and "\<not> m_ports_parsed p" and "unat (m_iplen p) < unat (m_iphlen p) + 8"
  shows "\<exists>n. val pkt_payload_len p = Inr n \<and> 2 ^ 63 \<le> n"
proof -
  have neq: "kUDP \<noteq> kTCP" by (simp add: pkt_consts)
  let ?n = "ucast (m_iplen p) - ucast (m_iphlen p) - of_nat sizeof_udphdr :: u64"
  have "parse_ports p = Inr (ports_upd p)" using parse_of_parsed(2)[OF assms(1,2)] assms(6) by simp
  then have "parse_payload p = Inr (ports_upd p)"
    using parse_of_parsed(1)[OF assms(1,2)] neq assms(4) by (simp add: parse_payload_def pkt_is_tcp_def after_def)
  moreover have "m_payload_len (ports_upd p) = ?n" using assms(3-5) neq by (simp add: upd_defs hdr_sizes)
  moreover have "2 ^ 63 \<le> ?n"
  proof -
    let ?d = "uint (m_iplen p) - uint (m_iphlen p) - 8"
    have "uint (m_iplen p) < uint (m_iphlen p) + 8" using assms(7) unfolding uint_nat by linarith
    moreover have "uint (m_iphlen p) < 256" using unsigned_less[of "m_iphlen p", where 'a = int] by simp
    moreover have "0 \<le> uint (m_iplen p)" by simp
    ultimately have bounds: "?d < 0" "- 300 < ?d" by linarith+
    have "?n = word_of_int ?d" by (simp only: of_int_diff of_int_numeral ucast_eq sizeof_udphdr_def of_nat_numeral)
    then have "uint ?n = (?d + 2 ^ 64) mod 2 ^ 64" by (simp only: uint_word_of_int mod_add_self2) simp
    also have "\<dots> = ?d + 2 ^ 64" using bounds by (intro mod_pos_pos_trivial) auto
    finally have "2 ^ 63 \<le> uint ?n" using bounds by simp
    then show ?thesis by (simp add: word_le_def)
  qed
  ultimately show ?thesis by (simp add: pkt_payload_len_def val_def after_def)
qed

definition short_udp :: packet where
  "short_udp = junk_packet\<lparr>m_buffer := replicate 28 0, m_machdr_parsed := True, m_iphdr_parsed := True, m_iphdr_ptr := Some 0,
     m_l4hdr_ptr := Some 20, m_key := flow_key_0\<lparr>proto := kUDP\<rparr>, m_iplen := 20, m_iphlen := 20\<rparr>"

theorem payload_len_wraps_witness: "\<exists>n. val pkt_payload_len short_udp = Inr n \<and> 2 ^ 63 \<le> n"
  by (rule payload_len_wraps[of short_udp 20]) (simp_all add: short_udp_def pkt_ok_def junk_packet_def)

end
