(* ===== verification/Flow_Meter.thy ===== *)
theory Flow_Meter
  imports Packet_Parse Task_Queues
begin

text \<open>
  Flow records (\<open>messages/Flow\<close>) and the flow meter (\<open>blocks/FlowMeter\<close>). The flow objects
  that the table and the queue share through pointers live in a heap; the flows a handler sends
  out are returned by value, as they are at the time of the call. The hash table is the map it implements.
\<close>

subsection \<open>Flows\<close>

record flow =
  fl_key :: flow_key
  fl_stime :: u64
  fl_etime :: u64
  fl_bytes :: u64
  fl_packets :: u64
  fl_flow_packets :: "packet list"
  fl_list_sorted :: bool

definition flow_new :: "flow_key \<Rightarrow> flow" where
  "flow_new k = \<lparr>fl_key = k, fl_stime = 0, fl_etime = 0, fl_bytes = 0, fl_packets = 0, fl_flow_packets = [], fl_list_sorted = False\<rparr>"

definition expand_interval :: "u64 \<Rightarrow> flow \<Rightarrow> flow" where
  "expand_interval us f =
     (let f1 = (if fl_stime f = 0 \<or> us < fl_stime f then f\<lparr>fl_stime := us\<rparr> else f) in
      if fl_stime f1 = 0 \<or> fl_etime f1 < us then f1\<lparr>fl_etime := us\<rparr> else f1)"

definition increment_bytes :: "u64 \<Rightarrow> flow \<Rightarrow> flow" where
  "increment_bytes v f = f\<lparr>fl_bytes := fl_bytes f + v\<rparr>"

definition increment_packets :: "u64 \<Rightarrow> flow \<Rightarrow> flow" where
  "increment_packets v f = f\<lparr>fl_packets := fl_packets f + v\<rparr>"

definition add_packet :: "packet \<Rightarrow> flow \<Rightarrow> flow" where
  "add_packet p f = f\<lparr>fl_flow_packets := fl_flow_packets f @ [p]\<rparr>"

definition flow_clone :: "flow \<Rightarrow> flow" where
  "flow_clone f = (flow_new (fl_key f))\<lparr>fl_etime := fl_etime f, fl_stime := fl_stime f, fl_bytes := fl_bytes f,
     fl_packets := fl_packets f, fl_flow_packets := fl_flow_packets f, fl_list_sorted := fl_list_sorted f\<rparr>"

definition flow_reset :: "flow \<Rightarrow> flow" where
  "flow_reset f = f\<lparr>fl_etime := 0, fl_stime := 0, fl_bytes := 0, fl_packets := 0, fl_flow_packets := [], fl_list_sorted := False\<rparr>"

subsection \<open>The flow queue\<close>

record queue_slot =
  flow_ptr :: nat
  last_checked :: u64

text \<open>The head of the flow queue is the tail of the ring of the task queues and the other way round.\<close>

definition Q_SIZE :: u32 where "Q_SIZE = 128 * 1024"

definition pop_slot :: "u32 \<Rightarrow> queue_slot ring \<Rightarrow> queue_slot option \<times> queue_slot ring" where
  "pop_slot N q =
     (if rg_tail q = rg_head q then (None, q)
      else (rg_storage q (unat (rg_tail q)),
            q\<lparr>rg_storage := (rg_storage q)(unat (rg_tail q) := None), rg_tail := (rg_tail q + 1) AND (N - 1)\<rparr>))"

definition push_slot :: "u32 \<Rightarrow> queue_slot \<Rightarrow> queue_slot ring \<Rightarrow> bool \<times> queue_slot ring" where
  "push_slot N s q =
     (let next_tail = (rg_head q + 1) AND (N - 1) in
      if next_tail = rg_tail q then (False, q)
      else (True, q\<lparr>rg_storage := (rg_storage q)(unat (rg_head q) := Some s), rg_head := next_tail\<rparr>))"

lemma push_slot_ring: "push_slot N s q = ring_push_back N (Some s) q"
  by (simp add: push_slot_def ring_push_back_def S_mod_def Let_def)

lemma pop_slot_ring: "Inr (pop_slot N q) = ring_pop N q"
  by (simp add: pop_slot_def ring_pop_def ring_pop_front_def S_mod_def)

subsection \<open>The flow meter\<close>

record flow_meter =
  fm_heap :: "nat \<Rightarrow> flow"
  fm_next :: nat
  fm_table :: "flow_key \<rightharpoonup> nat"
  fm_queue :: "queue_slot ring"
  fm_idle_ms :: int
  fm_active_ms :: u32
  fm_store_packets :: bool

definition flow_meter_new :: flow_meter where
  "flow_meter_new = \<lparr>fm_heap = (\<lambda>_. flow_new flow_key_0), fm_next = 0, fm_table = Map.empty, fm_queue = ring_init,
     fm_idle_ms = 500, fm_active_ms = 100, fm_store_packets = False\<rparr>"

text \<open>
  A timeout element is absent, has no \<open>ms\<close> attribute, or has the value given (\<open>as_uint\<close>). The
  value returned is the period of the timer that is set; it is computed in \<open>int\<close>.
\<close>

definition idle_us :: "flow_meter \<Rightarrow> u64 res" where
  "idle_us fm =
     (let us = fm_idle_ms fm * 1000 in
      if us < - (2 ^ 31) \<or> 2 ^ 31 \<le> us then Inl Undefined_Behaviour else Inr (word_of_int us))"

definition flow_meter_configure :: "u32 option option \<Rightarrow> u32 option option \<Rightarrow> bool option \<Rightarrow> (flow_meter, u64) op" where
  "flow_meter_configure idle active store fm =
     (if idle = Some None then (Inl (Runtime_Error ''FlowMeter: malformed timeout paramter''), fm)
      else
        let fm1 = (case idle of Some (Some v) \<Rightarrow> fm\<lparr>fm_idle_ms := sint v\<rparr> | _ \<Rightarrow> fm) in
        if active = Some None then (Inl (Runtime_Error ''FlowMeter: malformed timeout paramter''), fm1)
        else
          let fm2 = (case active of Some (Some v) \<Rightarrow> fm1\<lparr>fm_active_ms := v\<rparr> | _ \<Rightarrow> fm1) in
          (idle_us fm2, case store of Some b \<Rightarrow> fm2\<lparr>fm_store_packets := b\<rparr> | None \<Rightarrow> fm2))"

text \<open>What both branches of the packet handler do to the flow.\<close>

definition count_packet :: "bool \<Rightarrow> u64 \<Rightarrow> packet \<Rightarrow> flow \<Rightarrow> flow" where
  "count_packet store now pkt f =
     (let f1 = increment_packets 1 (increment_bytes (m_length pkt) (expand_interval now f)) in
      if store then add_packet pkt f1 else f1)"

definition insert_flow :: "u32 \<Rightarrow> u64 \<Rightarrow> packet \<Rightarrow> flow_key \<Rightarrow> flow_meter \<Rightarrow> unit res \<times> flow_meter" where
  "insert_flow N now pkt k fm =
     (let a = fm_next fm;
          fm1 = fm\<lparr>fm_heap := (fm_heap fm)(a := count_packet (fm_store_packets fm) now pkt (flow_new k)),
                   fm_next := a + 1, fm_table := (fm_table fm)(k \<mapsto> a)\<rparr>
      in case push_slot N \<lparr>flow_ptr = a, last_checked = now\<rparr> (fm_queue fm) of
           (False, q) \<Rightarrow> (Inl (Runtime_Error ''FlowMeter: queue is full''), fm1)
         | (True, q) \<Rightarrow> (Inr (), fm1\<lparr>fm_queue := q\<rparr>))"

definition update_flow :: "u64 \<Rightarrow> packet \<Rightarrow> nat \<Rightarrow> flow_meter \<Rightarrow> flow_meter \<times> flow list" where
  "update_flow now pkt a fm =
     (let f = fm_heap fm a;
          export = ucast (fm_active_ms fm) < (now - fl_stime f) div 1000;
          f1 = (if export then flow_reset (expand_interval now f) else f)
      in (fm\<lparr>fm_heap := (fm_heap fm)(a := count_packet (fm_store_packets fm) now pkt f1)\<rparr>,
          if export then [flow_clone (expand_interval now f)] else []))"

text \<open>\<open>_receive_msg\<close> on a packet; the key is the one the packet's accessor returns.\<close>

definition flow_meter_receive :: "u32 \<Rightarrow> u64 \<Rightarrow> packet \<Rightarrow> flow_meter \<Rightarrow> unit res \<times> flow_meter \<times> flow list" where
  "flow_meter_receive N now pkt fm =
     (case val pkt_key pkt of
        Inl e \<Rightarrow> (Inl e, fm, [])
      | Inr k \<Rightarrow>
          (case fm_table fm k of
             None \<Rightarrow> (case insert_flow N now pkt k fm of (r, fm1) \<Rightarrow> (r, fm1, []))
           | Some a \<Rightarrow> (case update_flow now pkt a fm of (fm1, sent) \<Rightarrow> (Inr (), fm1, sent))))"

text \<open>The handler proper first checks the type of the message.\<close>

datatype net_msg = Packet_Msg packet | Flow_Msg flow | Other_Msg

definition flow_meter_receive_msg :: "u32 \<Rightarrow> u64 \<Rightarrow> net_msg \<Rightarrow> flow_meter \<Rightarrow> unit res \<times> flow_meter \<times> flow list" where
  "flow_meter_receive_msg N now m fm =
     (case m of
        Packet_Msg pkt \<Rightarrow> flow_meter_receive N now pkt fm
      | _ \<Rightarrow> (Inl (Runtime_Error ''FlowMeter: wrong message type (only Packet is accepted)''), fm, []))"

text \<open>The loop of \<open>_handle_timer\<close>.\<close>

partial_function (option) expire_loop ::
  "u32 \<Rightarrow> u64 \<Rightarrow> u64 \<Rightarrow> flow_meter \<Rightarrow> flow list \<Rightarrow> (flow_meter \<times> flow list) option" where
  "expire_loop N tnow us_limit fm sent =
     (case pop_slot N (fm_queue fm) of
        (None, q) \<Rightarrow> Some (fm\<lparr>fm_queue := q\<rparr>, sent)
      | (Some s, q) \<Rightarrow>
          let f = fm_heap fm (flow_ptr s) in
          if fl_etime f < us_limit
          then expire_loop N tnow us_limit (fm\<lparr>fm_queue := q, fm_table := (fm_table fm)(fl_key f := None)\<rparr>) (sent @ [f])
          else
            let fm1 = fm\<lparr>fm_queue := snd (push_slot N (s\<lparr>last_checked := tnow\<rparr>) q)\<rparr> in
            if us_limit < last_checked s then Some (fm1, sent) else expire_loop N tnow us_limit fm1 sent)"

definition flow_meter_timer :: "u32 \<Rightarrow> u64 \<Rightarrow> flow_meter \<Rightarrow> (unit res \<times> flow_meter \<times> flow list) option" where
  "flow_meter_timer N tnow fm =
     (case idle_us fm of
        Inl e \<Rightarrow> Some (Inl e, fm, [])
      | Inr us \<Rightarrow> map_option (\<lambda>(fm1, sent). (Inr (), fm1, sent)) (expire_loop N tnow (tnow - us) fm []))"

subsection \<open>The invariant\<close>

text \<open>Table and queue refer to the same flows: a queued flow is the table's flow for its key, and is queued once.\<close>

definition fm_slots :: "nat \<Rightarrow> flow_meter \<Rightarrow> queue_slot list" where
  "fm_slots n fm = ring_elems n (fm_queue fm)"

definition fm_ok :: "nat \<Rightarrow> flow_meter \<Rightarrow> bool" where
  "fm_ok n fm \<longleftrightarrow> ring_inv n (fm_queue fm) \<and> distinct (map flow_ptr (fm_slots n fm)) \<and>
     (\<forall>s \<in> set (fm_slots n fm). fm_table fm (fl_key (fm_heap fm (flow_ptr s))) = Some (flow_ptr s)) \<and>
     (\<forall>k a. fm_table fm k = Some a \<longrightarrow> fl_key (fm_heap fm a) = k \<and> a < fm_next fm)"

lemma fm_ok_slot: "fm_ok n fm \<Longrightarrow> s \<in> set (fm_slots n fm) \<Longrightarrow> fm_table fm (fl_key (fm_heap fm (flow_ptr s))) = Some (flow_ptr s)"
  unfolding fm_ok_def by blast

lemma fm_ok_table: "fm_ok n fm \<Longrightarrow> fm_table fm k = Some a \<Longrightarrow> fl_key (fm_heap fm a) = k \<and> a < fm_next fm"
  unfolding fm_ok_def by blast

lemma fm_ok_queue: "fm_ok n fm \<Longrightarrow> ring_inv n (fm_queue fm)" "fm_ok n fm \<Longrightarrow> distinct (map flow_ptr (fm_slots n fm))"
  unfolding fm_ok_def by blast+

lemma fm_okI:
  assumes "ring_inv n (fm_queue fm)" "distinct (map flow_ptr (fm_slots n fm))"
    and "\<And>s. s \<in> set (fm_slots n fm) \<Longrightarrow> fm_table fm (fl_key (fm_heap fm (flow_ptr s))) = Some (flow_ptr s)"
    and "\<And>k a. fm_table fm k = Some a \<Longrightarrow> fl_key (fm_heap fm a) = k \<and> a < fm_next fm"
  shows "fm_ok n fm"
  using assms unfolding fm_ok_def by blast

lemma flow_key_simps [simp]:
  "fl_key (flow_new k) = k" "fl_key (expand_interval t f) = fl_key f" "fl_key (flow_reset f) = fl_key f"
  "fl_key (count_packet st t p f) = fl_key f" "flow_clone f = f"
  by (simp_all add: flow_new_def expand_interval_def flow_reset_def count_packet_def increment_packets_def
      increment_bytes_def add_packet_def flow_clone_def Let_def)

lemma push_slot_cases:
  assumes "ring_inv n q"
  obtains (full) q' where "push_slot (2 ^ n) s q = (False, q')" "ring_inv n q'" "ring_elems n q' = ring_elems n q" "q' = q"
    | (room) q' where "push_slot (2 ^ n) s q = (True, q')" "ring_inv n q'" "ring_elems n q' = ring_elems n q @ [s]"
proof -
  obtain q' where q: "push_slot (2 ^ n) s q = (ring_cnt n q < 2 ^ n - 1, q')" "ring_inv n q'"
    "ring_elems n q' = (if ring_cnt n q < 2 ^ n - 1 then ring_elems n q @ [s] else ring_elems n q)"
    using ring_push_ok[OF assms, of s] by (auto simp: push_slot_ring)
  show ?thesis
  proof (cases "ring_cnt n q < 2 ^ n - 1")
    case True
    with q room show ?thesis by simp
  next
    case False
    with q full show ?thesis by (auto simp: push_slot_def Let_def split: if_splits)
  qed
qed

lemma insert_flow_ok:
  assumes "fm_ok n fm" and "fm_table fm k = None" and "insert_flow (2 ^ n) now pkt k fm = (r, fm1)"
  shows "fm_ok n fm1"
proof -
  have inv: "ring_inv n (fm_queue fm)" using assms(1) by (simp add: fm_ok_def)
  have fresh: "flow_ptr s < fm_next fm" if "s \<in> set (fm_slots n fm)" for s using assms(1) that unfolding fm_ok_def by blast
  have other: "fl_key (fm_heap fm (flow_ptr s)) \<noteq> k" if "s \<in> set (fm_slots n fm)" for s
    using assms(1,2) that unfolding fm_ok_def by force
  have new: "fm_next fm \<notin> flow_ptr ` set (fm_slots n fm)" using fresh by force
  let ?fm = "fm\<lparr>fm_heap := (fm_heap fm)(fm_next fm := count_packet (fm_store_packets fm) now pkt (flow_new k)),
      fm_next := fm_next fm + 1, fm_table := (fm_table fm)(k \<mapsto> fm_next fm)\<rparr>"
  have table: "fl_key (fm_heap ?fm a) = j \<and> a < fm_next ?fm" if "fm_table ?fm j = Some a" for j a
    using assms(1) that unfolding fm_ok_def by (fastforce split: if_splits)
  have slots: "fm_table ?fm (fl_key (fm_heap ?fm (flow_ptr s))) = Some (flow_ptr s)" if "s \<in> set (fm_slots n fm)" for s
    using assms(1) fresh[OF that] other[OF that] that unfolding fm_ok_def by auto
  have dist: "distinct (map flow_ptr (fm_slots n fm))" using assms(1) by (simp add: fm_ok_def)
  show ?thesis using inv
  proof (cases rule: push_slot_cases[where s = "\<lparr>flow_ptr = fm_next fm, last_checked = now\<rparr>"])
    case (full q')
    then have "fm1 = ?fm" using assms(3) by (simp add: insert_flow_def Let_def)
    with inv dist slots table show ?thesis by (simp add: fm_ok_def fm_slots_def)
  next
    case (room q')
    then have "fm1 = ?fm\<lparr>fm_queue := q'\<rparr>" using assms(3) by (simp add: insert_flow_def Let_def)
    with room dist slots table new show ?thesis by (simp add: fm_ok_def fm_slots_def)
  qed
qed

lemma update_flow_ok:
  assumes "fm_ok n fm" and "fm_table fm k = Some a" and "update_flow now pkt a fm = (fm1, sent)"
  shows "fm_ok n fm1"
proof -
  obtain f where fm1: "fm1 = fm\<lparr>fm_heap := (fm_heap fm)(a := f)\<rparr>" and f: "fl_key f = fl_key (fm_heap fm a)"
  proof
    show "fm1 = fm\<lparr>fm_heap := (fm_heap fm)(a := fm_heap fm1 a)\<rparr>" using assms(3) by (auto simp: update_flow_def Let_def)
    show "fl_key (fm_heap fm1 a) = fl_key (fm_heap fm a)" using assms(3) by (auto simp: update_flow_def Let_def)
  qed
  have "fl_key (fm_heap fm1 b) = fl_key (fm_heap fm b)" for b using fm1 f by simp
  with assms(1) fm1 show ?thesis by (simp add: fm_ok_def fm_slots_def)
qed

lemma receive_ok:
  assumes "fm_ok n fm" and "flow_meter_receive (2 ^ n) now pkt fm = (r, fm1, sent)"
  shows "fm_ok n fm1"
  using assms insert_flow_ok[OF assms(1)] update_flow_ok[OF assms(1)]
  by (auto simp: flow_meter_receive_def split: sum.splits option.splits prod.splits)

lemma pop_slot_cases:
  assumes "ring_inv n q"
  obtains (empty) "pop_slot (2 ^ n) q = (None, q)" "ring_elems n q = []"
    | (slot) s q' where "pop_slot (2 ^ n) q = (Some s, q')" "ring_inv n q'" "ring_elems n q = s # ring_elems n q'"
proof (cases "ring_elems n q")
  case Nil
  with ring_pop_nil[OF assms] pop_slot_ring[of "2 ^ n" q] empty show ?thesis by (simp add: ring_pop_def)
next
  case (Cons s xs)
  with ring_pop_cons[OF assms Cons] pop_slot_ring[of "2 ^ n" q] slot show ?thesis by (auto simp: ring_pop_def)
qed

lemma expire_ok:
  assumes ok: "fm_ok n fm" and "ring_inv n q'" and sl: "fm_slots n fm = s # ring_elems n q'"
  shows "fm_ok n (fm\<lparr>fm_queue := q', fm_table := (fm_table fm)(fl_key (fm_heap fm (flow_ptr s)) := None)\<rparr>)"
proof -
  let ?k = "fl_key (fm_heap fm (flow_ptr s))"
  have d: "distinct (map flow_ptr (s # ring_elems n q'))" using fm_ok_queue(2)[OF ok] sl by simp
  have t: "fm_table fm (fl_key (fm_heap fm (flow_ptr u))) = Some (flow_ptr u)" if "u \<in> set (s # ring_elems n q')" for u
    using fm_ok_slot[OF ok] sl that by simp
  have other: "fl_key (fm_heap fm (flow_ptr u)) \<noteq> ?k" if u: "u \<in> set (ring_elems n q')" for u
  proof
    assume eq: "fl_key (fm_heap fm (flow_ptr u)) = ?k"
    have "Some (flow_ptr u) = fm_table fm ?k" using t[OF list.set_intros(2)[OF u]] unfolding eq by (rule sym)
    also have "\<dots> = Some (flow_ptr s)" by (rule t) simp
    finally have "flow_ptr s = flow_ptr u" by simp
    with d u show False by simp
  qed
  show ?thesis
  proof (rule fm_okI)
    fix k a assume "fm_table (fm\<lparr>fm_queue := q', fm_table := (fm_table fm)(?k := None)\<rparr>) k = Some a"
    then have "fm_table fm k = Some a" by (simp split: if_splits)
    from fm_ok_table[OF ok this] show "fl_key (fm_heap (fm\<lparr>fm_queue := q', fm_table := (fm_table fm)(?k := None)\<rparr>) a) = k \<and>
      a < fm_next (fm\<lparr>fm_queue := q', fm_table := (fm_table fm)(?k := None)\<rparr>)" by simp
  qed (use assms(2) d t other in \<open>simp_all add: fm_slots_def\<close>)
qed

lemma requeue_ok:
  assumes "fm_ok n fm" and "ring_inv n q'" and "fm_slots n fm = s # ring_elems n q'"
  obtains q2 where "push_slot (2 ^ n) (s\<lparr>last_checked := t\<rparr>) q' = (True, q2)" "fm_ok n (fm\<lparr>fm_queue := q2\<rparr>)"
    "ring_elems n q2 = ring_elems n q' @ [s\<lparr>last_checked := t\<rparr>]"
proof -
  have "length (fm_slots n fm) < 2 ^ n" by (simp add: fm_slots_def length_ring_elems ring_cnt_def)
  then have room: "ring_cnt n q' < 2 ^ n - 1" using assms(3) length_ring_elems[of n q'] by simp
  obtain q2 where q2: "push_slot (2 ^ n) (s\<lparr>last_checked := t\<rparr>) q' = (True, q2)" "ring_inv n q2"
    "ring_elems n q2 = ring_elems n q' @ [s\<lparr>last_checked := t\<rparr>]"
    using ring_push_ok[OF assms(2), of "s\<lparr>last_checked := t\<rparr>"] room by (auto simp: push_slot_ring)
  moreover have "fm_ok n (fm\<lparr>fm_queue := q2\<rparr>)" using assms(1,3) q2 by (simp add: fm_ok_def fm_slots_def)
  ultimately show ?thesis using that by blast
qed

subsection \<open>The timer handler ends\<close>

text \<open>The slots are in the order in which they were last checked, none later than \<open>t\<close>.\<close>

definition fm_sorted :: "nat \<Rightarrow> u64 \<Rightarrow> flow_meter \<Rightarrow> bool" where
  "fm_sorted n t fm \<longleftrightarrow> sorted (map last_checked (fm_slots n fm)) \<and> (\<forall>s \<in> set (fm_slots n fm). last_checked s \<le> t)"

text \<open>
  Each turn of the loop removes a slot or marks one as checked, so the number of slots plus the
  number of those not checked since the limit goes down.
\<close>

definition round_work :: "u64 \<Rightarrow> queue_slot list \<Rightarrow> nat" where
  "round_work limit ss = length ss + length (filter (\<lambda>s. last_checked s \<le> limit) ss)"

text \<open>What a round does: the expired flows leave the table and are sent, nothing else changes but the queue.\<close>

definition fm_round :: "nat \<Rightarrow> u64 \<Rightarrow> u64 \<Rightarrow> flow_meter \<Rightarrow> flow list \<Rightarrow> flow_meter \<Rightarrow> bool" where
  "fm_round n tnow limit fm out fm' \<longleftrightarrow>
     fm_ok n fm' \<and> fm_sorted n tnow fm' \<and> (\<forall>s \<in> set (fm_slots n fm'). limit < last_checked s) \<and>
     fm' = fm\<lparr>fm_queue := fm_queue fm', fm_table := fm_table fm'\<rparr> \<and>
     length (fm_slots n fm') + length out = length (fm_slots n fm) \<and> distinct (map fl_key out) \<and>
     (\<forall>f \<in> set out. fl_etime f < limit \<and> map_option (fm_heap fm) (fm_table fm (fl_key f)) = Some f) \<and>
     fm_table fm' = (\<lambda>k. if k \<in> fl_key ` set out then None else fm_table fm k)"

lemma round_frame:
  assumes "fm_round n tnow limit fm out fm'"
  shows "fm_heap fm' = fm_heap fm" "fm_idle_ms fm' = fm_idle_ms fm"
proof -
  have eq: "fm' = fm\<lparr>fm_queue := fm_queue fm', fm_table := fm_table fm'\<rparr>" using assms unfolding fm_round_def by blast
  show "fm_heap fm' = fm_heap fm" using arg_cong[OF eq, of fm_heap] by simp
  show "fm_idle_ms fm' = fm_idle_ms fm" using arg_cong[OF eq, of fm_idle_ms] by simp
qed

lemma expire_loop_empty:
  assumes "pop_slot N (fm_queue fm) = (None, fm_queue fm)"
  shows "expire_loop N tnow limit fm sent = Some (fm, sent)"
  using assms by (subst expire_loop.simps) simp

lemma expire_loop_slot:
  assumes "pop_slot N (fm_queue fm) = (Some s, q')"
  shows "expire_loop N tnow limit fm sent =
    (let f = fm_heap fm (flow_ptr s) in
     if fl_etime f < limit
     then expire_loop N tnow limit (fm\<lparr>fm_queue := q', fm_table := (fm_table fm)(fl_key f := None)\<rparr>) (sent @ [f])
     else let fm1 = fm\<lparr>fm_queue := snd (push_slot N (s\<lparr>last_checked := tnow\<rparr>) q')\<rparr> in
       if limit < last_checked s then Some (fm1, sent) else expire_loop N tnow limit fm1 sent)"
  using assms by (subst expire_loop.simps) simp

lemma round_expire:
  assumes "fm_ok n fm" and "fm_slots n fm = s # ring_elems n q'" and "f = fm_heap fm (flow_ptr s)" and "fl_etime f < limit"
    and "fm_round n tnow limit (fm\<lparr>fm_queue := q', fm_table := (fm_table fm)(fl_key f := None)\<rparr>) out fm'"
  shows "fm_round n tnow limit fm (f # out) fm'"
proof -
  have "fm_table fm (fl_key f) = Some (flow_ptr s)" using assms(1-3) by (simp add: fm_ok_def)
  moreover have "fl_key f \<notin> fl_key ` set out" using assms(5) by (auto simp: fm_round_def split: if_splits)
  moreover have "length (fm_slots n fm') + length out = length (ring_elems n q')" using assms(5) by (simp add: fm_round_def fm_slots_def)
  ultimately show ?thesis using assms(2-5) by (auto simp: fm_round_def fun_eq_iff split: if_splits)
qed

lemma expire_loop_round:
  assumes "fm_ok n fm" and "fm_sorted n tnow fm" and "limit < tnow"
  shows "\<exists>fm' out. expire_loop (2 ^ n) tnow limit fm sent = Some (fm', sent @ out) \<and> fm_round n tnow limit fm out fm'"
  using assms(1,2)
proof (induction "round_work limit (fm_slots n fm)" arbitrary: fm sent rule: less_induct)
  case less
  have inv: "ring_inv n (fm_queue fm)" using less.prems by (simp add: fm_ok_def)
  from inv show ?case
  proof (cases rule: pop_slot_cases)
    case empty
    then have "fm_round n tnow limit fm [] fm" using less.prems by (simp add: fm_round_def fm_slots_def)
    with empty expire_loop_empty show ?thesis by fastforce
  next
    case (slot s q')
    let ?f = "fm_heap fm (flow_ptr s)"
    have sl: "fm_slots n fm = s # ring_elems n q'" using slot by (simp add: fm_slots_def)
    show ?thesis
    proof (cases "fl_etime ?f < limit")
      case True
      let ?fm = "fm\<lparr>fm_queue := q', fm_table := (fm_table fm)(fl_key ?f := None)\<rparr>"
      have "round_work limit (fm_slots n ?fm) < round_work limit (fm_slots n fm)"
        using sl by (simp add: round_work_def fm_slots_def)
      moreover have "fm_sorted n tnow ?fm" using less.prems(2) sl by (simp add: fm_sorted_def fm_slots_def)
      ultimately obtain fm' out where r: "expire_loop (2 ^ n) tnow limit ?fm (sent @ [?f]) = Some (fm', (sent @ [?f]) @ out)"
        "fm_round n tnow limit ?fm out fm'"
        using less.hyps expire_ok[OF less.prems(1) slot(2) sl] by blast
      with True expire_loop_slot[OF slot(1)] round_expire[OF less.prems(1) sl refl True] show ?thesis
        by (intro exI[of _ fm'] exI[of _ "?f # out"]) simp
    next
      case False
      obtain q2 where q2: "push_slot (2 ^ n) (s\<lparr>last_checked := tnow\<rparr>) q' = (True, q2)" "fm_ok n (fm\<lparr>fm_queue := q2\<rparr>)"
        "ring_elems n q2 = ring_elems n q' @ [s\<lparr>last_checked := tnow\<rparr>]"
        by (rule requeue_ok[OF less.prems(1) slot(2) sl])
      let ?fm = "fm\<lparr>fm_queue := q2\<rparr>"
      have sorted: "fm_sorted n tnow ?fm" using less.prems(2) sl q2(3) by (auto simp: fm_sorted_def fm_slots_def sorted_append)
      have step: "expire_loop (2 ^ n) tnow limit fm sent =
          (if limit < last_checked s then Some (?fm, sent) else expire_loop (2 ^ n) tnow limit ?fm sent)"
        using expire_loop_slot[OF slot(1)] False q2(1) by simp
      show ?thesis
      proof (cases "limit < last_checked s")
        case True
        have "limit < last_checked u" if "u \<in> set (fm_slots n ?fm)" for u
          using less.prems(2) True assms(3) sl q2(3) that by (auto simp: fm_sorted_def fm_slots_def)
        then have "fm_round n tnow limit fm [] ?fm" using q2(2,3) sl sorted by (simp add: fm_round_def fm_slots_def)
        with step True show ?thesis by fastforce
      next
        case False
        then have "round_work limit (fm_slots n ?fm) < round_work limit (fm_slots n fm)"
          using sl q2(3) assms(3) by (simp add: round_work_def fm_slots_def not_less leD)
        with less.hyps q2(2) sorted obtain fm' out where
          "expire_loop (2 ^ n) tnow limit ?fm sent = Some (fm', sent @ out)" "fm_round n tnow limit ?fm out fm'" by blast
        moreover have "length (fm_slots n ?fm) = length (fm_slots n fm)" using q2(3) sl by (simp add: fm_slots_def)
        ultimately show ?thesis using step False by (auto simp: fm_round_def)
      qed
    qed
  qed
qed

subsection \<open>Runs of the block\<close>

text \<open>
  The block is indirect: messages and timer events are handled one after the other in the thread of
  its pool. An exception ends the run, since the pool then drops the block.
\<close>

datatype fm_event = Fm_Msg u64 net_msg | Fm_Timer u64

fun fm_step :: "nat \<Rightarrow> fm_event \<Rightarrow> flow_meter \<Rightarrow> (unit res \<times> flow_meter \<times> flow list) option" where
  "fm_step n (Fm_Msg now m) fm = Some (flow_meter_receive_msg (2 ^ n) now m fm)"
| "fm_step n (Fm_Timer now) fm = flow_meter_timer (2 ^ n) now fm"

fun fm_run :: "nat \<Rightarrow> fm_event list \<Rightarrow> flow_meter \<Rightarrow> (unit res \<times> flow_meter \<times> flow list) option" where
  "fm_run n [] fm = Some (Inr (), fm, [])"
| "fm_run n (e # es) fm =
     (case fm_step n e fm of
        None \<Rightarrow> None
      | Some (Inl x, fm1, sent) \<Rightarrow> Some (Inl x, fm1, sent)
      | Some (Inr _, fm1, sent) \<Rightarrow> map_option (\<lambda>(r, fm2, sent2). (r, fm2, sent @ sent2)) (fm_run n es fm1))"

fun ev_time :: "fm_event \<Rightarrow> u64" where
  "ev_time (Fm_Msg now m) = now"
| "ev_time (Fm_Timer now) = now"

text \<open>Events a run can take: packets only, and a clock that has run for at least the idle timeout.\<close>

fun ev_ok :: "u64 \<Rightarrow> fm_event \<Rightarrow> bool" where
  "ev_ok us (Fm_Msg now (Packet_Msg p)) \<longleftrightarrow> pkt_ok p"
| "ev_ok us (Fm_Timer now) \<longleftrightarrow> us \<le> now"
| "ev_ok us _ \<longleftrightarrow> False"

lemma val_key: "pkt_ok p \<Longrightarrow> \<exists>k. val pkt_key p = Inr k"
  using parsed_normal[of p] by (metis pkt_key_def val_after)

lemma timer_round:
  assumes "fm_ok n fm" and "fm_sorted n now fm" and "idle_us fm = Inr us" and "0 < us" and "us \<le> now"
  shows "\<exists>fm' out. flow_meter_timer (2 ^ n) now fm = Some (Inr (), fm', out) \<and> fm_round n now (now - us) fm out fm'"
proof -
  have "now - us < now" using assms(4,5) by (simp add: word_less_nat_alt word_le_nat_alt unat_sub)
  from expire_loop_round[OF assms(1,2) this, of "[]"] assms(3) show ?thesis by (auto simp: flow_meter_timer_def)
qed

lemma receive_packet:
  assumes "fm_ok n fm" and "fm_sorted n t fm" and "t \<le> now" and "pkt_ok pkt" and "length (fm_slots n fm) < 2 ^ n - 1"
  shows "\<exists>fm' out. flow_meter_receive (2 ^ n) now pkt fm = (Inr (), fm', out) \<and> fm_ok n fm' \<and> fm_sorted n now fm' \<and>
    length (fm_slots n fm') \<le> Suc (length (fm_slots n fm)) \<and> idle_us fm' = idle_us fm"
proof -
  obtain k where k: "val pkt_key pkt = Inr k" using val_key[OF assms(4)] by blast
  have sorted: "fm_sorted n now fm" using assms(2,3) by (auto simp: fm_sorted_def)
  show ?thesis
  proof (cases "fm_table fm k")
    case None
    have "ring_cnt n (fm_queue fm) < 2 ^ n - 1" using assms(5) by (simp add: fm_slots_def length_ring_elems)
    with ring_push_ok[OF fm_ok_queue(1)[OF assms(1)], of "\<lparr>flow_ptr = fm_next fm, last_checked = now\<rparr>"]
    obtain q where q: "push_slot (2 ^ n) \<lparr>flow_ptr = fm_next fm, last_checked = now\<rparr> (fm_queue fm) = (True, q)"
      "ring_elems n q = fm_slots n fm @ [\<lparr>flow_ptr = fm_next fm, last_checked = now\<rparr>]"
      by (auto simp: push_slot_ring fm_slots_def)
    obtain fm' where fm': "insert_flow (2 ^ n) now pkt k fm = (Inr (), fm')" "fm_queue fm' = q" "idle_us fm' = idle_us fm"
      using q(1) by (simp add: insert_flow_def idle_us_def Let_def)
    moreover have "fm_sorted n now fm'" using sorted fm'(2) q(2) by (auto simp: fm_sorted_def fm_slots_def sorted_append)
    moreover have "length (fm_slots n fm') \<le> Suc (length (fm_slots n fm))" using fm'(2) q(2) by (simp add: fm_slots_def)
    ultimately show ?thesis using insert_flow_ok[OF assms(1) None fm'(1)] k None by (simp add: flow_meter_receive_def)
  next
    case (Some a)
    obtain fm' out where u: "update_flow now pkt a fm = (fm', out)" by fastforce
    then have "fm_queue fm' = fm_queue fm" "idle_us fm' = idle_us fm" by (auto simp: update_flow_def idle_us_def Let_def)
    with u update_flow_ok[OF assms(1) Some u] sorted k Some show ?thesis
      by (simp add: flow_meter_receive_def fm_sorted_def fm_slots_def)
  qed
qed

lemma fm_step_ok:
  assumes "fm_ok n fm" and "fm_sorted n t fm" and "t \<le> ev_time e" and "idle_us fm = Inr us" and "0 < us" and "ev_ok us e"
    and "length (fm_slots n fm) < 2 ^ n - 1"
  shows "\<exists>fm' out. fm_step n e fm = Some (Inr (), fm', out) \<and> fm_ok n fm' \<and> fm_sorted n (ev_time e) fm' \<and>
    length (fm_slots n fm') \<le> Suc (length (fm_slots n fm)) \<and> idle_us fm' = Inr us"
proof (cases e)
  case (Fm_Timer now)
  have "fm_sorted n now fm" using assms(2,3) Fm_Timer by (auto simp: fm_sorted_def)
  moreover have "us \<le> now" using assms(6) Fm_Timer by simp
  ultimately obtain fm' out where t: "flow_meter_timer (2 ^ n) now fm = Some (Inr (), fm', out)" "fm_round n now (now - us) fm out fm'"
    using timer_round[OF assms(1) _ assms(4,5)] by blast
  have "idle_us fm' = Inr us" using assms(4) round_frame(2)[OF t(2)] by (simp add: idle_us_def)
  moreover have "fm_ok n fm'" "fm_sorted n now fm'" "length (fm_slots n fm') + length out = length (fm_slots n fm)"
    using t(2) unfolding fm_round_def by blast+
  ultimately show ?thesis using t(1) Fm_Timer by simp
next
  case (Fm_Msg now m)
  then obtain p where "m = Packet_Msg p" "pkt_ok p" using assms(6) by (cases m) auto
  with receive_packet[OF assms(1,2) _ _ assms(7)] assms(3,4) Fm_Msg show ?thesis by (fastforce simp: flow_meter_receive_msg_def)
qed

lemma fm_run_ok:
  assumes "fm_ok n fm" and "fm_sorted n t fm" and "idle_us fm = Inr us" and "0 < us" and "\<forall>e \<in> set es. ev_ok us e"
    and "sorted (t # map ev_time es)" and "length (fm_slots n fm) + length es < 2 ^ n"
  shows "\<exists>fm' out. fm_run n es fm = Some (Inr (), fm', out) \<and> fm_ok n fm'"
  using assms
proof (induction es arbitrary: fm t)
  case (Cons e es)
  have "t \<le> ev_time e" "ev_ok us e" "length (fm_slots n fm) < 2 ^ n - 1" using Cons.prems by auto
  with fm_step_ok[OF Cons.prems(1,2) _ Cons.prems(3,4)] obtain fm1 out where s: "fm_step n e fm = Some (Inr (), fm1, out)" "fm_ok n fm1"
    "fm_sorted n (ev_time e) fm1" "length (fm_slots n fm1) \<le> Suc (length (fm_slots n fm))" "idle_us fm1 = Inr us" by blast
  from Cons.IH[OF s(2,3,5) Cons.prems(4)] Cons.prems s(4) obtain fm2 out2 where "fm_run n es fm1 = Some (Inr (), fm2, out2)" "fm_ok n fm2"
    by auto
  with s(1) show ?case by simp
qed simp

subsection \<open>Nothing is lost\<close>

text \<open>
  A measure of flows that every packet adds to and nothing else changes: what the flow of a key holds,
  together with what has been exported for the key, is what the packets of the key brought.
\<close>

definition live :: "(flow \<Rightarrow> u64) \<Rightarrow> flow_key \<Rightarrow> flow_meter \<Rightarrow> u64" where
  "live mu k fm = (case fm_table fm k of None \<Rightarrow> 0 | Some a \<Rightarrow> mu (fm_heap fm a))"

definition exported :: "(flow \<Rightarrow> u64) \<Rightarrow> flow_key \<Rightarrow> flow list \<Rightarrow> u64" where
  "exported mu k out = sum_list (map mu (filter (\<lambda>f. fl_key f = k) out))"

fun ev_weight :: "(packet \<Rightarrow> u64) \<Rightarrow> flow_key \<Rightarrow> fm_event \<Rightarrow> u64" where
  "ev_weight w k (Fm_Msg now (Packet_Msg p)) = (if val pkt_key p = Inr k then w p else 0)"
| "ev_weight w k e = 0"

lemma exported_simps [simp]: "exported mu k [] = 0" "exported mu k (xs @ ys) = exported mu k xs + exported mu k ys"
  "exported mu k [f] = (if fl_key f = k then mu f else 0)"
  by (simp_all add: exported_def)

lemma exported_none: "\<forall>f \<in> set out. fl_key f \<noteq> k \<Longrightarrow> exported mu k out = 0"
  by (simp add: exported_def)

locale flow_measure =
  fixes mu :: "flow \<Rightarrow> u64" and w :: "packet \<Rightarrow> u64"
  assumes mu_new: "mu (flow_new k) = 0"
    and mu_expand: "mu (expand_interval t f) = mu f"
    and mu_reset: "mu (flow_reset f) = 0"
    and mu_count: "mu (count_packet st t p f) = mu f + w p"
begin

lemma insert_conserves:
  assumes "fm_ok n fm" and "fm_table fm j = None" and "insert_flow N now pkt j fm = (r, fm')"
  shows "live mu k fm' = live mu k fm + (if k = j then w pkt else 0)"
proof -
  have "fm_table fm' = (fm_table fm)(j \<mapsto> fm_next fm)"
    "fm_heap fm' = (fm_heap fm)(fm_next fm := count_packet (fm_store_packets fm) now pkt (flow_new j))"
    using assms(3) by (auto simp: insert_flow_def Let_def split: prod.splits bool.splits)
  moreover have "a \<noteq> fm_next fm" if "fm_table fm k = Some a" for a using fm_ok_table[OF assms(1) that] by simp
  ultimately show ?thesis using assms(2) by (auto simp: live_def mu_new mu_count split: option.splits)
qed

lemma update_conserves:
  assumes "fm_ok n fm" and "fm_table fm j = Some a" and "update_flow now pkt a fm = (fm', out)"
  shows "live mu k fm' + exported mu k out = live mu k fm + (if k = j then w pkt else 0)"
proof -
  let ?f = "fm_heap fm a"
  obtain f where fm': "fm_table fm' = fm_table fm" "fm_heap fm' = (fm_heap fm)(a := f)"
    and f: "mu f + exported mu j out = mu ?f + w pkt" and out: "\<forall>g \<in> set out. fl_key g = j"
  proof (rule that)
    show "fm_table fm' = fm_table fm" "fm_heap fm' = (fm_heap fm)(a := fm_heap fm' a)" using assms(3) by (auto simp: update_flow_def Let_def)
    have "fl_key ?f = j" using fm_ok_table[OF assms(1,2)] by simp
    then show "mu (fm_heap fm' a) + exported mu j out = mu ?f + w pkt" "\<forall>g \<in> set out. fl_key g = j"
      using assms(3) by (auto simp: update_flow_def Let_def mu_count mu_reset mu_expand)
  qed
  show ?thesis
  proof (cases "k = j")
    case True
    with fm' f assms(2) show ?thesis by (simp add: live_def)
  next
    case False
    have "b \<noteq> a" if "fm_table fm k = Some b" for b
      using fm_ok_table[OF assms(1) that] fm_ok_table[OF assms(1,2)] False by auto
    moreover have "exported mu k out = 0" using out False by (auto intro: exported_none)
    ultimately show ?thesis using fm' False by (simp add: live_def split: option.splits)
  qed
qed

lemma round_conserves:
  assumes "fm_round n now limit fm out fm'"
  shows "live mu k fm' + exported mu k out = live mu k fm"
proof (cases "k \<in> fl_key ` set out")
  case True
  then obtain f where f: "f \<in> set out" "fl_key f = k" by blast
  have d: "distinct (map fl_key out)" using assms by (simp add: fm_round_def)
  have "filter (\<lambda>g. fl_key g = k) out = [f]" using d f
  proof (induction out)
    case (Cons g gs)
    then show ?case by (cases "fl_key g = k") (auto simp: filter_empty_conv image_iff)
  qed simp
  then have "exported mu k out = mu f" by (simp add: exported_def)
  moreover have "live mu k fm = mu f" "live mu k fm' = 0" using assms f by (auto simp: fm_round_def live_def)
  ultimately show ?thesis by simp
next
  case False
  then have "exported mu k out = 0" by (auto intro: exported_none)
  moreover have "fm_table fm' k = fm_table fm k" using assms False by (simp add: fm_round_def)
  ultimately show ?thesis using round_frame(1)[OF assms] by (simp add: live_def split: option.splits)
qed

lemma step_conserves:
  assumes "fm_ok n fm" and "fm_sorted n t fm" and "t \<le> ev_time e" and "idle_us fm = Inr us" and "0 < us" and "ev_ok us e"
    and "fm_step n e fm = Some (Inr (), fm', out)"
  shows "live mu k fm' + exported mu k out = live mu k fm + ev_weight w k e"
proof (cases e)
  case (Fm_Timer now)
  have "fm_sorted n now fm" using assms(2,3) Fm_Timer by (auto simp: fm_sorted_def)
  moreover have "us \<le> now" using assms(6) Fm_Timer by simp
  ultimately have "fm_round n now (now - us) fm out fm'"
    using timer_round[OF assms(1) _ assms(4,5), of now] assms(7) Fm_Timer by auto
  from round_conserves[OF this] Fm_Timer show ?thesis by simp
next
  case (Fm_Msg now m)
  then obtain p where p: "m = Packet_Msg p" "pkt_ok p" using assms(6) by (cases m) auto
  obtain j where j: "val pkt_key p = Inr j" using val_key[OF p(2)] by blast
  show ?thesis
  proof (cases "fm_table fm j")
    case None
    with assms(7) Fm_Msg p j insert_conserves[OF assms(1) None, of "2 ^ n" now p] show ?thesis
      by (auto simp: flow_meter_receive_msg_def flow_meter_receive_def split: prod.splits)
  next
    case (Some a)
    with assms(7) Fm_Msg p j update_conserves[OF assms(1) Some, of now p] show ?thesis
      by (auto simp: flow_meter_receive_msg_def flow_meter_receive_def split: prod.splits)
  qed
qed

lemma run_conserves:
  assumes "fm_ok n fm" and "fm_sorted n t fm" and "idle_us fm = Inr us" and "0 < us" and "\<forall>e \<in> set es. ev_ok us e"
    and "sorted (t # map ev_time es)" and "length (fm_slots n fm) + length es < 2 ^ n"
  shows "\<exists>fm' out. fm_run n es fm = Some (Inr (), fm', out) \<and> fm_ok n fm' \<and>
    (\<forall>k. live mu k fm' + exported mu k out = live mu k fm + sum_list (map (ev_weight w k) es))"
  using assms
proof (induction es arbitrary: fm t)
  case (Cons e es)
  have e: "t \<le> ev_time e" "ev_ok us e" "length (fm_slots n fm) < 2 ^ n - 1" using Cons.prems by auto
  with fm_step_ok[OF Cons.prems(1,2) _ Cons.prems(3,4)] obtain fm1 out where s: "fm_step n e fm = Some (Inr (), fm1, out)" "fm_ok n fm1"
    "fm_sorted n (ev_time e) fm1" "length (fm_slots n fm1) \<le> Suc (length (fm_slots n fm))" "idle_us fm1 = Inr us" by blast
  from Cons.IH[OF s(2,3,5) Cons.prems(4)] Cons.prems s(4) obtain fm2 out2 where r: "fm_run n es fm1 = Some (Inr (), fm2, out2)" "fm_ok n fm2"
    "\<And>k. live mu k fm2 + exported mu k out2 = live mu k fm1 + sum_list (map (ev_weight w k) es)"
    by auto
  note c = step_conserves[OF Cons.prems(1,2) e(1) Cons.prems(3,4) e(2) s(1)]
  have "live mu k fm2 + exported mu k (out @ out2) = live mu k fm + sum_list (map (ev_weight w k) (e # es))" for k
  proof -
    have "live mu k fm2 + exported mu k (out @ out2) = (live mu k fm2 + exported mu k out2) + exported mu k out" by (simp add: ac_simps)
    also have "\<dots> = (live mu k fm1 + exported mu k out) + sum_list (map (ev_weight w k) es)" unfolding r(3) by (simp add: ac_simps)
    finally show ?thesis unfolding c by (simp add: ac_simps)
  qed
  with s(1) r(1,2) show ?case by simp
qed simp

end

lemma measure_count:
  "fl_bytes (count_packet st t p f) = fl_bytes f + m_length p" "fl_packets (count_packet st t p f) = fl_packets f + 1"
  "fl_bytes (expand_interval t f) = fl_bytes f" "fl_packets (expand_interval t f) = fl_packets f"
  by (simp_all add: count_packet_def increment_packets_def increment_bytes_def add_packet_def expand_interval_def Let_def)

interpretation bytes: flow_measure fl_bytes m_length
  by unfold_locales (simp_all add: flow_new_def flow_reset_def measure_count)

interpretation packets: flow_measure fl_packets "\<lambda>_. 1"
  by unfold_locales (simp_all add: flow_new_def flow_reset_def measure_count)

lemma flow_meter_new_ok: "fm_ok 17 flow_meter_new" "fm_sorted 17 0 flow_meter_new" "fm_slots 17 flow_meter_new = []"
  by (simp_all add: fm_ok_def fm_sorted_def fm_slots_def flow_meter_new_def ring_inv_def ring_init_def ring_elems_def ring_cnt_def)

lemma configured_ok:
  assumes "flow_meter_configure idle active store flow_meter_new = (Inr us, fm)"
  shows "fm_ok 17 fm" "fm_sorted 17 0 fm" "fm_slots 17 fm = []" "idle_us fm = Inr us" "live mu k fm = 0"
proof -
  have "fm_heap fm = fm_heap flow_meter_new \<and> fm_table fm = fm_table flow_meter_new \<and> fm_queue fm = fm_queue flow_meter_new \<and>
     fm_next fm = fm_next flow_meter_new \<and> idle_us fm = Inr us"
    using assms by (auto simp: flow_meter_configure_def idle_us_def Let_def split: if_splits option.splits)
  with flow_meter_new_ok show "fm_ok 17 fm" "fm_sorted 17 0 fm" "fm_slots 17 fm = []" "idle_us fm = Inr us" "live mu k fm = 0"
    by (simp_all add: fm_ok_def fm_sorted_def fm_slots_def live_def) (simp add: flow_meter_new_def)
qed

text \<open>
  C21: A configured flow meter, fed packets and timer events in the order of their times, handles every event while the
  flow queue has room, and loses nothing: for every flow key, the bytes (and the packets) of the flow in the table
  and of the flows exported so far add up to those of the packets received with that key.
\<close>
theorem flow_meter_conserves:
  assumes "flow_meter_configure idle active store flow_meter_new = (Inr us, fm)" and "0 < us"
    and "\<forall>e \<in> set es. ev_ok us e" and "sorted (map ev_time es)" and "length es < unat Q_SIZE"
  shows "\<exists>fm' out. fm_run 17 es fm = Some (Inr (), fm', out) \<and> fm_ok 17 fm' \<and>
    (\<forall>k. live fl_bytes k fm' + exported fl_bytes k out = sum_list (map (ev_weight m_length k) es) \<and>
         live fl_packets k fm' + exported fl_packets k out = sum_list (map (ev_weight (\<lambda>_. 1) k) es))"
proof -
  note c = configured_ok[OF assms(1)]
  have "sorted (0 # map ev_time es)" "length (fm_slots 17 fm) + length es < 2 ^ 17" using assms(4,5) c(3) by (simp_all add: Q_SIZE_def)
  from bytes.run_conserves[OF c(1,2,4) assms(2,3) this] packets.run_conserves[OF c(1,2,4) assms(2,3) this] c(5)
  show ?thesis by fastforce
qed

definition sample_events :: "fm_event list" where
  "sample_events = [Fm_Msg 1000000 (Packet_Msg (junk_packet\<lparr>m_length := 60\<rparr>)), Fm_Timer 2000000]"

theorem flow_meter_conserves_witness:
  "\<exists>fm' out. fm_run 17 sample_events (snd (flow_meter_configure None None None flow_meter_new)) = Some (Inr (), fm', out) \<and> fm_ok 17 fm' \<and>
    (\<forall>k. live fl_bytes k fm' + exported fl_bytes k out = sum_list (map (ev_weight m_length k) sample_events) \<and>
         live fl_packets k fm' + exported fl_packets k out = sum_list (map (ev_weight (\<lambda>_. 1) k) sample_events))"
proof (rule flow_meter_conserves[of None None None 500000])
  show "flow_meter_configure None None None flow_meter_new = (Inr 500000, snd (flow_meter_configure None None None flow_meter_new))"
    by (simp add: flow_meter_configure_def flow_meter_new_def idle_us_def)
qed (simp_all add: sample_events_def pkt_ok_def junk_packet_def Q_SIZE_def)



end
