(* ===== verification/Packet_Filters.thy ===== *)
theory Packet_Filters
  imports Flow_Meter Block_Gates
begin

text \<open>
  The filtering blocks: \<open>blocks/Filter\<close>, \<open>PacketFilter\<close>, \<open>FlowFilter\<close>,
  \<open>ProtocolFilter\<close> and \<open>Nofrag\<close>. Their message handlers have the type of the overridable
  methods of a block. A configuration element is given by the values the code reads from it;
  \<open>inet_pton\<close> is a parameter.
\<close>

subsection \<open>The base class\<close>

definition FIELD_ACTIVE :: nat where "FIELD_ACTIVE = 1"
definition FILTER_OUT :: nat where "FILTER_OUT = 2"

record filter_base =
  fb_ip_src_address :: u32
  fb_ip_src_mask :: u32
  fb_ip_src_mode :: byte
  fb_ip_dst_address :: u32
  fb_ip_dst_mask :: u32
  fb_ip_dst_mode :: byte
  fb_layer4_proto :: u16
  fb_layer4_mode :: byte
  fb_src_port_mode :: byte
  fb_dst_port_mode :: byte

definition filter_new :: filter_base where
  "filter_new = \<lparr>fb_ip_src_address = 0, fb_ip_src_mask = 0, fb_ip_src_mode = 0, fb_ip_dst_address = 0, fb_ip_dst_mask = 0,
     fb_ip_dst_mode = 0, fb_layer4_proto = 0, fb_layer4_mode = 0, fb_src_port_mode = 0, fb_dst_port_mode = 0\<rparr>"

definition go_ahead :: "bool \<Rightarrow> byte \<Rightarrow> bool" where
  "go_ahead result mode \<longleftrightarrow> bit mode FILTER_OUT \<and> \<not> result \<or> \<not> bit mode FILTER_OUT \<and> result"

definition is_indirect :: "byte \<Rightarrow> bool" where
  "is_indirect mode = bit mode FIELD_ACTIVE"

definition string_to_ip :: "(string \<Rightarrow> u32 option) \<Rightarrow> string \<Rightarrow> u32 res" where
  "string_to_ip pton str =
     (case pton str of None \<Rightarrow> Inl (Runtime_Error ''PacketFilter : cannot parse ip address'') | Some net \<Rightarrow> Inr (bswap32 net))"

definition signal_error :: "string \<Rightarrow> bm_exn" where
  "signal_error name = Runtime_Error (''PacketFilter:: malformed xml node for the field '' @ name)"

text \<open>
  A field element: its \<open>filter_mode\<close> child, if there is one, with the \<open>behavior\<close> attribute it
  may have; the attributes \<open>address\<close>, \<open>netmask\<close> and \<open>number\<close>; the \<open>value\<close> attributes of
  its \<open>number\<close> children.
\<close>

record filter_field =
  fd_mode :: "string option option"
  fd_address :: "string option"
  fd_netmask :: "string option"
  fd_number :: "u32 option"
  fd_numbers :: "u32 option list"

definition parse_filter_mode :: "filter_field \<Rightarrow> byte \<Rightarrow> bool \<times> byte" where
  "parse_filter_mode fd mode =
     (case fd_mode fd of
        None \<Rightarrow> (False, mode)
      | Some behavior \<Rightarrow>
          let mode = set_bit FIELD_ACTIVE mode in
          case behavior of
            None \<Rightarrow> (False, mode)
          | Some v \<Rightarrow>
              if v = ''discard'' then (True, set_bit FILTER_OUT mode)
              else if v \<noteq> ''accept'' then (False, mode)
              else (True, mode))"

text \<open>The address fields, and the fields that are one number.\<close>

definition configure_ip :: "(string \<Rightarrow> u32 option) \<Rightarrow> string \<Rightarrow> filter_field option \<Rightarrow> u32 \<times> u32 \<times> byte \<Rightarrow> unit res \<times> u32 \<times> u32 \<times> byte" where
  "configure_ip pton name fd old =
     (case (fd, old) of
        (None, _) \<Rightarrow> (Inr (), old)
      | (Some c, address, msk, mode) \<Rightarrow>
          (case parse_filter_mode c mode of
             (False, mode) \<Rightarrow> (Inl (signal_error name), address, msk, mode)
           | (True, mode) \<Rightarrow>
               (case fd_address c of
                  None \<Rightarrow> (Inl (signal_error name), address, msk, mode)
                | Some a \<Rightarrow>
                    (case string_to_ip pton a of
                       Inl e \<Rightarrow> (Inl e, address, msk, mode)
                     | Inr address \<Rightarrow>
                         (case fd_netmask c of
                            None \<Rightarrow> (Inl (signal_error name), address, msk, mode)
                          | Some b \<Rightarrow>
                              (case string_to_ip pton b of
                                 Inl e \<Rightarrow> (Inl e, address, msk, mode)
                               | Inr msk \<Rightarrow> (Inr (), address, msk, mode)))))))"

definition configure_number :: "string \<Rightarrow> filter_field option \<Rightarrow> u16 \<times> byte \<Rightarrow> unit res \<times> u16 \<times> byte" where
  "configure_number name fd old =
     (case (fd, old) of
        (None, _) \<Rightarrow> (Inr (), old)
      | (Some c, number, mode) \<Rightarrow>
          (case parse_filter_mode c mode of
             (False, mode) \<Rightarrow> (Inl (signal_error name), number, mode)
           | (True, mode) \<Rightarrow>
               (case fd_number c of
                  None \<Rightarrow> (Inl (signal_error name), number, mode)
                | Some v \<Rightarrow> (Inr (), ucast v, mode))))"

record filter_doc =
  fx_ip_src :: "filter_field option"
  fx_ip_dst :: "filter_field option"
  fx_l3_protocol :: "filter_field option"
  fx_l4_protocol :: "filter_field option"
  fx_src_port :: "filter_field option"
  fx_dst_port :: "filter_field option"

definition conf_ip_src :: "(string \<Rightarrow> u32 option) \<Rightarrow> filter_doc \<Rightarrow> ('a filter_base_scheme, unit) op" where
  "conf_ip_src pton n f =
     (case configure_ip pton ''ip_src'' (fx_ip_src n) (fb_ip_src_address f, fb_ip_src_mask f, fb_ip_src_mode f) of
        (r, a, m, d) \<Rightarrow> (r, f\<lparr>fb_ip_src_address := a, fb_ip_src_mask := m, fb_ip_src_mode := d\<rparr>))"

definition conf_ip_dst :: "(string \<Rightarrow> u32 option) \<Rightarrow> filter_doc \<Rightarrow> ('a filter_base_scheme, unit) op" where
  "conf_ip_dst pton n f =
     (case configure_ip pton ''ip_dst'' (fx_ip_dst n) (fb_ip_dst_address f, fb_ip_dst_mask f, fb_ip_dst_mode f) of
        (r, a, m, d) \<Rightarrow> (r, f\<lparr>fb_ip_dst_address := a, fb_ip_dst_mask := m, fb_ip_dst_mode := d\<rparr>))"

definition conf_l4 :: "filter_doc \<Rightarrow> ('a filter_base_scheme, unit) op" where
  "conf_l4 n f =
     (case configure_number ''l4_protocol'' (fx_l4_protocol n) (fb_layer4_proto f, fb_layer4_mode f) of
        (r, v, d) \<Rightarrow> (r, f\<lparr>fb_layer4_proto := v, fb_layer4_mode := d\<rparr>))"

definition filter_configure :: "(string \<Rightarrow> u32 option) \<Rightarrow> filter_doc \<Rightarrow> ('a filter_base_scheme, unit) op" where
  "filter_configure pton n = bindX (conf_ip_src pton n) (\<lambda>_. bindX (conf_ip_dst pton n) (\<lambda>_. conf_l4 n))"

subsection \<open>Packet filter\<close>

record packet_filter = filter_base +
  pf_layer3_proto :: u16
  pf_layer3_mode :: byte
  pf_src_ports :: "u16 list"
  pf_dst_ports :: "u16 list"

definition packet_filter_new :: packet_filter where
  "packet_filter_new = filter_base.extend filter_new (packet_filter.fields 0 0 [] [])"

fun go_ahead_loop :: "u16 list \<Rightarrow> u16 \<Rightarrow> bool \<Rightarrow> bool" where
  "go_ahead_loop [] port is_mode_discard = is_mode_discard"
| "go_ahead_loop (x # xs) port is_mode_discard = (if x = port then \<not> is_mode_discard else go_ahead_loop xs port is_mode_discard)"

definition go_ahead_ports :: "byte \<Rightarrow> u16 list \<Rightarrow> u16 \<Rightarrow> bool" where
  "go_ahead_ports mode ports port = (if is_indirect mode then go_ahead_loop ports port (bit mode FILTER_OUT) else True)"

fun read_ports :: "string \<Rightarrow> u32 option list \<Rightarrow> u16 list \<Rightarrow> unit res \<times> u16 list" where
  "read_ports name [] ports = (Inr (), ports)"
| "read_ports name (Some v # vs) ports = read_ports name vs (ports @ [ucast v])"
| "read_ports name (None # vs) ports = (Inl (signal_error name), ports)"

definition parse_port_configuration :: "string \<Rightarrow> filter_field option \<Rightarrow> byte \<times> u16 list \<Rightarrow> unit res \<times> byte \<times> u16 list" where
  "parse_port_configuration name fd old =
     (case (fd, old) of
        (None, _) \<Rightarrow> (Inr (), old)
      | (Some c, mode, ports) \<Rightarrow>
          (case parse_filter_mode c mode of
             (False, mode) \<Rightarrow> (Inl (signal_error name), mode, ports)
           | (True, mode) \<Rightarrow>
               (case read_ports name (fd_numbers c) ports of
                  (Inl e, ports) \<Rightarrow> (Inl e, mode, ports)
                | (Inr _, ports) \<Rightarrow>
                    if ports = []
                    then (case fd_number c of
                            None \<Rightarrow> (Inl (signal_error name), mode, ports)
                          | Some v \<Rightarrow> (Inr (), mode, ports @ [ucast v]))
                    else (Inr (), mode, ports))))"

definition conf_l3 :: "filter_doc \<Rightarrow> (packet_filter, unit) op" where
  "conf_l3 n f =
     (case configure_number ''l3_protocol'' (fx_l3_protocol n) (pf_layer3_proto f, pf_layer3_mode f) of
        (r, v, d) \<Rightarrow> (r, f\<lparr>pf_layer3_proto := v, pf_layer3_mode := d\<rparr>))"

definition conf_src_ports :: "filter_doc \<Rightarrow> (packet_filter, unit) op" where
  "conf_src_ports n f =
     (case parse_port_configuration ''src_port'' (fx_src_port n) (fb_src_port_mode f, pf_src_ports f) of
        (r, d, ps) \<Rightarrow> (r, f\<lparr>fb_src_port_mode := d, pf_src_ports := ps\<rparr>))"

definition conf_dst_ports :: "filter_doc \<Rightarrow> (packet_filter, unit) op" where
  "conf_dst_ports n f =
     (case parse_port_configuration ''dst_port'' (fx_dst_port n) (fb_dst_port_mode f, pf_dst_ports f) of
        (r, d, ps) \<Rightarrow> (r, f\<lparr>fb_dst_port_mode := d, pf_dst_ports := ps\<rparr>))"

definition packet_filter_configure :: "(string \<Rightarrow> u32 option) \<Rightarrow> filter_doc \<Rightarrow> (packet_filter, unit) op" where
  "packet_filter_configure pton n =
     bindX (filter_configure pton n) (\<lambda>_. bindX (conf_l3 n) (\<lambda>_. bindX (conf_src_ports n) (\<lambda>_. conf_dst_ports n)))"

text \<open>A test that is made only when the field is active.\<close>

definition field_test :: "byte \<Rightarrow> 'v accessor \<Rightarrow> ('v \<Rightarrow> bool) \<Rightarrow> bool accessor" where
  "field_test mode acc matches p =
     (if is_indirect mode then bindE (acc p) (\<lambda>(v, p). Inr (go_ahead (matches v) mode, p)) else Inr (True, p))"

text \<open>Sequencing of tests: a test that fails ends the handler without a message.\<close>

definition and_then :: "bool accessor \<Rightarrow> bool accessor \<Rightarrow> bool accessor" where
  "and_then t u p = bindE (t p) (\<lambda>(ok, p). if ok then u p else Inr (False, p))"

definition port_tests :: "packet_filter \<Rightarrow> bool accessor" where
  "port_tests f p =
     bindE (pkt_is_udp p) (\<lambda>(udp, p).
       bindE (if udp then Inr (False, p) else bindE (pkt_is_tcp p) (\<lambda>(tcp, p). Inr (\<not> tcp, p))) (\<lambda>(other, p).
         if other then Inr (True, p)
         else bindE (pkt_src_port p) (\<lambda>(sp, p).
           if \<not> go_ahead_ports (fb_src_port_mode f) (pf_src_ports f) sp then Inr (False, p)
           else bindE (pkt_dst_port p) (\<lambda>(dp, p). Inr (go_ahead_ports (fb_dst_port_mode f) (pf_dst_ports f) dp, p)))))"

definition ip_tests :: "packet_filter \<Rightarrow> bool accessor" where
  "ip_tests f =
     and_then (field_test (fb_ip_src_mode f) pkt_ip_src (\<lambda>a. fb_ip_src_address f AND fb_ip_src_mask f = a AND fb_ip_src_mask f))
      (and_then (field_test (fb_ip_dst_mode f) pkt_ip_dst (\<lambda>a. fb_ip_dst_address f AND fb_ip_dst_mask f = a AND fb_ip_dst_mask f))
       (and_then (field_test (fb_layer4_mode f) pkt_l4_protocol (\<lambda>l4. fb_layer4_proto f = ucast l4)) (port_tests f)))"

definition packet_filter_pass :: "packet_filter \<Rightarrow> bool accessor" where
  "packet_filter_pass f =
     and_then (field_test (pf_layer3_mode f) pkt_l3_protocol (\<lambda>l3. pf_layer3_proto f = l3))
       (\<lambda>p. bindE (pkt_l3_protocol p) (\<lambda>(l3, p). if l3 \<noteq> kPktTypeIP4 then Inr (True, p) else ip_tests f p))"

definition packet_filter_receive :: "net_msg \<Rightarrow> nat \<Rightarrow> packet_filter \<Rightarrow> (net_msg, packet_filter) method_result" where
  "packet_filter_receive m index f =
     (case m of
        Packet_Msg p \<Rightarrow>
          (case packet_filter_pass f p of
             Inl e \<Rightarrow> (f, [], Inl e)
           | Inr (pass, p) \<Rightarrow> (f, if pass then [(0, Packet_Msg p)] else [], Inr ()))
      | _ \<Rightarrow> (f, [], Inl (Runtime_Error ''PacketFiler: wrong message type'')))"

subsection \<open>What the packet filter lets through\<close>

text \<open>A field that is not active lets everything through; one that is, what matches or, to discard, what does not.\<close>

definition wanted :: "byte \<Rightarrow> bool \<Rightarrow> bool" where
  "wanted mode matches \<longleftrightarrow> (is_indirect mode \<longrightarrow> matches = (\<not> bit mode FILTER_OUT))"

definition packet_filter_spec :: "packet_filter \<Rightarrow> u16 \<Rightarrow> flow_key \<Rightarrow> bool" where
  "packet_filter_spec f l3 k \<longleftrightarrow>
     wanted (pf_layer3_mode f) (pf_layer3_proto f = l3) \<and>
     (l3 = kPktTypeIP4 \<longrightarrow>
        wanted (fb_ip_src_mode f) (fb_ip_src_address f AND fb_ip_src_mask f = src_ip4 k AND fb_ip_src_mask f) \<and>
        wanted (fb_ip_dst_mode f) (fb_ip_dst_address f AND fb_ip_dst_mask f = dst_ip4 k AND fb_ip_dst_mask f) \<and>
        wanted (fb_layer4_mode f) (fb_layer4_proto f = ucast (proto k)) \<and>
        (proto k = kTCP \<or> proto k = kUDP \<longrightarrow>
           wanted (fb_src_port_mode f) (src_port k \<in> set (pf_src_ports f)) \<and>
           wanted (fb_dst_port_mode f) (dst_port k \<in> set (pf_dst_ports f))))"

lemma go_ahead_wanted: "is_indirect mode \<Longrightarrow> go_ahead b mode = wanted mode b"
  by (auto simp: go_ahead_def wanted_def)

lemma go_ahead_loop_set: "go_ahead_loop ports port d = ((port \<in> set ports) = (\<not> d))"
  by (induction ports) auto

lemma go_ahead_ports_wanted: "go_ahead_ports mode ports port = wanted mode (port \<in> set ports)"
  by (simp add: go_ahead_ports_def wanted_def go_ahead_loop_set)

text \<open>An access that returns \<open>v\<close> and does not change what is seen of the packet.\<close>

definition gives :: "packet \<Rightarrow> 'v accessor \<Rightarrow> packet \<Rightarrow> 'v \<Rightarrow> bool" where
  "gives q acc p v \<longleftrightarrow> (\<exists>p'. acc p = Inr (v, p') \<and> sees q p')"

lemma gives_return [intro]: "sees q p \<Longrightarrow> gives q (\<lambda>p. Inr (v, p)) p v"
  by (simp add: gives_def)

lemma gives_bind:
  assumes "gives q acc p v" and "\<And>p'. sees q p' \<Longrightarrow> gives q (f v) p' w"
  shows "gives q (\<lambda>p. bindE (acc p) (\<lambda>(v, p). f v p)) p w"
  using assms by (auto simp: gives_def)

lemma gives_test:
  assumes "sees q p" and "gives q acc p v"
  shows "gives q (field_test mode acc matches) p (wanted mode (matches v))"
  using assms by (auto simp: gives_def field_test_def go_ahead_wanted wanted_def)

lemma gives_and_then:
  assumes "gives q t p b" and "\<And>p'. b \<Longrightarrow> sees q p' \<Longrightarrow> gives q u p' c"
  shows "gives q (and_then t u) p (b \<and> c)"
  using assms by (cases b) (auto simp: gives_def and_then_def)

lemma gives_access:
  assumes "sees q p"
  shows "gives q pkt_ip_src p (src_ip4 (m_key q))" "gives q pkt_ip_dst p (dst_ip4 (m_key q))"
    "gives q pkt_l4_protocol p (proto (m_key q))" "gives q pkt_is_udp p (proto (m_key q) = kUDP)"
    "gives q pkt_is_tcp p (proto (m_key q) = kTCP)" "gives q pkt_src_port p (src_port (m_key q))"
    "gives q pkt_dst_port p (dst_port (m_key q))"
  using sees_access[OF assms] by (auto simp: gives_def)

lemma gives_ports:
  assumes "sees q p"
  shows "gives q (port_tests f) p
     (proto (m_key q) = kTCP \<or> proto (m_key q) = kUDP \<longrightarrow>
        wanted (fb_src_port_mode f) (src_port (m_key q) \<in> set (pf_src_ports f)) \<and>
        wanted (fb_dst_port_mode f) (dst_port (m_key q) \<in> set (pf_dst_ports f)))"
proof -
  let ?k = "m_key q"
  let ?s = "wanted (fb_src_port_mode f) (src_port ?k \<in> set (pf_src_ports f))"
  let ?d = "wanted (fb_dst_port_mode f) (dst_port ?k \<in> set (pf_dst_ports f))"
  have ports: "gives q (\<lambda>p. bindE (pkt_src_port p) (\<lambda>(sp, p).
          if \<not> go_ahead_ports (fb_src_port_mode f) (pf_src_ports f) sp then Inr (False, p)
          else bindE (pkt_dst_port p) (\<lambda>(dp, p). Inr (go_ahead_ports (fb_dst_port_mode f) (pf_dst_ports f) dp, p)))) p (?s \<and> ?d)"
    if that': "sees q p" for p
  proof -
    obtain p1 where p1: "pkt_src_port p = Inr (src_port ?k, p1)" "sees q p1" using gives_access(6)[OF that'] unfolding gives_def by blast
    obtain p2 where p2: "pkt_dst_port p1 = Inr (dst_port ?k, p2)" "sees q p2" using gives_access(7)[OF p1(2)] unfolding gives_def by blast
    show ?thesis using p1 p2 by (cases ?s) (simp_all add: gives_def go_ahead_ports_wanted)
  qed
  obtain p1 where p1: "pkt_is_udp p = Inr (proto ?k = kUDP, p1)" "sees q p1" using gives_access(4)[OF assms] unfolding gives_def by blast
  obtain p2 where p2: "pkt_is_tcp p1 = Inr (proto ?k = kTCP, p2)" "sees q p2" using gives_access(5)[OF p1(2)] unfolding gives_def by blast
  consider "proto ?k = kUDP" | "proto ?k \<noteq> kUDP" "proto ?k = kTCP" | "proto ?k \<noteq> kUDP" "proto ?k \<noteq> kTCP" by blast
  then show ?thesis
  proof cases
    case 1
    with p1 ports[OF p1(2)] show ?thesis by (simp add: gives_def port_tests_def)
  next
    case 2
    with p1 p2 ports[OF p2(2)] show ?thesis by (simp add: gives_def port_tests_def)
  next
    case 3
    with p1 p2 show ?thesis by (simp add: gives_def port_tests_def)
  qed
qed

lemma gives_ip_tests:
  assumes "sees q p"
  shows "gives q (ip_tests f) p
     (wanted (fb_ip_src_mode f) (fb_ip_src_address f AND fb_ip_src_mask f = src_ip4 (m_key q) AND fb_ip_src_mask f) \<and>
      wanted (fb_ip_dst_mode f) (fb_ip_dst_address f AND fb_ip_dst_mask f = dst_ip4 (m_key q) AND fb_ip_dst_mask f) \<and>
      wanted (fb_layer4_mode f) (fb_layer4_proto f = ucast (proto (m_key q))) \<and>
      (proto (m_key q) = kTCP \<or> proto (m_key q) = kUDP \<longrightarrow>
         wanted (fb_src_port_mode f) (src_port (m_key q) \<in> set (pf_src_ports f)) \<and>
         wanted (fb_dst_port_mode f) (dst_port (m_key q) \<in> set (pf_dst_ports f))))"
  unfolding ip_tests_def
  by (intro gives_and_then gives_test[OF _ gives_access(1)] gives_test[OF _ gives_access(2)] gives_test[OF _ gives_access(3)] gives_ports assms)

lemma packet_filter_pass_spec:
  assumes "sees q p" and "val pkt_l3_protocol p = Inr l3"
  shows "gives q (packet_filter_pass f) p (packet_filter_spec f l3 (m_key q))"
proof -
  obtain p1 where p1: "pkt_l3_protocol p = Inr (l3, p1)" "sees q p1" "pkt_l3_protocol p1 = Inr (l3, p1)"
  proof (rule sees_l3[OF assms(1)])
    fix l p1 assume a: "pkt_l3_protocol p = Inr (l, p1)" "sees q p1" "pkt_l3_protocol p1 = Inr (l, p1)"
    with assms(2) have "l = l3" by (simp add: val_def)
    with a that show thesis by simp
  qed
  let ?ip = "wanted (fb_ip_src_mode f) (fb_ip_src_address f AND fb_ip_src_mask f = src_ip4 (m_key q) AND fb_ip_src_mask f) \<and>
      wanted (fb_ip_dst_mode f) (fb_ip_dst_address f AND fb_ip_dst_mask f = dst_ip4 (m_key q) AND fb_ip_dst_mask f) \<and>
      wanted (fb_layer4_mode f) (fb_layer4_proto f = ucast (proto (m_key q))) \<and>
      (proto (m_key q) = kTCP \<or> proto (m_key q) = kUDP \<longrightarrow>
         wanted (fb_src_port_mode f) (src_port (m_key q) \<in> set (pf_src_ports f)) \<and>
         wanted (fb_dst_port_mode f) (dst_port (m_key q) \<in> set (pf_dst_ports f)))"
  obtain p2 where p2: "ip_tests f p1 = Inr (?ip, p2)" "sees q p2" using gives_ip_tests[OF p1(2)] unfolding gives_def by blast
  have rest: "bindE (pkt_l3_protocol p') (\<lambda>(l3, p). if l3 \<noteq> kPktTypeIP4 then Inr (True, p) else ip_tests f p) =
      Inr (l3 = kPktTypeIP4 \<longrightarrow> ?ip, if l3 = kPktTypeIP4 then p2 else p1)" if "p' = p \<or> p' = p1" for p'
    using that p1(1,3) p2(1) by auto
  show ?thesis
  proof (cases "is_indirect (pf_layer3_mode f)")
    case True
    with p1 rest[of p1] p2(2) show ?thesis
      unfolding packet_filter_pass_def packet_filter_spec_def gives_def and_then_def field_test_def by (simp add: go_ahead_wanted)
  next
    case False
    with p1 rest[of p] p2(2) show ?thesis
      unfolding packet_filter_pass_def packet_filter_spec_def gives_def and_then_def field_test_def by (simp add: wanted_def)
  qed
qed


text \<open>A TCP packet to port 80 with everything parsed, and a filter that discards that port.\<close>

definition web_packet :: packet where
  "web_packet = junk_packet\<lparr>m_machdr_parsed := True, m_iphdr_parsed := True, m_ports_parsed := True, m_l4hdr_parsed := True,
     m_pkttype := kPktTypeIP4, m_key := \<lparr>src_ip4 = 0x0A000001, dst_ip4 = 0x0A000002, src_port = 4321, dst_port = 80, proto = kTCP\<rparr>\<rparr>"

definition no_web :: packet_filter where
  "no_web = packet_filter_new\<lparr>fb_dst_port_mode := 6, pf_dst_ports := [443, 80]\<rparr>"

lemma web_packet_parsed: "parse_iphdr web_packet = Inr web_packet" "parse_mac web_packet = Inr web_packet"
  "parse_ports web_packet = Inr web_packet" "parse_tcphdr web_packet = Inr web_packet"
  by (simp_all add: parse_iphdr_def parse_mac_def parse_ports_def parse_tcphdr_def web_packet_def)

lemma web_packet_sees: "sees web_packet web_packet"
  unfolding sees_def parse_all_def by (simp add: web_packet_parsed) (simp add: web_packet_def junk_packet_def pkt_ok_def ports_ok_def)


subsection \<open>Flow filter\<close>

record flow_filter = filter_base +
  lf_src_port :: u16
  lf_dst_port :: u16

definition flow_filter_new :: flow_filter where
  "flow_filter_new = filter_base.extend filter_new (flow_filter.fields 0 0)"

definition conf_src_port :: "filter_doc \<Rightarrow> (flow_filter, unit) op" where
  "conf_src_port n f =
     (case configure_number ''src_port'' (fx_src_port n) (lf_src_port f, fb_src_port_mode f) of
        (r, v, d) \<Rightarrow> (r, f\<lparr>lf_src_port := v, fb_src_port_mode := d\<rparr>))"

definition conf_dst_port :: "filter_doc \<Rightarrow> (flow_filter, unit) op" where
  "conf_dst_port n f =
     (case configure_number ''dst_port'' (fx_dst_port n) (lf_dst_port f, fb_dst_port_mode f) of
        (r, v, d) \<Rightarrow> (r, f\<lparr>lf_dst_port := v, fb_dst_port_mode := d\<rparr>))"

definition flow_filter_configure :: "(string \<Rightarrow> u32 option) \<Rightarrow> filter_doc \<Rightarrow> (flow_filter, unit) op" where
  "flow_filter_configure pton n = bindX (filter_configure pton n) (\<lambda>_. bindX (conf_src_port n) (\<lambda>_. conf_dst_port n))"

definition flow_test :: "byte \<Rightarrow> bool \<Rightarrow> bool" where
  "flow_test mode matches = (if is_indirect mode then go_ahead matches mode else True)"

text \<open>
  The handler goes on after it has passed a flow that is neither TCP nor UDP. \<open>released\<close> tells whether
  the receivers have by then given up the last reference to the flow that the handler still reads.
\<close>

definition flow_filter_receive :: "bool \<Rightarrow> net_msg \<Rightarrow> nat \<Rightarrow> flow_filter \<Rightarrow> (net_msg, flow_filter) method_result" where
  "flow_filter_receive released m index f =
     (case m of
        Flow_Msg fl \<Rightarrow>
          (let k = fl_key fl in
           if \<not> flow_test (fb_ip_src_mode f) (fb_ip_src_address f AND fb_ip_src_mask f = src_ip4 k AND fb_ip_src_mask f) then (f, [], Inr ())
           else if \<not> flow_test (fb_ip_dst_mode f) (fb_ip_dst_address f AND fb_ip_dst_mask f = dst_ip4 k AND fb_ip_dst_mask f) then (f, [], Inr ())
           else if \<not> flow_test (fb_layer4_mode f) (fb_layer4_proto f = ucast (proto k)) then (f, [], Inr ())
           else
             let other = proto k \<noteq> kUDP \<and> proto k \<noteq> kTCP;
                 sent = (if other then [(0, Flow_Msg fl)] else [])
             in
               if other \<and> released \<and> (is_indirect (fb_src_port_mode f) \<or> is_indirect (fb_dst_port_mode f)) then (f, sent, Inl Undefined_Behaviour)
               else if \<not> flow_test (fb_src_port_mode f) (lf_src_port f = src_port k) then (f, sent, Inr ())
               else if \<not> flow_test (fb_dst_port_mode f) (lf_dst_port f = dst_port k) then (f, sent, Inr ())
               else if other \<and> released then (f, sent, Inl Undefined_Behaviour)
               else (f, sent @ [(0, Flow_Msg fl)], Inr ()))
      | _ \<Rightarrow> (f, [], Inl (Runtime_Error ''FlowFilter: wrong message type'')))"

definition flow_filter_spec :: "flow_filter \<Rightarrow> flow_key \<Rightarrow> bool" where
  "flow_filter_spec f k \<longleftrightarrow>
     wanted (fb_ip_src_mode f) (fb_ip_src_address f AND fb_ip_src_mask f = src_ip4 k AND fb_ip_src_mask f) \<and>
     wanted (fb_ip_dst_mode f) (fb_ip_dst_address f AND fb_ip_dst_mask f = dst_ip4 k AND fb_ip_dst_mask f) \<and>
     wanted (fb_layer4_mode f) (fb_layer4_proto f = ucast (proto k)) \<and>
     (proto k = kTCP \<or> proto k = kUDP \<longrightarrow>
        wanted (fb_src_port_mode f) (lf_src_port f = src_port k) \<and> wanted (fb_dst_port_mode f) (lf_dst_port f = dst_port k))"

lemma flow_test_wanted: "flow_test mode b = wanted mode b"
  by (simp add: flow_test_def go_ahead_wanted wanted_def)

text \<open>
  On TCP and UDP flows the flow filter does what it is configured for: the flow is passed on once if every active
  field accepts it. A flow of any other protocol is sent on a second time when no port filter is active.
\<close>
theorem flow_filter_correct:
  "(proto (fl_key fl) = kTCP \<or> proto (fl_key fl) = kUDP \<longrightarrow>
      flow_filter_receive released (Flow_Msg fl) index f = (f, if flow_filter_spec f (fl_key fl) then [(0, Flow_Msg fl)] else [], Inr ())) \<and>
   (proto (fl_key fl) \<noteq> kTCP \<and> proto (fl_key fl) \<noteq> kUDP \<and> flow_filter_spec f (fl_key fl) \<and>
    \<not> is_indirect (fb_src_port_mode f) \<and> \<not> is_indirect (fb_dst_port_mode f) \<longrightarrow>
      flow_filter_receive False (Flow_Msg fl) index f = (f, [(0, Flow_Msg fl), (0, Flow_Msg fl)], Inr ()))"
  by (auto simp: flow_filter_receive_def flow_filter_spec_def flow_test_wanted Let_def wanted_def)

theorem flow_filter_correct_witness:
  "flow_filter_receive True (Flow_Msg (flow_new (m_key web_packet))) 0 flow_filter_new =
     (flow_filter_new, [(0, Flow_Msg (flow_new (m_key web_packet)))], Inr ()) \<and>
   flow_filter_receive False (Flow_Msg (flow_new flow_key_0)) 0 flow_filter_new =
     (flow_filter_new, [(0, Flow_Msg (flow_new flow_key_0)), (0, Flow_Msg (flow_new flow_key_0))], Inr ())"
proof -
  have spec: "flow_filter_spec flow_filter_new k" for k
    by (simp add: flow_filter_spec_def wanted_def is_indirect_def flow_filter_new_def filter_base.defs flow_filter.defs filter_new_def)
  have "proto (m_key web_packet) = kTCP" "proto flow_key_0 \<noteq> kTCP" "proto flow_key_0 \<noteq> kUDP"
    by (simp_all add: web_packet_def flow_key_0_def pkt_consts)
  moreover have "\<not> is_indirect (fb_src_port_mode flow_filter_new)" "\<not> is_indirect (fb_dst_port_mode flow_filter_new)"
    by (simp_all add: is_indirect_def flow_filter_new_def filter_base.defs flow_filter.defs filter_new_def)
  ultimately show ?thesis
    using flow_filter_correct[of "flow_new (m_key web_packet)" True 0 flow_filter_new]
      flow_filter_correct[of "flow_new flow_key_0" False 0 flow_filter_new] spec by simp
qed

subsection \<open>Protocol filter\<close>

definition protocol_filter_new :: u16 where
  "protocol_filter_new = kPktTypeIP4"

text \<open>The \<open>type\<close> attribute of the \<open>protocol\<close> element, read as hexadecimal.\<close>

definition protocol_filter_configure :: "(string \<Rightarrow> u64) \<Rightarrow> string option option \<Rightarrow> (u16, unit) op" where
  "protocol_filter_configure strtoul16 c old =
     (case c of
        None \<Rightarrow> (Inl (Runtime_Error ''missing protocol parameter''), old)
      | Some None \<Rightarrow> (Inl (Runtime_Error ''wrong type given''), old)
      | Some (Some v) \<Rightarrow> (Inr (), ucast (ucast (strtoul16 v) :: u32)))"

definition protocol_filter_receive :: "net_msg \<Rightarrow> nat \<Rightarrow> u16 \<Rightarrow> (net_msg, u16) method_result" where
  "protocol_filter_receive m index m_proto =
     (case m of
        Packet_Msg p \<Rightarrow>
          (case pkt_l3_protocol p of
             Inl e \<Rightarrow> (m_proto, [], Inl e)
           | Inr (l3, p) \<Rightarrow> (m_proto, if l3 = m_proto then [(0, Packet_Msg p)] else [], Inr ()))
      | _ \<Rightarrow> (m_proto, [], Inl (Runtime_Error ''PacketFiler: wrong message type'')))"

subsection \<open>Fragment filter\<close>

definition IPHDR_MF :: u16 where "IPHDR_MF = 0x8000"

definition IPHDR_FRAGOFF :: "u16 \<Rightarrow> u16" where "IPHDR_FRAGOFF u = u AND 0x1000"

text \<open>
  The exception for other messages is built but not thrown, and a packet without an IP header has no
  header pointer: both lead to a read through a pointer that does not point to a header. The state is
  that of a block without members.
\<close>

definition nofrag_receive :: "net_msg \<Rightarrow> nat \<Rightarrow> unit \<Rightarrow> (net_msg, unit) method_result" where
  "nofrag_receive m index u =
     (case m of
        Packet_Msg p \<Rightarrow>
          (case pkt_iphdr p of
             Inl e \<Rightarrow> ((), [], Inl e)
           | Inr (None, p) \<Rightarrow> ((), [], Inl Undefined_Behaviour)
           | Inr (Some ip, p) \<Rightarrow>
               (case rd16 (m_buffer p) (ip + 6) of
                  Inl e \<Rightarrow> ((), [], Inl e)
                | Inr fragoff \<Rightarrow> ((), if fragoff AND IPHDR_MF = 0 \<and> IPHDR_FRAGOFF fragoff = 0 then [(0, Packet_Msg p)] else [], Inr ())))
      | _ \<Rightarrow> ((), [], Inl Undefined_Behaviour))"

text \<open>
  The fragment filter tests the reserved bit and one bit of the offset instead of the more-fragments bit and the
  offset: a packet with an IPv4 header passes exactly when these two bits are clear, so that first fragments, and
  later ones at suitable offsets, pass too.
\<close>
theorem nofrag_passes_fragments:
  assumes "parse_mac p = Inr q" and "m_iphdr_ptr q = Some ip" and "ip + 8 \<le> length (m_buffer q)"
  shows "nofrag_receive (Packet_Msg p) index () =
     ((), if g16 (m_buffer q) (ip + 6) AND 0x9000 = 0 then [(0, Packet_Msg q)] else [], Inr ())"
proof -
  let ?w = "g16 (m_buffer q) (ip + 6)"
  have rd: "rd16 (m_buffer q) (ip + 6) = Inr ?w" by (rule rd_g) (use assms(3) in simp)
  have bits: "(w AND 0x8000 = 0 \<and> w AND 0x1000 = 0) \<longleftrightarrow> w AND 0x9000 = 0" for w :: u16
  proof -
    have "w AND (0x8000 OR 0x1000) = (w AND 0x8000) OR (w AND 0x1000)" by (rule bit.conj_disj_distrib)
    then have "w AND 0x9000 = (w AND 0x8000) OR (w AND 0x1000)" by simp
    then show ?thesis by (simp add: or_eq_0_iff)
  qed
  show ?thesis using assms(1,2) rd
    by (simp add: nofrag_receive_def pkt_iphdr_def after_def IPHDR_MF_def IPHDR_FRAGOFF_def bits)
qed

text \<open>The first fragment of a datagram: more fragments to come, offset 0.\<close>

definition fragment_packet :: packet where
  "fragment_packet = web_packet\<lparr>m_buffer := ip_datagram 0x45 0 20 [0, 1, 0x20, 0] 64 kUDP 0 0x0A000001 0x0A000002 [], m_iphdr_ptr := Some 0\<rparr>"

theorem nofrag_passes_fragments_witness:
  "nofrag_receive (Packet_Msg fragment_packet) 0 () = ((), [(0, Packet_Msg fragment_packet)], Inr ())"
proof -
  have "parse_mac fragment_packet = Inr fragment_packet" by (simp add: parse_mac_def fragment_packet_def web_packet_def)
  moreover have "m_iphdr_ptr fragment_packet = Some 0" by (simp add: fragment_packet_def)
  moreover have b: "m_buffer fragment_packet = [0x45, 0] @ be16 20 @ [0, 1] @ be16 0x2000 @ [64, kUDP] @ be16 0 @ be32 0x0A000001 @ be32 0x0A000002"
    by (simp add: fragment_packet_def ip_datagram_def) code_simp
  have "g16 (m_buffer fragment_packet) (0 + 6) = 0x2000"
    using g16_at[of "m_buffer fragment_packet" "[0x45, 0] @ be16 20 @ [0, 1]" "0x2000"] b by simp
  moreover have "0 + 8 \<le> length (m_buffer fragment_packet)" using b by simp
  ultimately show ?thesis using nofrag_passes_fragments[of fragment_packet fragment_packet 0 0] by simp
qed

end
