(* ===== verification/Packet_Blocks.thy ===== *)
theory Packet_Blocks
  imports Packet_Filters
begin

text \<open>
  Blocks that distribute, count and select: \<open>blocks/L4Demux\<close>, \<open>RRDemux\<close>, \<open>Counter\<close>,
  \<open>PassthroughPacketCounter\<close>, \<open>TopNFlowSelector\<close> and \<open>PeriodFlowMeter\<close>. The rates
  that the counters compute in floating point are represented by the counts they are computed from.
\<close>

subsection \<open>Demultiplexers\<close>

text \<open>Output gates 0, 1 and 2 are \<open>out_tcp\<close>, \<open>out_udp\<close> and \<open>out_unknown\<close>.\<close>

definition l4_demux_receive :: "net_msg \<Rightarrow> nat \<Rightarrow> unit \<Rightarrow> (net_msg, unit) method_result" where
  "l4_demux_receive m index u =
     (case m of
        Packet_Msg p \<Rightarrow>
          (case pkt_is_tcp p of
             Inl e \<Rightarrow> ((), [], Inl e)
           | Inr (tcp, p) \<Rightarrow>
               if tcp then ((), [(0, Packet_Msg p)], Inr ())
               else (case pkt_is_udp p of
                       Inl e \<Rightarrow> ((), [], Inl e)
                     | Inr (udp, p) \<Rightarrow> if udp then ((), [(1, Packet_Msg p)], Inr ()) else ((), [(2, Packet_Msg p)], Inr ())))
      | _ \<Rightarrow> ((), [], Inl (Runtime_Error ''counter: unexpected msg type'')))"

record rr_demux =
  rd_outgates_number :: int
  rd_current_outgate :: int

definition rr_demux_new :: rr_demux where
  "rr_demux_new = \<lparr>rd_outgates_number = 2, rd_current_outgate = 0\<rparr>"

text \<open>
  \<open>ceil(log10(n))\<close>, the number of decimal digits, and the name buffer they are compared with. The
  names of the gates are returned in the order in which they are registered.
\<close>

fun ceil_log10 :: "nat \<Rightarrow> nat" where
  "ceil_log10 n = (if n \<le> 1 then 0 else Suc (ceil_log10 ((n + 9) div 10)))"

fun decimal :: "nat \<Rightarrow> string" where
  "decimal n = (if n < 10 then [char_of (48 + n)] else decimal (n div 10) @ [char_of (48 + n mod 10)])"

declare ceil_log10.simps [simp del] decimal.simps [simp del]

definition gate_name :: "nat \<Rightarrow> string" where
  "gate_name i = ''output'' @ decimal (i + 1)"

definition rr_demux_configure :: "int option option \<Rightarrow> rr_demux \<Rightarrow> string list res \<times> rr_demux" where
  "rr_demux_configure gates d =
     (let d1 = (case gates of Some (Some v) \<Rightarrow> d\<lparr>rd_outgates_number := v\<rparr> | _ \<Rightarrow> d);
          n = rd_outgates_number d1;
          names = map gate_name [0..<nat n]
      in if n \<le> 0 then (Inl Undefined_Behaviour, d1)
         else if list_all (\<lambda>s. length s + 1 \<le> 7 + ceil_log10 (nat n)) names then (Inr names, d1)
         else (Inl Undefined_Behaviour, d1))"

definition rr_demux_receive :: "'m \<Rightarrow> nat \<Rightarrow> rr_demux \<Rightarrow> ('m, rr_demux) method_result" where
  "rr_demux_receive m index d =
     (let c = rd_current_outgate d + 1 in
      (d\<lparr>rd_current_outgate := (if c \<ge> rd_outgates_number d then 0 else c)\<rparr>, [(rd_current_outgate d, m)], Inr ()))"

subsection \<open>Counters\<close>

record counter =
  ct_pkt_cnt :: u64
  ct_byte_cnt :: u64
  ct_flow_cnt :: u64
  ct_reset :: u32
  ct_pkt_cnt_prev :: u64
  ct_byte_cnt_prev :: u64
  ct_flow_cnt_prev :: u64

text \<open>The constructor leaves the flow counts as they are in memory.\<close>

definition counter_new :: "u64 \<Rightarrow> u64 \<Rightarrow> counter" where
  "counter_new junk junk_prev = \<lparr>ct_pkt_cnt = 0, ct_byte_cnt = 0, ct_flow_cnt = junk, ct_reset = 0,
     ct_pkt_cnt_prev = 0, ct_byte_cnt_prev = 0, ct_flow_cnt_prev = junk_prev\<rparr>"

definition counter_check_reset :: "counter \<Rightarrow> counter" where
  "counter_check_reset c = (if ct_reset c = 1 then c\<lparr>ct_flow_cnt := 0, ct_pkt_cnt := 0, ct_byte_cnt := 0, ct_reset := 0\<rparr> else c)"

definition counter_receive :: "net_msg \<Rightarrow> nat \<Rightarrow> counter \<Rightarrow> (net_msg, counter) method_result" where
  "counter_receive m index c =
     (case m of
        Other_Msg \<Rightarrow> (c, [], Inl (Runtime_Error ''wrong message type in counter''))
      | Flow_Msg f \<Rightarrow>
          (let c1 = counter_check_reset c in
           (c1\<lparr>ct_flow_cnt := ct_flow_cnt c1 + 1, ct_pkt_cnt := ct_pkt_cnt c1 + fl_packets f, ct_byte_cnt := ct_byte_cnt c1 + fl_bytes f\<rparr>, [], Inr ()))
      | Packet_Msg p \<Rightarrow>
          (let c1 = counter_check_reset c in
           (c1\<lparr>ct_pkt_cnt := ct_pkt_cnt c1 + 1, ct_byte_cnt := ct_byte_cnt c1 + m_length p\<rparr>, [], Inr ())))"

text \<open>The timer handler; the value is the packets, bytes and flows that the new rates divide by the time passed.\<close>

definition counter_timer :: "counter \<Rightarrow> (u64 \<times> u64 \<times> u64) \<times> counter" where
  "counter_timer c =
     ((ct_pkt_cnt c - ct_pkt_cnt_prev c, ct_byte_cnt c - ct_byte_cnt_prev c, ct_flow_cnt c - ct_flow_cnt_prev c),
      c\<lparr>ct_pkt_cnt_prev := ct_pkt_cnt c, ct_byte_cnt_prev := ct_byte_cnt c, ct_flow_cnt_prev := ct_flow_cnt c\<rparr>)"

record pass_counter =
  pc_pkt_cnt :: u64
  pc_byte_cnt :: u64
  pc_reset :: u32
  pc_pkt_cnt_prev :: u64
  pc_byte_cnt_prev :: u64

definition pass_counter_new :: pass_counter where
  "pass_counter_new = \<lparr>pc_pkt_cnt = 0, pc_byte_cnt = 0, pc_reset = 0, pc_pkt_cnt_prev = 0, pc_byte_cnt_prev = 0\<rparr>"

definition pass_counter_receive :: "net_msg \<Rightarrow> nat \<Rightarrow> pass_counter \<Rightarrow> (net_msg, pass_counter) method_result" where
  "pass_counter_receive m index c =
     (case m of
        Packet_Msg p \<Rightarrow>
          (let c1 = (if pc_reset c = 1 then c\<lparr>pc_pkt_cnt := 0, pc_byte_cnt := 0, pc_reset := 0\<rparr> else c) in
           (c1\<lparr>pc_pkt_cnt := pc_pkt_cnt c1 + 1, pc_byte_cnt := pc_byte_cnt c1 + m_length p\<rparr>, [(0, Packet_Msg p)], Inr ()))
      | _ \<Rightarrow> (c, [], Inl (Runtime_Error ''wrong message type in pkt counter'')))"

definition pass_counter_timer :: "pass_counter \<Rightarrow> (u64 \<times> u64) \<times> pass_counter" where
  "pass_counter_timer c =
     ((pc_pkt_cnt c - pc_pkt_cnt_prev c, pc_byte_cnt c - pc_byte_cnt_prev c),
      c\<lparr>pc_pkt_cnt_prev := pc_pkt_cnt c, pc_byte_cnt_prev := pc_byte_cnt c\<rparr>)"

subsection \<open>Selection of the largest flows\<close>

text \<open>
  The priority queue holds the flows in some order of its own; \<open>pick\<close> gives the position of its top
  and stands for the way \<open>std::priority_queue\<close> breaks ties.
\<close>

record top_n =
  tn_heap :: "flow list"
  tn_len :: u32
  tn_msecs :: u32

definition top_n_new :: top_n where
  "top_n_new = \<lparr>tn_heap = [], tn_len = 10, tn_msecs = 100\<rparr>"

definition top_n_configure :: "u32 option option \<Rightarrow> u32 option option \<Rightarrow> top_n \<Rightarrow> u32 \<times> top_n" where
  "top_n_configure len period t =
     (let t1 = (case len of Some (Some v) \<Rightarrow> t\<lparr>tn_len := v\<rparr> | _ \<Rightarrow> t);
          t2 = (case period of Some (Some v) \<Rightarrow> t1\<lparr>tn_msecs := v\<rparr> | _ \<Rightarrow> t1)
      in (tn_msecs t2 * 1000, t2))"

definition heap_pop :: "nat \<Rightarrow> flow list \<Rightarrow> flow list" where
  "heap_pop i h = take i h @ drop (Suc i) h"

definition top_n_receive :: "(flow list \<Rightarrow> nat) \<Rightarrow> net_msg \<Rightarrow> nat \<Rightarrow> top_n \<Rightarrow> (net_msg, top_n) method_result" where
  "top_n_receive pick m index t =
     (case m of
        Flow_Msg f \<Rightarrow>
          (let h = tn_heap t in
           if length h < unat (tn_len t) then (t\<lparr>tn_heap := f # h\<rparr>, [], Inr ())
           else if h = [] then (t, [], Inl Undefined_Behaviour)
           else if fl_packets f > fl_packets (h ! pick h) then (t\<lparr>tn_heap := f # heap_pop (pick h) h\<rparr>, [], Inr ())
           else (t, [], Inr ()))
      | _ \<Rightarrow> (t, [], Inl (Runtime_Error ''TopNFlowSelector:: wrong input message type'')))"

text \<open>The loop of the timer handler, bounded by the size of the heap.\<close>

fun top_n_drain :: "nat \<Rightarrow> (flow list \<Rightarrow> nat) \<Rightarrow> flow list \<Rightarrow> (int \<times> net_msg) list \<times> flow list" where
  "top_n_drain 0 pick h = ([], h)"
| "top_n_drain (Suc k) pick h =
     (if h = [] then ([], h)
      else case top_n_drain k pick (heap_pop (pick h) h) of (sent, h') \<Rightarrow> ((0, Flow_Msg (h ! pick h)) # sent, h'))"

definition top_n_timer :: "(flow list \<Rightarrow> nat) \<Rightarrow> top_n \<Rightarrow> (net_msg, top_n) method_result" where
  "top_n_timer pick t = (case top_n_drain (length (tn_heap t)) pick (tn_heap t) of (sent, h) \<Rightarrow> (t\<lparr>tn_heap := h\<rparr>, sent, Inr ()))"

subsection \<open>Periodic flow meter\<close>

record period_meter =
  pm_table :: "flow_key \<rightharpoonup> flow"
  pm_timeout_ms :: int

definition period_meter_new :: period_meter where
  "period_meter_new = \<lparr>pm_table = Map.empty, pm_timeout_ms = 100\<rparr>"

definition period_meter_configure :: "u32 option option \<Rightarrow> period_meter \<Rightarrow> int res \<times> period_meter" where
  "period_meter_configure timeout pm =
     (if timeout = Some None then (Inl (Runtime_Error ''PeriodFlowMeter: malformed timeout paramter''), pm)
      else
        let pm1 = (case timeout of Some (Some v) \<Rightarrow> pm\<lparr>pm_timeout_ms := sint v\<rparr> | _ \<Rightarrow> pm);
            us = pm_timeout_ms pm1 * 1000
        in (if us < - (2 ^ 31) \<or> 2 ^ 31 \<le> us then Inl Undefined_Behaviour else Inr us, pm1))"

definition period_meter_receive :: "u64 \<Rightarrow> net_msg \<Rightarrow> nat \<Rightarrow> period_meter \<Rightarrow> (net_msg, period_meter) method_result" where
  "period_meter_receive now m index pm =
     (case m of
        Packet_Msg p \<Rightarrow>
          (case val pkt_key p of
             Inl e \<Rightarrow> (pm, [], Inl e)
           | Inr k \<Rightarrow>
               let f = (case pm_table pm k of None \<Rightarrow> flow_new k | Some f \<Rightarrow> f) in
               (pm\<lparr>pm_table := (pm_table pm)(k \<mapsto> count_packet False now p f)\<rparr>, [], Inr ()))
      | _ \<Rightarrow> (pm, [], Inl (Runtime_Error ''PeriodFlowMeter:: wrong message type'')))"

text \<open>The timer handler walks the table in the order \<open>ks\<close> of its keys.\<close>

definition period_meter_timer :: "flow_key list \<Rightarrow> period_meter \<Rightarrow> (net_msg, period_meter) method_result" where
  "period_meter_timer ks pm =
     (pm\<lparr>pm_table := Map.empty\<rparr>, List.map_filter (\<lambda>k. map_option (\<lambda>f. (0, Flow_Msg f)) (pm_table pm k)) ks, Inr ())"

subsection \<open>The demultiplexers\<close>

lemma l4_demux_correct:
  assumes "sees q p"
  shows "\<exists>p'. sees q p' \<and> l4_demux_receive (Packet_Msg p) index () =
    ((), [(if proto (m_key q) = kTCP then 0 else if proto (m_key q) = kUDP then 1 else 2, Packet_Msg p')], Inr ())"
proof -
  obtain p1 where p1: "pkt_is_tcp p = Inr (proto (m_key q) = kTCP, p1)" "sees q p1" using sees_access(5)[OF assms] by blast
  obtain p2 where p2: "pkt_is_udp p1 = Inr (proto (m_key q) = kUDP, p2)" "sees q p2" using sees_access(6)[OF p1(2)] by blast
  show ?thesis
  proof (cases "proto (m_key q) = kTCP")
    case True
    with p1 show ?thesis by (intro exI[of _ p1]) (simp add: l4_demux_receive_def)
  next
    case False
    with p1 p2 show ?thesis by (intro exI[of _ p2]) (simp add: l4_demux_receive_def)
  qed
qed

lemma ceil_log10_le: "ceil_log10 n \<le> k \<longleftrightarrow> n \<le> 10 ^ k"
proof (induction n arbitrary: k rule: ceil_log10.induct)
  case (1 n)
  show ?case
  proof (cases "n \<le> 1")
    case True
    then show ?thesis using le_trans[of n 1 "10 ^ k"] by (simp add: ceil_log10.simps)
  next
    case False
    then have step: "ceil_log10 n = Suc (ceil_log10 ((n + 9) div 10))" by (subst ceil_log10.simps) simp
    show ?thesis
    proof (cases k)
      case 0
      with False step show ?thesis by simp
    next
      case (Suc j)
      have "(n + 9) div 10 \<le> 10 ^ j \<longleftrightarrow> n \<le> 10 * 10 ^ j" by linarith
      with Suc step 1[OF False, of j] show ?thesis by simp
    qed
  qed
qed

lemma length_decimal_le: "length (decimal n) \<le> k \<longleftrightarrow> 0 < k \<and> n < 10 ^ k"
proof (induction n arbitrary: k rule: decimal.induct)
  case (1 n)
  show ?case
  proof (cases "n < 10")
    case True
    have "n < 10 ^ k" if "0 < k" using True that power_increasing[of 1 k "10::nat"] by simp
    with True show ?thesis by (auto simp: decimal.simps)
  next
    case False
    then have step: "length (decimal n) = Suc (length (decimal (n div 10)))" by (subst decimal.simps) simp
    show ?thesis
    proof (cases k)
      case (Suc j)
      have "n div 10 < 10 ^ j \<longleftrightarrow> n < 10 * 10 ^ j" by linarith
      moreover have "j \<noteq> 0" if "n < 10 * 10 ^ j" using False that by (cases j) auto
      ultimately show ?thesis using Suc step 1[OF False, of j] by auto
    qed (use step in simp)
  qed
qed

lemma names_fit:
  assumes "0 < n"
  shows "list_all (\<lambda>s. length s + 1 \<le> 7 + ceil_log10 n) (map gate_name [0..<n]) \<longleftrightarrow> (\<nexists>k. n = 10 ^ k)"
proof -
  have bound: "n \<le> 10 ^ ceil_log10 n" using ceil_log10_le[of n "ceil_log10 n"] by simp
  have fit: "length (gate_name i) + 1 \<le> 7 + ceil_log10 n \<longleftrightarrow> 0 < ceil_log10 n \<and> i + 1 < 10 ^ ceil_log10 n" for i
    using length_decimal_le[of "i + 1" "ceil_log10 n"] by (simp add: gate_name_def)
  have "list_all (\<lambda>s. length s + 1 \<le> 7 + ceil_log10 n) (map gate_name [0..<n]) \<longleftrightarrow> 0 < ceil_log10 n \<and> n < 10 ^ ceil_log10 n"
    unfolding list_all_iff set_map ball_simps fit using assms by (auto intro: order_le_less_trans[rotated] dest: bspec[of _ _ "n - 1"])
  also have "\<dots> \<longleftrightarrow> n \<noteq> 10 ^ ceil_log10 n" using bound assms by (cases "ceil_log10 n") auto
  also have "\<dots> \<longleftrightarrow> (\<nexists>k. n = 10 ^ k)"
  proof
    assume ne: "n \<noteq> 10 ^ ceil_log10 n"
    show "\<nexists>k. n = 10 ^ k"
    proof
      assume "\<exists>k. n = 10 ^ k"
      then obtain k where k: "n = 10 ^ k" by blast
      then have "ceil_log10 n \<le> k" using ceil_log10_le[of n k] by simp
      moreover have "k \<le> ceil_log10 n" using bound k by simp
      ultimately show False using ne k by simp
    qed
  qed blast
  finally show ?thesis .
qed

text \<open>The messages of a run of the handler.\<close>

fun rr_run :: "'m list \<Rightarrow> rr_demux \<Rightarrow> (int \<times> 'm) list" where
  "rr_run [] d = []"
| "rr_run (m # ms) d = (case rr_demux_receive m 0 d of (d', sent, r) \<Rightarrow> sent @ rr_run ms d')"

lemma rr_run_nth:
  assumes "rd_outgates_number d = int n" and "rd_current_outgate d = int c" and "c < n"
  shows "rr_run ms d = map (\<lambda>i. (int ((c + i) mod n), ms ! i)) [0..<length ms]"
  using assms(1,2,3)
proof (induction ms arbitrary: d c)
  case (Cons m ms)
  define c' where "c' = Suc c mod n"
  let ?d = "d\<lparr>rd_current_outgate := int c'\<rparr>"
  have r: "rr_demux_receive m 0 d = (?d, [(int c, m)], Inr ())"
    using Cons.prems by (auto simp: rr_demux_receive_def c'_def mod_Suc)
  have "c' < n" using Cons.prems(3) by (simp add: c'_def)
  with Cons.IH[of ?d c'] Cons.prems have "rr_run ms ?d = map (\<lambda>i. (int ((c' + i) mod n), ms ! i)) [0..<length ms]" by simp
  moreover have "(c' + i) mod n = (c + Suc i) mod n" for i by (simp add: c'_def mod_simps)
  ultimately show ?case using r Cons.prems(3) by (simp add: map_upt_Suc del: upt_Suc)
qed simp

text \<open>
  C24: The round-robin demultiplexer either registers its output gates, under distinct names that fit its name buffer,
  and then sends message \<open>i\<close> through gate \<open>i mod n\<close>, or, for a number of gates that is not positive or is a power of
  ten, writes past the buffer.
\<close>
theorem rr_demux_correct:
  "(v \<le> 0 \<or> (\<exists>k. v = 10 ^ k) \<longrightarrow> fst (rr_demux_configure (Some (Some v)) rr_demux_new) = Inl Undefined_Behaviour) \<and>
   (0 < v \<and> (\<nexists>k. v = 10 ^ k) \<longrightarrow>
      (\<exists>d. rr_demux_configure (Some (Some v)) rr_demux_new = (Inr (map gate_name [0..<nat v]), d) \<and>
         rr_run ms d = map (\<lambda>i. (int (i mod nat v), ms ! i)) [0..<length ms]))"
proof -
  have pow: "(\<exists>k. v = 10 ^ k) \<longleftrightarrow> (\<exists>k. nat v = 10 ^ k)" if "0 < v"
    using that by (auto simp: nat_power_eq nat_eq_iff)
  let ?d = "rr_demux_new\<lparr>rd_outgates_number := v\<rparr>"
  have "rr_run ms ?d = map (\<lambda>i. (int (i mod nat v), ms ! i)) [0..<length ms]" if "0 < v"
    using rr_run_nth[of ?d "nat v" 0 ms] that by (simp add: rr_demux_new_def)
  moreover have "rr_demux_configure (Some (Some v)) rr_demux_new =
      (if v \<le> 0 \<or> (\<exists>k. v = 10 ^ k) then Inl Undefined_Behaviour else Inr (map gate_name [0..<nat v]), ?d)"
  proof (cases "0 < v")
    case True
    then have "list_all (\<lambda>s. length s + 1 \<le> 7 + ceil_log10 (nat v)) (map gate_name [0..<nat v]) = (\<not> (\<exists>k. v = 10 ^ k))"
      unfolding pow[OF True] by (intro names_fit) simp
    with True show ?thesis unfolding rr_demux_configure_def Let_def
      by (simp only: option.case rr_demux.simps not_le[symmetric] if_False if_True not_not split: if_split) auto
  qed (simp add: rr_demux_configure_def)
  ultimately show ?thesis by simp
qed

theorem rr_demux_correct_witness:
  "fst (rr_demux_configure (Some (Some 10)) rr_demux_new) = Inl Undefined_Behaviour \<and>
   (\<exists>d. rr_demux_configure (Some (Some 3)) rr_demux_new = (Inr [''output1'', ''output2'', ''output3''], d) \<and>
      rr_run ''abcd'' d = [(0, CHR ''a''), (1, CHR ''b''), (2, CHR ''c''), (0, CHR ''d'')])"
proof -
  have "(10 :: int) = 10 ^ 1" by simp
  moreover have "(3 :: int) \<noteq> 10 ^ k" for k
  proof (cases k)
    case (Suc j)
    have "(1 :: int) \<le> 10 ^ j" by simp
    then show ?thesis unfolding Suc power_Suc by linarith
  qed simp
  moreover have "map gate_name [0..<nat 3] = [''output1'', ''output2'', ''output3'']" by code_simp
  moreover have "map (\<lambda>i. (int (i mod nat 3), ''abcd'' ! i)) [0..<length ''abcd''] = [(0, CHR ''a''), (1, CHR ''b''), (2, CHR ''c''), (0, CHR ''d'')]"
    by code_simp
  moreover have "fst (rr_demux_configure (Some (Some 10)) rr_demux_new) = Inl Undefined_Behaviour"
    using rr_demux_correct[of 10 "''abcd''"] calculation(1) by blast
  moreover have "\<exists>d. rr_demux_configure (Some (Some 3)) rr_demux_new = (Inr (map gate_name [0..<nat 3]), d) \<and>
      rr_run ''abcd'' d = map (\<lambda>i. (int (i mod nat 3), ''abcd'' ! i)) [0..<length ''abcd'']"
    using rr_demux_correct[of 3 "''abcd''"] calculation(2) by (meson zero_less_numeral)
  ultimately show ?thesis by (simp only: simp_thms)
qed

subsection \<open>The largest flows\<close>

text \<open>What \<open>std::priority_queue\<close> promises of its top under the comparison of the block: a flow with the fewest packets.\<close>

definition top_pick :: "(flow list \<Rightarrow> nat) \<Rightarrow> bool" where
  "top_pick pick \<longleftrightarrow> (\<forall>h. h \<noteq> [] \<longrightarrow> pick h < length h \<and> (\<forall>f \<in> set h. fl_packets (h ! pick h) \<le> fl_packets f))"

lemma heap_pop_mset:
  assumes "i < length h"
  shows "mset h = add_mset (h ! i) (mset (heap_pop i h))" "set (heap_pop i h) \<subseteq> set h" "length (heap_pop i h) = length h - 1"
proof -
  have "h = take i h @ h ! i # drop (Suc i) h" using assms by (rule id_take_nth_drop)
  then have "mset h = mset (take i h @ h ! i # drop (Suc i) h)" by (rule arg_cong)
  then show "mset h = add_mset (h ! i) (mset (heap_pop i h))" by (simp add: heap_pop_def)
  show "set (heap_pop i h) \<subseteq> set h" using set_take_subset[of i h] set_drop_subset[of "Suc i" h] by (auto simp: heap_pop_def)
  show "length (heap_pop i h) = length h - 1" using assms by (simp add: heap_pop_def)
qed

text \<open>The heap holds the flows received, apart from some with no more packets than any it holds.\<close>

definition top_inv :: "nat \<Rightarrow> flow list \<Rightarrow> flow list \<Rightarrow> bool" where
  "top_inv n fs h \<longleftrightarrow> length h = min n (length fs) \<and>
     (\<exists>D. mset fs = mset h + mset D \<and> (\<forall>d \<in> set D. \<forall>f \<in> set h. fl_packets d \<le> fl_packets f))"

lemma top_inv_receive:
  assumes "top_pick pick" and "top_inv n fs (tn_heap t)" and "unat (tn_len t) = n" and "0 < n"
  shows "\<exists>h. top_n_receive pick (Flow_Msg f) index t = (t\<lparr>tn_heap := h\<rparr>, [], Inr ()) \<and> top_inv n (fs @ [f]) h"
proof -
  let ?h = "tn_heap t" and ?i = "pick (tn_heap t)"
  obtain D where D: "mset fs = mset ?h + mset D" "\<And>d g. d \<in> set D \<Longrightarrow> g \<in> set ?h \<Longrightarrow> fl_packets d \<le> fl_packets g"
    and len: "length ?h = min n (length fs)" using assms(2) by (auto simp: top_inv_def)
  have size: "length fs = length ?h + length D" using arg_cong[OF D(1), of size] by simp
  show ?thesis
  proof (cases "length ?h < n")
    case True
    then have "length ?h = length fs" using len by linarith
    then have "D = []" using size by simp
    then have "mset (fs @ [f]) = mset (f # ?h) + mset []" using D(1) by simp
    moreover have "length (f # ?h) = min n (length (fs @ [f]))" using True len by simp
    ultimately have "top_inv n (fs @ [f]) (f # ?h)" unfolding top_inv_def by (metis empty_iff empty_set)
    with True assms(3) show ?thesis by (intro exI[of _ "f # ?h"]) (simp add: top_n_receive_def)
  next
    case False
    then have hn: "length ?h = n" "n \<le> length fs" using len by linarith+
    then have ne: "?h \<noteq> []" using assms(4) by auto
    have i: "?i < length ?h" and least: "\<And>g. g \<in> set ?h \<Longrightarrow> fl_packets (?h ! ?i) \<le> fl_packets g"
      using assms(1) ne by (auto simp: top_pick_def)
    show ?thesis
    proof (cases "fl_packets f > fl_packets (?h ! ?i)")
      case True
      note pop = heap_pop_mset[OF i]
      let ?h' = "f # heap_pop ?i ?h" and ?D = "?h ! ?i # D"
      have "mset (fs @ [f]) = mset ?h' + mset ?D" using D(1) pop(1) by simp
      moreover have "fl_packets d \<le> fl_packets g" if "d \<in> set ?D" "g \<in> set ?h'" for d g
      proof -
        have "fl_packets d \<le> fl_packets (?h ! ?i)" using that(1) D(2)[of d "?h ! ?i"] i by auto
        also have "\<dots> \<le> fl_packets g" using that(2) True pop(2) least by auto
        finally show ?thesis .
      qed
      moreover have "length ?h' = min n (length (fs @ [f]))" using pop(3) hn assms(4) by simp
      ultimately have "top_inv n (fs @ [f]) ?h'" unfolding top_inv_def by blast
      with True ne False assms(3) show ?thesis by (intro exI[of _ ?h']) (simp add: top_n_receive_def Let_def)
    next
      case False': False
      have "fl_packets d \<le> fl_packets g" if "d \<in> set (f # D)" "g \<in> set ?h" for d g
        using that D(2)[of d g] False' least[of g] by auto
      moreover have "mset (fs @ [f]) = mset ?h + mset (f # D)" "length ?h = min n (length (fs @ [f]))" using D(1) hn by simp_all
      ultimately have "top_inv n (fs @ [f]) ?h" unfolding top_inv_def by blast
      with False' ne False assms(3) show ?thesis by (intro exI[of _ ?h]) (simp add: top_n_receive_def)
    qed
  qed
qed

fun top_n_run :: "(flow list \<Rightarrow> nat) \<Rightarrow> flow list \<Rightarrow> top_n \<Rightarrow> top_n" where
  "top_n_run pick [] t = t"
| "top_n_run pick (f # fs) t = top_n_run pick fs (fst (top_n_receive pick (Flow_Msg f) 0 t))"

lemma top_n_run_inv:
  assumes "top_pick pick" and "top_inv n gs (tn_heap t)" and "unat (tn_len t) = n" and "0 < n"
  shows "top_inv n (gs @ fs) (tn_heap (top_n_run pick fs t))"
  using assms(2,3)
proof (induction fs arbitrary: gs t)
  case (Cons f fs)
  obtain h where h: "top_n_receive pick (Flow_Msg f) 0 t = (t\<lparr>tn_heap := h\<rparr>, [], Inr ())" "top_inv n (gs @ [f]) h"
    using top_inv_receive[OF assms(1) Cons.prems assms(4)] by blast
  from Cons.IH[of "gs @ [f]" "t\<lparr>tn_heap := h\<rparr>"] h Cons.prems show ?case by simp
qed simp

lemma top_n_run_frame: "tn_len (top_n_run pick fs t) = tn_len t" "tn_msecs (top_n_run pick fs t) = tn_msecs t"
  by (induction fs arbitrary: t) (simp_all add: top_n_receive_def Let_def)

fun sent_packets :: "(int \<times> net_msg) list \<Rightarrow> u64 list" where
  "sent_packets [] = []"
| "sent_packets ((g, Flow_Msg f) # xs) = fl_packets f # sent_packets xs"
| "sent_packets (x # xs) = sent_packets xs"

lemma top_n_drain_sorted:
  assumes "top_pick pick" and "length h = k"
  shows "\<exists>sent. top_n_drain k pick h = (sent, []) \<and> length sent = k \<and> sent_packets sent = sort (map fl_packets h)"
  using assms(2)
proof (induction k arbitrary: h)
  case (Suc k)
  let ?i = "pick h"
  have ne: "h \<noteq> []" using Suc.prems by auto
  have i: "?i < length h" and least: "\<And>g. g \<in> set h \<Longrightarrow> fl_packets (h ! ?i) \<le> fl_packets g"
    using assms(1) ne by (auto simp: top_pick_def)
  note pop = heap_pop_mset[OF i]
  obtain sent where s: "top_n_drain k pick (heap_pop ?i h) = (sent, [])" "length sent = k"
    "sent_packets sent = sort (map fl_packets (heap_pop ?i h))"
    using Suc.IH[of "heap_pop ?i h"] pop(3) Suc.prems by auto
  have "sort (map fl_packets h) = fl_packets (h ! ?i) # sort (map fl_packets (heap_pop ?i h))"
  proof (rule properties_for_sort)
    show "mset (fl_packets (h ! ?i) # sort (map fl_packets (heap_pop ?i h))) = mset (map fl_packets h)" using pop(1) by simp
    show "sorted (fl_packets (h ! ?i) # sort (map fl_packets (heap_pop ?i h)))" using least pop(2) by auto
  qed
  with ne s show ?case by simp
qed simp

text \<open>
  The selector keeps the flows with the most packets: at the end of a period it sends, in increasing order, the
  packet counts of the \<open>n\<close> largest flows received in it, or of all of them if there were fewer, and starts afresh.
\<close>
theorem top_n_correct:
  assumes "top_pick pick" and "tn_heap t = []" and "0 < tn_len t"
  shows "\<exists>sent. top_n_timer pick (top_n_run pick fs t) = (top_n_run pick [] t, sent, Inr ()) \<and>
    sent_packets sent = drop (length fs - unat (tn_len t)) (sort (map fl_packets fs))"
proof -
  let ?n = "unat (tn_len t)" and ?t = "top_n_run pick fs t"
  have n: "0 < ?n" using assms(3) by (simp add: word_less_nat_alt)
  have "top_inv ?n [] (tn_heap t)" using assms(2) by (simp add: top_inv_def)
  then have inv: "top_inv ?n fs (tn_heap ?t)" using top_n_run_inv[OF assms(1), of ?n "[]" t fs] n by simp
  obtain D where D: "mset fs = mset (tn_heap ?t) + mset D" "\<forall>d \<in> set D. \<forall>f \<in> set (tn_heap ?t). fl_packets d \<le> fl_packets f"
    and len: "length (tn_heap ?t) = min ?n (length fs)" using inv by (auto simp: top_inv_def)
  have size: "length D = length fs - ?n" using arg_cong[OF D(1), of size] len by simp
  have "sort (map fl_packets fs) = sort (map fl_packets D) @ sort (map fl_packets (tn_heap ?t))"
    by (rule properties_for_sort) (use D in \<open>auto simp: sorted_append\<close>)
  then have "drop (length fs - ?n) (sort (map fl_packets fs)) = sort (map fl_packets (tn_heap ?t))" using size by simp
  moreover have "?t\<lparr>tn_heap := []\<rparr> = t" using assms(2) top_n_run_frame[of pick fs t] by (intro top_n.equality) simp_all
  ultimately show ?thesis using top_n_drain_sorted[OF assms(1) refl, of "tn_heap ?t"] by (auto simp: top_n_timer_def)
qed

text \<open>The first flow with the fewest packets.\<close>

fun first_least :: "flow list \<Rightarrow> nat" where
  "first_least [] = 0"
| "first_least [f] = 0"
| "first_least (f # g # h) = (let i = first_least (g # h) in if fl_packets ((g # h) ! i) < fl_packets f then Suc i else 0)"

lemma first_least_pick: "top_pick first_least"
proof -
  have "first_least h < length h \<and> (\<forall>f \<in> set h. fl_packets (h ! first_least h) \<le> fl_packets f)" if "h \<noteq> []" for h
    using that
  proof (induction h rule: first_least.induct)
    case (3 f g h)
    let ?i = "first_least (g # h)"
    have IH: "?i < length (g # h)" "\<forall>x \<in> set (g # h). fl_packets ((g # h) ! ?i) \<le> fl_packets x" using 3 by auto
    show ?case
    proof (cases "fl_packets ((g # h) ! ?i) < fl_packets f")
      case True
      with IH show ?thesis by (auto simp: Let_def)
    next
      case False
      then have "fl_packets f \<le> fl_packets x" if "x \<in> set (f # g # h)" for x using IH(2) that by auto
      with False show ?thesis by (simp add: Let_def)
    qed
  qed simp_all
  then show ?thesis by (simp add: top_pick_def)
qed

definition sized_flow :: "u64 \<Rightarrow> flow" where
  "sized_flow n = (flow_new flow_key_0)\<lparr>fl_packets := n\<rparr>"

theorem top_n_correct_witness:
  "top_pick first_least \<and>
   (\<exists>sent. top_n_timer first_least (top_n_run first_least (map sized_flow [5, 1, 9, 7]) (top_n_new\<lparr>tn_len := 2\<rparr>)) =
       (top_n_new\<lparr>tn_len := 2\<rparr>, sent, Inr ()) \<and> sent_packets sent = [7, 9])"
proof -
  have "drop (length (map sized_flow [5, 1, 9, 7]) - unat (2 :: u32)) (sort (map fl_packets (map sized_flow [5, 1, 9, 7]))) = [7, 9]"
    by (simp add: sized_flow_def)
  then show ?thesis using first_least_pick
      top_n_correct[OF first_least_pick, of "top_n_new\<lparr>tn_len := 2\<rparr>" "map sized_flow [5, 1, 9, 7]"] by (simp add: top_n_new_def)
qed

subsection \<open>The periodic meter\<close>

definition held :: "(flow \<Rightarrow> u64) \<Rightarrow> flow_key \<Rightarrow> period_meter \<Rightarrow> u64" where
  "held mu k pm = (case pm_table pm k of None \<Rightarrow> 0 | Some f \<Rightarrow> mu f)"

fun sent_amount :: "(flow \<Rightarrow> u64) \<Rightarrow> flow_key \<Rightarrow> (int \<times> net_msg) list \<Rightarrow> u64" where
  "sent_amount mu k [] = 0"
| "sent_amount mu k ((g, Flow_Msg f) # xs) = (if fl_key f = k then mu f else 0) + sent_amount mu k xs"
| "sent_amount mu k (x # xs) = sent_amount mu k xs"

text \<open>The events of a run; a timer event comes with the order in which the table is walked.\<close>

datatype pm_event = Pm_Packet u64 packet | Pm_Timer "flow_key list"

fun pm_step :: "pm_event \<Rightarrow> period_meter \<Rightarrow> (net_msg, period_meter) method_result" where
  "pm_step (Pm_Packet now p) pm = period_meter_receive now (Packet_Msg p) 0 pm"
| "pm_step (Pm_Timer ks) pm = period_meter_timer ks pm"

fun pm_run :: "pm_event list \<Rightarrow> period_meter \<Rightarrow> (net_msg, period_meter) method_result" where
  "pm_run [] pm = (pm, [], Inr ())"
| "pm_run (e # es) pm =
     (case pm_step e pm of
        (pm1, sent, Inl x) \<Rightarrow> (pm1, sent, Inl x)
      | (pm1, sent, Inr _) \<Rightarrow> (case pm_run es pm1 of (pm2, sent2, r) \<Rightarrow> (pm2, sent @ sent2, r)))"

fun pm_events_ok :: "pm_event list \<Rightarrow> period_meter \<Rightarrow> bool" where
  "pm_events_ok [] pm \<longleftrightarrow> True"
| "pm_events_ok (Pm_Packet now p # es) pm \<longleftrightarrow> pkt_ok p \<and> pm_events_ok es (fst (pm_step (Pm_Packet now p) pm))"
| "pm_events_ok (Pm_Timer ks # es) pm \<longleftrightarrow>
     distinct ks \<and> set ks = dom (pm_table pm) \<and> pm_events_ok es (fst (pm_step (Pm_Timer ks) pm))"

fun pm_weight :: "(packet \<Rightarrow> u64) \<Rightarrow> flow_key \<Rightarrow> pm_event \<Rightarrow> u64" where
  "pm_weight w k (Pm_Packet now p) = (if val pkt_key p = Inr k then w p else 0)"
| "pm_weight w k (Pm_Timer ks) = 0"

definition pm_ok :: "period_meter \<Rightarrow> bool" where
  "pm_ok pm \<longleftrightarrow> (\<forall>k f. pm_table pm k = Some f \<longrightarrow> fl_key f = k)"

lemma sent_amount_append: "sent_amount mu k (xs @ ys) = sent_amount mu k xs + sent_amount mu k ys"
  by (induction mu k xs rule: sent_amount.induct) (simp_all add: ac_simps)

lemma sent_amount_walk:
  assumes "pm_ok pm" and "distinct ks"
  shows "sent_amount mu k (List.map_filter (\<lambda>k. map_option (\<lambda>f. (0, Flow_Msg f)) (pm_table pm k)) ks) = (if k \<in> set ks then held mu k pm else 0)"
  using assms(2)
proof (induction ks)
  case (Cons j ks)
  show ?case
  proof (cases "pm_table pm j")
    case None
    with Cons show ?thesis by (auto simp: List.map_filter_simps held_def)
  next
    case (Some f)
    then have "fl_key f = j" using assms(1) by (simp add: pm_ok_def)
    with Cons Some show ?thesis by (auto simp: List.map_filter_simps held_def)
  qed
qed (simp add: List.map_filter_simps)

context flow_measure
begin

lemma pm_step_conserves:
  assumes "pm_ok pm" and "pm_events_ok (e # es) pm" and "pm_step e pm = (pm', sent, r)"
  shows "r = Inr () \<and> pm_ok pm' \<and> pm_events_ok es pm' \<and> held mu k pm' + sent_amount mu k sent = held mu k pm + pm_weight w k e"
proof (cases e)
  case (Pm_Packet now p)
  have "pkt_ok p" using assms(2) Pm_Packet by simp
  then obtain j where j: "val pkt_key p = Inr j" using val_key by blast
  define f where "f = (case pm_table pm j of None \<Rightarrow> flow_new j | Some f \<Rightarrow> f)"
  have f: "fl_key f = j" "mu f = held mu j pm"
    using assms(1) by (auto simp: f_def held_def pm_ok_def mu_new split: option.splits)
  have "pm' = pm\<lparr>pm_table := (pm_table pm)(j \<mapsto> count_packet False now p f)\<rparr>" "sent = []" "r = Inr ()"
    using assms(3) Pm_Packet j by (simp_all add: period_meter_receive_def f_def)
  with assms Pm_Packet j f show ?thesis by (auto simp: pm_ok_def held_def mu_count)
next
  case (Pm_Timer ks)
  then have "distinct ks" "set ks = dom (pm_table pm)" using assms(2) by simp_all
  with sent_amount_walk[OF assms(1), of ks mu k] assms(2,3) Pm_Timer show ?thesis
    by (auto simp: period_meter_timer_def pm_ok_def held_def split: option.splits)
qed

lemma pm_run_conserves:
  assumes "pm_ok pm" and "pm_events_ok es pm"
  shows "\<exists>pm' sent. pm_run es pm = (pm', sent, Inr ()) \<and> pm_ok pm' \<and>
    (\<forall>k. held mu k pm' + sent_amount mu k sent = held mu k pm + sum_list (map (pm_weight w k) es))"
  using assms
proof (induction es arbitrary: pm)
  case (Cons e es)
  obtain pm1 s1 r where s: "pm_step e pm = (pm1, s1, r)" by (metis prod_cases3)
  note c = pm_step_conserves[OF Cons.prems s]
  obtain pm2 s2 where r: "pm_run es pm1 = (pm2, s2, Inr ())" "pm_ok pm2"
    "\<And>k. held mu k pm2 + sent_amount mu k s2 = held mu k pm1 + sum_list (map (pm_weight w k) es)"
    using Cons.IH[of pm1] c by blast
  have "held mu k pm2 + sent_amount mu k (s1 @ s2) = held mu k pm + sum_list (map (pm_weight w k) (e # es))" for k
  proof -
    have "held mu k pm2 + sent_amount mu k (s1 @ s2) = (held mu k pm2 + sent_amount mu k s2) + sent_amount mu k s1"
      by (simp add: sent_amount_append ac_simps)
    also have "\<dots> = (held mu k pm1 + sent_amount mu k s1) + sum_list (map (pm_weight w k) es)" unfolding r(3) by (simp add: ac_simps)
    finally show ?thesis using c[of k] by (simp add: ac_simps)
  qed
  with s c r show ?case by simp
qed simp

end

text \<open>
  The periodic meter loses nothing either: over any run of packets and timer events, whatever the order in which
  each timer event walks the table, the bytes (and packets) held and sent for a flow key are those received with it.
\<close>
theorem period_meter_conserves:
  assumes "pm_events_ok es period_meter_new"
  shows "\<exists>pm' sent. pm_run es period_meter_new = (pm', sent, Inr ()) \<and>
    (\<forall>k. held fl_bytes k pm' + sent_amount fl_bytes k sent = sum_list (map (pm_weight m_length k) es) \<and>
         held fl_packets k pm' + sent_amount fl_packets k sent = sum_list (map (pm_weight (\<lambda>_. 1) k) es))"
proof -
  have "pm_ok period_meter_new" "held mu k period_meter_new = 0" for mu k by (simp_all add: pm_ok_def held_def period_meter_new_def)
  with bytes.pm_run_conserves[of period_meter_new es] packets.pm_run_conserves[of period_meter_new es] assms show ?thesis by fastforce
qed

theorem period_meter_conserves_witness:
  "\<exists>pm' sent. pm_run [Pm_Packet 5 web_packet, Pm_Packet 9 web_packet, Pm_Timer [m_key web_packet]] period_meter_new = (pm', sent, Inr ()) \<and>
     held fl_packets (m_key web_packet) pm' + sent_amount fl_packets (m_key web_packet) sent = 2"
proof -
  let ?es = "[Pm_Packet 5 web_packet, Pm_Packet 9 web_packet, Pm_Timer [m_key web_packet]]"
  have key: "val pkt_key web_packet = Inr (m_key web_packet)" using accessor_values[OF web_packet_sees] by simp
  moreover have "pkt_ok web_packet" using web_packet_sees by (simp add: sees_def)
  ultimately have "pm_events_ok ?es period_meter_new" by (simp add: period_meter_receive_def period_meter_new_def)
  from period_meter_conserves[OF this] key show ?thesis by fastforce
qed

subsection \<open>Counters after a reset\<close>

text \<open>
  The reset variable clears the counts but not the counts of the previous period, so that the first rate after a
  reset is computed from a difference that wraps around.
\<close>
lemma counter_reset_wraps:
  assumes "ct_reset c = 1" and "1 < ct_pkt_cnt_prev c" and "ct_pkt_cnt_prev c \<le> 2 ^ 63"
  shows "2 ^ 63 \<le> fst (fst (counter_timer (fst (counter_receive (Packet_Msg p) index c))))"
proof -
  let ?v = "ct_pkt_cnt_prev c"
  have "fst (fst (counter_timer (fst (counter_receive (Packet_Msg p) index c)))) = 1 - ?v"
    using assms(1) by (simp add: counter_receive_def counter_timer_def counter_check_reset_def Let_def)
  moreover have "uint (1 - ?v) = 2 ^ 64 + 1 - uint ?v"
  proof -
    have "1 < uint ?v" "uint ?v \<le> 2 ^ 63" using assms(2,3) by (simp_all add: word_less_def word_le_def)
    then show ?thesis by (simp add: uint_sub_if' uint_1)
  qed
  moreover have "uint ?v \<le> 2 ^ 63" using assms(3) by (simp add: word_le_def)
  ultimately show ?thesis by (simp add: word_le_def)
qed

end
