(* ===== verification/Bloom_Filter.thy ===== *)
theory Bloom_Filter
  imports Bm_Prelude
begin

unbundle bit_operations_syntax

text \<open>
  Multiple hashing and Bloom filters (\<open>lib/bloom/khash\<close>, \<open>bloom\<close>, \<open>bloompair\<close>). The
  hash function (SHA-1, five words for a string of bytes) is a parameter, and so is the floating-point
  threshold that decides when a pair of filters is swapped.
\<close>

subsection \<open>Multiple hashing\<close>

definition bitmask :: "nat \<Rightarrow> u32 res" where
  "bitmask b =
     (if 32 < b then Inl Assert_Fail
      else if b = 0 then Inr 0 else if b = 32 then Inr 0xFFFFFFFF else Inr ((push_bit b 1 - 1) AND 0xFFFFFFFF))"

text \<open>The bytes of the digest, each word from its low end.\<close>

definition copy_sha :: "u32 list \<Rightarrow> byte list" where
  "copy_sha vin = map (\<lambda>j. ucast (drop_bit (j mod 4 * 8) (vin ! (j div 4)) AND 0xFF)) [0..<20]"

record khash_conf =
  kc_nhash :: nat
  kc_shash :: nat
  kc_norep :: bool

definition khash_new :: "nat \<Rightarrow> nat \<Rightarrow> bool \<Rightarrow> khash_conf res" where
  "khash_new nh sh norep =
     (if nh < 1 \<or> sh < 1 \<or> \<not> sh < 32 \<or> norep \<and> 2 ^ sh < nh then Inl Assert_Fail
      else Inr \<lparr>kc_nhash = nh, kc_shash = sh, kc_norep = norep\<rparr>)"

text \<open>The variables of the loop; the digests are \<open>res[1..nhash]\<close>.\<close>

record khash_state =
  kh_msgdig :: "u32 list"
  kh_md :: "byte list"
  kh_ptr :: int
  kh_k :: nat
  kh_res :: "u32 list"

function norep_loop :: "u32 list \<Rightarrow> nat \<Rightarrow> nat \<Rightarrow> nat" where
  "norep_loop res i k = (if i < k then norep_loop res (i + 1) (if res ! i = res ! k then k - 1 else k) else k)"
  by auto
termination by (relation "measure (\<lambda>(res, i, k). k - i)") auto

declare norep_loop.simps [simp del]

definition khash_step :: "(byte list \<Rightarrow> u32 list) \<Rightarrow> khash_conf \<Rightarrow> khash_state \<Rightarrow> khash_state res" where
  "khash_step sha c s =
     (let shash = int (kc_shash c);
          s_blk = kh_ptr s div 32;
          s_bit = nat (kh_ptr s mod 32);
          carry = int s_bit + shash - 32
      in
       bindE (bitmask (kc_shash c)) (\<lambda>msk.
        let lo = drop_bit s_bit (kh_msgdig s ! nat s_blk) AND msk;
            (msgdig, md, ptr, blk) =
              (if 0 \<le> carry \<and> s_blk = 4 then (sha (kh_md s), copy_sha (sha (kh_md s)), kh_ptr s - 160, - 1)
               else (kh_msgdig s, kh_md s, kh_ptr s, s_blk))
        in
         bindE (if 0 < carry
                then bindE (bitmask (nat carry)) (\<lambda>msk2. Inr (lo OR push_bit (nat (shash - carry)) (msgdig ! nat (blk + 1) AND msk2)))
                else Inr lo) (\<lambda>r.
          let ptr = ptr + shash;
              res = (kh_res s)[kh_k s := r];
              k = (if kc_norep c then norep_loop res 1 (kh_k s) else kh_k s)
          in if 0 \<le> ptr \<and> ptr \<le> 160
             then Inr \<lparr>kh_msgdig = msgdig, kh_md = md, kh_ptr = ptr, kh_k = k + 1, kh_res = res\<rparr>
             else Inl Assert_Fail)))"

partial_function (option) khash_loop ::
  "(byte list \<Rightarrow> u32 list) \<Rightarrow> khash_conf \<Rightarrow> khash_state \<Rightarrow> u32 list res option" where
  "khash_loop sha c s =
     (if kh_k s \<le> kc_nhash c
      then (case khash_step sha c s of Inl e \<Rightarrow> Some (Inl e) | Inr s' \<Rightarrow> khash_loop sha c s')
      else Some (Inr (kh_res s)))"

text \<open>\<open>res\<close> is what the output vector held before.\<close>

definition khash_compute :: "(byte list \<Rightarrow> u32 list) \<Rightarrow> khash_conf \<Rightarrow> u32 list \<Rightarrow> byte list \<Rightarrow> u32 list res option" where
  "khash_compute sha c res inp =
     (if inp = [] then Some (Inl Assert_Fail)
      else khash_loop sha c \<lparr>kh_msgdig = sha inp, kh_md = copy_sha (sha inp), kh_ptr = 0, kh_k = 1, kh_res = res\<rparr>)"

subsection \<open>The digests are consecutive pieces of a stream of bits\<close>

text \<open>The chain of digests, the stream of their bits, and the piece of \<open>sh\<close> bits at position \<open>t * sh\<close>.\<close>

fun chain :: "(byte list \<Rightarrow> u32 list) \<Rightarrow> byte list \<Rightarrow> nat \<Rightarrow> u32 list" where
  "chain sha inp 0 = sha inp"
| "chain sha inp (Suc j) = sha (copy_sha (chain sha inp j))"

definition stream :: "(byte list \<Rightarrow> u32 list) \<Rightarrow> byte list \<Rightarrow> nat \<Rightarrow> bool" where
  "stream sha inp n = bit (chain sha inp (n div 160) ! (n mod 160 div 32)) (n mod 32)"

definition piece :: "(byte list \<Rightarrow> u32 list) \<Rightarrow> byte list \<Rightarrow> nat \<Rightarrow> nat \<Rightarrow> u32" where
  "piece sha inp sh t = horner_sum of_bool 2 (map (\<lambda>i. stream sha inp (t * sh + i)) [0..<sh])"

lemma bit_piece:
  assumes "sh < 32"
  shows "bit (piece sha inp sh t) i \<longleftrightarrow> i < sh \<and> stream sha inp (t * sh + i)"
  using assms by (auto simp: piece_def bit_horner_sum_bit_word_iff)

lemma bitmask_bit:
  assumes "b < 32"
  obtains m where "bitmask b = Inr m" "\<And>i. bit m i \<longleftrightarrow> i < b"
proof -
  have "(0xFFFFFFFF :: u32) = - 1" by simp
  then have "(push_bit b 1 - 1) AND 0xFFFFFFFF = (mask b :: u32)" by (simp only: and_minus_numerals bit.conj_one_right mask_eq_exp_minus_1 push_bit_eq_mult mult_1)
  with assms have "bitmask b = Inr (mask b)" by (simp add: bitmask_def)
  moreover have "bit (mask b :: u32) i \<longleftrightarrow> i < b" for i using assms by (auto simp: bit_mask_iff)
  ultimately show ?thesis by (rule that)
qed

text \<open>The words a piece is read from.\<close>

lemma stream_word:
  assumes "n = 160 * j + p" and "p < 160"
  shows "p mod 32 + i < 32 \<Longrightarrow> stream sha inp (n + i) = bit (chain sha inp j ! (p div 32)) (p mod 32 + i)"
    and "32 \<le> p mod 32 + i \<Longrightarrow> p mod 32 + i < 64 \<Longrightarrow> stream sha inp (n + i) =
      bit (if p div 32 = 4 then chain sha inp (Suc j) ! 0 else chain sha inp j ! (p div 32 + 1)) (p mod 32 + i - 32)"
proof -
  have p: "p = 32 * (p div 32) + p mod 32" by simp
  have b: "p div 32 < 5" using assms(2) by simp
  { assume i: "p mod 32 + i < 32"
    have "p + i < 160" using p b i by linarith
    then have "(n + i) div 160 = j" "(n + i) mod 160 = p + i" using assms(1) by (simp_all add: add.assoc)
    moreover have "(p + i) div 32 = p div 32" "(p + i) mod 32 = p mod 32 + i"
    proof -
      have eq: "p + i = 32 * (p div 32) + (p mod 32 + i)" using p by simp
      have "(32 * d + x) div 32 = d \<and> (32 * d + x) mod 32 = x" if "x < 32" for d x :: nat using that by simp
      from this[OF i, of "p div 32", folded eq] show "(p + i) div 32 = p div 32" "(p + i) mod 32 = p mod 32 + i" by blast+
    qed
    moreover have "(n + i) mod 32 = (p + i) mod 32"
    proof -
      have "n + i = 32 * (5 * j) + (p + i)" using assms(1) by simp
      then show ?thesis by (simp only: mod_mult_self4)
    qed
    ultimately show "stream sha inp (n + i) = bit (chain sha inp j ! (p div 32)) (p mod 32 + i)" by (simp add: stream_def) }
  { assume i: "32 \<le> p mod 32 + i" "p mod 32 + i < 64"
    define q where "q = p mod 32 + i - 32"
    have q: "q < 32" "p + i = 32 * (p div 32 + 1) + q" using i p by (simp_all add: q_def)
    have "(n + i) mod 32 = q"
    proof -
      have "n + i = 32 * (5 * j + (p div 32 + 1)) + q" using assms(1) q(2) by simp
      then show ?thesis using q(1) by (simp only: mod_mult_self4 mod_less)
    qed
    moreover have "(n + i) div 160 = (if p div 32 = 4 then Suc j else j) \<and> (n + i) mod 160 div 32 = (if p div 32 = 4 then 0 else p div 32 + 1)"
    proof (cases "p div 32 = 4")
      case True
      then have "n + i = 160 * Suc j + q" using assms(1) q by simp
      then have "(n + i) div 160 = Suc j" "(n + i) mod 160 = q" using q(1) by (simp_all only: div_mult_self4 mod_mult_self4) simp_all
      with True q(1) show ?thesis by simp
    next
      case False
      then have "p div 32 \<le> 3" using b by simp
      moreover have "x < 160" if "x = 32 * (d + 1) + q" "d \<le> 3" for x d using that q(1) by simp
      ultimately have "p + i < 160" using q(2) by blast
      then have "(n + i) div 160 = j" "(n + i) mod 160 = p + i" using assms(1) by (simp_all add: add.assoc)
      with False q show ?thesis by simp
    qed
    ultimately show "stream sha inp (n + i) =
      bit (if p div 32 = 4 then chain sha inp (Suc j) ! 0 else chain sha inp j ! (p div 32 + 1)) (p mod 32 + i - 32)"
      by (simp add: stream_def q_def) }
qed

text \<open>The state after \<open>t\<close> turns of the loop.\<close>

definition khash_inv :: "(byte list \<Rightarrow> u32 list) \<Rightarrow> nat \<Rightarrow> byte list \<Rightarrow> nat \<Rightarrow> khash_state \<Rightarrow> bool" where
  "khash_inv sha sh inp t s \<longleftrightarrow> (\<exists>j p. kh_msgdig s = chain sha inp j \<and> kh_md s = copy_sha (chain sha inp j) \<and>
     kh_ptr s = int p \<and> p < 160 \<and> t * sh = 160 * j + p)"

lemma piece_within:
  assumes "t * sh = 160 * j + p" and "p < 160" and "sh < 32" and "p mod 32 + sh \<le> 32" and "\<And>i. bit m i \<longleftrightarrow> i < sh"
  shows "drop_bit (p mod 32) (chain sha inp j ! (p div 32)) AND m = piece sha inp sh t"
proof (rule bit_eqI)
  fix i
  show "bit (drop_bit (p mod 32) (chain sha inp j ! (p div 32)) AND m) i = bit (piece sha inp sh t) i"
    using assms(4) stream_word(1)[OF assms(1,2), of i sha inp] bit_piece[OF assms(3), of sha inp t i] assms(5)[of i]
    by (auto simp: bit_and_iff bit_drop_bit_eq)
qed

lemma piece_across:
  assumes "t * sh = 160 * j + p" and "p < 160" and "sh < 32" and "32 < p mod 32 + sh"
    and "\<And>i. bit m i \<longleftrightarrow> i < sh" and "\<And>i. bit m2 i \<longleftrightarrow> i < p mod 32 + sh - 32"
    and "hi = (if p div 32 = 4 then chain sha inp (Suc j) ! 0 else chain sha inp j ! (p div 32 + 1))"
  shows "drop_bit (p mod 32) (chain sha inp j ! (p div 32)) AND m OR push_bit (32 - p mod 32) (hi AND m2) = piece sha inp sh t"
proof (rule bit_eqI)
  fix i
  define b where "b = p mod 32"
  have b: "b < 32" by (simp add: b_def)
  note word = stream_word[OF assms(1,2), folded b_def]
  note m2 = assms(6)[folded b_def]
  show "bit (drop_bit (p mod 32) (chain sha inp j ! (p div 32)) AND m OR push_bit (32 - p mod 32) (hi AND m2)) i = bit (piece sha inp sh t) i"
    unfolding b_def[symmetric]
  proof (cases "b + i < 32")
    case True
    then show "bit (drop_bit b (chain sha inp j ! (p div 32)) AND m OR push_bit (32 - b) (hi AND m2)) i = bit (piece sha inp sh t) i"
      using word(1)[of i] bit_piece[OF assms(3), of sha inp t i] assms(5)[of i] by (auto simp: bit_simps)
  next
    case False
    have "\<not> bit (chain sha inp j ! (p div 32)) (b + i)" using False bit_imp_le_length[of "chain sha inp j ! (p div 32)" "b + i"] by auto
    then show "bit (drop_bit b (chain sha inp j ! (p div 32)) AND m OR push_bit (32 - b) (hi AND m2)) i = bit (piece sha inp sh t) i"
      using False word(2)[of i] bit_piece[OF assms(3), of sha inp t i] m2[of "i - (32 - b)"] b assms(3)
      by (auto simp: bit_simps assms(7) add.commute[of b i])
  qed
qed

text \<open>What a turn of the loop leaves, from what it reads.\<close>

definition khash_next :: "khash_conf \<Rightarrow> khash_state \<Rightarrow> u32 \<Rightarrow> u32 list \<Rightarrow> nat \<Rightarrow> khash_state" where
  "khash_next c s r dig p = \<lparr>kh_msgdig = dig, kh_md = copy_sha dig, kh_ptr = int p,
     kh_k = (if kc_norep c then norep_loop ((kh_res s)[kh_k s := r]) 1 (kh_k s) else kh_k s) + 1, kh_res = (kh_res s)[kh_k s := r]\<rparr>"

lemma khash_step_next:
  assumes "kh_msgdig s = chain sha inp j" "kh_md s = copy_sha (chain sha inp j)" "kh_ptr s = int p" "p < 160"
    "t * kc_shash c = 160 * j + p" and "1 \<le> kc_shash c" and "kc_shash c < 32"
  shows "khash_step sha c s = Inr (khash_next c s (piece sha inp (kc_shash c) t)
     (if p + kc_shash c < 160 then chain sha inp j else chain sha inp (Suc j)) ((p + kc_shash c) mod 160))"
proof -
  let ?sh = "kc_shash c"
  define b where "b = p mod 32"
  have idx: "kh_ptr s div 32 = int (p div 32)" "nat (kh_ptr s mod 32) = b" "p div 32 < 5" "b < 32" "p = 32 * (p div 32) + b"
    using assms(3,4) by (simp_all add: zdiv_int nat_mod_distrib b_def)
  have wrap: "p + ?sh < 160 \<longleftrightarrow> \<not> (32 \<le> b + ?sh \<and> p div 32 = 4)" using idx(3-5) assms(7) by linarith
  have le: "p + ?sh < 320" using assms(4,7) by simp
  obtain m where m: "bitmask ?sh = Inr m" "\<And>i. bit m i \<longleftrightarrow> i < ?sh" using bitmask_bit[OF assms(7)] by blast
  show ?thesis
  proof (cases "32 < b + ?sh")
    case False
    have "drop_bit b (chain sha inp j ! (p div 32)) AND m = piece sha inp ?sh t"
      using piece_within[OF assms(5,4,7) _ m(2)] False unfolding b_def by simp
    moreover have "(0 \<le> int b + int ?sh - 32 \<and> int (p div 32) = 4) \<longleftrightarrow> \<not> p + ?sh < 160" unfolding wrap by linarith
    ultimately show ?thesis using False m(1) idx assms(1-3) le unfolding khash_step_def khash_next_def Let_def
      by (cases "p + ?sh < 160") (simp_all add: le_mod_geq)
  next
    case True
    define carry where "carry = b + ?sh - 32"
    have c: "carry < 32" "int b + int ?sh - 32 = int carry" "nat (int ?sh - int carry) = 32 - b"
      using True assms(7) idx(4) by (simp_all add: carry_def)
    obtain m2 where m2: "bitmask carry = Inr m2" "\<And>i. bit m2 i \<longleftrightarrow> i < carry" using bitmask_bit[OF c(1)] by blast
    note r = piece_across[OF assms(5,4,7) _ m(2) _ refl, folded b_def, OF True m2(2)[unfolded carry_def]]
    show ?thesis using True r m(1) m2(1) idx assms(1-3) c le wrap unfolding khash_step_def khash_next_def Let_def
      by (cases "p div 32 = 4") (simp_all add: nat_add_distrib le_mod_geq)
  qed
qed

lemma khash_step_piece:
  assumes "khash_inv sha (kc_shash c) inp t s" and "1 \<le> kc_shash c" and "kc_shash c < 32"
  shows "\<exists>s'. khash_step sha c s = Inr s' \<and> khash_inv sha (kc_shash c) inp (Suc t) s' \<and>
    kh_res s' = (kh_res s)[kh_k s := piece sha inp (kc_shash c) t] \<and>
    kh_k s' = (if kc_norep c then norep_loop (kh_res s') 1 (kh_k s) else kh_k s) + 1"
proof -
  let ?sh = "kc_shash c"
  obtain j p where inv: "kh_msgdig s = chain sha inp j" "kh_md s = copy_sha (chain sha inp j)" "kh_ptr s = int p" "p < 160"
    "t * ?sh = 160 * j + p" using assms(1) by (auto simp: khash_inv_def)
  let ?s = "khash_next c s (piece sha inp ?sh t) (if p + ?sh < 160 then chain sha inp j else chain sha inp (Suc j)) ((p + ?sh) mod 160)"
  have "khash_inv sha ?sh inp (Suc t) ?s"
  proof (cases "p + ?sh < 160")
    case True
    then show ?thesis unfolding khash_inv_def by (intro exI[of _ j] exI[of _ "p + ?sh"]) (use inv(5) in \<open>simp add: khash_next_def\<close>)
  next
    case False
    then have "(p + ?sh) mod 160 = p + ?sh - 160" using inv(4) assms(3) by (simp add: le_mod_geq)
    with False show ?thesis unfolding khash_inv_def
      by (intro exI[of _ "Suc j"] exI[of _ "p + ?sh - 160"]) (use inv(4,5) assms(3) in \<open>simp add: khash_next_def\<close>)
  qed
  with khash_step_next[OF inv assms(2,3)] show ?thesis by (simp add: khash_next_def)
qed

subsection \<open>Repeated digests\<close>

lemma norep_loop_none:
  assumes "\<And>i'. i \<le> i' \<Longrightarrow> i' < k \<Longrightarrow> res ! i' \<noteq> res ! k"
  shows "norep_loop res i k = k"
  using assms
proof (induction res i k rule: norep_loop.induct)
  case (1 res i k)
  show ?case
  proof (cases "i < k")
    case True
    then have "res ! i \<noteq> res ! k" using "1.prems" by simp
    with True 1 show ?thesis by (subst norep_loop.simps) simp
  qed (simp add: norep_loop.simps)
qed

lemma norep_loop_distinct:
  assumes "\<And>a b. i \<le> a \<Longrightarrow> a < b \<Longrightarrow> b < k \<Longrightarrow> res ! a \<noteq> res ! b" and "k < length res"
  shows "norep_loop res i k = (if \<exists>i'. i \<le> i' \<and> i' < k \<and> res ! i' = res ! k then k - 1 else k)"
  using assms
proof (induction res i k rule: norep_loop.induct)
  case (1 res i k)
  show ?case
  proof (cases "i < k")
    case False
    then show ?thesis by (auto simp: norep_loop.simps)
  next
    case True
    show ?thesis
    proof (cases "res ! i = res ! k")
      case eq: True
      have "norep_loop res (i + 1) (k - 1) = k - 1" using "1.prems"(1) by (intro norep_loop_none) auto
      with True eq show ?thesis by (subst norep_loop.simps) auto
    next
      case False
      have "norep_loop res (i + 1) k = (if \<exists>i'. i + 1 \<le> i' \<and> i' < k \<and> res ! i' = res ! k then k - 1 else k)"
        using 1 True False by auto
      moreover have "(\<exists>i'. i \<le> i' \<and> i' < k \<and> res ! i' = res ! k) \<longleftrightarrow> (\<exists>i'. i + 1 \<le> i' \<and> i' < k \<and> res ! i' = res ! k)"
        using False by (metis Suc_eq_plus1 Suc_leI le_neq_implies_less le_trans le_add1)
      ultimately show ?thesis using True False by (subst norep_loop.simps) simp
    qed
  qed
qed

text \<open>The list without the elements that were there before, and what the loop has found after \<open>t\<close> turns.\<close>

definition firsts :: "'a list \<Rightarrow> 'a list" where
  "firsts xs = rev (remdups (rev xs))"

lemma firsts_simps [simp]: "firsts [] = []" "firsts (xs @ [x]) = (if x \<in> set xs then firsts xs else firsts xs @ [x])"
  "set (firsts xs) = set xs" "distinct (firsts xs)"
  by (simp_all add: firsts_def)

definition found :: "(byte list \<Rightarrow> u32 list) \<Rightarrow> khash_conf \<Rightarrow> byte list \<Rightarrow> nat \<Rightarrow> u32 list" where
  "found sha c inp t = (let ps = map (piece sha inp (kc_shash c)) [0..<t] in if kc_norep c then firsts ps else ps)"

lemma found_Suc: "found sha c inp (Suc t) =
    (if kc_norep c \<and> piece sha inp (kc_shash c) t \<in> set (found sha c inp t) then found sha c inp t else found sha c inp t @ [piece sha inp (kc_shash c) t])"
  by (auto simp: found_def Let_def)

definition loop_inv :: "(byte list \<Rightarrow> u32 list) \<Rightarrow> khash_conf \<Rightarrow> byte list \<Rightarrow> nat \<Rightarrow> khash_state \<Rightarrow> bool" where
  "loop_inv sha c inp t s \<longleftrightarrow> khash_inv sha (kc_shash c) inp t s \<and> length (kh_res s) = kc_nhash c + 1 \<and>
     kh_k s = length (found sha c inp t) + 1 \<and> kh_k s \<le> kc_nhash c + 1 \<and> take (kh_k s - 1) (tl (kh_res s)) = found sha c inp t"

lemma res_nth: "length res = Suc n \<Longrightarrow> take (k - 1) (tl res) = fs \<Longrightarrow> 1 \<le> i \<Longrightarrow> i < k \<Longrightarrow> k \<le> Suc n \<Longrightarrow> res ! i = fs ! (i - 1)"
  by (cases res) (auto simp: nth_Cons')

lemma shift_ex: "(\<exists>i'::nat. 1 \<le> i' \<and> i' < n + 1 \<and> P (i' - 1)) \<longleftrightarrow> (\<exists>i. i < n \<and> P i)"
proof
  assume "\<exists>i. i < n \<and> P i"
  then obtain i where "i < n" "P i" by blast
  then show "\<exists>i'. 1 \<le> i' \<and> i' < n + 1 \<and> P (i' - 1)" by (intro exI[of _ "i + 1"]) simp
next
  assume "\<exists>i'. 1 \<le> i' \<and> i' < n + 1 \<and> P (i' - 1)"
  then obtain i' where "1 \<le> i'" "i' < n + 1" "P (i' - 1)" by blast
  then show "\<exists>i. i < n \<and> P i" by (intro exI[of _ "i' - 1"]) auto
qed

lemma loop_inv_step:
  assumes "loop_inv sha c inp t s" and "1 \<le> kc_shash c" and "kc_shash c < 32" and "kh_k s \<le> kc_nhash c"
  shows "\<exists>s'. khash_step sha c s = Inr s' \<and> loop_inv sha c inp (Suc t) s'"
proof -
  let ?r = "piece sha inp (kc_shash c) t" and ?fs = "found sha c inp t" and ?k = "kh_k s"
  have inv: "khash_inv sha (kc_shash c) inp t s" "length (kh_res s) = kc_nhash c + 1" "?k = length ?fs + 1" "take (?k - 1) (tl (kh_res s)) = ?fs"
    using assms(1) by (auto simp: loop_inv_def)
  obtain s' where s': "khash_step sha c s = Inr s'" "khash_inv sha (kc_shash c) inp (Suc t) s'" "kh_res s' = (kh_res s)[?k := ?r]"
    "kh_k s' = (if kc_norep c then norep_loop (kh_res s') 1 ?k else ?k) + 1"
    using khash_step_piece[OF inv(1) assms(2,3)] by blast
  have len: "length (kh_res s') = kc_nhash c + 1" using s'(3) inv(2) by simp
  have old: "take (?k - 1) (tl (kh_res s')) = ?fs" using s'(3) inv by (cases "kh_res s") (auto simp: take_update_cancel)
  have new: "take ?k (tl (kh_res s')) = ?fs @ [?r]"
  proof -
    have "take (Suc (?k - 1)) (tl (kh_res s')) = take (?k - 1) (tl (kh_res s')) @ [tl (kh_res s') ! (?k - 1)]"
      using len inv(3) assms(4) by (intro take_Suc_conv_app_nth) simp
    moreover have "tl (kh_res s') ! (?k - 1) = kh_res s' ! ?k" using len inv(3) assms(4) by (simp add: nth_tl)
    moreover have "kh_res s' ! ?k = ?r" using s'(3) inv(2) assms(4) by simp
    ultimately show ?thesis using old inv(3) by simp
  qed
  have at: "kh_res s' ! i = ?fs ! (i - 1)" if "1 \<le> i" "i < ?k" for i
    using res_nth[of "kh_res s'" "kc_nhash c" ?k ?fs i] len old that assms(4) by simp
  have k': "kh_k s' = (if kc_norep c \<and> ?r \<in> set ?fs then ?k else ?k + 1)"
  proof (cases "kc_norep c")
    case True
    then have dist: "distinct ?fs" by (simp add: found_def Let_def)
    have "kh_res s' ! a \<noteq> kh_res s' ! b" if "1 \<le> a" "a < b" "b < ?k" for a b
      using at[of a] at[of b] that dist inv(3) by (simp add: nth_eq_iff_index_eq)
    then have "norep_loop (kh_res s') 1 ?k = (if \<exists>i'. 1 \<le> i' \<and> i' < ?k \<and> kh_res s' ! i' = kh_res s' ! ?k then ?k - 1 else ?k)"
      using len assms(4) by (intro norep_loop_distinct) auto
    moreover have "(\<exists>i'. 1 \<le> i' \<and> i' < ?k \<and> kh_res s' ! i' = kh_res s' ! ?k) \<longleftrightarrow> ?r \<in> set ?fs"
    proof -
      have "kh_res s' ! ?k = ?r" using s'(3) inv(2) assms(4) by simp
      moreover have "?r \<in> set ?fs \<longleftrightarrow> (\<exists>i'. 1 \<le> i' \<and> i' < ?k \<and> ?fs ! (i' - 1) = ?r)"
        unfolding in_set_conv_nth inv(3) by (rule shift_ex[symmetric])
      ultimately show ?thesis using at by metis
    qed
    ultimately show ?thesis using True s'(4) inv(3) by simp
  qed (use s'(4) in simp)
  show ?thesis
    by (intro exI[of _ s'] conjI s'(1)) (use s'(2) len old new k' inv(3) assms(4) in \<open>simp add: loop_inv_def found_Suc\<close>)
qed

lemma found_mono: "length (found sha c inp t) \<le> length (found sha c inp (Suc t))"
  by (simp add: found_Suc)

lemma khash_loop_result:
  assumes "loop_inv sha c inp t s" and "1 \<le> kc_shash c" and "kc_shash c < 32" and "kc_nhash c \<le> length (found sha c inp (t + d))"
  shows "\<exists>t' res. khash_loop sha c s = Some (Inr res) \<and> length res = kc_nhash c + 1 \<and> tl res = found sha c inp t'"
  using assms(1,4)
proof (induction d arbitrary: t s)
  case 0
  then have "kh_k s = kc_nhash c + 1" by (simp add: loop_inv_def)
  with 0(1) show ?case by (subst khash_loop.simps) (auto simp: loop_inv_def intro!: exI[of _ t])
next
  case (Suc d)
  show ?case
  proof (cases "kh_k s \<le> kc_nhash c")
    case True
    obtain s' where s': "khash_step sha c s = Inr s'" "loop_inv sha c inp (Suc t) s'"
      using loop_inv_step[OF Suc.prems(1) assms(2,3) True] by blast
    with Suc.IH[of "Suc t" s'] Suc.prems(2) True show ?thesis by (subst khash_loop.simps) simp
  next
    case False
    with Suc.prems(1) show ?thesis by (subst khash_loop.simps) (auto simp: loop_inv_def intro!: exI[of _ t])
  qed
qed

lemma length_firsts: "length (firsts xs) = card (set xs)"
  using distinct_card[of "firsts xs"] by simp

lemma piece_less:
  assumes "sh < 32"
  shows "unat (piece sha inp sh t) < 2 ^ sh"
proof -
  have "take_bit sh (piece sha inp sh t) = piece sha inp sh t"
    by (rule bit_eqI) (use bit_piece[OF assms, of sha inp t] in \<open>auto simp: bit_take_bit_iff\<close>)
  then have "unat (piece sha inp sh t) = take_bit sh (unat (piece sha inp sh t))" by (metis unsigned_take_bit_eq)
  then show ?thesis by (metis take_bit_nat_less_exp)
qed

lemma khash_compute_found:
  assumes "khash_new nh sh norep = Inr c" and "inp \<noteq> []" and "length res = nh + 1"
    and "norep \<longrightarrow> nh \<le> card (piece sha inp sh ` {..<T})"
  shows "\<exists>res' t. khash_compute sha c res inp = Some (Inr res') \<and> length res' = nh + 1 \<and> tl res' = found sha c inp t"
proof -
  have c: "kc_nhash c = nh" "kc_shash c = sh" "kc_norep c = norep" "1 \<le> sh" "sh < 32"
    using assms(1) by (auto simp: khash_new_def split: if_splits)
  let ?s = "\<lparr>kh_msgdig = sha inp, kh_md = copy_sha (sha inp), kh_ptr = 0, kh_k = 1, kh_res = res\<rparr>"
  have "khash_inv sha (kc_shash c) inp 0 ?s" unfolding khash_inv_def by (intro exI[of _ 0]) simp
  then have inv: "loop_inv sha c inp 0 ?s" using assms(3) c by (simp add: loop_inv_def found_def)
  have "length (found sha c inp T) = (if norep then card (piece sha inp sh ` {..<T}) else T)"
    by (simp add: found_def Let_def c length_firsts atLeast0LessThan)
  moreover have "\<not> norep \<Longrightarrow> nh \<le> length (found sha c inp nh)" by (simp add: found_def Let_def c)
  ultimately obtain d where "kc_nhash c \<le> length (found sha c inp (0 + d))" using assms(4) c(1) by (cases norep) (auto intro: that[of T] that[of nh])
  from khash_loop_result[OF inv _ _ this] c assms(2) show ?thesis by (fastforce simp: khash_compute_def)
qed

text \<open>
  C25: The digests are consecutive pieces, of \<open>shash\<close> bits each, of the stream of bits that hashing the input, and then
  each digest again, gives. Without the no-repetition flag they are the first \<open>nhash\<close> pieces; with it they are the first
  \<open>nhash\<close> different ones, and the loop ends as soon as the stream has that many. No assertion fails.
\<close>
theorem khash_compute_correct:
  assumes "khash_new nh sh norep = Inr c" and "inp \<noteq> []" and "length res = nh + 1"
    and "norep \<longrightarrow> nh \<le> card (piece sha inp sh ` {..<T})"
  shows "\<exists>res'. khash_compute sha c res inp = Some (Inr res') \<and> length res' = nh + 1 \<and>
    (\<forall>h \<in> set (tl res'). unat h < 2 ^ sh) \<and>
    (if norep then distinct (tl res') \<and> (\<exists>t. tl res' = firsts (map (piece sha inp sh) [0..<t]))
     else tl res' = map (piece sha inp sh) [0..<nh])"
proof -
  have c: "kc_shash c = sh" "kc_norep c = norep" "sh < 32" using assms(1) by (auto simp: khash_new_def split: if_splits)
  obtain res' t where r: "khash_compute sha c res inp = Some (Inr res')" "length res' = nh + 1" "tl res' = found sha c inp t"
    using khash_compute_found[OF assms] by blast
  have "set (tl res') = piece sha inp sh ` {0..<t}" using r(3) c by (auto simp: found_def Let_def)
  then have "\<forall>h \<in> set (tl res'). unat h < 2 ^ sh" using piece_less[OF c(3)] by auto
  moreover have "if norep then distinct (tl res') \<and> (\<exists>t. tl res' = firsts (map (piece sha inp sh) [0..<t]))
     else tl res' = map (piece sha inp sh) [0..<nh]"
  proof (cases norep)
    case True
    with r(3) c show ?thesis by (auto simp: found_def Let_def)
  next
    case False
    then have tl: "tl res' = map (piece sha inp sh) [0..<t]" using r(3) c by (simp add: found_def Let_def)
    have "length (tl res') = t" by (simp add: tl)
    then have "t = nh" using r(2) by simp
    with tl False show ?thesis by simp
  qed
  ultimately show ?thesis using r(1,2) by blast
qed

text \<open>A stand-in for the hash function whose first digests of eight bits are 1 and 2.\<close>

definition demo_sha :: "byte list \<Rightarrow> u32 list" where
  "demo_sha x = [0x0201, 0, 0, 0, 0]"

theorem khash_compute_correct_witness:
  "\<exists>res'. khash_compute demo_sha \<lparr>kc_nhash = 2, kc_shash = 8, kc_norep = True\<rparr> [0, 0, 0] [7] = Some (Inr res') \<and> length res' = 3 \<and>
     distinct (tl res')"
proof -
  have "khash_new 2 8 True = Inr \<lparr>kc_nhash = 2, kc_shash = 8, kc_norep = True\<rparr>" by (simp add: khash_new_def)
  moreover have "piece demo_sha [7] 8 0 = 1" "piece demo_sha [7] 8 1 = 2" by code_simp+
  then have "piece demo_sha [7] 8 ` {..<2} = {1, 2}" by (auto simp: lessThan_Suc numeral_2_eq_2)
  then have "2 \<le> card (piece demo_sha [7] 8 ` {..<2})" by simp
  ultimately show ?thesis using khash_compute_correct[of 2 8 True _ "[7]" "[0, 0, 0]" demo_sha 2] by fastforce
qed

subsection \<open>Bloom filters\<close>

record bloomfilter =
  bf_khash :: khash_conf
  bf_m :: "byte list"
  bf_mmax :: u32
  bf_mmax_arr :: u32
  bf_num_zeros :: u32

definition bloom_clear :: "bloomfilter \<Rightarrow> bloomfilter" where
  "bloom_clear f = f\<lparr>bf_m := replicate (unat (bf_mmax_arr f)) 0, bf_num_zeros := bf_mmax f\<rparr>"

definition bloom_new :: "nat \<Rightarrow> nat \<Rightarrow> bool \<Rightarrow> bloomfilter res" where
  "bloom_new nh sh norep =
     bindE (khash_new nh sh norep) (\<lambda>c.
       bindE (guardE (1 \<le> sh \<and> sh \<le> 31) Assert_Fail) (\<lambda>_.
         Inr (bloom_clear \<lparr>bf_khash = c, bf_m = [], bf_mmax = push_bit sh 1,
           bf_mmax_arr = (if sh < 3 then 1 else push_bit (sh - 3) 1), bf_num_zeros = 0\<rparr>)))"

text \<open>The loops over the digests: setting the bits, and looking at them.\<close>

fun insert_loop :: "u32 list \<Rightarrow> u32 \<Rightarrow> byte list \<Rightarrow> nat \<Rightarrow> (byte list \<times> nat) res" where
  "insert_loop [] arr m extra = Inr (m, extra)"
| "insert_loop (h # hs) arr m extra =
     (let b = drop_bit 3 h; t = unat (h AND 7); bit = (push_bit t 1 :: byte) in
      if \<not> b < arr then Inl Assert_Fail
      else if \<not> t < 8 then Inl Assert_Fail
      else if m ! unat b AND bit = 0 then insert_loop hs arr (m[unat b := m ! unat b OR bit]) (extra + 1)
      else insert_loop hs arr m extra)"

fun check_loop :: "u32 list \<Rightarrow> u32 \<Rightarrow> byte list \<Rightarrow> bool res" where
  "check_loop [] arr m = Inr True"
| "check_loop (h # hs) arr m =
     (let b = drop_bit 3 h; t = unat (h AND 7); bit = (push_bit t 1 :: byte) in
      if \<not> b < arr then Inl Assert_Fail
      else if \<not> t < 8 then Inl Assert_Fail
      else if m ! unat b AND bit = 0 then Inr False
      else check_loop hs arr m)"

text \<open>\<open>compute\<close> gives the digests of an input, or fails, or does not return.\<close>

definition bloom_insert :: "('x \<Rightarrow> u32 list res option) \<Rightarrow> 'x \<Rightarrow> bloomfilter \<Rightarrow> (bool \<times> bloomfilter) res option" where
  "bloom_insert compute x f =
     map_option (\<lambda>r. bindE r (\<lambda>hs.
       bindE (insert_loop (tl hs) (bf_mmax_arr f) (bf_m f) 0) (\<lambda>(m, extra).
         if extra = 0 then Inr (False, f\<lparr>bf_m := m\<rparr>)
         else Inr (True, f\<lparr>bf_m := m, bf_num_zeros := bf_num_zeros f - of_nat extra\<rparr>)))) (compute x)"

definition bloom_check :: "('x \<Rightarrow> u32 list res option) \<Rightarrow> 'x \<Rightarrow> bloomfilter \<Rightarrow> bool res option" where
  "bloom_check compute x f = map_option (\<lambda>r. bindE r (\<lambda>hs. check_loop (tl hs) (bf_mmax_arr f) (bf_m f))) (compute x)"

subsection \<open>The filter as a set of bits\<close>

definition bits_on :: "byte list \<Rightarrow> nat set" where
  "bits_on m = {n. n < 8 * length m \<and> bit (m ! (n div 8)) (n mod 8)}"

definition bloom_ok :: "nat \<Rightarrow> bloomfilter \<Rightarrow> bool" where
  "bloom_ok sh f \<longleftrightarrow> 1 \<le> sh \<and> sh \<le> 31 \<and> bf_mmax f = push_bit sh 1 \<and> bf_mmax_arr f = (if sh < 3 then 1 else push_bit (sh - 3) 1) \<and>
     length (bf_m f) = unat (bf_mmax_arr f) \<and> bits_on (bf_m f) \<subseteq> {..<2 ^ sh} \<and> unat (bf_num_zeros f) = 2 ^ sh - card (bits_on (bf_m f))"

lemma unat_pow2:
  assumes "k < 32"
  shows "unat (push_bit k 1 :: u32) = 2 ^ k"
proof -
  have "push_bit k 1 = (of_nat (2 ^ k) :: u32)" by (simp add: push_bit_eq_mult)
  moreover have "(2 :: nat) ^ k < 2 ^ 32" using assms by (intro power_strict_increasing) auto
  ultimately show ?thesis by (simp only: unat_of_nat len_num1 len_bit0 mod_less) simp
qed

lemma arr_size:
  assumes "sh \<le> 31"
  shows "unat (if sh < 3 then 1 else push_bit (sh - 3) 1 :: u32) = (if sh < 3 then 1 else 2 ^ (sh - 3))"
  using unat_pow2[of "sh - 3"] assms by (simp only: if_distrib[of unat] unsigned_1 if_cancel split: if_split)

lemma digest_index:
  assumes "unat h < 2 ^ sh" and "sh \<le> 31" and "arr = (if sh < 3 then 1 else push_bit (sh - 3) 1 :: u32)"
  shows "drop_bit 3 h < arr" and "unat (h AND 7) = unat h mod 8" and "unat (drop_bit 3 h) = unat h div 8"
proof -
  show d: "unat (drop_bit 3 h) = unat h div 8" by (simp add: drop_bit_eq_div unat_div)
  have "h AND 7 = take_bit 3 h" by (simp add: take_bit_eq_mask mask_eq_exp_minus_1)
  then show "unat (h AND 7) = unat h mod 8" by (simp add: unat_mod take_bit_eq_mod)
  have "unat h div 8 < (if sh < 3 then 1 else 2 ^ (sh - 3))"
  proof (cases "sh < 3")
    case True
    then have "(2 :: nat) ^ sh \<le> 2 ^ 2" by (intro power_increasing) auto
    with True assms(1) show ?thesis by simp
  next
    case False
    then have "(2 :: nat) ^ sh = 2 ^ (3 + (sh - 3))" by simp
    also have "\<dots> = 8 * 2 ^ (sh - 3)" unfolding power_add by simp
    finally have "(2 :: nat) ^ sh = 8 * 2 ^ (sh - 3)" .
    with False assms(1) show ?thesis by (simp add: less_mult_imp_div_less mult.commute)
  qed
  then show "drop_bit 3 h < arr" unfolding word_less_nat_alt d assms(3) arr_size[OF assms(2)] .
qed

text \<open>Reading and writing one bit.\<close>

lemma bit_on_iff:
  assumes "n < 8 * length m"
  shows "m ! (n div 8) AND push_bit (n mod 8) 1 = 0 \<longleftrightarrow> n \<notin> bits_on m"
proof -
  have "(w AND push_bit k 1 = 0) = (\<not> bit w k)" if "k < 8" for w :: byte and k
  proof -
    have "w AND push_bit k 1 = (if bit w k then push_bit k 1 else 0)"
      by (rule bit_eqI) (use that in \<open>auto simp: bit_simps\<close>)
    moreover have "bit (push_bit k (1 :: byte)) k" using that by (simp add: bit_simps)
    then have "push_bit k (1 :: byte) \<noteq> 0" by (metis bit_0_eq bot_apply bot_bool_def)
    ultimately show ?thesis by simp
  qed
  from this[of "n mod 8" "m ! (n div 8)"] assms show ?thesis by (simp add: bits_on_def)
qed

lemma bits_on_set:
  assumes "n < 8 * length m"
  shows "bits_on (m[n div 8 := m ! (n div 8) OR push_bit (n mod 8) 1]) = insert n (bits_on m)"
proof (rule set_eqI)
  fix i
  have lt: "n div 8 < length m" using assms by simp
  have "i = n \<longleftrightarrow> i div 8 = n div 8 \<and> i mod 8 = n mod 8" by (metis div_mult_mod_eq)
  with lt assms show "i \<in> bits_on (m[n div 8 := m ! (n div 8) OR push_bit (n mod 8) 1]) \<longleftrightarrow> i \<in> insert n (bits_on m)"
    by (cases "i div 8 = n div 8") (auto simp: bits_on_def bit_simps)
qed

lemma digest_in_range:
  assumes "unat (h :: u32) < 2 ^ sh" and "sh \<le> 31" and "arr = (if sh < 3 then 1 else push_bit (sh - 3) 1 :: u32)" and "length m = unat arr"
  shows "unat h < 8 * length m"
  using digest_index[OF assms(1-3)] assms(4) by (simp add: word_less_nat_alt div_less_iff_less_mult mult.commute)

lemma insert_loop_bits:
  assumes "\<forall>h \<in> set hs. unat h < 2 ^ sh" and "sh \<le> 31" and "arr = (if sh < 3 then 1 else push_bit (sh - 3) 1 :: u32)" and "length m = unat arr"
  shows "\<exists>m'. insert_loop hs arr m e = Inr (m', e + card (unat ` set hs - bits_on m)) \<and> length m' = length m \<and> bits_on m' = bits_on m \<union> unat ` set hs"
  using assms(1,4)
proof (induction hs arbitrary: m e)
  case (Cons h hs)
  have h: "unat h < 2 ^ sh" and hs: "\<forall>h \<in> set hs. unat h < 2 ^ sh" using Cons.prems(1) by auto
  note idx = digest_index[OF h assms(2,3)]
  have rng: "unat h < 8 * length m" by (rule digest_in_range[OF h assms(2,3) Cons.prems(2)])
  let ?m = "m[unat h div 8 := m ! (unat h div 8) OR push_bit (unat h mod 8) 1]"
  show ?case
  proof (cases "unat h \<in> bits_on m")
    case True
    then have "insert_loop (h # hs) arr m e = insert_loop hs arr m e" using idx bit_on_iff[OF rng] by (simp add: Let_def)
    with Cons.IH[OF hs Cons.prems(2), of e] True show ?thesis by (simp add: insert_absorb insert_Diff_if)
  next
    case False
    then have "insert_loop (h # hs) arr m e = insert_loop hs arr ?m (e + 1)" using idx bit_on_iff[OF rng] by (simp add: Let_def)
    moreover have "card (unat ` set (h # hs) - bits_on m) = Suc (card (unat ` set hs - insert (unat h) (bits_on m)))"
    proof -
      have "unat ` set (h # hs) - bits_on m = insert (unat h) (unat ` set hs - insert (unat h) (bits_on m))" using False by auto
      then show ?thesis by simp
    qed
    ultimately show ?thesis using Cons.IH[OF hs, of ?m "e + 1"] Cons.prems(2) bits_on_set[OF rng] by auto
  qed
qed simp

lemma check_loop_bits:
  assumes "\<forall>h \<in> set hs. unat h < 2 ^ sh" and "sh \<le> 31" and "arr = (if sh < 3 then 1 else push_bit (sh - 3) 1 :: u32)" and "length m = unat arr"
  shows "check_loop hs arr m = Inr (unat ` set hs \<subseteq> bits_on m)"
  using assms(1)
proof (induction hs)
  case (Cons h hs)
  have h: "unat h < 2 ^ sh" using Cons.prems by auto
  note idx = digest_index[OF h assms(2,3)]
  have rng: "unat h < 8 * length m" by (rule digest_in_range[OF h assms(2-4)])
  show ?case using Cons idx bit_on_iff[OF rng] by (simp add: Let_def)
qed simp

text \<open>The digests of an input: those it computes to.\<close>

definition digests :: "('x \<Rightarrow> u32 list res option) \<Rightarrow> nat \<Rightarrow> 'x \<Rightarrow> nat set \<Rightarrow> bool" where
  "digests compute sh x D \<longleftrightarrow> (\<exists>hs. compute x = Some (Inr hs) \<and> (\<forall>h \<in> set (tl hs). unat h < 2 ^ sh) \<and> D = unat ` set (tl hs))"

lemma bloom_insert_set:
  assumes "bloom_ok sh f" and "digests compute sh x D"
  shows "\<exists>f'. bloom_insert compute x f = Some (Inr (\<not> D \<subseteq> bits_on (bf_m f), f')) \<and> bloom_ok sh f' \<and>
    bits_on (bf_m f') = bits_on (bf_m f) \<union> D \<and> bf_khash f' = bf_khash f"
proof -
  obtain hs where hs: "compute x = Some (Inr hs)" "\<forall>h \<in> set (tl hs). unat h < 2 ^ sh" "D = unat ` set (tl hs)"
    using assms(2) by (auto simp: digests_def)
  have ok: "sh \<le> 31" "bf_mmax_arr f = (if sh < 3 then 1 else push_bit (sh - 3) 1)" "length (bf_m f) = unat (bf_mmax_arr f)"
    "bits_on (bf_m f) \<subseteq> {..<2 ^ sh}" "unat (bf_num_zeros f) = 2 ^ sh - card (bits_on (bf_m f))" using assms(1) by (auto simp: bloom_ok_def)
  let ?e = "card (D - bits_on (bf_m f))"
  obtain m' where m': "insert_loop (tl hs) (bf_mmax_arr f) (bf_m f) 0 = Inr (m', ?e)" "length m' = length (bf_m f)"
    "bits_on m' = bits_on (bf_m f) \<union> D"
    using insert_loop_bits[OF hs(2) ok(1-3), of 0] hs(3) by auto
  have fin: "finite (bits_on (bf_m f))" "finite D" using ok(4) finite_subset hs(3) by auto
  have sub: "bits_on m' \<subseteq> {..<2 ^ sh}" using m'(3) ok(4) hs(2,3) by auto
  have "bits_on m' = bits_on (bf_m f) \<union> (D - bits_on (bf_m f))" using m'(3) by blast
  then have "card (bits_on m') = card (bits_on (bf_m f)) + ?e" using fin by (simp only:) (intro card_Un_disjoint, auto)
  moreover have "card (bits_on m') \<le> 2 ^ sh" using card_mono[OF _ sub] by simp
  ultimately have z: "?e \<le> unat (bf_num_zeros f)" "2 ^ sh - card (bits_on m') = unat (bf_num_zeros f) - ?e" using ok(5) by simp_all
  have "unat (bf_num_zeros f - of_nat ?e) = unat (bf_num_zeros f) - ?e"
  proof -
    have "?e < 2 ^ 32" using z(1) unsigned_less[of "bf_num_zeros f", where 'a = nat] by simp
    then have "unat (of_nat ?e :: u32) = ?e" by (simp add: unat_of_nat)
    with z(1) show ?thesis by (simp add: unat_sub word_le_nat_alt)
  qed
  moreover have "?e = 0 \<longleftrightarrow> D \<subseteq> bits_on (bf_m f)" using fin by simp
  ultimately show ?thesis using hs(1) m' sub z(2) assms(1) by (auto simp: bloom_insert_def bloom_ok_def)
qed

lemma bloom_check_set:
  assumes "bloom_ok sh f" and "digests compute sh x D"
  shows "bloom_check compute x f = Some (Inr (D \<subseteq> bits_on (bf_m f)))"
proof -
  obtain hs where hs: "compute x = Some (Inr hs)" "\<forall>h \<in> set (tl hs). unat h < 2 ^ sh" "D = unat ` set (tl hs)"
    using assms(2) by (auto simp: digests_def)
  with check_loop_bits[OF hs(2)] assms(1) show ?thesis by (simp add: bloom_check_def bloom_ok_def)
qed

lemma bits_on_zero [simp]: "bits_on (replicate n 0) = {}"
  by (auto simp: bits_on_def less_mult_imp_div_less mult.commute)

lemma bits_on_zero1 [simp]: "bits_on [0] = {}"
  using bits_on_zero[of 1] by simp

lemma bloom_clear_ok:
  assumes "bloom_ok sh f"
  shows "bloom_ok sh (bloom_clear f)" "bits_on (bf_m (bloom_clear f)) = {}"
  using assms unat_pow2[of sh] by (auto simp: bloom_ok_def bloom_clear_def)

lemma bloom_new_ok:
  assumes "bloom_new nh sh norep = Inr f"
  shows "bloom_ok sh f" "bits_on (bf_m f) = {}" "khash_new nh sh norep = Inr (bf_khash f)"
  using assms unat_pow2[of sh] by (auto simp: bloom_new_def bindE_Inr_conv bloom_ok_def bloom_clear_def)

fun bloom_run :: "('x \<Rightarrow> u32 list res option) \<Rightarrow> 'x list \<Rightarrow> bloomfilter \<Rightarrow> bloomfilter res option" where
  "bloom_run compute [] f = Some (Inr f)"
| "bloom_run compute (x # xs) f =
     (case bloom_insert compute x f of
        None \<Rightarrow> None | Some (Inl e) \<Rightarrow> Some (Inl e) | Some (Inr (_, f')) \<Rightarrow> bloom_run compute xs f')"

lemma bloom_run_set:
  assumes "bloom_ok sh f" and "\<forall>x \<in> set xs. digests compute sh x (D x)"
  shows "\<exists>f'. bloom_run compute xs f = Some (Inr f') \<and> bloom_ok sh f' \<and> bits_on (bf_m f') = bits_on (bf_m f) \<union> (\<Union>x \<in> set xs. D x)"
  using assms
proof (induction xs arbitrary: f)
  case (Cons x xs)
  obtain f1 where f1: "bloom_insert compute x f = Some (Inr (\<not> D x \<subseteq> bits_on (bf_m f), f1))" "bloom_ok sh f1"
    "bits_on (bf_m f1) = bits_on (bf_m f) \<union> D x" using bloom_insert_set[OF Cons.prems(1), of compute x "D x"] Cons.prems(2) by auto
  with Cons.IH[OF f1(2)] Cons.prems(2) show ?case by (auto simp: Un_assoc)
qed simp

lemma khash_digests:
  assumes "khash_new nh sh norep = Inr c" and "x \<noteq> []" and "length res = nh + 1"
    and "norep \<longrightarrow> nh \<le> card (piece sha x sh ` {..<T})"
  shows "\<exists>D. digests (khash_compute sha c res) sh x D"
proof -
  have c: "kc_shash c = sh" "sh < 32" using assms(1) by (auto simp: khash_new_def split: if_splits)
  obtain res' t where r: "khash_compute sha c res x = Some (Inr res')" "tl res' = found sha c x t"
    using khash_compute_found[OF assms] by blast
  then have "\<forall>h \<in> set (tl res'). unat h < 2 ^ sh" using piece_less[OF c(2)] c(1) by (auto simp: found_def Let_def)
  with r(1) show ?thesis by (auto simp: digests_def)
qed

text \<open>
  C26: A Bloom filter has no false negatives: after any sequence of insertions, checking an input that was inserted
  answers yes; an input is reported new exactly if one of its bits was not set; no assertion fails, and the number of
  zeros it reports is the number of its bits that are not set.
\<close>
theorem bloom_no_false_negatives:
  assumes "bloom_new nh sh norep = Inr f" and "length res = nh + 1"
    and "\<forall>x \<in> set (xs @ [y]). x \<noteq> [] \<and> (norep \<longrightarrow> (\<exists>T. nh \<le> card (piece sha x sh ` {..<T})))"
  shows "\<exists>f' D. bloom_run (khash_compute sha (bf_khash f) res) xs f = Some (Inr f') \<and>
    (\<forall>x \<in> set xs. bloom_check (khash_compute sha (bf_khash f) res) x f' = Some (Inr True)) \<and>
    unat (bf_num_zeros f') = 2 ^ sh - card (bits_on (bf_m f')) \<and>
    digests (khash_compute sha (bf_khash f) res) sh y D \<and>
    (\<exists>f''. bloom_insert (khash_compute sha (bf_khash f) res) y f' = Some (Inr (\<not> D \<subseteq> bits_on (bf_m f'), f'')))"
proof -
  let ?C = "khash_compute sha (bf_khash f) res"
  note new = bloom_new_ok[OF assms(1)]
  have "\<exists>D. digests ?C sh x D" if "x \<in> set (xs @ [y])" for x
    using khash_digests[OF new(3) _ assms(2)] assms(3) that by (cases norep) auto
  then obtain D where D: "\<And>x. x \<in> set (xs @ [y]) \<Longrightarrow> digests ?C sh x (D x)" by metis
  obtain f' where f': "bloom_run ?C xs f = Some (Inr f')" "bloom_ok sh f'" "bits_on (bf_m f') = bits_on (bf_m f) \<union> (\<Union>x \<in> set xs. D x)"
    using bloom_run_set[OF new(1), of xs ?C D] D by auto
  have "bloom_check ?C x f' = Some (Inr True)" if "x \<in> set xs" for x
    using bloom_check_set[OF f'(2) D, of x] that f'(3) by auto
  moreover have "unat (bf_num_zeros f') = 2 ^ sh - card (bits_on (bf_m f'))" using f'(2) by (simp add: bloom_ok_def)
  ultimately show ?thesis using f'(1) D[of y] bloom_insert_set[OF f'(2) D, of y] by fastforce
qed

theorem bloom_no_false_negatives_witness:
  "\<exists>f' D. bloom_run (khash_compute demo_sha \<lparr>kc_nhash = 2, kc_shash = 8, kc_norep = False\<rparr> [0, 0, 0]) [[7]]
       (bloom_clear \<lparr>bf_khash = \<lparr>kc_nhash = 2, kc_shash = 8, kc_norep = False\<rparr>, bf_m = [], bf_mmax = 256, bf_mmax_arr = 32, bf_num_zeros = 0\<rparr>) = Some (Inr f') \<and>
     bloom_check (khash_compute demo_sha \<lparr>kc_nhash = 2, kc_shash = 8, kc_norep = False\<rparr> [0, 0, 0]) [7] f' = Some (Inr True)"
proof -
  let ?f = "bloom_clear \<lparr>bf_khash = \<lparr>kc_nhash = 2, kc_shash = 8, kc_norep = False\<rparr>, bf_m = [], bf_mmax = 256, bf_mmax_arr = 32, bf_num_zeros = 0\<rparr>"
  have "bloom_new 2 8 False = Inr ?f" by (simp add: bloom_new_def khash_new_def)
  then have "\<exists>f' D. bloom_run (khash_compute demo_sha (bf_khash ?f) [0, 0, 0]) [[7]] ?f = Some (Inr f') \<and>
      (\<forall>x \<in> set [[7]]. bloom_check (khash_compute demo_sha (bf_khash ?f) [0, 0, 0]) x f' = Some (Inr True)) \<and>
      unat (bf_num_zeros f') = 2 ^ 8 - card (bits_on (bf_m f')) \<and>
      digests (khash_compute demo_sha (bf_khash ?f) [0, 0, 0]) 8 [9] D \<and>
      (\<exists>f''. bloom_insert (khash_compute demo_sha (bf_khash ?f) [0, 0, 0]) [9] f' = Some (Inr (\<not> D \<subseteq> bits_on (bf_m f'), f'')))"
    by (rule bloom_no_false_negatives) simp_all
  then show ?thesis by (auto simp: bloom_clear_def)
qed

subsection \<open>Pairs of filters\<close>

text \<open>
  The threshold is compared with the zeros of the learning filter by \<open>below\<close> and changed, when the
  filters are swapped, by \<open>nxt\<close> according to the zeros of the detecting one.
\<close>

record 't bloompair =
  bp_learning :: bloomfilter
  bp_detecting :: bloomfilter
  bp_threshold :: 't

definition bloompair_new :: "'t \<Rightarrow> nat \<Rightarrow> nat \<Rightarrow> 't bloompair res" where
  "bloompair_new th nh sh =
     bindE (bloom_new nh sh True) (\<lambda>l. bindE (bloom_new nh sh True) (\<lambda>d.
       bindE (guardE (push_bit sh 1 = bf_num_zeros l) Assert_Fail) (\<lambda>_. Inr \<lparr>bp_learning = l, bp_detecting = d, bp_threshold = th\<rparr>)))"

definition bloompair_clear :: "'t \<Rightarrow> 't bloompair \<Rightarrow> 't bloompair" where
  "bloompair_clear th p = p\<lparr>bp_learning := bloom_clear (bp_learning p), bp_detecting := bloom_clear (bp_detecting p), bp_threshold := th\<rparr>"

definition bloompair_swap :: "('t \<Rightarrow> u32 \<Rightarrow> bool) \<Rightarrow> ('t \<Rightarrow> u32 \<Rightarrow> 't) \<Rightarrow> 't bloompair \<Rightarrow> 't bloompair" where
  "bloompair_swap below nxt p =
     (if below (bp_threshold p) (bf_num_zeros (bp_learning p))
      then p\<lparr>bp_learning := bloom_clear (bp_detecting p), bp_detecting := bp_learning p,
             bp_threshold := nxt (bp_threshold p) (bf_num_zeros (bp_detecting p))\<rparr>
      else p)"

definition bloompair_add ::
  "('x \<Rightarrow> u32 list res option) \<Rightarrow> ('t \<Rightarrow> u32 \<Rightarrow> bool) \<Rightarrow> ('t \<Rightarrow> u32 \<Rightarrow> 't) \<Rightarrow> 'x \<Rightarrow> 't bloompair \<Rightarrow> (bool \<times> 't bloompair) res option" where
  "bloompair_add compute below nxt x p =
     (case bloom_insert compute x (bp_learning p) of
        None \<Rightarrow> None
      | Some (Inl e) \<Rightarrow> Some (Inl e)
      | Some (Inr (res_l, l)) \<Rightarrow>
          (case bloom_insert compute x (bp_detecting p) of
             None \<Rightarrow> None
           | Some (Inl e) \<Rightarrow> Some (Inl e)
           | Some (Inr (res_d, d)) \<Rightarrow>
               if res_d \<and> \<not> res_l then Some (Inl Assert_Fail)
               else Some (Inr (res_d, bloompair_swap below nxt (p\<lparr>bp_learning := l, bp_detecting := d\<rparr>)))))"

text \<open>Both filters are filters of the same size, and what is learnt is also detected.\<close>

definition bloompair_ok :: "nat \<Rightarrow> 't bloompair \<Rightarrow> bool" where
  "bloompair_ok sh p \<longleftrightarrow> bloom_ok sh (bp_learning p) \<and> bloom_ok sh (bp_detecting p) \<and>
     bits_on (bf_m (bp_learning p)) \<subseteq> bits_on (bf_m (bp_detecting p))"

lemma bloompair_add_ok:
  assumes "bloompair_ok sh p" and "digests compute sh x D"
  shows "\<exists>p'. bloompair_add compute below nxt x p = Some (Inr (\<not> D \<subseteq> bits_on (bf_m (bp_detecting p)), p')) \<and> bloompair_ok sh p' \<and>
    D \<subseteq> bits_on (bf_m (bp_detecting p'))"
proof -
  have p: "bloom_ok sh (bp_learning p)" "bloom_ok sh (bp_detecting p)" "bits_on (bf_m (bp_learning p)) \<subseteq> bits_on (bf_m (bp_detecting p))"
    using assms(1) by (auto simp: bloompair_ok_def)
  obtain l where l: "bloom_insert compute x (bp_learning p) = Some (Inr (\<not> D \<subseteq> bits_on (bf_m (bp_learning p)), l))" "bloom_ok sh l"
    "bits_on (bf_m l) = bits_on (bf_m (bp_learning p)) \<union> D" using bloom_insert_set[OF p(1) assms(2)] by blast
  obtain d where d: "bloom_insert compute x (bp_detecting p) = Some (Inr (\<not> D \<subseteq> bits_on (bf_m (bp_detecting p)), d))" "bloom_ok sh d"
    "bits_on (bf_m d) = bits_on (bf_m (bp_detecting p)) \<union> D" using bloom_insert_set[OF p(2) assms(2)] by blast
  let ?p = "bloompair_swap below nxt (p\<lparr>bp_learning := l, bp_detecting := d\<rparr>)"
  have "bloompair_ok sh ?p" using p l d bloom_clear_ok[OF d(2)] by (auto simp: bloompair_swap_def bloompair_ok_def)
  moreover have "D \<subseteq> bits_on (bf_m (bp_detecting ?p))" using l(3) d(3) by (auto simp: bloompair_swap_def)
  ultimately show ?thesis using l(1) d(1) p(3) by (auto simp: bloompair_add_def)
qed

fun bloompair_run ::
  "('x \<Rightarrow> u32 list res option) \<Rightarrow> ('t \<Rightarrow> u32 \<Rightarrow> bool) \<Rightarrow> ('t \<Rightarrow> u32 \<Rightarrow> 't) \<Rightarrow> 'x list \<Rightarrow> 't bloompair \<Rightarrow> (bool list \<times> 't bloompair) res option" where
  "bloompair_run compute below nxt [] p = Some (Inr ([], p))"
| "bloompair_run compute below nxt (x # xs) p =
     (case bloompair_add compute below nxt x p of
        None \<Rightarrow> None
      | Some (Inl e) \<Rightarrow> Some (Inl e)
      | Some (Inr (b, p')) \<Rightarrow> map_option (\<lambda>r. bindE r (\<lambda>(bs, p''). Inr (b # bs, p''))) (bloompair_run compute below nxt xs p'))"

text \<open>
  The assertion of the pair, that an input new to the detecting filter is new to the learning one, holds in every
  run, whatever the thresholds: the pair adds any sequence of inputs without failing, and an input that comes twice in
  a row is not reported the second time.
\<close>
theorem bloompair_never_fails:
  assumes "bloompair_ok sh p" and "\<forall>x \<in> set xs. \<exists>D. digests compute sh x D"
  shows "\<exists>bs p'. bloompair_run compute below nxt xs p = Some (Inr (bs, p')) \<and> bloompair_ok sh p' \<and> length bs = length xs \<and>
    (\<forall>i. Suc i < length xs \<and> xs ! i = xs ! Suc i \<longrightarrow> \<not> bs ! Suc i)"
proof -
  have "\<exists>bs p'. bloompair_run compute below nxt xs p = Some (Inr (bs, p')) \<and> bloompair_ok sh p' \<and> length bs = length xs \<and>
    (\<forall>i. Suc i < length xs \<and> xs ! i = xs ! Suc i \<longrightarrow> \<not> bs ! Suc i) \<and>
    (\<forall>D. xs \<noteq> [] \<and> digests compute sh (hd xs) D \<and> D \<subseteq> bits_on (bf_m (bp_detecting p)) \<longrightarrow> \<not> hd bs)"
    using assms
  proof (induction xs arbitrary: p)
    case (Cons x xs)
    obtain D where D: "digests compute sh x D" using Cons.prems(2) by auto
    have same: "D' = D" if "digests compute sh x D'" for D' using D that by (auto simp: digests_def)
    obtain p1 where p1: "bloompair_add compute below nxt x p = Some (Inr (\<not> D \<subseteq> bits_on (bf_m (bp_detecting p)), p1))" "bloompair_ok sh p1"
      "D \<subseteq> bits_on (bf_m (bp_detecting p1))" using bloompair_add_ok[OF Cons.prems(1) D] by blast
    obtain bs p2 where r: "bloompair_run compute below nxt xs p1 = Some (Inr (bs, p2))" "bloompair_ok sh p2" "length bs = length xs"
      "\<forall>i. Suc i < length xs \<and> xs ! i = xs ! Suc i \<longrightarrow> \<not> bs ! Suc i"
      "\<forall>D. xs \<noteq> [] \<and> digests compute sh (hd xs) D \<and> D \<subseteq> bits_on (bf_m (bp_detecting p1)) \<longrightarrow> \<not> hd bs"
      using Cons.IH[OF p1(2)] Cons.prems(2) by auto
    let ?b = "\<not> D \<subseteq> bits_on (bf_m (bp_detecting p))"
    have "\<not> (?b # bs) ! Suc i" if "Suc i < length (x # xs)" "(x # xs) ! i = (x # xs) ! Suc i" for i
    proof (cases i)
      case 0
      then have "xs \<noteq> []" "hd xs = x" using that by (auto simp: hd_conv_nth)
      then have "\<not> hd bs" using r(5) p1(3) D by auto
      with 0 r(3) \<open>xs \<noteq> []\<close> show ?thesis by (cases bs) auto
    next
      case (Suc j)
      with that r(4) show ?thesis by auto
    qed
    then show ?case using p1(1) r(1-3) same by (intro exI[of _ "?b # bs"] exI[of _ p2]) auto
  qed simp
  then show ?thesis by blast
qed

theorem bloompair_never_fails_witness:
  "\<exists>p bs p'. bloompair_new () 2 8 = Inr p \<and>
     bloompair_run (\<lambda>x. Some (Inr [0, x])) (\<lambda>_ z. z < 250) (\<lambda>_ _. ()) [3, 3, 5] p = Some (Inr (bs, p')) \<and> \<not> bs ! 1"
proof -
  obtain l where l: "bloom_new 2 8 True = Inr l" by (simp add: bloom_new_def khash_new_def)
  note ok = bloom_new_ok[OF l]
  have "bf_num_zeros l = push_bit 8 1" using l by (auto simp: bloom_new_def khash_new_def bloom_clear_def)
  then have new: "bloompair_new () 2 8 = Inr \<lparr>bp_learning = l, bp_detecting = l, bp_threshold = ()\<rparr>" using l by (simp add: bloompair_new_def)
  have "bloompair_ok 8 \<lparr>bp_learning = l, bp_detecting = l, bp_threshold = ()\<rparr>" using ok by (simp add: bloompair_ok_def)
  moreover have "\<forall>x \<in> set [3, 3, 5]. \<exists>D. digests (\<lambda>x. Some (Inr [0, x])) 8 x D" by (simp add: digests_def)
  ultimately have "\<exists>bs p'. bloompair_run (\<lambda>x. Some (Inr [0, x])) (\<lambda>_ z. z < 250) (\<lambda>_ _. ()) [3, 3, 5]
      \<lparr>bp_learning = l, bp_detecting = l, bp_threshold = ()\<rparr> = Some (Inr (bs, p')) \<and> bloompair_ok 8 p' \<and> length bs = length [3, 3, 5 :: u32] \<and>
      (\<forall>i. Suc i < length [3, 3, 5 :: u32] \<and> [3, 3, 5 :: u32] ! i = [3, 3, 5] ! Suc i \<longrightarrow> \<not> bs ! Suc i)"
    by (rule bloompair_never_fails)
  then show ?thesis using new by fastforce
qed

end
