(* ===== verification/Tag_Registry.thy ===== *)
theory Tag_Registry
  imports Bm_Prelude
begin

text \<open>
  Tags on messages (\<open>core/message/TagRegistry.hpp\<close>, the tag operations of \<open>Msg.hpp\<close>,
  \<open>core/Assert.hpp\<close>). A registry hands out places in a buffer that every message of a type
  carries; a tag type is given by what the templates use of it: its hash code, its size, and the size of the
  object with the validity flag in front and the place of the value in that object. The registry's lock makes
  a registration one step.
\<close>

subsection \<open>The registry\<close>

record tag_type =
  ty_hash :: nat
  ty_size :: nat
  ty_obj :: nat
  ty_voff :: nat

text \<open>The value follows the flag inside the object.\<close>

definition tag_type_ok :: "tag_type \<Rightarrow> bool" where
  "tag_type_ok T \<longleftrightarrow> 1 \<le> ty_voff T \<and> ty_voff T + ty_size T \<le> ty_obj T"

record tag_metadata =
  md_size :: nat
  md_offset :: nat
  md_hash :: nat
  md_id :: string

record tag_registry =
  tr_next_offset :: nat
  tr_info :: "tag_metadata list"

definition tag_registry_new :: tag_registry where
  "tag_registry_new = \<lparr>tr_next_offset = 0, tr_info = []\<rparr>"

text \<open>A handle is an index; \<open>None\<close> is \<open>TAG_INVALID\<close>.\<close>

fun find_from :: "string \<Rightarrow> nat \<Rightarrow> tag_metadata list \<Rightarrow> nat option" where
  "find_from tid i [] = None"
| "find_from tid i (d # ds) = (if md_id d = tid then Some i else find_from tid (i + 1) ds)"

definition find_tag :: "string \<Rightarrow> tag_registry \<Rightarrow> nat option" where
  "find_tag tid r = find_from tid 0 (tr_info r)"

definition get_handle_by_name :: "string \<Rightarrow> tag_registry \<Rightarrow> nat res" where
  "get_handle_by_name tid r =
     (case find_tag tid r of
        None \<Rightarrow> Inl (Runtime_Error ''TagRegistery::find_tag: No tags registered for this name'')
      | Some h \<Rightarrow> Inr h)"

definition get_info :: "nat \<Rightarrow> tag_registry \<Rightarrow> tag_metadata res" where
  "get_info h r =
     (if length (tr_info r) \<le> h then Inl (Runtime_Error ''TagRegistry::get_info: bad tag handler'') else Inr (tr_info r ! h))"

definition register_tag :: "tag_type \<Rightarrow> string \<Rightarrow> (tag_registry, nat) op" where
  "register_tag T tid r =
     (case find_tag tid r of
        Some h \<Rightarrow>
          if ty_hash T \<noteq> md_hash (tr_info r ! h)
          then (Inl (Runtime_Error ''TagRegistry::register_tag: trying to register the same tag with different types''), r)
          else (Inr h, r)
      | None \<Rightarrow>
          let rem = tr_next_offset r mod ty_obj T;
              off = (if rem = 0 then tr_next_offset r else tr_next_offset r + (ty_obj T - rem))
          in (Inr (length (tr_info r)),
              r\<lparr>tr_next_offset := off + ty_obj T,
                tr_info := tr_info r @ [\<lparr>md_size = ty_size T, md_offset = off, md_hash = ty_hash T, md_id = tid\<rparr>]\<rparr>))"

definition buffer_size :: "tag_registry \<Rightarrow> nat" where
  "buffer_size r = tr_next_offset r"

subsection \<open>Assertions\<close>

text \<open>
  The three settings of \<open>BLOCKMON_ASSERT\<close>: no check, an assertion, an exception. The macro that
  throws negates only the first operand of an expression without brackets.
\<close>

definition assert_room :: "nat \<Rightarrow> tag_metadata \<Rightarrow> nat \<Rightarrow> string \<Rightarrow> unit res" where
  "assert_room mode d len reason =
     (let ok = md_offset d + md_size d \<le> len in
      if mode = 1 then guardE ok Assert_Fail else if mode = 2 then guardE ok (Runtime_Error reason) else Inr ())"

definition assert_type :: "nat \<Rightarrow> tag_metadata \<Rightarrow> tag_type \<Rightarrow> string \<Rightarrow> unit res" where
  "assert_type mode d T reason =
     (if mode = 1 then guardE (md_hash d = ty_hash T) Assert_Fail
      else if mode = 2 then guardE (\<not> (if md_hash d = 0 then 1 else 0) = ty_hash T) (Runtime_Error reason)
      else Inr ())"

subsection \<open>Tags in a buffer\<close>

text \<open>Reading and writing a range of the buffer; outside of it the behaviour is undefined.\<close>

definition put_range :: "nat \<Rightarrow> byte list \<Rightarrow> byte list \<Rightarrow> byte list" where
  "put_range off bs buf = take off buf @ bs @ drop (off + length bs) buf"

definition emplace_tag :: "nat \<Rightarrow> tag_registry \<Rightarrow> tag_type \<Rightarrow> nat \<Rightarrow> byte list \<Rightarrow> byte list \<Rightarrow> byte list res" where
  "emplace_tag mode r T h v buf =
     bindE (get_info h r) (\<lambda>d.
     bindE (assert_room mode d (length buf) ''emplace_tag: buffer overflow'') (\<lambda>_.
     bindE (assert_type mode d T ''emplace_tag: Tag type mismatch'') (\<lambda>_.
       if length buf < md_offset d + ty_obj T then Inl Undefined_Behaviour
       else Inr (put_range (md_offset d) [1] (put_range (md_offset d + ty_voff T) v buf)))))"

definition is_available_tag :: "nat \<Rightarrow> tag_registry \<Rightarrow> nat \<Rightarrow> byte list \<Rightarrow> bool res" where
  "is_available_tag mode r h buf =
     bindE (get_info h r) (\<lambda>d.
     bindE (assert_room mode d (length buf) ''is_valid_tag: buffer overflow'') (\<lambda>_.
       if length buf \<le> md_offset d then Inl Undefined_Behaviour else Inr (buf ! md_offset d \<noteq> 0)))"

text \<open>The pointer that is returned, if there is one, is followed: the value is its bytes.\<close>

definition get_tag :: "nat \<Rightarrow> tag_registry \<Rightarrow> tag_type \<Rightarrow> nat \<Rightarrow> byte list \<Rightarrow> byte list option res" where
  "get_tag mode r T h buf =
     bindE (get_info h r) (\<lambda>d.
     bindE (assert_room mode d (length buf) ''get_tag: buffer overflow'') (\<lambda>_.
     bindE (assert_type mode d T ''get_tag: Tag type mismatch'') (\<lambda>_.
       if length buf < md_offset d + ty_obj T then Inl Undefined_Behaviour
       else if buf ! md_offset d = 0 then Inr None
       else Inr (Some (take (ty_size T) (drop (md_offset d + ty_voff T) buf))))))"

text \<open>The operations of a message; a message may have no tag buffer.\<close>

definition msg_emplace_tag :: "nat \<Rightarrow> tag_registry \<Rightarrow> tag_type \<Rightarrow> nat \<Rightarrow> byte list \<Rightarrow> byte list option \<Rightarrow> byte list option res" where
  "msg_emplace_tag mode r T h v m =
     (case m of
        None \<Rightarrow> Inl (Runtime_Error ''tag buffer not available'')
      | Some buf \<Rightarrow> bindE (emplace_tag mode r T h v buf) (\<lambda>b. Inr (Some b)))"

definition msg_get_tag :: "nat \<Rightarrow> tag_registry \<Rightarrow> tag_type \<Rightarrow> nat \<Rightarrow> byte list option \<Rightarrow> byte list option res" where
  "msg_get_tag mode r T h m =
     (case m of None \<Rightarrow> Inl (Runtime_Error ''tag buffer not available'') | Some buf \<Rightarrow> get_tag mode r T h buf)"

definition msg_is_available_tag :: "nat \<Rightarrow> tag_registry \<Rightarrow> nat \<Rightarrow> byte list option \<Rightarrow> bool res" where
  "msg_is_available_tag mode r h m =
     (case m of None \<Rightarrow> Inl (Runtime_Error ''tag buffer not available'') | Some buf \<Rightarrow> is_available_tag mode r h buf)"

subsection \<open>The registry hands out disjoint places\<close>

text \<open>
  The types the tags were registered with, beside the metadata: places in increasing order, each of the size
  of the object, none past the buffer size.
\<close>

fun laid_out :: "nat \<Rightarrow> tag_metadata list \<Rightarrow> tag_type list \<Rightarrow> nat \<Rightarrow> bool" where
  "laid_out lo [] [] hi \<longleftrightarrow> lo \<le> hi"
| "laid_out lo (d # ds) (T # Ts) hi \<longleftrightarrow> lo \<le> md_offset d \<and> tag_type_ok T \<and> ty_obj T dvd md_offset d \<and> md_size d = ty_size T \<and>
     md_hash d = ty_hash T \<and> laid_out (md_offset d + ty_obj T) ds Ts hi"
| "laid_out lo _ _ hi \<longleftrightarrow> False"

definition registry_ok :: "tag_type list \<Rightarrow> tag_registry \<Rightarrow> bool" where
  "registry_ok Ts r \<longleftrightarrow> laid_out 0 (tr_info r) Ts (tr_next_offset r) \<and> distinct (map md_id (tr_info r))"

lemma laid_out_append:
  assumes "laid_out lo ds Ts hi" and "hi \<le> md_offset d" and "tag_type_ok T" and "ty_obj T dvd md_offset d" and "md_size d = ty_size T"
    and "md_hash d = ty_hash T"
  shows "laid_out lo (ds @ [d]) (Ts @ [T]) (md_offset d + ty_obj T)"
  using assms by (induction lo ds Ts hi rule: laid_out.induct) auto

lemma laid_out_length: "laid_out lo ds Ts hi \<Longrightarrow> length Ts = length ds"
  by (induction lo ds Ts hi rule: laid_out.induct) auto

lemma laid_out_le: "laid_out lo ds Ts hi \<Longrightarrow> lo \<le> hi"
  by (induction lo ds Ts hi rule: laid_out.induct) auto

lemma laid_out_nth:
  assumes "laid_out lo ds Ts hi" and "i < length ds"
  shows "lo \<le> md_offset (ds ! i) \<and> md_offset (ds ! i) + ty_obj (Ts ! i) \<le> hi \<and>
     tag_type_ok (Ts ! i) \<and> md_size (ds ! i) = ty_size (Ts ! i) \<and> md_hash (ds ! i) = ty_hash (Ts ! i)"
  using assms
proof (induction lo ds Ts hi arbitrary: i rule: laid_out.induct)
  case (2 lo d ds T Ts hi)
  then have rest: "laid_out (md_offset d + ty_obj T) ds Ts hi" by simp
  from 2 laid_out_le[OF rest] show ?case by (cases i) fastforce+
qed auto

lemma laid_out_disjoint:
  assumes "laid_out lo ds Ts hi" and "i < j" and "j < length ds"
  shows "md_offset (ds ! i) + ty_obj (Ts ! i) \<le> md_offset (ds ! j)"
  using assms
proof (induction lo ds Ts hi arbitrary: i j rule: laid_out.induct)
  case (2 lo d ds T Ts hi)
  then have rest: "laid_out (md_offset d + ty_obj T) ds Ts hi" by simp
  obtain k where k: "j = Suc k" "k < length ds" using "2.prems" by (cases j) auto
  show ?case
  proof (cases i)
    case 0
    with k laid_out_nth[OF rest k(2)] show ?thesis by simp
  next
    case (Suc i')
    with 2 k rest show ?thesis by simp
  qed
qed auto

lemma find_from_None: "find_from tid i ds = None \<longleftrightarrow> tid \<notin> md_id ` set ds"
  by (induction tid i ds rule: find_from.induct) auto

lemma find_from_Some: "find_from tid i ds = Some h \<Longrightarrow> i \<le> h \<and> h < i + length ds \<and> md_id (ds ! (h - i)) = tid"
proof (induction tid i ds rule: find_from.induct)
  case (2 tid i d ds)
  show ?case
  proof (cases "md_id d = tid")
    case False
    with 2 have "i + 1 \<le> h \<and> h < i + 1 + length ds \<and> md_id (ds ! (h - (i + 1))) = tid" by simp
    moreover from this have "h - i = Suc (h - (i + 1))" by linarith
    ultimately show ?thesis by simp
  qed (use 2 in auto)
qed simp

lemma register_tag_fresh:
  assumes "registry_ok Ts r" and "tag_type_ok T" and "find_tag tid r = None"
  shows "fst (register_tag T tid r) = Inr (length Ts) \<and> registry_ok (Ts @ [T]) (snd (register_tag T tid r)) \<and>
    get_handle_by_name tid (snd (register_tag T tid r)) = Inr (length Ts)"
proof -
  let ?n = "tr_next_offset r" and ?o = "ty_obj T"
  define off where "off = (if ?n mod ?o = 0 then ?n else ?n + (?o - ?n mod ?o))"
  let ?d = "\<lparr>md_size = ty_size T, md_offset = off, md_hash = ty_hash T, md_id = tid\<rparr>"
  let ?r = "r\<lparr>tr_next_offset := off + ?o, tr_info := tr_info r @ [?d]\<rparr>"
  have pos: "0 < ?o" using assms(2) by (auto simp: tag_type_ok_def)
  have reg: "register_tag T tid r = (Inr (length (tr_info r)), ?r)" using assms(3) by (simp add: register_tag_def off_def Let_def)
  have fresh: "tid \<notin> md_id ` set (tr_info r)" using assms(3) find_from_None[of tid 0 "tr_info r"] by (simp add: find_tag_def)
  have len: "length Ts = length (tr_info r)" using assms(1) laid_out_length by (auto simp: registry_ok_def)
  have "?o dvd off"
  proof (cases "?n mod ?o = 0")
    case False
    have "?n + (?o - ?n mod ?o) = ?o * (?n div ?o) + ?o" using mod_less_divisor[OF pos, of ?n] mult_div_mod_eq[of ?o ?n] by linarith
    with False show ?thesis by (simp add: off_def)
  qed (simp add: off_def mod_eq_0_iff_dvd)
  moreover have "?n \<le> off" by (simp add: off_def)
  ultimately have "laid_out 0 (tr_info r @ [?d]) (Ts @ [T]) (off + ?o)"
    using laid_out_append[of 0 "tr_info r" Ts ?n ?d T] assms(1,2) by (simp add: registry_ok_def)
  then have "registry_ok (Ts @ [T]) ?r" using assms(1) fresh by (auto simp: registry_ok_def)
  moreover have "find_from tid i (ds @ [?d]) = Some (i + length ds)" if "tid \<notin> md_id ` set ds" for i ds
    using that by (induction ds arbitrary: i) auto
  then have "get_handle_by_name tid ?r = Inr (length (tr_info r))" using fresh by (simp add: get_handle_by_name_def find_tag_def)
  ultimately show ?thesis using reg len by simp
qed

lemma register_tag_ok:
  assumes "registry_ok Ts r" and "tag_type_ok T"
  shows "\<exists>Ts'. registry_ok Ts' (snd (register_tag T tid r)) \<and> (\<exists>Us. Ts' = Ts @ Us) \<and>
    (\<forall>h. fst (register_tag T tid r) = Inr h \<longrightarrow> h < length Ts' \<and> ty_hash (Ts' ! h) = ty_hash T \<and>
       get_handle_by_name tid (snd (register_tag T tid r)) = Inr h)"
proof (cases "find_tag tid r")
  case (Some h)
  have len: "length Ts = length (tr_info r)" using assms(1) laid_out_length by (auto simp: registry_ok_def)
  have "h < length (tr_info r)" using find_from_Some[of tid 0 "tr_info r" h] Some by (simp add: find_tag_def)
  moreover have "md_hash (tr_info r ! h) = ty_hash (Ts ! h)"
    using laid_out_nth[of 0 "tr_info r" Ts "tr_next_offset r" h] assms(1) calculation by (simp add: registry_ok_def)
  ultimately show ?thesis using Some assms(1) len by (auto simp: register_tag_def get_handle_by_name_def)
next
  case None
  with register_tag_fresh[OF assms] show ?thesis by (intro exI[of _ "Ts @ [T]"]) simp
qed

subsection \<open>Tags are kept\<close>

lemma put_range_props:
  assumes "off + length bs \<le> length buf"
  shows "length (put_range off bs buf) = length buf" and "i < off \<or> off + length bs \<le> i \<Longrightarrow> i < length buf \<Longrightarrow> put_range off bs buf ! i = buf ! i"
    and "i < length bs \<Longrightarrow> put_range off bs buf ! (off + i) = bs ! i"
  using assms by (auto simp: put_range_def nth_append)

lemma asserts_ok:
  assumes "registry_ok Ts r" and "h < length Ts" and "buffer_size r \<le> len"
  shows "get_info h r = Inr (tr_info r ! h)" "assert_room mode (tr_info r ! h) len reason = Inr ()"
    "assert_type mode (tr_info r ! h) (Ts ! h) reason' = Inr ()" "md_offset (tr_info r ! h) + ty_obj (Ts ! h) \<le> len" "tag_type_ok (Ts ! h)"
proof -
  have lay: "laid_out 0 (tr_info r) Ts (tr_next_offset r)" and h: "h < length (tr_info r)"
    using assms(1,2) laid_out_length by (auto simp: registry_ok_def)
  note d = laid_out_nth[OF lay h]
  show "get_info h r = Inr (tr_info r ! h)" using h by (simp add: get_info_def)
  show room: "md_offset (tr_info r ! h) + ty_obj (Ts ! h) \<le> len" and "tag_type_ok (Ts ! h)" using d assms(3) by (auto simp: buffer_size_def)
  then show "assert_room mode (tr_info r ! h) len reason = Inr ()" using d by (simp add: assert_room_def tag_type_ok_def)
  show "assert_type mode (tr_info r ! h) (Ts ! h) reason' = Inr ()" using d by (simp add: assert_type_def)
qed

lemma get_tag_value:
  assumes "registry_ok Ts r" and "h < length Ts" and "buffer_size r \<le> length buf"
  shows "get_tag mode r (Ts ! h) h buf = Inr (if buf ! md_offset (tr_info r ! h) = 0 then None
     else Some (map (\<lambda>i. buf ! (md_offset (tr_info r ! h) + ty_voff (Ts ! h) + i)) [0..<ty_size (Ts ! h)]))"
proof -
  note a = asserts_ok[OF assms]
  let ?o = "md_offset (tr_info r ! h) + ty_voff (Ts ! h)" and ?n = "ty_size (Ts ! h)"
  have "take ?n (drop ?o buf) = map (\<lambda>i. buf ! (?o + i)) [0..<?n]"
    using a(4,5) by (intro nth_equalityI) (auto simp: tag_type_ok_def)
  with a show ?thesis by (simp add: get_tag_def)
qed

text \<open>The range a tag's object occupies, and what reading it depends on.\<close>

lemma get_tag_cong:
  assumes "registry_ok Ts r" and "h < length Ts" and "buffer_size r \<le> length buf" and "length buf' = length buf"
    and "\<And>i. md_offset (tr_info r ! h) \<le> i \<Longrightarrow> i < md_offset (tr_info r ! h) + ty_obj (Ts ! h) \<Longrightarrow> buf' ! i = buf ! i"
  shows "get_tag mode r (Ts ! h) h buf' = get_tag mode r (Ts ! h) h buf"
proof -
  have ok: "tag_type_ok (Ts ! h)" by (rule asserts_ok(5)[OF assms(1-3)])
  have "buf' ! md_offset (tr_info r ! h) = buf ! md_offset (tr_info r ! h)" using ok by (intro assms(5)) (auto simp: tag_type_ok_def)
  moreover have "buf' ! (md_offset (tr_info r ! h) + ty_voff (Ts ! h) + i) = buf ! (md_offset (tr_info r ! h) + ty_voff (Ts ! h) + i)"
    if "i < ty_size (Ts ! h)" for i
    using ok that by (intro assms(5)) (auto simp: tag_type_ok_def)
  ultimately show ?thesis using get_tag_value[OF assms(1-3)] get_tag_value[OF assms(1,2), of buf'] assms(3,4) by simp
qed

lemma emplace_tag_ok:
  assumes "registry_ok Ts r" and "h < length Ts" and "buffer_size r \<le> length buf" and "length v = ty_size (Ts ! h)"
  shows "\<exists>buf'. emplace_tag mode r (Ts ! h) h v buf = Inr buf' \<and> length buf' = length buf \<and>
    get_tag mode r (Ts ! h) h buf' = Inr (Some v) \<and> is_available_tag mode r h buf' = Inr True \<and>
    (\<forall>h' < length Ts. h' \<noteq> h \<longrightarrow> get_tag mode r (Ts ! h') h' buf' = get_tag mode r (Ts ! h') h' buf)"
proof -
  let ?d = "tr_info r ! h" and ?T = "Ts ! h"
  let ?v = "put_range (md_offset ?d + ty_voff ?T) v buf" and ?b = "put_range (md_offset ?d) [1] (put_range (md_offset ?d + ty_voff ?T) v buf)"
  note a = asserts_ok[OF assms(1-3)]
  have T: "1 \<le> ty_voff ?T" "ty_voff ?T + ty_size ?T \<le> ty_obj ?T" using a(5) by (auto simp: tag_type_ok_def)
  have fit: "md_offset ?d + ty_voff ?T + length v \<le> length buf" "md_offset ?d + length [1] \<le> length buf" using a(4) T assms(4) by auto
  note pv = put_range_props[OF fit(1)]
  have fit1: "md_offset ?d + length [1 :: byte] \<le> length ?v" using fit(2) pv(1) by simp
  note pb = put_range_props[OF fit1]
  have len: "length ?b = length buf" using pb(1) pv(1) by simp
  have emp: "emplace_tag mode r ?T h v buf = Inr ?b" using a by (simp add: emplace_tag_def)
  have flag: "?b ! md_offset ?d = 1" using pb(3)[of 0] by simp
  have val: "?b ! (md_offset ?d + ty_voff ?T + i) = v ! i" if "i < length v" for i
    using pb(2)[of "md_offset ?d + ty_voff ?T + i"] pv(1) pv(3)[OF that] fit(1) T(1) that by simp
  have "map (\<lambda>i. ?b ! (md_offset ?d + ty_voff ?T + i)) [0..<ty_size ?T] = v" using val assms(4) by (intro nth_equalityI) auto
  then have get: "get_tag mode r ?T h ?b = Inr (Some v)" using get_tag_value[OF assms(1,2), of ?b] assms(3) len flag by simp
  have avail: "is_available_tag mode r h ?b = Inr True"
    using asserts_ok[OF assms(1,2), of "length ?b"] len assms(3) flag fit(2) by (simp add: is_available_tag_def)
  have other: "get_tag mode r (Ts ! h') h' ?b = get_tag mode r (Ts ! h') h' buf" if h': "h' < length Ts" "h' \<noteq> h" for h'
  proof (rule get_tag_cong[OF assms(1) h'(1) assms(3) len])
    fix i assume i: "md_offset (tr_info r ! h') \<le> i" "i < md_offset (tr_info r ! h') + ty_obj (Ts ! h')"
    have lay: "laid_out 0 (tr_info r) Ts (tr_next_offset r)" and eq: "length Ts = length (tr_info r)"
      using assms(1) laid_out_length by (auto simp: registry_ok_def)
    have "i < md_offset ?d \<or> md_offset ?d + ty_obj ?T \<le> i"
      using laid_out_disjoint[OF lay, of h h'] laid_out_disjoint[OF lay, of h' h] h' assms(2) eq i by (cases "h < h'") auto
    moreover have "i < length buf" using asserts_ok(4)[OF assms(1) h'(1) assms(3)] i by simp
    ultimately show "?b ! i = buf ! i" using pb(2)[of i] pv(1) pv(2)[of i] T assms(4) by auto
  qed
  show ?thesis using emp len get avail other by blast
qed

text \<open>Any sequence of registrations, those that throw included.\<close>

fun register_all :: "(tag_type \<times> string) list \<Rightarrow> tag_registry \<Rightarrow> tag_registry" where
  "register_all [] r = r"
| "register_all ((T, tid) # xs) r = register_all xs (snd (register_tag T tid r))"

lemma register_all_ok:
  assumes "registry_ok Ts r" and "\<forall>(T, tid) \<in> set xs. tag_type_ok T"
  shows "\<exists>Us. registry_ok (Ts @ Us) (register_all xs r)"
  using assms
proof (induction xs arbitrary: r Ts)
  case Nil
  then show ?case by (intro exI[of _ "[]"]) simp
next
  case (Cons x xs)
  obtain T tid where x: "x = (T, tid)" by fastforce
  with Cons.prems(2) have "tag_type_ok T" by auto
  then obtain Us where "registry_ok (Ts @ Us) (snd (register_tag T tid r))" using register_tag_ok[OF Cons.prems(1), of T tid] by blast
  with Cons.IH[of "Ts @ Us"] Cons.prems(2) x show ?case by fastforce
qed


text \<open>An \<open>int\<close>, a \<open>double\<close>, and the objects they are stored in.\<close>

definition int_tag :: tag_type where "int_tag = \<lparr>ty_hash = 17, ty_size = 4, ty_obj = 8, ty_voff = 4\<rparr>"
definition double_tag :: tag_type where "double_tag = \<lparr>ty_hash = 23, ty_size = 8, ty_obj = 16, ty_voff = 8\<rparr>"

definition demo_regs :: "(tag_type \<times> string) list" where
  "demo_regs = [(int_tag, ''a''), (double_tag, ''b''), (double_tag, ''a'')]"


subsection \<open>What the checks let through\<close>

text \<open>
  The size that is checked is that of the value, not that of the object with its flag: a buffer four bytes short
  passes the assertion. The check that throws compares the negated hash code, so that another type passes it.
\<close>
lemma tag_checks_too_weak:
  "emplace_tag 1 (register_all [(int_tag, ''a'')] tag_registry_new) int_tag 0 [1, 2, 3, 4] (replicate 4 0) = Inl Undefined_Behaviour"
  "assert_type 2 \<lparr>md_size = 4, md_offset = 0, md_hash = 17, md_id = ''a''\<rparr> double_tag ''emplace_tag: Tag type mismatch'' = Inr ()"
  by code_simp+

end
