(* ===== verification/Flow_Payload.thy ===== *)
theory Flow_Payload
  imports Flow_Meter "HOL-Library.Multiset"
begin

text \<open>
  The payload of a flow (\<open>messages/Flow.cpp\<close>, \<open>get_payload\<close>): the packets of a TCP flow are put in
  order, then their payloads are copied one after the other into the caller's buffer. Positions in the packet list are
  what the iterators of the code denote, so the list is sorted together with them. Packets are read through their
  accessors, whose values do not depend on what has been parsed before.
\<close>

subsection \<open>The other constructors\<close>

definition flow_new_counts :: "flow_key \<Rightarrow> u64 \<Rightarrow> u64 \<Rightarrow> u64 \<Rightarrow> u64 \<Rightarrow> flow" where
  "flow_new_counts k st et b n = \<lparr>fl_key = k, fl_stime = st, fl_etime = et, fl_bytes = b, fl_packets = n, fl_flow_packets = [],
     fl_list_sorted = False\<rparr>"

definition flow_new_packets :: "flow_key \<Rightarrow> u64 \<Rightarrow> u64 \<Rightarrow> u64 \<Rightarrow> u64 \<Rightarrow> packet list \<Rightarrow> bool \<Rightarrow> flow" where
  "flow_new_packets k st et b n ps so = \<lparr>fl_key = k, fl_stime = st, fl_etime = et, fl_bytes = b, fl_packets = n,
     fl_flow_packets = ps, fl_list_sorted = so\<rparr>"

definition flow_matches_packet :: "packet \<Rightarrow> flow \<Rightarrow> bool res" where
  "flow_matches_packet p f = bindE (val pkt_key p) (\<lambda>k. Inr (fl_key f = k))"

definition flow_matches :: "flow \<Rightarrow> flow \<Rightarrow> bool" where
  "flow_matches g f \<longleftrightarrow> fl_key f = fl_key g"

subsection \<open>Ordering the packets\<close>

datatype packet_kind = packets_tcp | packets_udp | packets_unknown

text \<open>The loop that finds out the kind of the flow and the position of a packet with a SYN (\<open>None\<close> is \<open>end()\<close>).\<close>

fun scan_packets :: "nat \<Rightarrow> bool \<Rightarrow> packet_kind \<Rightarrow> nat option \<Rightarrow> packet list \<Rightarrow> (packet_kind \<times> nat option) res" where
  "scan_packets i first kind syn [] = Inr (kind, syn)"
| "scan_packets i first kind syn (p # ps) =
     bindE (val pkt_is_tcp p) (\<lambda>tcp. bindE (val pkt_is_udp p) (\<lambda>udp.
       if \<not> tcp \<and> \<not> udp then Inl (Runtime_Error ''FlowMeter: can get flow payload only for TCP or UDP flows at the moment'')
       else if kind = packets_unknown then scan_packets (i + 1) False (if tcp then packets_tcp else packets_udp) syn ps
       else if kind = packets_udp \<and> tcp \<or> kind = packets_tcp \<and> udp
         then Inl (Runtime_Error ''FlowMeter: flow contains both TCP and UDP packets'')
       else if kind = packets_udp \<and> \<not> first then Inl (Runtime_Error ''FlowMeter: flow contains more than one UDP packet'')
       else if kind = packets_tcp then bindE (val (pkt_tcp_has kSYN) p) (\<lambda>s. scan_packets (i + 1) False kind (if s then Some i else syn) ps)
       else scan_packets (i + 1) False kind syn ps))"

text \<open>A list of at most one element is sorted without a comparison; \<open>std::list::sort\<close> is stable.\<close>

definition seq_of :: "packet \<Rightarrow> u32" where
  "seq_of p = (case val pkt_tcp_seq p of Inr s \<Rightarrow> s | Inl _ \<Rightarrow> 0)"

definition sort_by_seq :: "(nat \<times> packet) list \<Rightarrow> (nat \<times> packet) list res" where
  "sort_by_seq xs =
     (if length xs \<le> 1 then Inr xs
      else bindE (foldE (\<lambda>x _. bindE (val pkt_tcp_seq (snd x)) (\<lambda>_. Inr ())) xs ()) (\<lambda>_. Inr (sort_key (seq_of \<circ> snd) xs)))"

text \<open>The two splices move what precedes the SYN behind the rest, and everything if there is none.\<close>

definition splice_at :: "nat option \<Rightarrow> (nat \<times> packet) list \<Rightarrow> (nat \<times> packet) list" where
  "splice_at syn xs =
     (case syn of
        None \<Rightarrow> xs
      | Some i \<Rightarrow> dropWhile (\<lambda>x. fst x \<noteq> i) xs @ takeWhile (\<lambda>x. fst x \<noteq> i) xs)"

definition order_packets :: "packet list \<Rightarrow> packet list res" where
  "order_packets ps =
     bindE (scan_packets 0 True packets_unknown None ps) (\<lambda>(kind, syn).
       if kind = packets_tcp then bindE (sort_by_seq (enumerate 0 ps)) (\<lambda>xs. Inr (map snd (splice_at syn xs)))
       else Inr ps)"

subsection \<open>Copying\<close>

record copy_state =
  effective_offset :: u64
  bytes_skipped :: u64
  bytes_copied :: u64
  copied_bytes :: "byte list"
  bytes_remaining :: u64
  expected_sequence_number :: u32
  cp_first :: bool
  cp_more :: bool

definition copy_init :: "u64 \<Rightarrow> u64 \<Rightarrow> copy_state" where
  "copy_init off nbytes = \<lparr>effective_offset = off, bytes_skipped = 0, bytes_copied = 0, copied_bytes = [], bytes_remaining = nbytes,
     expected_sequence_number = 0, cp_first = True, cp_more = True\<rparr>"

text \<open>The lengths of the headers are subtracted in \<open>int\<close> and converted, or in \<open>size_t\<close>.\<close>

definition payload_length :: "packet \<Rightarrow> u64 res" where
  "payload_length p =
     bindE (val pkt_is_tcp p) (\<lambda>tcp.
       if tcp then
         bindE (val pkt_ip_length p) (\<lambda>l. bindE (val pkt_ip_header_length p) (\<lambda>ih. bindE (val pkt_tcp_header_length p) (\<lambda>th.
           Inr (word_of_int (uint l - uint ih - uint th)))))
       else
         bindE (val pkt_is_udp p) (\<lambda>udp.
           if udp then bindE (val pkt_udp_length p) (\<lambda>l. Inr (ucast l - of_nat sizeof_udphdr))
           else Inl (Runtime_Error ''FlowMeter: subsequent packet in flow neither TCP nor UDP'')))"

text \<open>\<open>memcpy\<close> from the payload pointer of a packet plus an offset.\<close>

definition copy_payload :: "packet \<Rightarrow> u64 \<Rightarrow> u64 \<Rightarrow> byte list res" where
  "copy_payload p off n =
     bindE (val pkt_payload p) (\<lambda>ptr.
       if n = 0 then Inr []
       else (case ptr of
          None \<Rightarrow> Inl Undefined_Behaviour
        | Some a \<Rightarrow>
            if a + unat off + unat n \<le> length (m_buffer p) then Inr (take (unat n) (drop (a + unat off) (m_buffer p)))
            else Inl Undefined_Behaviour))"

definition copy_first :: "packet \<Rightarrow> copy_state \<Rightarrow> copy_state res" where
  "copy_first p s =
     (if \<not> cp_first s then Inr s
      else bindE (val pkt_is_udp p) (\<lambda>udp.
        if udp then Inr (s\<lparr>effective_offset := 0, cp_first := False\<rparr>)
        else bindE (val pkt_is_tcp p) (\<lambda>tcp.
          if \<not> tcp then Inl (Runtime_Error ''FlowMeter: can get flow payload only for TCP or UDP flows at the moment'')
          else bindE (val (pkt_tcp_has kSYN) p) (\<lambda>syn.
            if syn then bindE (val pkt_tcp_seq p) (\<lambda>q. Inr (s\<lparr>expected_sequence_number := q, cp_first := False\<rparr>))
            else Inr (s\<lparr>cp_more := False, cp_first := False\<rparr>)))))"

definition copy_bytes :: "u64 \<Rightarrow> packet \<Rightarrow> u64 \<Rightarrow> copy_state \<Rightarrow> copy_state res" where
  "copy_bytes off p len s =
     (if effective_offset s < bytes_skipped s + bytes_copied s + len then
        let n = min (bytes_remaining s) len;
            payload_offset = (if bytes_skipped s + bytes_copied s = 0 then effective_offset s else 0)
        in bindE (copy_payload p payload_offset n) (\<lambda>bs.
             Inr (s\<lparr>bytes_copied := bytes_copied s + n, bytes_remaining := bytes_remaining s - n,
                    copied_bytes := copied_bytes s @ bs, bytes_skipped := off\<rparr>))
      else Inr (s\<lparr>bytes_skipped := bytes_skipped s + len\<rparr>))"

definition copy_next :: "packet \<Rightarrow> u64 \<Rightarrow> copy_state \<Rightarrow> copy_state res" where
  "copy_next p len s =
     bindE (val pkt_is_tcp p) (\<lambda>tcp.
       if tcp then bindE (val pkt_tcp_seq p) (\<lambda>q.
         if q = expected_sequence_number s
         then Inr (s\<lparr>expected_sequence_number := ucast (ucast (expected_sequence_number s) + (len + 1))\<rparr>)
         else Inr (s\<lparr>cp_more := False\<rparr>))
       else bindE (val pkt_is_udp p) (\<lambda>udp.
         if udp then Inr (s\<lparr>cp_more := False\<rparr>)
         else Inl (Runtime_Error ''FlowMeter: subsequent packet in flow neither TCP nor UDP (can't happen, but apparently did)'')))"

definition copy_step :: "u64 \<Rightarrow> packet \<Rightarrow> copy_state \<Rightarrow> copy_state res" where
  "copy_step off p s =
     bindE (copy_first p s) (\<lambda>s1. bindE (payload_length p) (\<lambda>len.
       if cp_more s1 then bindE (copy_bytes off p len s1) (copy_next p len) else Inr s1))"

fun copy_loop :: "u64 \<Rightarrow> packet list \<Rightarrow> copy_state \<Rightarrow> copy_state res" where
  "copy_loop off [] s = Inr s"
| "copy_loop off (p # ps) s =
     (if cp_more s \<and> 0 < bytes_remaining s then bindE (copy_step off p s) (copy_loop off ps) else Inr s)"

text \<open>The number of bytes returned and the bytes written at the start of the caller's buffer.\<close>

definition get_payload :: "u64 \<Rightarrow> u64 \<Rightarrow> (flow, u64 \<times> byte list) op" where
  "get_payload off nbytes f =
     (if fl_flow_packets f = [] then (Inr (0, []), f)
      else case (if fl_list_sorted f then Inr (fl_flow_packets f) else order_packets (fl_flow_packets f)) of
             Inl e \<Rightarrow> (Inl e, f)
           | Inr ps \<Rightarrow>
               (bindE (copy_loop off ps (copy_init off nbytes)) (\<lambda>s. Inr (bytes_copied s, copied_bytes s)),
                f\<lparr>fl_flow_packets := ps, fl_list_sorted := True\<rparr>))"

subsection \<open>What is written\<close>

definition copy_inv :: "u64 \<Rightarrow> copy_state \<Rightarrow> bool" where
  "copy_inv nbytes s \<longleftrightarrow> length (copied_bytes s) = unat (bytes_copied s) \<and> unat (bytes_copied s) + unat (bytes_remaining s) = unat nbytes"

lemma copy_payload_length: "copy_payload p off n = Inr bs \<Longrightarrow> length bs = unat n"
  by (auto simp: copy_payload_def bindE_Inr_conv split: if_splits option.splits)

lemma copy_first_inv: "copy_first p s = Inr s1 \<Longrightarrow> copy_inv N s \<Longrightarrow> copy_inv N s1"
  by (auto simp: copy_first_def copy_inv_def bindE_Inr_conv split: if_splits)

lemma copy_next_inv: "copy_next p len s = Inr s1 \<Longrightarrow> copy_inv N s \<Longrightarrow> copy_inv N s1"
  by (auto simp: copy_next_def copy_inv_def bindE_Inr_conv split: if_splits)

lemma unat_move:
  assumes "unat (a :: u64) + unat (b :: u64) = unat (c :: u64)" "n \<le> b"
  shows "unat (a + n) = unat a + unat n" "unat (b - n) = unat b - unat n"
proof -
  have n: "unat n \<le> unat b" using assms(2) by (simp add: word_le_nat_alt)
  then have "unat a + unat n < 2 ^ 64" using assms(1) unsigned_less[of c, where 'a = nat] by simp
  then show "unat (a + n) = unat a + unat n" by (simp add: unat_word_ariths)
  show "unat (b - n) = unat b - unat n" using assms(2) by (rule unat_sub)
qed

lemma copy_bytes_inv:
  assumes "copy_bytes off p len s = Inr s1" "copy_inv N s"
  shows "copy_inv N s1"
proof (cases "effective_offset s < bytes_skipped s + bytes_copied s + len")
  case True
  let ?n = "min (bytes_remaining s) len"
  obtain bs where bs: "length bs = unat ?n"
    "s1 = s\<lparr>bytes_copied := bytes_copied s + ?n, bytes_remaining := bytes_remaining s - ?n,
            copied_bytes := copied_bytes s @ bs, bytes_skipped := off\<rparr>"
    using assms(1) True by (auto simp: copy_bytes_def bindE_Inr_conv Let_def dest!: copy_payload_length)
  have inv0: "unat (bytes_copied s) + unat (bytes_remaining s) = unat N" "length (copied_bytes s) = unat (bytes_copied s)"
    using assms(2) by (simp_all add: copy_inv_def)
  have le: "?n \<le> bytes_remaining s" by simp
  then have "unat ?n \<le> unat (bytes_remaining s)" by (simp only: word_le_nat_alt)
  then show ?thesis using bs inv0 unat_move[OF inv0(1) le] by (simp add: copy_inv_def)
next
  case False
  with assms show ?thesis by (auto simp: copy_bytes_def copy_inv_def)
qed

lemma copy_step_inv: "copy_step off p s = Inr s1 \<Longrightarrow> copy_inv N s \<Longrightarrow> copy_inv N s1"
  unfolding copy_step_def bindE_Inr_conv
  by (auto split: if_splits simp: bindE_Inr_conv dest: copy_first_inv copy_bytes_inv copy_next_inv)

lemma copy_loop_inv: "copy_loop off ps s = Inr s1 \<Longrightarrow> copy_inv N s \<Longrightarrow> copy_inv N s1"
  by (induction ps arbitrary: s) (auto simp: bindE_Inr_conv split: if_splits dest: copy_step_inv)

lemma splice_at_mset: "mset (splice_at syn xs) = mset xs"
proof (cases syn)
  case (Some i)
  have "mset (takeWhile (\<lambda>x. fst x \<noteq> i) xs) + mset (dropWhile (\<lambda>x. fst x \<noteq> i) xs) = mset xs" by (simp flip: mset_append)
  then show ?thesis by (simp add: splice_at_def Some add.commute)
qed (simp add: splice_at_def)

lemma sort_by_seq_mset: "sort_by_seq xs = Inr ys \<Longrightarrow> mset ys = mset xs"
  by (auto simp: sort_by_seq_def bindE_Inr_conv split: if_splits)

lemma order_packets_mset: "order_packets ps = Inr qs \<Longrightarrow> mset qs = mset ps"
proof -
  assume "order_packets ps = Inr qs"
  then consider "qs = ps" | syn xs where "sort_by_seq (enumerate 0 ps) = Inr xs" "qs = map snd (splice_at syn xs)"
    by (auto simp: order_packets_def bindE_Inr_conv split: if_splits)
  then show ?thesis
  proof cases
    case 2
    have "mset qs = image_mset snd (mset (enumerate 0 ps))" using 2 by (simp add: splice_at_mset sort_by_seq_mset)
    also have "\<dots> = mset (map snd (enumerate 0 ps))" by (simp only: mset_map)
    finally show ?thesis by simp
  qed simp
qed

text \<open>
  C30: Reading the payload of a flow writes exactly the number of bytes it returns and never more than the caller
  allows, whatever the packets claim about their lengths; it reorders the packets of the flow but neither loses nor
  duplicates one, leaves every other member alone, and a call that has succeeded is not followed by another sort.
\<close>
theorem get_payload_bound:
  assumes "get_payload off nbytes f = (Inr (n, bs), f')"
  shows "length bs = unat n \<and> n \<le> nbytes \<and> mset (fl_flow_packets f') = mset (fl_flow_packets f) \<and>
     f' = f\<lparr>fl_flow_packets := fl_flow_packets f', fl_list_sorted := fl_list_sorted f'\<rparr> \<and>
     snd (get_payload off' nbytes' f') = f'"
proof (cases "fl_flow_packets f = []")
  case True
  then show ?thesis using assms by (auto simp: get_payload_def)
next
  case False
  let ?o = "if fl_list_sorted f then Inr (fl_flow_packets f) else order_packets (fl_flow_packets f)"
  obtain ps s where ps: "?o = Inr ps" "copy_loop off ps (copy_init off nbytes) = Inr s"
    "n = bytes_copied s" "bs = copied_bytes s" "f' = f\<lparr>fl_flow_packets := ps, fl_list_sorted := True\<rparr>"
    using assms False by (auto simp: get_payload_def bindE_Inr_conv split: sum.splits)
  have "copy_inv nbytes (copy_init off nbytes)" by (simp add: copy_inv_def copy_init_def)
  with ps(2) have "copy_inv nbytes s" by (rule copy_loop_inv)
  moreover have "mset ps = mset (fl_flow_packets f)" using ps(1) order_packets_mset by (auto split: if_splits)
  ultimately show ?thesis using ps(3-5) False by (auto simp: copy_inv_def get_payload_def word_le_nat_alt)
qed

subsection \<open>The order of the packets\<close>

definition has_syn :: "packet \<Rightarrow> bool" where
  "has_syn p \<longleftrightarrow> val (pkt_tcp_has kSYN) p = Inr True"

definition tcp_packet :: "packet \<Rightarrow> bool" where
  "tcp_packet p \<longleftrightarrow> val pkt_is_tcp p = Inr True \<and> val pkt_is_udp p = Inr False \<and> val (pkt_tcp_has kSYN) p = Inr (has_syn p) \<and>
     val pkt_tcp_seq p = Inr (seq_of p)"

fun last_syn :: "nat \<Rightarrow> nat option \<Rightarrow> packet list \<Rightarrow> nat option" where
  "last_syn i syn [] = syn"
| "last_syn i syn (p # ps) = last_syn (i + 1) (if has_syn p then Some i else syn) ps"

lemma scan_tcp:
  "\<forall>p \<in> set ps. tcp_packet p \<Longrightarrow> scan_packets i False packets_tcp syn ps = Inr (packets_tcp, last_syn i syn ps)"
  by (induction ps arbitrary: i syn) (simp_all add: tcp_packet_def)

lemma last_syn_none: "\<forall>p \<in> set ps. \<not> has_syn p \<Longrightarrow> last_syn i syn ps = syn"
  by (induction ps arbitrary: i syn) simp_all

lemma last_syn_append: "last_syn i syn (xs @ ys) = last_syn (i + length xs) (last_syn i syn xs) ys"
  by (induction xs arbitrary: i syn) simp_all

lemma map_insort_key: "map g (insort_key (\<lambda>x. f (g x)) x xs) = insort_key f (g x) (map g xs)"
  by (induction xs) simp_all

lemma map_sort_key: "map g (sort_key (\<lambda>x. f (g x)) xs) = sort_key f (map g xs)"
  by (induction xs) (simp_all add: map_insort_key)

lemma sort_by_seq_tcp:
  assumes "\<forall>x \<in> set xs. tcp_packet (snd x)"
  shows "sort_by_seq xs = Inr (sort_key (\<lambda>x. seq_of (snd x)) xs)"
proof -
  have "foldE (\<lambda>x _. bindE (val pkt_tcp_seq (snd x)) (\<lambda>_. Inr ())) xs () = Inr ()"
    using assms by (induction xs) (auto simp: tcp_packet_def)
  moreover have "length xs \<le> 1 \<Longrightarrow> sort_key (\<lambda>x. seq_of (snd x)) xs = xs" by (cases xs) auto
  ultimately show ?thesis by (simp add: sort_by_seq_def comp_def)
qed

lemma order_packets_tcp:
  assumes "\<forall>p \<in> set (q # ps). tcp_packet p"
  shows "order_packets (q # ps) =
     Inr (map snd (splice_at (last_syn 1 None ps) (sort_key (\<lambda>x. seq_of (snd x)) (enumerate 0 (q # ps)))))"
proof -
  have "scan_packets 0 True packets_unknown None (q # ps) = Inr (packets_tcp, last_syn 1 None ps)"
    using assms scan_tcp[of ps 1 None] by (auto simp: tcp_packet_def)
  moreover have "\<forall>x \<in> set (enumerate 0 (q # ps)). tcp_packet (snd x)"
    using assms by (metis image_eqI list.set_map map_snd_enumerate)
  ultimately show ?thesis by (simp add: order_packets_def sort_by_seq_tcp del: enumerate_simps)
qed

text \<open>Serial number arithmetic: distances from a starting point, modulo the width.\<close>

lemma seq_distance:
  fixes a b c :: u32
  shows "c \<le> a \<Longrightarrow> a \<le> b \<Longrightarrow> a - c \<le> b - c" "a \<le> b \<Longrightarrow> b < c \<Longrightarrow> a - c \<le> b - c" "a < c \<Longrightarrow> c \<le> b \<Longrightarrow> b - c \<le> a - c"
  using unsigned_less[of a, where 'a = nat] unsigned_less[of b, where 'a = nat] unsigned_less[of c, where 'a = nat]
  by (simp_all add: word_le_nat_alt word_less_nat_alt unat_sub_if')

lemma filter_rotate:
  assumes "\<And>x y. x \<in> set xs \<Longrightarrow> y \<in> set ys \<Longrightarrow> P x \<Longrightarrow> P y \<Longrightarrow> False"
  shows "filter P (ys @ xs) = filter P (xs @ ys)"
proof (cases "\<exists>x \<in> set xs. P x")
  case True
  then have "filter P ys = []" using assms by (auto simp: filter_empty_conv)
  then show ?thesis by simp
next
  case False
  then have "filter P xs = []" by (auto simp: filter_empty_conv)
  then show ?thesis by simp
qed

lemma rotate_sorted:
  assumes sort: "sort_key f zs = xs @ ys" and lo: "\<forall>x \<in> set xs. f x < c" and hi: "\<forall>y \<in> set ys. c \<le> f y"
  shows "sort_key (\<lambda>x. f x - (c :: u32)) zs = ys @ xs"
proof (rule properties_for_sort_key)
  have "mset (sort_key f zs) = mset zs" by simp
  then have mset_eq: "mset (ys @ xs) = mset zs" using sort by (simp add: add.commute)
  show "mset (ys @ xs) = mset zs" by (rule mset_eq)
  have sorted: "sorted (map f (xs @ ys))" using sorted_sort_key[of f zs] sort by simp
  then have sx: "sorted_wrt (\<lambda>a b. f a \<le> f b) xs" and sy: "sorted_wrt (\<lambda>a b. f a \<le> f b) ys"
    by (simp_all add: sorted_append sorted_map)
  have "sorted_wrt (\<lambda>a b. f a - c \<le> f b - c) xs"
    by (rule sorted_wrt_mono_rel[OF _ sx]) (use lo seq_distance(2) in blast)
  moreover have "sorted_wrt (\<lambda>a b. f a - c \<le> f b - c) ys"
    by (rule sorted_wrt_mono_rel[OF _ sy]) (use hi seq_distance(1) in blast)
  moreover have "\<forall>y \<in> set ys. \<forall>x \<in> set xs. f y - c \<le> f x - c" using lo hi seq_distance(3) by blast
  ultimately show "sorted (map (\<lambda>x. f x - c) (ys @ xs))" by (auto simp: sorted_append sorted_map)
next
  fix k
  assume "k \<in> set (ys @ xs)"
  have "filter (\<lambda>x. f k - c = f x - c) (ys @ xs) = filter (\<lambda>x. f k = f x) (ys @ xs)" by (rule filter_cong) auto
  also have "\<dots> = filter (\<lambda>x. f k = f x) (xs @ ys)" using lo hi by (intro filter_rotate) force
  also have "\<dots> = filter (\<lambda>x. f x = f k) (sort_key f zs)" unfolding sort by (rule filter_cong) auto
  also have "\<dots> = filter (\<lambda>x. f x = f k) zs" by (rule sort_key_stable)
  finally show "filter (\<lambda>x. f k - c = f x - c) (ys @ xs) = filter (\<lambda>x. f k - c = f x - c) zs" by (simp add: eq_commute)
qed

lemma splice_at_split:
  assumes "\<forall>x \<in> set as. fst x \<noteq> i"
  shows "splice_at (Some i) (as @ (i, p) # bs) = (i, p) # bs @ as"
  using assms by (simp add: splice_at_def takeWhile_append2 dropWhile_append2)

lemma enumerate_split: "enumerate 0 (xs @ s # ys) = enumerate 0 xs @ (length xs, s) # enumerate (Suc (length xs)) ys"
  by (simp add: enumerate_append_eq)

text \<open>What is sorted before and after the SYN are packets of the rest of the list.\<close>

lemma sorted_enumerate_split:
  fixes f :: "packet \<Rightarrow> u32"
  assumes "sort_key (\<lambda>x. f (snd x)) (enumerate 0 (xs @ s # ys)) = as @ (length xs, s) # bs"
  shows "\<forall>x \<in> set (as @ bs). fst x \<noteq> length xs \<and> snd x \<in> set (xs @ ys)"
proof -
  let ?E = "enumerate 0 (xs @ s # ys)"
  have "mset (as @ (length xs, s) # bs) = mset ?E" unfolding assms[symmetric] by (rule mset_sort)
  then have "mset (as @ bs) = mset (enumerate 0 xs @ enumerate (Suc (length xs)) ys)" unfolding enumerate_split by simp
  then have "set (as @ bs) = set (enumerate 0 xs @ enumerate (Suc (length xs)) ys)" by (rule mset_eq_setD)
  then show ?thesis by (auto simp: in_set_enumerate_eq)
qed

text \<open>
  C29: A TCP flow is put in the order of its stream, wrap-around of the sequence numbers included: when the packet with
  the SYN is not the first one to have arrived, the packets end up stably sorted by their distance from it modulo
  \<open>2^32\<close>.
\<close>
theorem order_packets_serial:
  assumes ps: "ps = xs @ s # ys" "xs \<noteq> []" and tcp: "\<forall>p \<in> set ps. tcp_packet p"
    and syn: "has_syn s" "\<forall>p \<in> set (xs @ ys). \<not> has_syn p \<and> seq_of p \<noteq> seq_of s"
  shows "order_packets ps = Inr (sort_key (\<lambda>p. seq_of p - seq_of s) ps)"
proof -
  let ?f = "\<lambda>x :: nat \<times> packet. seq_of (snd x)" and ?j = "length xs"
  obtain q xs' where q: "xs = q # xs'" using ps(2) by (cases xs) auto
  have last: "last_syn 1 None (xs' @ s # ys) = Some ?j"
    using syn q by (simp add: last_syn_append last_syn_none)
  have "(?j, s) \<in> set (sort_key ?f (enumerate 0 ps))" unfolding ps(1) enumerate_split by simp
  then obtain as bs where L: "sort_key ?f (enumerate 0 ps) = as @ (?j, s) # bs" by (meson split_list)
  have mem: "\<forall>x \<in> set (as @ bs). fst x \<noteq> ?j \<and> snd x \<in> set (xs @ ys)"
    using sorted_enumerate_split[of seq_of xs s ys as bs] L ps(1) by simp
  have sorted: "sorted (map ?f (as @ (?j, s) # bs))" using sorted_sort_key[of ?f "enumerate 0 ps"] L by simp
  have lo: "\<forall>x \<in> set as. ?f x < seq_of s"
  proof
    fix x assume x: "x \<in> set as"
    then have "?f x \<le> seq_of s" using sorted by (auto simp: sorted_append)
    moreover have "?f x \<noteq> seq_of s" using mem syn(2) x by (metis Un_iff set_append)
    ultimately show "?f x < seq_of s" by simp
  qed
  have hi: "\<forall>x \<in> set ((?j, s) # bs). seq_of s \<le> ?f x" using sorted by (auto simp: sorted_append)
  have "order_packets ps = Inr (map snd (splice_at (Some ?j) (sort_key ?f (enumerate 0 ps))))"
    using order_packets_tcp[of q "xs' @ s # ys"] tcp last ps(1) q by simp
  also have "splice_at (Some ?j) (sort_key ?f (enumerate 0 ps)) = ((?j, s) # bs) @ as"
    unfolding L using mem by (subst splice_at_split) auto
  also have "\<dots> = sort_key (\<lambda>x. ?f x - seq_of s) (enumerate 0 ps)" using rotate_sorted[OF L lo hi] by simp
  also have "map snd \<dots> = sort_key (\<lambda>p. seq_of p - seq_of s) ps"
    using map_sort_key[of snd "\<lambda>p. seq_of p - seq_of s" "enumerate 0 ps"] by simp
  finally show ?thesis .
qed

lemma order_packets_syn_first:
  assumes "\<forall>p \<in> set (s # ys). tcp_packet p" "\<forall>p \<in> set ys. \<not> has_syn p"
  shows "order_packets (s # ys) = Inr (sort_key seq_of (s # ys))"
  using order_packets_tcp[OF assms(1)] last_syn_none[OF assms(2), of 1 None] map_sort_key[of snd seq_of "enumerate 0 (s # ys)"]
  by (simp add: splice_at_def)

text \<open>
  C40: When the packet with the SYN is the first of the list, as it is in a flow that has been seen from its start, its
  position is not recorded and the packets are sorted by plain sequence numbers; if the numbers wrap around, the list
  does not start with the SYN and no byte of the payload is returned.
\<close>
theorem wrapped_flow_unreadable:
  assumes f: "fl_flow_packets f = s # ys" "\<not> fl_list_sorted f" and tcp: "\<forall>p \<in> set (s # ys). tcp_packet p"
    and syn: "\<forall>p \<in> set ys. \<not> has_syn p" and wrap: "y \<in> set ys" "seq_of y < seq_of s"
    and len: "\<forall>p \<in> set ys. \<exists>l. payload_length p = Inr l"
  shows "fst (get_payload off nbytes f) = Inr (0, [])"
proof -
  obtain p ps where L: "sort_key seq_of (s # ys) = p # ps" by (metis list.exhaust list.simps(3) sort_key_simps(2) insort_not_Nil)
  have set: "set (p # ps) = set (s # ys)" unfolding L[symmetric] by (simp only: set_sort)
  have "\<forall>x \<in> set (s # ys). seq_of p \<le> seq_of x"
    using sorted_sort_key[of seq_of "s # ys"] unfolding L set[symmetric] by auto
  then have "seq_of p < seq_of s" using wrap by force
  then have p: "p \<in> set ys" using set by auto
  then obtain l where l: "payload_length p = Inr l" using len by blast
  have "tcp_packet p" "\<not> has_syn p" using p tcp syn by auto
  then have "copy_step off p (copy_init off nbytes) = Inr ((copy_init off nbytes)\<lparr>cp_more := False, cp_first := False\<rparr>)"
    by (simp add: copy_step_def copy_first_def copy_init_def tcp_packet_def l)
  then have "copy_loop off (p # ps) (copy_init off nbytes) = Inr (copy_init off nbytes) \<or>
     copy_loop off (p # ps) (copy_init off nbytes) = Inr ((copy_init off nbytes)\<lparr>cp_more := False, cp_first := False\<rparr>)"
    by (cases ps) auto
  then show ?thesis using f order_packets_syn_first[OF tcp syn] unfolding L
    by (auto simp: get_payload_def copy_init_def)
qed

subsection \<open>The bytes of the stream\<close>

text \<open>A TCP packet whose payload has been captured in full.\<close>

definition segment :: "packet \<Rightarrow> byte list \<Rightarrow> bool" where
  "segment p d \<longleftrightarrow> tcp_packet p \<and> payload_length p = Inr (of_nat (length d)) \<and> length d < 2 ^ 16 \<and>
     (\<exists>ptr. val pkt_payload p = Inr ptr \<and>
        (case ptr of None \<Rightarrow> d = [] | Some a \<Rightarrow> a + length d \<le> length (m_buffer p) \<and> take (length d) (drop a (m_buffer p)) = d))"

text \<open>What the copying loop takes for the stream: it stops behind the first packet that does not have the number expected.\<close>

fun stream :: "u32 \<Rightarrow> (packet \<times> byte list) list \<Rightarrow> byte list" where
  "stream e [] = []"
| "stream e ((p, d) # xs) = d @ (if seq_of p = e then stream (e + of_nat (length d) + 1) xs else [])"

definition total :: "(packet \<times> byte list) list \<Rightarrow> nat" where
  "total xs = sum_list (map (length \<circ> snd) xs)"

lemma total_simps [simp]: "total [] = 0" "total (x # xs) = length (snd x) + total xs"
  by (simp_all add: total_def)

lemma copy_payload_segment:
  assumes "segment p d" "unat n \<le> length d"
  shows "copy_payload p 0 n = Inr (take (unat n) d)"
proof (cases "n = 0")
  case True
  with assms show ?thesis by (auto simp: copy_payload_def segment_def)
next
  case False
  then have "0 < unat n" by (simp add: unat_gt_0)
  then have "d \<noteq> []" using assms(2) by auto
  then obtain a where a: "val pkt_payload p = Inr (Some a)" "a + length d \<le> length (m_buffer p)" "take (length d) (drop a (m_buffer p)) = d"
    using assms(1) by (auto simp: segment_def split: option.splits)
  have "take (unat n) (drop a (m_buffer p)) = take (unat n) d"
    using assms(2) by (subst a(3)[symmetric]) (simp add: min_absorb1)
  then show ?thesis using False a assms(2) by (simp add: copy_payload_def)
qed

lemma expected_truncated: "ucast (ucast (e :: u32) + ((of_nat n :: u64) + 1)) = e + of_nat n + (1 :: u32)"
  using unsigned_less[of e, where 'a = nat]
  by (intro word_unat_eq_iff[THEN iffD2]) (simp add: unat_word_ariths unsigned_ucast_eq take_bit_eq_mod mod_simps unat_of_nat mod_mod_cancel add.assoc)

text \<open>One packet in the middle of the loop, read from the start of the stream.\<close>

definition copying :: "copy_state \<Rightarrow> bool" where
  "copying s \<longleftrightarrow> effective_offset s = 0 \<and> bytes_skipped s = 0 \<and> \<not> cp_first s \<and> cp_more s"

lemma copy_step_segment:
  assumes s: "copying s" and seg: "segment p d" and len: "unat (bytes_copied s) + length d < 2 ^ 64"
  shows "copy_step 0 p s =
     (let n = min (bytes_remaining s) (of_nat (length d));
          s1 = s\<lparr>bytes_copied := bytes_copied s + n, bytes_remaining := bytes_remaining s - n, copied_bytes := copied_bytes s @ take (unat n) d\<rparr>
      in Inr (if seq_of p = expected_sequence_number s
              then s1\<lparr>expected_sequence_number := expected_sequence_number s + of_nat (length d) + 1\<rparr> else s1\<lparr>cp_more := False\<rparr>))"
proof -
  let ?l = "of_nat (length d) :: u64" and ?n = "min (bytes_remaining s) (of_nat (length d)) :: u64"
  have ul: "unat ?l = length d" using len by (simp add: unat_of_nat)
  have n_le: "unat ?n \<le> length d" using ul by (simp add: min_def word_le_nat_alt)
  let ?s1 = "s\<lparr>bytes_copied := bytes_copied s + ?n, bytes_remaining := bytes_remaining s - ?n,
     copied_bytes := copied_bytes s @ take (unat ?n) d\<rparr>"
  have "copy_bytes 0 p ?l s = Inr ?s1"
  proof (cases "bytes_copied s + ?l = 0")
    case True
    have "unat (bytes_copied s + ?l) = unat (bytes_copied s) + length d" using len ul by (simp add: unat_word_ariths)
    then have "bytes_copied s = 0" "d = []" using True by (simp_all add: unat_eq_0)
    with s show ?thesis by (simp add: copy_bytes_def copying_def)
  next
    case False
    then have "0 < bytes_copied s + ?l" by (simp add: word_neq_0_conv)
    then show ?thesis using s copy_payload_segment[OF seg n_le] by (simp add: copy_bytes_def copying_def Let_def)
  qed
  then show ?thesis using s seg
    by (simp add: copy_step_def copy_first_def copying_def segment_def copy_next_def tcp_packet_def Let_def expected_truncated)
qed

lemma copy_loop_stream:
  assumes "copying s" "\<forall>(p, d) \<in> set xs. segment p d" "unat (bytes_copied s) + total xs < 2 ^ 64"
  shows "\<exists>s'. copy_loop 0 (map fst xs) s = Inr s' \<and>
     copied_bytes s' = copied_bytes s @ take (unat (bytes_remaining s)) (stream (expected_sequence_number s) xs)"
  using assms
proof (induction xs arbitrary: s)
  case (Cons x xs)
  obtain p d where x: "x = (p, d)" by (cases x)
  show ?case
  proof (cases "bytes_remaining s = 0")
    case False
    let ?n = "min (bytes_remaining s) (of_nat (length d)) :: u64"
    let ?s1 = "s\<lparr>bytes_copied := bytes_copied s + ?n, bytes_remaining := bytes_remaining s - ?n,
       copied_bytes := copied_bytes s @ take (unat ?n) d\<rparr>"
    have seg: "segment p d" and small: "unat (bytes_copied s) + length d + total xs < 2 ^ 64" using Cons.prems x by auto
    then have step: "copy_step 0 p s = Inr (if seq_of p = expected_sequence_number s
        then ?s1\<lparr>expected_sequence_number := expected_sequence_number s + of_nat (length d) + 1\<rparr> else ?s1\<lparr>cp_more := False\<rparr>)"
      using copy_step_segment[OF Cons.prems(1) seg] by (simp add: Let_def)
    have un: "unat ?n = min (unat (bytes_remaining s)) (length d)" using small by (simp add: min_def word_le_nat_alt unat_of_nat)
    have copied: "unat (bytes_copied s + ?n) = unat (bytes_copied s) + unat ?n" using small un by (simp add: unat_word_ariths)
    have rem: "unat (bytes_remaining s - ?n) = unat (bytes_remaining s) - length d"
      using un by (subst unat_sub) (auto simp: min_def)
    have head: "take (unat ?n) d = take (unat (bytes_remaining s)) d" unfolding un by (simp add: min_def)
    have run: "cp_more s \<and> 0 < bytes_remaining s" using Cons.prems(1) False by (simp add: copying_def word_neq_0_conv)
    show ?thesis
    proof (cases "seq_of p = expected_sequence_number s")
      case True
      let ?s2 = "?s1\<lparr>expected_sequence_number := expected_sequence_number s + of_nat (length d) + 1\<rparr>"
      have "copying ?s2" using Cons.prems(1) by (simp add: copying_def)
      moreover have "unat (bytes_copied ?s2) + total xs < 2 ^ 64" using copied small un by simp
      ultimately show ?thesis using Cons.IH[of ?s2] Cons.prems(2) step True rem head run by (simp add: x)
    next
      case False
      then show ?thesis using step head run by (cases xs) (simp_all add: x)
    qed
  qed (simp add: x)
qed simp


text \<open>
  The number expected after a packet is one too large unless the packet is the SYN, so the second packet with data
  always looks like one behind a hole: it is still copied, and everything after it is left out.
\<close>
theorem stream_stops_after_two:
  assumes "seq_of p1 = seq_of s + 1" "seq_of p2 = seq_of p1 + of_nat (length d1)"
  shows "stream (seq_of s) ((s, []) # (p1, d1) # (p2, d2) # rest) = d1 @ d2"
  using assms by simp

text \<open>
  The payload of a UDP flow is that of its only packet: the offset is ignored, and what the packet announces is copied up to
  the limit of the caller.
\<close>
theorem get_payload_udp:
  assumes f: "fl_flow_packets f = [p]" "\<not> fl_list_sorted f"
    and p: "val pkt_is_udp p = Inr True" "val pkt_is_tcp p = Inr False" "val pkt_udp_length p = Inr l" "8 \<le> l"
      "val pkt_payload p = Inr (Some a)" "a + unat l - 8 \<le> length (m_buffer p)"
  shows "get_payload off nbytes f =
     (Inr (min nbytes (ucast l - 8), take (min (unat nbytes) (unat l - 8)) (drop a (m_buffer p))), f\<lparr>fl_list_sorted := True\<rparr>)"
proof -
  let ?n = "min nbytes (ucast l - 8)"
  have u: "unat (ucast l :: u64) = unat l"
    using unsigned_less[of l, where 'a = nat] by (simp add: unsigned_ucast_eq take_bit_nat_eq_self)
  then have "(8 :: u64) \<le> ucast l" using p(4) by (simp add: word_le_nat_alt)
  then have ul: "unat (ucast l - 8 :: u64) = unat l - 8" using u by (subst unat_sub) simp_all
  have un: "unat ?n = min (unat nbytes) (unat l - 8)" using ul by (simp add: min_def word_le_nat_alt)
  have len: "payload_length p = Inr (ucast l - 8)" by (simp add: payload_length_def p sizeof_udphdr_def)
  have fits: "unat ?n \<noteq> 0 \<Longrightarrow> a + unat ?n \<le> length (m_buffer p)" using un p(6) by linarith
  then have copy: "copy_payload p 0 ?n = Inr (take (unat ?n) (drop a (m_buffer p)))"
    by (cases "?n = 0") (simp_all add: copy_payload_def p unat_eq_0)
  let ?s = "(copy_init off nbytes)\<lparr>effective_offset := 0, cp_first := False\<rparr>"
  have "copy_bytes off p (ucast l - 8) ?s = Inr (if 0 < (ucast l - 8 :: u64) then ?s\<lparr>bytes_copied := ?n, bytes_remaining := nbytes - ?n,
      copied_bytes := take (unat ?n) (drop a (m_buffer p)), bytes_skipped := off\<rparr> else ?s\<lparr>bytes_skipped := ucast l - 8\<rparr>)"
    using copy by (simp add: copy_bytes_def copy_init_def Let_def)
  moreover have zero: "\<not> 0 < (ucast l - 8 :: u64) \<Longrightarrow> ?n = 0" by (simp add: word_gt_0 min_def)
  ultimately have step: "\<exists>s'. copy_step off p (copy_init off nbytes) = Inr s' \<and> bytes_copied s' = ?n \<and>
      copied_bytes s' = take (unat ?n) (drop a (m_buffer p))"
    by (auto simp: copy_step_def copy_first_def copy_next_def p len copy_init_def word_neq_0_conv)
  have order: "order_packets [p] = Inr [p]" by (simp add: order_packets_def p)
  have "\<exists>s'. copy_loop off [p] (copy_init off nbytes) = Inr s' \<and> bytes_copied s' = ?n \<and> copied_bytes s' = take (unat ?n) (drop a (m_buffer p))"
  proof (cases "nbytes = 0")
    case True
    then show ?thesis by (simp add: copy_init_def)
  next
    case False
    then show ?thesis using step by (auto simp: copy_init_def word_neq_0_conv)
  qed
  then show ?thesis using f order un by (auto simp: get_payload_def)
qed

subsection \<open>Examples\<close>

definition seg_packet :: "u32 \<Rightarrow> byte \<Rightarrow> byte list \<Rightarrow> packet" where
  "seg_packet q flags d = junk_packet\<lparr>m_buffer := d, m_machdr_parsed := True, m_iphdr_parsed := True, m_ports_parsed := True,
     m_l4hdr_parsed := True, m_key := flow_key_0\<lparr>proto := kTCP\<rparr>, m_l4payload_ptr := Some 0, m_iplen := of_nat (40 + length d),
     m_iphlen := 20, m_tcphlen := 20, m_tcpseq := q, m_tcpflags := flags, m_payload_len := of_nat (length d)\<rparr>"

lemma seg_packet_parsed:
  "parse_iphdr (seg_packet q flags d) = Inr (seg_packet q flags d)" "parse_tcphdr (seg_packet q flags d) = Inr (seg_packet q flags d)"
  by (simp_all add: parse_iphdr_def parse_tcphdr_def seg_packet_def)

lemma seg_packet_values:
  "tcp_packet (seg_packet q flags d)" "seq_of (seg_packet q flags d) = q" "has_syn (seg_packet q flags d) \<longleftrightarrow> flags AND kSYN \<noteq> 0"
proof -
  let ?p = "seg_packet q flags d"
  have v: "val (after parse_iphdr get) ?p = Inr (get ?p)" "val (after parse_tcphdr get') ?p = Inr (get' ?p)"
    for get :: "packet \<Rightarrow> 'a" and get' :: "packet \<Rightarrow> 'b" by (simp_all add: val_after seg_packet_parsed)
  note defs = pkt_is_tcp_def pkt_is_udp_def pkt_tcp_has_def pkt_tcp_seq_def pkt_ip_length_def pkt_ip_header_length_def pkt_tcp_header_length_def v
  have seq: "val pkt_tcp_seq ?p = Inr q" by (simp add: defs) (simp add: seg_packet_def)
  then show "seq_of ?p = q" by (simp add: seq_of_def)
  show syn: "has_syn ?p \<longleftrightarrow> flags AND kSYN \<noteq> 0" by (simp add: has_syn_def defs) (simp add: seg_packet_def)
  have "val pkt_is_tcp ?p = Inr True" "val pkt_is_udp ?p = Inr False" "\<exists>b. val (pkt_tcp_has kSYN) ?p = Inr b"
    by (simp_all add: defs) (simp_all add: seg_packet_def kTCP_def kUDP_def)
  then show "tcp_packet ?p" using seq syn by (auto simp: tcp_packet_def has_syn_def seq_of_def)
qed

lemma seg_packet_segment:
  assumes "length d < 2 ^ 15"
  shows "segment (seg_packet q flags d) d"
proof -
  let ?p = "seg_packet q flags d"
  have "parse_payload ?p = Inr ?p"
    by (simp add: parse_payload_def pkt_is_tcp_def after_def seg_packet_parsed) (simp add: seg_packet_def)
  then have pay: "val pkt_payload ?p = Inr (Some 0)" by (simp add: pkt_payload_def val_after) (simp add: seg_packet_def)
  have "uint (of_nat (40 + length d) :: u16) = 40 + int (length d)"
    using assms by (subst uint_nat) (simp add: unat_of_nat del: of_nat_add)
  then have "word_of_int (uint (m_iplen ?p) - uint (m_iphlen ?p) - uint (m_tcphlen ?p)) = (of_nat (length d) :: u64)"
    by (simp add: seg_packet_def)
  then have "payload_length ?p = Inr (of_nat (length d))" using seg_packet_values(1)[of q flags d]
    by (simp add: payload_length_def tcp_packet_def pkt_ip_length_def pkt_ip_header_length_def pkt_tcp_header_length_def val_after seg_packet_parsed)
  then show ?thesis using pay seg_packet_values(1) assms by (simp add: segment_def) (simp add: seg_packet_def)
qed

lemmas seg_packet_simps = seg_packet_values seg_packet_segment

definition syn_seg :: packet where "syn_seg = seg_packet 0xFFFFFFFE kSYN []"
definition seg_1 :: packet where "seg_1 = seg_packet 0xFFFFFFFF kACK [1, 2]"
definition seg_2 :: packet where "seg_2 = seg_packet 1 kACK [3]"

lemmas seg_defs = syn_seg_def seg_1_def seg_2_def

definition sample_flow :: "packet list \<Rightarrow> flow" where
  "sample_flow ps = flow_new_packets flow_key_0 0 0 0 0 ps False"

lemma seg_bits: "kSYN \<noteq> 0" "kACK AND kSYN = 0" "\<not> (- 4294967293 :: u32) \<le> 1"
  by (simp_all add: kSYN_def kACK_def word_le_nat_alt)

lemma seg_all_tcp: "\<forall>p \<in> set [seg_2, seg_1, syn_seg]. tcp_packet p"
  by (simp add: seg_defs seg_packet_values)

lemma seg_seqs: "seq_of syn_seg = 0xFFFFFFFE" "seq_of seg_1 = 0xFFFFFFFF" "seq_of seg_2 = 1"
  "has_syn syn_seg" "\<not> has_syn seg_1" "\<not> has_syn seg_2"
  by (simp_all add: seg_defs seg_packet_values seg_bits)

theorem order_packets_serial_witness: "order_packets [seg_2, syn_seg, seg_1] = Inr [syn_seg, seg_1, seg_2]"
proof -
  have "order_packets [seg_2, syn_seg, seg_1] = Inr (sort_key (\<lambda>p. seq_of p - seq_of syn_seg) [seg_2, syn_seg, seg_1])"
    by (rule order_packets_serial[where xs = "[seg_2]" and ys = "[seg_1]"]) (use seg_all_tcp in \<open>simp_all add: seg_seqs\<close>)
  then show ?thesis by (simp add: seg_seqs seg_bits)
qed

theorem wrapped_flow_unreadable_witness: "fst (get_payload 0 10 (sample_flow [syn_seg, seg_1, seg_2])) = Inr (0, [])"
proof (rule wrapped_flow_unreadable[where y = seg_2 and s = syn_seg and ys = "[seg_1, seg_2]"])
  show "\<forall>p \<in> set [seg_1, seg_2]. \<exists>l. payload_length p = Inr l"
    using seg_packet_segment[of "[1, 2]"] seg_packet_segment[of "[3]"] by (auto simp: seg_defs segment_def)
qed (use seg_all_tcp in \<open>simp_all add: seg_seqs sample_flow_def flow_new_packets_def\<close>)


theorem get_payload_bound_witness:
  "\<exists>n bs f'. get_payload 0 2 (sample_flow [syn_seg]) = (Inr (n, bs), f') \<and> length bs = unat n \<and> n \<le> 2 \<and>
     mset (fl_flow_packets f') = {#syn_seg#}"
proof -
  have seg: "segment syn_seg []" by (simp add: syn_seg_def seg_packet_segment)
  have run: "get_payload 0 2 (sample_flow [syn_seg]) = (Inr (0, []), (sample_flow [syn_seg])\<lparr>fl_list_sorted := True\<rparr>)"
    using seg seg_seqs(4) by (simp add: get_payload_def sample_flow_def flow_new_packets_def order_packets_def segment_def tcp_packet_def
        sort_by_seq_def splice_at_def copy_init_def copy_step_def copy_first_def copy_bytes_def copy_next_def)
  then show ?thesis using get_payload_bound[OF run] by (auto simp: sample_flow_def flow_new_packets_def)
qed

end
