(* ===== verification/Dns_Parse.thy ===== *)
theory Dns_Parse
  imports Packet_Parse
begin

unbundle bit_operations_syntax

text \<open>
  The DNS message (\<open>messages/DNSPacket\<close>): a packet whose payload is parsed as a DNS message when it is constructed. Positions are offsets
  into the packet's buffer, a read outside of it is \<open>Undefined_Behaviour\<close>, and a name whose compression pointers never
  end is the value \<open>None\<close> of the reader.
\<close>

subsection \<open>Reading names\<close>

definition load_BE_u16 :: "byte list \<Rightarrow> nat \<Rightarrow> u16 res" where
  "load_BE_u16 buf i = bindE (rd8 buf i) (\<lambda>a. bindE (rd8 buf (i + 1)) (\<lambda>b. Inr (push_bit 8 (ucast a) + ucast b)))"

definition load_BE_u32 :: "byte list \<Rightarrow> nat \<Rightarrow> u32 res" where
  "load_BE_u32 buf i = bindE (load_BE_u16 buf i) (\<lambda>a. bindE (load_BE_u16 buf (i + 2)) (\<lambda>b. Inr (push_bit 16 (ucast a) + ucast b)))"

definition dot :: byte where "dot = 46"

text \<open>The loop over the labels at a position; it returns the name so far, the index reached and the byte there.\<close>

function label_loop :: "byte list \<Rightarrow> nat \<Rightarrow> nat \<Rightarrow> byte list \<Rightarrow> (byte list \<times> nat \<times> byte) res" where
  "label_loop buf pos i ret =
     bindE (rd8 buf (pos + i)) (\<lambda>j.
       if j \<noteq> 0 \<and> j < 0xC0 then
         let i1 = i + 1; ret1 = (if i1 \<noteq> 1 then ret @ [dot] else ret) in
         if pos + i1 + unat j \<le> length buf
         then label_loop buf pos (i1 + unat j) (ret1 @ take (unat j) (drop (pos + i1) buf))
         else Inl Undefined_Behaviour
       else Inr (ret, i, j))"
  by auto
termination
  by (relation "measure (\<lambda>(buf, pos, i, ret). length buf - (pos + i))") (auto simp: rd8_def split: if_splits)

declare label_loop.simps [simp del]

definition jump_target :: "byte list \<Rightarrow> nat \<Rightarrow> nat \<Rightarrow> nat res" where
  "jump_target buf dns_start p = bindE (load_BE_u16 buf p) (\<lambda>w. Inr (dns_start + unat (w AND 0x3FFF)))"

text \<open>The name at a position and the number of bytes it takes there.\<close>

partial_function (option) read_dns_name :: "byte list \<Rightarrow> nat \<Rightarrow> nat \<Rightarrow> (byte list \<times> u16) res option" where
  "read_dns_name buf dns_start pos =
     (case rd8 buf pos of
        Inl e \<Rightarrow> Some (Inl e)
      | Inr b \<Rightarrow>
          if b < 0xC0 then
            (case label_loop buf pos 0 [] of
               Inl e \<Rightarrow> Some (Inl e)
             | Inr (ret, i, j) \<Rightarrow>
                 if j \<noteq> 0 then
                   (case jump_target buf dns_start (pos + i) of
                      Inl e \<Rightarrow> Some (Inl e)
                    | Inr t \<Rightarrow> Option.bind (read_dns_name buf dns_start t) (\<lambda>r. Some (bindE r (\<lambda>(tmp, _). Inr (ret @ [dot] @ tmp, of_nat (i + 2))))))
                 else Some (Inr (ret, of_nat (i + 1))))
          else
            (case jump_target buf dns_start pos of
               Inl e \<Rightarrow> Some (Inl e)
             | Inr t \<Rightarrow> Option.bind (read_dns_name buf dns_start t) (\<lambda>r. Some (bindE r (\<lambda>(tmp, _). Inr (tmp, 2))))))"

subsection \<open>Parsing the message\<close>

record q_record =
  q_rtype :: u16
  q_dclass :: u16
  q_qname :: "byte list"

record a_record =
  a_ttl :: u32
  a_rtype :: u16
  a_dclass :: u16
  a_ip_addr :: u32
  a_qname :: "byte list"

record cname_record =
  cn_ttl :: u32
  cn_rtype :: u16
  cn_dclass :: u16
  cn_qname :: "byte list"
  cn_cname :: "byte list"

record dns_header =
  transaction_id :: u16
  QR_flag :: byte
  op_code :: byte
  AA_flag :: byte
  TC_flag :: byte
  RD_flag :: byte
  RA_flag :: byte
  AD_flag :: byte
  ND_flag :: byte
  re_code :: byte
  n_questions :: u16
  n_answer :: u16
  n_ns :: u16
  n_additional :: u16

record dns_packet =
  dns_hdr :: dns_header
  queries :: "q_record list"
  a_recs :: "a_record list"
  c_names :: "cname_record list"

definition parse_dns_header :: "byte list \<Rightarrow> nat \<Rightarrow> dns_header res" where
  "parse_dns_header buf st =
     bindE (load_BE_u16 buf st) (\<lambda>tid. bindE (rd8 buf (st + 2)) (\<lambda>b2. bindE (rd8 buf (st + 3)) (\<lambda>b3.
     bindE (load_BE_u16 buf (st + 4)) (\<lambda>nq. bindE (load_BE_u16 buf (st + 6)) (\<lambda>na.
     bindE (load_BE_u16 buf (st + 8)) (\<lambda>nn. bindE (load_BE_u16 buf (st + 10)) (\<lambda>nx.
       Inr \<lparr>transaction_id = tid, QR_flag = drop_bit 7 b2, op_code = drop_bit 3 b2 AND 0xF, AA_flag = drop_bit 2 b2 AND 1,
            TC_flag = drop_bit 1 b2 AND 1, RD_flag = b2 AND 1, RA_flag = drop_bit 7 b3, AD_flag = drop_bit 5 b3 AND 1,
            ND_flag = drop_bit 4 b3 AND 1, re_code = b3 AND 0xF, n_questions = nq, n_answer = na, n_ns = nn, n_additional = nx\<rparr>)))))))"

text \<open>One turn of the loop over the questions; the size is a 16-bit count, the position is computed on pointers.\<close>

definition lift_res :: "'a res \<Rightarrow> 'a res option" where "lift_res r = Some r"

definition bindP :: "'a res option \<Rightarrow> ('a \<Rightarrow> 'b res option) \<Rightarrow> 'b res option" where
  "bindP m f = Option.bind m (\<lambda>r. case r of Inl e \<Rightarrow> Some (Inl e) | Inr x \<Rightarrow> f x)"

definition parse_question :: "byte list \<Rightarrow> nat \<Rightarrow> nat \<Rightarrow> u16 \<Rightarrow> (q_record \<times> u16) res option" where
  "parse_question buf dns_start q_offset q_size =
     bindP (read_dns_name buf dns_start (q_offset + unat q_size)) (\<lambda>(name, consumed).
       let s1 = q_size + consumed in
       lift_res (bindE (load_BE_u16 buf (q_offset + unat s1)) (\<lambda>t.
         let s2 = s1 + 2 in
         bindE (load_BE_u16 buf (q_offset + unat s2)) (\<lambda>c. Inr (\<lparr>q_rtype = t, q_dclass = c, q_qname = name\<rparr>, s2 + 2)))))"

fun parse_questions :: "byte list \<Rightarrow> nat \<Rightarrow> nat \<Rightarrow> nat \<Rightarrow> u16 \<Rightarrow> (q_record list \<times> u16) res option" where
  "parse_questions buf dns_start q_offset 0 q_size = Some (Inr ([], q_size))"
| "parse_questions buf dns_start q_offset (Suc n) q_size =
     bindP (parse_question buf dns_start q_offset q_size) (\<lambda>(q, s).
     bindP (parse_questions buf dns_start q_offset n s) (\<lambda>(qs, s'). Some (Inr (q # qs, s'))))"

text \<open>An answer is an address, a canonical name, or of a type that is passed over.\<close>

datatype answer = A_Answer a_record | CName_Answer cname_record | Other_Answer

definition parse_answer :: "byte list \<Rightarrow> nat \<Rightarrow> nat \<Rightarrow> u16 \<Rightarrow> (answer \<times> u16) res option" where
  "parse_answer buf dns_start a_offset a_size =
     bindP (read_dns_name buf dns_start (a_offset + unat a_size)) (\<lambda>(tmp, consumed).
       let s1 = a_size + consumed in
       bindP (lift_res (load_BE_u16 buf (a_offset + unat s1))) (\<lambda>ty. let s2 = s1 + 2 in
       bindP (lift_res (load_BE_u16 buf (a_offset + unat s2))) (\<lambda>cl. let s3 = s2 + 2 in
       bindP (lift_res (load_BE_u32 buf (a_offset + unat s3))) (\<lambda>ttl. let s5 = s3 + 4 + 2 in
         if ty = 1 then
           bindP (lift_res (load_BE_u32 buf (a_offset + unat s5))) (\<lambda>ip.
             Some (Inr (A_Answer \<lparr>a_ttl = ttl, a_rtype = ty, a_dclass = cl, a_ip_addr = ip, a_qname = tmp\<rparr>, s5 + 4)))
         else if ty = 5 then
           bindP (read_dns_name buf dns_start (a_offset + unat s5)) (\<lambda>(cn, consumed').
             Some (Inr (CName_Answer \<lparr>cn_ttl = ttl, cn_rtype = ty, cn_dclass = cl, cn_qname = tmp, cn_cname = cn\<rparr>, s5 + consumed')))
         else Some (Inr (Other_Answer, s5))))))"

fun parse_answers :: "byte list \<Rightarrow> nat \<Rightarrow> nat \<Rightarrow> nat \<Rightarrow> u16 \<Rightarrow> answer list res option" where
  "parse_answers buf dns_start a_offset 0 a_size = Some (Inr [])"
| "parse_answers buf dns_start a_offset (Suc n) a_size =
     bindP (parse_answer buf dns_start a_offset a_size) (\<lambda>(a, s).
     bindP (parse_answers buf dns_start a_offset n s) (\<lambda>as. Some (Inr (a # as))))"

definition a_answers :: "answer list \<Rightarrow> a_record list" where
  "a_answers as = List.map_filter (\<lambda>a. case a of A_Answer r \<Rightarrow> Some r | _ \<Rightarrow> None) as"

definition cname_answers :: "answer list \<Rightarrow> cname_record list" where
  "cname_answers as = List.map_filter (\<lambda>a. case a of CName_Answer r \<Rightarrow> Some r | _ \<Rightarrow> None) as"

text \<open>\<open>parse_dns\<close>: the offset of the payload is kept in one byte, the offsets of the sections in two.\<close>

definition parse_dns :: "packet \<Rightarrow> dns_packet res option" where
  "parse_dns p =
     bindP (lift_res (val pkt_payload p)) (\<lambda>ptr.
       case ptr of
         None \<Rightarrow> Some (Inl Undefined_Behaviour)
       | Some a \<Rightarrow>
           let dns_offset = (of_nat a :: byte); st = unat dns_offset; buf = m_buffer p; q_offset = (of_nat (st + 12) :: u16) in
           bindP (lift_res (parse_dns_header buf st)) (\<lambda>h.
           bindP (parse_questions buf st (unat q_offset) (unat (n_questions h)) 0) (\<lambda>(qs, q_size).
           bindP (parse_answers buf st (unat (q_offset + q_size)) (unat (n_answer h)) 0) (\<lambda>as.
             Some (Inr \<lparr>dns_hdr = h, queries = qs, a_recs = a_answers as, c_names = cname_answers as\<rparr>)))))"

text \<open>
  The constructor copies as many bytes as the packet was long on the wire, which may be more than have been captured.
\<close>

definition dns_packet_new :: "packet \<Rightarrow> packet \<Rightarrow> dns_packet res option" where
  "dns_packet_new junk p =
     (if unat (m_length p) \<le> length (m_buffer p)
      then parse_dns (packet_new junk (take (unat (m_length p)) (m_buffer p)) (0, 0) 0 kEthernet)
      else Some (Inl Undefined_Behaviour))"

subsection \<open>Big-endian loads\<close>

lemma of_le_pair: "bswap16 (of_le [a, b]) = push_bit 8 (ucast a) + ucast b"
proof -
  have "push_bit 8 (ucast a :: u16) + ucast b = push_bit 8 (ucast a) OR ucast b"
    by (rule disjunctive_add) (auto simp: bit_simps dest: bit_imp_le_length)
  moreover have "le_bytes 2 (of_le [a, b] :: u16) = [a, b]" by (rule le_bytes_of_le) simp_all
  then have "bswap16 (of_le [a, b]) = push_bit 8 (ucast a) OR ucast b" by (simp add: bswap16_def or.commute del: of_le.simps(2)) (simp add: or.commute)
  ultimately show ?thesis by simp
qed

lemma take_2_nth: "i + 2 \<le> length xs \<Longrightarrow> take 2 (drop i xs) = [xs ! i, xs ! (i + 1)]"
  by (rule nth_equalityI) (auto simp: less_2_cases_iff nth_Cons split: nat.splits)

lemma load_BE_u16_rd16: "load_BE_u16 buf i = rd16 buf i"
  by (simp add: load_BE_u16_def rd8_def rd16_def take_2_nth del: of_le.simps flip: of_le_pair)

subsection \<open>When a name can be read\<close>

text \<open>Where the name at a position jumps to, if it ends with a compression pointer.\<close>

definition dns_next :: "byte list \<Rightarrow> nat \<Rightarrow> nat \<Rightarrow> nat option" where
  "dns_next buf dns_start pos =
     (case rd8 buf pos of
        Inl _ \<Rightarrow> None
      | Inr b \<Rightarrow>
          (case (if b < 0xC0 then label_loop buf pos 0 [] else Inr ([], 0, b)) of
             Inl _ \<Rightarrow> None
           | Inr (_, i, j) \<Rightarrow>
               if j = 0 then None else (case jump_target buf dns_start (pos + i) of Inl _ \<Rightarrow> None | Inr t \<Rightarrow> Some t)))"

fun follow :: "byte list \<Rightarrow> nat \<Rightarrow> nat \<Rightarrow> nat \<Rightarrow> nat option" where
  "follow buf dns_start 0 pos = Some pos"
| "follow buf dns_start (Suc n) pos = Option.bind (dns_next buf dns_start pos) (follow buf dns_start n)"

lemma read_dns_name_leaf: "dns_next buf st pos = None \<Longrightarrow> read_dns_name buf st pos \<noteq> None"
  by (subst read_dns_name.simps) (auto simp: dns_next_def split: sum.splits if_splits)

lemma read_dns_name_jump:
  assumes "dns_next buf st pos = Some t"
  shows "read_dns_name buf st pos = None \<longleftrightarrow> read_dns_name buf st t = None"
  using assms by (subst read_dns_name.simps) (auto simp: dns_next_def bind_eq_None_conv split: sum.splits if_splits)

lemma follow_ends_reads: "follow buf st n pos = None \<Longrightarrow> read_dns_name buf st pos \<noteq> None"
proof (induction n arbitrary: pos)
  case (Suc n)
  show ?case
  proof (cases "dns_next buf st pos")
    case None
    then show ?thesis by (rule read_dns_name_leaf)
  next
    case (Some t)
    then show ?thesis using Suc by (simp add: read_dns_name_jump)
  qed
qed simp

lemma reads_follow_ends:
  assumes "read_dns_name buf st pos = Some r"
  shows "\<exists>n. follow buf st n pos = None"
proof (rule read_dns_name.raw_induct[where P = "\<lambda>buf st pos _. \<exists>n. follow buf st n pos = None", OF _ assms])
  fix rec :: "byte list \<Rightarrow> nat \<Rightarrow> nat \<Rightarrow> (byte list \<times> u16) res option" and buf st pos y
  assume IH: "\<And>buf st pos y. rec buf st pos = Some y \<Longrightarrow> \<exists>n. follow buf st n pos = None"
    and run: "(case rd8 buf pos of Inl e \<Rightarrow> Some (Inl e) | Inr b \<Rightarrow>
      if b < 0xC0 then (case label_loop buf pos 0 [] of Inl e \<Rightarrow> Some (Inl e) | Inr (ret, i, j) \<Rightarrow>
        if j \<noteq> 0 then (case jump_target buf st (pos + i) of Inl e \<Rightarrow> Some (Inl e)
          | Inr t \<Rightarrow> Option.bind (rec buf st t) (\<lambda>r. Some (bindE r (\<lambda>(tmp, _). Inr (ret @ [dot] @ tmp, of_nat (i + 2))))))
        else Some (Inr (ret, of_nat (i + 1))))
      else (case jump_target buf st pos of Inl e \<Rightarrow> Some (Inl e)
          | Inr t \<Rightarrow> Option.bind (rec buf st t) (\<lambda>r. Some (bindE r (\<lambda>(tmp, _). Inr (tmp, 2)))))) = Some y"
  show "\<exists>n. follow buf st n pos = None"
  proof (cases "dns_next buf st pos")
    case None
    then have "follow buf st (Suc 0) pos = None" by simp
    then show ?thesis by blast
  next
    case (Some t)
    with run have "\<exists>r. rec buf st t = Some r"
      by (auto simp: dns_next_def bind_eq_Some_conv split: sum.splits if_splits)
    then obtain n where "follow buf st n t = None" using IH by blast
    then have "follow buf st (Suc n) pos = None" using Some by simp
    then show ?thesis by blast
  qed
qed


text \<open>In particular a name with a pointer back to its own start is never read.\<close>

lemma follow_add: "follow buf st (m + n) pos = Option.bind (follow buf st m pos) (follow buf st n)"
  by (induction m arbitrary: pos) (auto split: bind_splits)

lemma follow_cycle: "0 < k \<Longrightarrow> follow buf st k pos = Some pos \<Longrightarrow> follow buf st (n * k) pos = Some pos"
  by (induction n) (simp_all add: follow_add)

lemma follow_None_mono: "follow buf st n pos = None \<Longrightarrow> n \<le> m \<Longrightarrow> follow buf st m pos = None"
  using follow_add[of buf st n "m - n" pos] by simp

theorem pointer_cycle_hangs:
  assumes "0 < k" "follow buf dns_start k pos = Some pos"
  shows "read_dns_name buf dns_start pos = None"
proof (rule ccontr)
  assume "read_dns_name buf dns_start pos \<noteq> None"
  then obtain n where "follow buf dns_start n pos = None" using reads_follow_ends by blast
  then have "follow buf dns_start (n * k) pos = None" using assms(1) follow_None_mono[of buf dns_start n pos "n * k"] by simp
  then show False using follow_cycle[OF assms, of n] by simp
qed

subsection \<open>What a name means\<close>

text \<open>
  The names of RFC 1035: a sequence of labels that ends with a zero byte or with a pointer to the rest of the name. The last
  argument is the number of bytes the name takes at its position.
\<close>

inductive name_at :: "byte list \<Rightarrow> nat \<Rightarrow> nat \<Rightarrow> byte list list \<Rightarrow> nat \<Rightarrow> bool" for buf :: "byte list" and dns_start :: nat where
  name_end: "rd8 buf pos = Inr 0 \<Longrightarrow> name_at buf dns_start pos [] 1"
| name_label: "rd8 buf pos = Inr j \<Longrightarrow> unat j = length l \<Longrightarrow> 0 < j \<Longrightarrow> j < 0xC0 \<Longrightarrow> pos + 1 + length l \<le> length buf \<Longrightarrow>
     take (length l) (drop (pos + 1) buf) = l \<Longrightarrow> name_at buf dns_start (pos + 1 + length l) ls n \<Longrightarrow>
     name_at buf dns_start pos (l # ls) (1 + length l + n)"
| name_pointer: "rd8 buf pos = Inr b \<Longrightarrow> 0xC0 \<le> b \<Longrightarrow> jump_target buf dns_start pos = Inr t \<Longrightarrow> name_at buf dns_start t ls n \<Longrightarrow>
     ls \<noteq> [] \<Longrightarrow> name_at buf dns_start pos ls 2"

definition dotted :: "byte list list \<Rightarrow> byte list" where
  "dotted ls = (case ls of [] \<Rightarrow> [] | l # rest \<Rightarrow> l @ concat (map (Cons dot) rest))"

text \<open>The rest of the reader after some labels.\<close>

definition read_rest :: "byte list \<Rightarrow> nat \<Rightarrow> nat \<Rightarrow> nat \<Rightarrow> byte list \<Rightarrow> (byte list \<times> u16) res option" where
  "read_rest buf st pos i ret =
     (case label_loop buf pos i ret of
        Inl e \<Rightarrow> Some (Inl e)
      | Inr (ret, i, j) \<Rightarrow>
          if j \<noteq> 0 then
            (case jump_target buf st (pos + i) of
               Inl e \<Rightarrow> Some (Inl e)
             | Inr t \<Rightarrow> Option.bind (read_dns_name buf st t) (\<lambda>r. Some (bindE r (\<lambda>(tmp, _). Inr (ret @ [dot] @ tmp, of_nat (i + 2))))))
          else Some (Inr (ret, of_nat (i + 1))))"

lemma read_dns_name_rest: "rd8 buf pos = Inr b \<Longrightarrow> b < 0xC0 \<Longrightarrow> read_dns_name buf st pos = read_rest buf st pos 0 []"
  by (subst read_dns_name.simps) (simp add: read_rest_def)

lemma read_dns_name_pointer:
  "rd8 buf pos = Inr b \<Longrightarrow> \<not> b < 0xC0 \<Longrightarrow> jump_target buf st pos = Inr t \<Longrightarrow>
   read_dns_name buf st pos = Option.bind (read_dns_name buf st t) (\<lambda>r. Some (bindE r (\<lambda>(tmp, _). Inr (tmp, 2))))"
  by (subst read_dns_name.simps) simp

lemma read_rest_label:
  assumes "rd8 buf (pos + i) = Inr j" "unat j = length l" "0 < j" "j < 0xC0" "pos + i + 1 + length l \<le> length buf"
    "take (length l) (drop (pos + i + 1) buf) = l"
  shows "read_rest buf st pos i ret = read_rest buf st pos (i + 1 + length l) ((if i = 0 then ret else ret @ [dot]) @ l)"
proof -
  have "label_loop buf pos i ret = label_loop buf pos (i + 1 + length l) ((if i = 0 then ret else ret @ [dot]) @ l)"
    using assms by (subst label_loop.simps) (simp add: Let_def word_neq_0_conv)
  then show ?thesis by (simp only: read_rest_def)
qed

lemma read_rest_stop:
  assumes "rd8 buf (pos + i) = Inr j" "j = 0 \<or> 0xC0 \<le> j"
  shows "label_loop buf pos i ret = Inr (ret, i, j)"
  using assms by (subst label_loop.simps) auto

lemma name_at_reads:
  assumes "name_at buf st p ls n"
  shows "read_dns_name buf st p = Some (Inr (dotted ls, of_nat n)) \<and>
     (\<forall>pos i ret. p = pos + i \<longrightarrow> 0 < i \<longrightarrow> read_rest buf st pos i ret = Some (Inr (ret @ concat (map (Cons dot) ls), of_nat (i + n))))"
  using assms
proof induction
  case (name_end pos)
  have "read_rest buf st q i ret = Some (Inr (ret, of_nat (i + 1)))" if "pos = q + i" for q i ret
    using name_end that by (simp add: read_rest_def read_rest_stop)
  then show ?case using name_end by (simp add: read_dns_name_rest dotted_def)
next
  case (name_label pos j l ls n)
  have rest: "read_rest buf st q (i + 1 + length l) ret = Some (Inr (ret @ concat (map (Cons dot) ls), of_nat (i + 1 + length l + n)))"
    if "pos = q + i" for q i ret
    using name_label.IH[THEN conjunct2, rule_format, of q "i + 1 + length l" ret] that by (simp add: ac_simps)
  have step: "read_rest buf st q i ret = read_rest buf st q (i + 1 + length l) ((if i = 0 then ret else ret @ [dot]) @ l)"
    if "pos = q + i" for q i ret
    using name_label.hyps that by (intro read_rest_label[where j = j]) auto
  have "read_dns_name buf st pos = read_rest buf st pos 0 []" using name_label.hyps by (intro read_dns_name_rest)
  then show ?case using step[of _ 0] step rest[of _ 0] rest by (auto simp: dotted_def ac_simps)
next
  case (name_pointer pos b t ls n)
  have nb: "\<not> b < 0xC0" "b \<noteq> 0" using name_pointer.hyps(2) by (auto simp: not_less)
  have t: "read_dns_name buf st t = Some (Inr (dotted ls, of_nat n))" using name_pointer.IH by simp
  have "read_dns_name buf st pos = Some (Inr (dotted ls, 2))"
    using read_dns_name_pointer[OF name_pointer.hyps(1) nb(1) name_pointer.hyps(3)] t by simp
  moreover have "read_rest buf st q i ret = Some (Inr (ret @ concat (map (Cons dot) ls), of_nat (i + 2)))" if "pos = q + i" for q i ret
  proof -
    have "dot # dotted ls = concat (map (Cons dot) ls)" using name_pointer.hyps(5) by (cases ls) (simp_all add: dotted_def)
    then show ?thesis using that name_pointer.hyps t nb by (simp add: read_rest_def read_rest_stop[where j = b])
  qed
  ultimately show ?case by simp
qed

text \<open>
  A name of the DNS format, compressed or not, is read as its labels joined with dots, whatever the number of pointers in it, and the
  number of bytes it takes at its position is counted (modulo \<open>2^16\<close>).
\<close>
theorem read_dns_name_correct:
  assumes "name_at buf dns_start pos ls n"
  shows "read_dns_name buf dns_start pos = Some (Inr (dotted ls, of_nat n))"
  using name_at_reads[OF assms] by blast

subsection \<open>Messages on the wire\<close>

text \<open>Bytes at a position of the buffer.\<close>

definition at :: "byte list \<Rightarrow> nat \<Rightarrow> byte list \<Rightarrow> bool" where
  "at buf i bs \<longleftrightarrow> i + length bs \<le> length buf \<and> take (length bs) (drop i buf) = bs"

lemma at_append: "at buf i (xs @ ys) \<longleftrightarrow> at buf i xs \<and> at buf (i + length xs) ys"
  by (auto simp: at_def take_add append_eq_append_conv add.commute)

lemma at_Cons: "at buf i (x # ys) \<longleftrightarrow> rd8 buf i = Inr x \<and> at buf (i + 1) ys"
proof (cases "i < length buf")
  case True
  then show ?thesis by (auto simp: at_def rd8_def Cons_nth_drop_Suc[symmetric])
qed (simp add: at_def rd8_def)

lemma at_Nil: "at buf i [] \<longleftrightarrow> i \<le> length buf"
  by (simp add: at_def)

lemma at_self: "at (pre @ bs @ post) (length pre) bs"
  by (simp add: at_def)

lemma at_be16: "at buf i (be16 w) \<Longrightarrow> load_BE_u16 buf i = Inr w"
  by (simp add: load_BE_u16_rd16 rd16_def at_def be16_def)

lemma be32_halves: "be32 w = be16 (ucast (drop_bit 16 w)) @ be16 (ucast w)"
proof -
  have byte: "ucast (ucast (drop_bit 16 w) :: u16) = (ucast (drop_bit 16 w) :: byte)" "ucast (drop_bit 8 (ucast (drop_bit 16 w) :: u16)) = (ucast (drop_bit 24 w) :: byte)"
    "ucast (ucast w :: u16) = (ucast w :: byte)" "ucast (drop_bit 8 (ucast w :: u16)) = (ucast (drop_bit 8 w) :: byte)"
    by (auto intro!: bit_word_eqI simp: bit_simps)
  have l4: "le_bytes 4 v = [ucast v, ucast (drop_bit 8 v), ucast (drop_bit 16 v), ucast (drop_bit 24 v)]" for v :: u32
    by (simp add: le_bytes_def upt_rec)
  have l2: "le_bytes 2 v = [ucast v, ucast (drop_bit 8 v)]" for v :: u16 by (simp add: le_bytes_def upt_rec)
  show ?thesis unfolding be32_def be16_def le_bytes_bswap32 le_bytes_bswap16 by (simp add: l4 l2 byte)
qed

lemma at_be32: "at buf i (be32 w) \<Longrightarrow> load_BE_u32 buf i = Inr w"
proof -
  assume "at buf i (be32 w)"
  then have "at buf i (be16 (ucast (drop_bit 16 w)))" "at buf (i + 2) (be16 (ucast w))" by (simp_all add: be32_halves at_append)
  then have "load_BE_u32 buf i = Inr (push_bit 16 (ucast (ucast (drop_bit 16 w) :: u16)) + ucast (ucast w :: u16))"
    by (simp add: load_BE_u32_def at_be16)
  also have "push_bit 16 (ucast (ucast (drop_bit 16 w) :: u16)) + ucast (ucast w :: u16) = push_bit 16 (ucast (ucast (drop_bit 16 w) :: u16)) OR (ucast (ucast w :: u16) :: u32)"
    by (rule disjunctive_add) (auto simp: bit_simps dest: bit_imp_le_length)
  also have "\<dots> = w" by (rule bit_word_eqI) (auto simp: bit_simps)
  finally show ?thesis .
qed

definition enc_label :: "byte list \<Rightarrow> byte list" where "enc_label l = of_nat (length l) # l"
definition enc_name :: "byte list list \<Rightarrow> byte list" where "enc_name ls = concat (map enc_label ls) @ [0]"
definition good_name :: "byte list list \<Rightarrow> bool" where "good_name ls \<longleftrightarrow> (\<forall>l \<in> set ls. 0 < length l \<and> length l \<le> 63)"

lemma enc_name_at:
  assumes "good_name ls" "at buf pos (enc_name ls)"
  shows "name_at buf st pos ls (length (enc_name ls))"
  using assms
proof (induction ls arbitrary: pos)
  case Nil
  then show ?case using name_end[of buf pos st] by (simp add: enc_name_def at_Cons)
next
  case (Cons l ls)
  have l: "0 < length l" "length l \<le> 63" using Cons.prems(1) by (simp_all add: good_name_def)
  have parts: "rd8 buf pos = Inr (of_nat (length l))" "at buf (pos + 1) l" "at buf (pos + 1 + length l) (enc_name ls)"
    using Cons.prems(2) by (simp_all add: enc_name_def enc_label_def at_Cons at_append)
  have ul: "unat (of_nat (length l) :: byte) = length l" using l by (simp add: unat_of_nat)
  have "name_at buf st (pos + 1 + length l) ls (length (enc_name ls))"
    using Cons parts(3) by (simp add: good_name_def)
  moreover have "0 < (of_nat (length l) :: byte)" "(of_nat (length l) :: byte) < 0xC0"
    using l ul by (simp_all add: word_less_nat_alt)
  ultimately have "name_at buf st pos (l # ls) (1 + length l + length (enc_name ls))"
    using parts(2) ul by (intro name_label[OF parts(1)]) (simp_all add: at_def)
  then show ?case by (simp add: enc_name_def enc_label_def ac_simps)
qed

lemma at_name: "good_name ls \<Longrightarrow> at buf pos (enc_name ls) \<Longrightarrow> read_dns_name buf st pos = Some (Inr (dotted ls, of_nat (length (enc_name ls))))"
  using name_at_reads[OF enc_name_at] by blast

text \<open>Questions and answers as they are sent; the two kinds of answers the parser keeps.\<close>

datatype question = Question "byte list list" u16 u16
datatype rr = Address "byte list list" u16 u32 u32 | Canonical "byte list list" u16 u32 "byte list list"

fun enc_question :: "question \<Rightarrow> byte list" where
  "enc_question (Question ls t c) = enc_name ls @ be16 t @ be16 c"

fun enc_rr :: "rr \<Rightarrow> byte list" where
  "enc_rr (Address ls c ttl ip) = enc_name ls @ be16 1 @ be16 c @ be32 ttl @ be16 4 @ be32 ip"
| "enc_rr (Canonical ls c ttl cs) = enc_name ls @ be16 5 @ be16 c @ be32 ttl @ be16 (of_nat (length (enc_name cs))) @ enc_name cs"

fun good_question :: "question \<Rightarrow> bool" where "good_question (Question ls t c) = good_name ls"
fun good_rr :: "rr \<Rightarrow> bool" where
  "good_rr (Address ls c ttl ip) = good_name ls"
| "good_rr (Canonical ls c ttl cs) = (good_name ls \<and> good_name cs)"

fun q_record_of :: "question \<Rightarrow> q_record" where
  "q_record_of (Question ls t c) = \<lparr>q_rtype = t, q_dclass = c, q_qname = dotted ls\<rparr>"

fun answer_of :: "rr \<Rightarrow> answer" where
  "answer_of (Address ls c ttl ip) = A_Answer \<lparr>a_ttl = ttl, a_rtype = 1, a_dclass = c, a_ip_addr = ip, a_qname = dotted ls\<rparr>"
| "answer_of (Canonical ls c ttl cs) =
     CName_Answer \<lparr>cn_ttl = ttl, cn_rtype = 5, cn_dclass = c, cn_qname = dotted ls, cn_cname = dotted cs\<rparr>"

lemma bindP_simps [simp]: "bindP (Some (Inr x)) f = f x" "bindP (lift_res (Inr x)) f = f x" "bindP (Some (Inl e)) f = Some (Inl e)"
  by (simp_all add: bindP_def lift_res_def)

text \<open>Sizes below \<open>2^16\<close> are counted without wrapping.\<close>

lemma unat_grow: "unat (s :: u16) + n < 2 ^ 16 \<Longrightarrow> unat (s + of_nat n) = unat s + n"
  by (simp add: unat_word_ariths unat_of_nat mod_simps)

lemma unat_grow_num: "unat (s :: u16) + numeral k < 2 ^ 16 \<Longrightarrow> unat (s + numeral k) = unat s + numeral k"
  using unat_grow[of s "numeral k"] by simp

lemma parse_question_enc:
  assumes "good_question q" "at buf (off + unat s) (enc_question q)" "unat s + length (enc_question q) < 2 ^ 16"
  shows "parse_question buf st off s = Some (Inr (q_record_of q, s + of_nat (length (enc_question q))))"
proof -
  obtain ls t c where q: "q = Question ls t c" by (cases q)
  let ?n = "length (enc_name ls)"
  have n: "unat (s + of_nat ?n) = unat s + ?n" "unat (s + of_nat ?n + 2) = unat s + ?n + 2"
    using assms(3) by (simp_all add: q unat_grow unat_grow_num)
  have "read_dns_name buf st (off + unat s) = Some (Inr (dotted ls, of_nat ?n))"
    "load_BE_u16 buf (off + (unat s + ?n)) = Inr t" "load_BE_u16 buf (off + (unat s + ?n + 2)) = Inr c"
    using assms(1,2) by (simp_all add: q at_append at_name at_be16 add.assoc)
  then show ?thesis by (simp add: parse_question_def Let_def n lift_res_def) (simp add: q)
qed

lemma rr_fixed_fields:
  assumes "at buf p (be16 t @ be16 c @ be32 ttl @ be16 len @ rest)"
  shows "load_BE_u16 buf p = Inr t" "load_BE_u16 buf (p + 2) = Inr c" "load_BE_u32 buf (p + 4) = Inr ttl" "at buf (p + 10) rest"
proof -
  have "at buf p (be16 t)" "at buf (p + 2) (be16 c)" "at buf (p + 2 + 2) (be32 ttl)" "at buf (p + 2 + 2 + 4 + 2) rest"
    using assms unfolding at_append length_be by auto
  moreover have "p + 2 + 2 = p + 4" "p + 2 + 2 + 4 + 2 = p + 10" by simp_all
  ultimately show "load_BE_u16 buf p = Inr t" "load_BE_u16 buf (p + 2) = Inr c" "load_BE_u32 buf (p + 4) = Inr ttl" "at buf (p + 10) rest"
    by (simp_all only: at_be16 at_be32)
qed

text \<open>The parts of an answer that do not depend on its type.\<close>

lemma parse_answer_step:
  assumes "good_name ls" "at buf (off + unat s) (enc_name ls @ be16 ty @ be16 c @ be32 ttl @ be16 len @ rest)"
    "unat s + length (enc_name ls) + 10 < 2 ^ 16"
  shows "parse_answer buf st off s =
     (let s5 = s + of_nat (length (enc_name ls) + 10); p = off + unat s + length (enc_name ls) + 10 in
      if ty = 1 then bindP (lift_res (load_BE_u32 buf p)) (\<lambda>ip.
        Some (Inr (A_Answer \<lparr>a_ttl = ttl, a_rtype = ty, a_dclass = c, a_ip_addr = ip, a_qname = dotted ls\<rparr>, s5 + 4)))
      else if ty = 5 then bindP (read_dns_name buf st p) (\<lambda>(cn, m).
        Some (Inr (CName_Answer \<lparr>cn_ttl = ttl, cn_rtype = ty, cn_dclass = c, cn_qname = dotted ls, cn_cname = cn\<rparr>, s5 + m)))
      else Some (Inr (Other_Answer, s5)))" (is "_ = ?rhs")
    and "at buf (off + unat s + length (enc_name ls) + 10) rest"
proof -
  let ?n = "length (enc_name ls)"
  let ?p = "off + unat s + ?n"
  have parts: "at buf (off + unat s) (enc_name ls)" "at buf ?p (be16 ty @ be16 c @ be32 ttl @ be16 len @ rest)"
    using assms(2) unfolding at_append[of _ _ "enc_name ls"] by simp_all
  note f = rr_fixed_fields[OF parts(2)]
  show "at buf (?p + 10) rest" by (rule f)
  have pos: "off + unat (s + of_nat ?n) = ?p" "off + unat (s + of_nat ?n + 2) = ?p + 2"
    "off + unat (s + of_nat ?n + 2 + 2) = ?p + 4" "off + unat (s + of_nat ?n + 2 + 2 + 4 + 2) = ?p + 10"
    using assms(3) unat_grow[of s ?n] unat_grow[of s "?n + 2"] unat_grow[of s "?n + 4"] unat_grow[of s "?n + 10"]
    by (simp_all add: ac_simps)
  have name: "read_dns_name buf st (off + unat s) = Some (Inr (dotted ls, of_nat ?n))" using assms(1) parts(1) by (rule at_name)
  have s5: "s + of_nat ?n + 2 + 2 + 4 + 2 = s + of_nat (?n + 10)" by simp
  show "parse_answer buf st off s = ?rhs"
    unfolding parse_answer_def name Let_def bindP_simps split_conv pos f s5[symmetric] by (rule refl)
qed

lemma parse_answer_enc:
  assumes "good_rr r" "at buf (off + unat s) (enc_rr r)" "unat s + length (enc_rr r) < 2 ^ 16"
  shows "parse_answer buf st off s = Some (Inr (answer_of r, s + of_nat (length (enc_rr r))))"
proof (cases r)
  case (Address ls c ttl ip)
  have "good_name ls" "at buf (off + unat s) (enc_name ls @ be16 1 @ be16 c @ be32 ttl @ be16 4 @ be32 ip)"
    "unat s + length (enc_name ls) + 10 < 2 ^ 16" using assms by (simp_all add: Address)
  note step = parse_answer_step(1)[OF this, of st] parse_answer_step(2)[OF this]
  have "length (enc_rr r) = length (enc_name ls) + 10 + 4" by (simp add: Address)
  then show ?thesis using step(1) at_be32[OF step(2)] by (simp add: Let_def) (simp add: Address ac_simps)
next
  case (Canonical ls c ttl cs)
  have "good_name ls" "at buf (off + unat s) (enc_name ls @ be16 5 @ be16 c @ be32 ttl @ be16 (of_nat (length (enc_name cs))) @ enc_name cs)"
    "unat s + length (enc_name ls) + 10 < 2 ^ 16" using assms by (simp_all add: Canonical)
  note step = parse_answer_step(1)[OF this, of st] parse_answer_step(2)[OF this]
  have "good_name cs" using assms(1) by (simp add: Canonical)
  note cname = at_name[OF this step(2), of st]
  have "length (enc_rr r) = length (enc_name ls) + 10 + length (enc_name cs)" by (simp add: Canonical)
  then show ?thesis using step(1) cname by (simp add: Let_def) (simp add: Canonical ac_simps)
qed

lemma parse_questions_enc:
  assumes "\<forall>q \<in> set qs. good_question q" "at buf (off + unat s) (concat (map enc_question qs))"
    "unat s + length (concat (map enc_question qs)) < 2 ^ 16"
  shows "parse_questions buf st off (length qs) s =
     Some (Inr (map q_record_of qs, s + of_nat (length (concat (map enc_question qs)))))"
  using assms
proof (induction qs arbitrary: s)
  case (Cons q qs)
  let ?n = "length (enc_question q)"
  have u: "unat (s + of_nat ?n) = unat s + ?n" using Cons.prems(3) by (intro unat_grow) simp
  have "parse_question buf st off s = Some (Inr (q_record_of q, s + of_nat ?n))"
    using Cons.prems by (intro parse_question_enc) (simp_all add: at_append)
  moreover have "parse_questions buf st off (length qs) (s + of_nat ?n) =
      Some (Inr (map q_record_of qs, s + of_nat ?n + of_nat (length (concat (map enc_question qs)))))"
    using Cons.prems by (intro Cons.IH) (simp_all add: at_append u add.assoc)
  ultimately show ?case by (simp add: add.assoc)
qed simp

lemma parse_answers_enc:
  assumes "\<forall>r \<in> set rs. good_rr r" "at buf (off + unat s) (concat (map enc_rr rs))" "unat s + length (concat (map enc_rr rs)) < 2 ^ 16"
  shows "parse_answers buf st off (length rs) s = Some (Inr (map answer_of rs))"
  using assms
proof (induction rs arbitrary: s)
  case (Cons r rs)
  let ?n = "length (enc_rr r)"
  have u: "unat (s + of_nat ?n) = unat s + ?n" using Cons.prems(3) by (intro unat_grow) simp
  have "parse_answer buf st off s = Some (Inr (answer_of r, s + of_nat ?n))"
    using Cons.prems by (intro parse_answer_enc) (simp_all add: at_append)
  moreover have "parse_answers buf st off (length rs) (s + of_nat ?n) = Some (Inr (map answer_of rs))"
    using Cons.prems by (intro Cons.IH) (simp_all add: at_append u add.assoc)
  ultimately show ?case by simp
qed simp

definition enc_header :: "u16 \<Rightarrow> byte \<Rightarrow> byte \<Rightarrow> u16 \<Rightarrow> u16 \<Rightarrow> u16 \<Rightarrow> u16 \<Rightarrow> byte list" where
  "enc_header tid b2 b3 nq na nn nx = be16 tid @ [b2, b3] @ be16 nq @ be16 na @ be16 nn @ be16 nx"

definition header_of :: "u16 \<Rightarrow> byte \<Rightarrow> byte \<Rightarrow> u16 \<Rightarrow> u16 \<Rightarrow> u16 \<Rightarrow> u16 \<Rightarrow> dns_header" where
  "header_of tid b2 b3 nq na nn nx = \<lparr>transaction_id = tid, QR_flag = drop_bit 7 b2, op_code = drop_bit 3 b2 AND 0xF,
     AA_flag = drop_bit 2 b2 AND 1, TC_flag = drop_bit 1 b2 AND 1, RD_flag = b2 AND 1, RA_flag = drop_bit 7 b3,
     AD_flag = drop_bit 5 b3 AND 1, ND_flag = drop_bit 4 b3 AND 1, re_code = b3 AND 0xF,
     n_questions = nq, n_answer = na, n_ns = nn, n_additional = nx\<rparr>"

lemma parse_dns_header_enc:
  assumes "at buf p (enc_header tid b2 b3 nq na nn nx)"
  shows "parse_dns_header buf p = Inr (header_of tid b2 b3 nq na nn nx)"
proof -
  have "at buf p (be16 tid)" "rd8 buf (p + 2) = Inr b2" "rd8 buf (p + 2 + 1) = Inr b3" "at buf (p + 2 + 2) (be16 nq)"
    "at buf (p + 2 + 2 + 2) (be16 na)" "at buf (p + 2 + 2 + 2 + 2) (be16 nn)" "at buf (p + 2 + 2 + 2 + 2 + 2) (be16 nx)"
    using assms unfolding enc_header_def at_append length_be at_Cons by (auto simp: numeral_eq_Suc)
  moreover have "p + 2 + 1 = p + 3" "p + 2 + 2 = p + 4" "p + 2 + 2 + 2 = p + 6" "p + 2 + 2 + 2 + 2 = p + 8" "p + 2 + 2 + 2 + 2 + 2 = p + 10"
    by simp_all
  ultimately show ?thesis unfolding parse_dns_header_def header_of_def by (simp only: at_be16 bindE_Inr)
qed

text \<open>
  C31: A DNS message written into the payload of a packet is recovered: the header fields, all questions and all address and canonical
  name answers, with their names, types, classes, times to live and addresses, in order.
\<close>
theorem parse_dns_roundtrip:
  assumes p: "m_buffer p = pre @ msg @ post" "val pkt_payload p = Inr (Some (length pre))" "length pre < 256"
    and msg: "msg = enc_header tid b2 b3 (of_nat (length qs)) (of_nat (length rs)) nn nx @ concat (map enc_question qs) @ concat (map enc_rr rs)"
    and small: "length pre + length msg < 2 ^ 16" "length qs < 2 ^ 16" "length rs < 2 ^ 16"
    and good: "\<forall>q \<in> set qs. good_question q" "\<forall>r \<in> set rs. good_rr r"
  shows "parse_dns p = Some (Inr \<lparr>dns_hdr = header_of tid b2 b3 (of_nat (length qs)) (of_nat (length rs)) nn nx,
     queries = map q_record_of qs, a_recs = a_answers (map answer_of rs), c_names = cname_answers (map answer_of rs)\<rparr>)"
proof -
  let ?st = "length pre" and ?buf = "m_buffer p" and ?nq = "length (concat (map enc_question qs))"
  let ?h = "header_of tid b2 b3 (of_nat (length qs)) (of_nat (length rs)) nn nx"
  have len: "length (enc_header tid b2 b3 (of_nat (length qs)) (of_nat (length rs)) nn nx) = 12" by (simp add: enc_header_def)
  have st: "unat (of_nat ?st :: byte) = ?st" using p(3) by (simp add: unat_of_nat)
  have parts: "at ?buf ?st (enc_header tid b2 b3 (of_nat (length qs)) (of_nat (length rs)) nn nx)"
    "at ?buf (?st + 12) (concat (map enc_question qs))" "at ?buf (?st + 12 + ?nq) (concat (map enc_rr rs))"
    using at_self[of pre msg post] unfolding p(1) msg at_append len by auto
  have tot: "?st + 12 + ?nq + length (concat (map enc_rr rs)) < 2 ^ 16" using small(1) len by (simp add: msg)
  have q0: "unat (of_nat (?st + 12) :: u16) = ?st + 12" using tot by (simp add: unat_of_nat del: of_nat_add)
  have a0: "unat ((of_nat (?st + 12) :: u16) + of_nat ?nq) = ?st + 12 + ?nq"
    using unat_grow[of "of_nat (?st + 12)" ?nq] tot q0 by (simp only:)
  have cnt: "unat (n_questions ?h) = length qs" "unat (n_answer ?h) = length rs" using small by (simp_all add: header_of_def unat_of_nat)
  have hdr: "parse_dns_header ?buf ?st = Inr ?h" using parts(1) by (rule parse_dns_header_enc)
  have qs: "parse_questions ?buf ?st (?st + 12) (length qs) 0 = Some (Inr (map q_record_of qs, 0 + of_nat ?nq))"
    using good(1) parts(2) tot by (intro parse_questions_enc) simp_all
  have rs: "parse_answers ?buf ?st (?st + 12 + ?nq) (length rs) 0 = Some (Inr (map answer_of rs))"
    using good(2) parts(3) tot by (intro parse_answers_enc) simp_all
  show ?thesis unfolding parse_dns_def p(2) bindP_simps Let_def option.case st hdr cnt q0 qs split_conv add_0 a0 rs by (rule refl)
qed

text \<open>
  The data of an answer of any other type is not skipped: the next answer is looked for where that data starts.
\<close>
theorem other_answer_not_skipped:
  assumes "good_name ls" "ty \<noteq> 1" "ty \<noteq> 5" "unat s + length (enc_name ls) + 10 < 2 ^ 16"
    "at buf (off + unat s) (enc_name ls @ be16 ty @ be16 c @ be32 ttl @ be16 (of_nat (length rdata)) @ rdata @ rest)"
  shows "parse_answer buf st off s = Some (Inr (Other_Answer, s + of_nat (length (enc_name ls) + 10)))"
    "at buf (off + unat s + length (enc_name ls) + 10) (rdata @ rest)"
  using parse_answer_step(1)[OF assms(1,5,4)] parse_answer_step(2)[OF assms(1,5,4)] assms(2,3) by (simp_all add: Let_def)

subsection \<open>Examples\<close>

definition name_buf :: "byte list" where "name_buf = [3, 119, 119, 119, 0, 2, 97, 98, 0xC0, 0]"

lemma name_labelI:
  "name_at buf st p' ls n \<Longrightarrow> rd8 buf pos = Inr j \<Longrightarrow> unat j = length l \<Longrightarrow> 0 < j \<Longrightarrow> j < 0xC0 \<Longrightarrow> pos + 1 + length l \<le> length buf \<Longrightarrow>
   take (length l) (drop (pos + 1) buf) = l \<Longrightarrow> p' = pos + 1 + length l \<Longrightarrow> m = 1 + length l + n \<Longrightarrow> name_at buf st pos (l # ls) m"
  using name_label by blast

theorem read_dns_name_correct_witness: "read_dns_name name_buf 0 5 = Some (Inr ([97, 98, 46, 119, 119, 119], 5))"
proof -
  have end_4: "name_at name_buf 0 4 [] 1" by (rule name_end) (simp add: name_buf_def rd8_def)
  have www: "name_at name_buf 0 0 [[119, 119, 119]] 5"
    by (rule name_labelI[OF end_4, where j = 3]) (simp_all add: name_buf_def rd8_def)
  have "jump_target name_buf 0 8 = Inr 0" by (simp add: jump_target_def load_BE_u16_def rd8_def name_buf_def)
  then have ptr: "name_at name_buf 0 8 [[119, 119, 119]] 2"
    by (intro name_pointer[OF _ _ _ www, of _ "0xC0"]) (simp_all add: name_buf_def rd8_def)
  have "name_at name_buf 0 5 [[97, 98], [119, 119, 119]] 5"
    by (rule name_labelI[OF ptr, where j = 2]) (simp_all add: name_buf_def rd8_def)
  from read_dns_name_correct[OF this] show ?thesis by (simp add: dotted_def dot_def)
qed

definition sample_q :: question where "sample_q = Question [[97, 98], [99]] 1 1"
definition sample_rr :: rr where "sample_rr = Address [[97, 98], [99]] 1 300 0x7F000001"
definition dns_bytes :: "byte list" where
  "dns_bytes = enc_header 7 0x81 0x80 (of_nat (length [sample_q])) (of_nat (length [sample_rr])) 0 0 @
     concat (map enc_question [sample_q]) @ concat (map enc_rr [sample_rr])"

definition dns_sample :: packet where
  "dns_sample = junk_packet\<lparr>m_buffer := [] @ dns_bytes @ [], m_machdr_parsed := True, m_iphdr_parsed := True, m_ports_parsed := True,
     m_key := flow_key_0\<lparr>proto := kUDP\<rparr>, m_l4payload_ptr := Some 0\<rparr>"

theorem parse_dns_roundtrip_witness:
  "\<exists>d. parse_dns dns_sample = Some (Inr d) \<and> queries d = [\<lparr>q_rtype = 1, q_dclass = 1, q_qname = [97, 98, 46, 99]\<rparr>] \<and>
     a_recs d = [\<lparr>a_ttl = 300, a_rtype = 1, a_dclass = 1, a_ip_addr = 0x7F000001, a_qname = [97, 98, 46, 99]\<rparr>] \<and> c_names d = []"
proof -
  have "parse_payload dns_sample = Inr dns_sample"
    by (simp add: parse_payload_def pkt_is_tcp_def after_def parse_iphdr_def parse_ports_def dns_sample_def kTCP_def kUDP_def)
  then have "val pkt_payload dns_sample = Inr (Some (length ([] :: byte list)))"
    by (simp add: pkt_payload_def val_after) (simp add: dns_sample_def)
  note run = parse_dns_roundtrip[OF _ this, of dns_bytes "[]" 7 "0x81" "0x80" "[sample_q]" "[sample_rr]" 0 0]
  have "parse_dns dns_sample = Some (Inr \<lparr>dns_hdr = header_of 7 0x81 0x80 (of_nat (length [sample_q])) (of_nat (length [sample_rr])) 0 0,
     queries = map q_record_of [sample_q], a_recs = a_answers (map answer_of [sample_rr]), c_names = cname_answers (map answer_of [sample_rr])\<rparr>)"
  proof (rule run)
    show "m_buffer dns_sample = [] @ dns_bytes @ []" by (simp add: dns_sample_def)
    show "length ([] :: byte list) + length dns_bytes < 2 ^ 16"
      by (simp add: dns_bytes_def enc_header_def sample_q_def sample_rr_def enc_name_def enc_label_def)
  qed (simp_all add: dns_bytes_def sample_q_def sample_rr_def good_name_def)
  then show ?thesis by (simp add: sample_q_def sample_rr_def a_answers_def cname_answers_def dotted_def dot_def map_filter_def)
qed

end
