(* ===== verification/Ordered_Map.thy ===== *)
theory Ordered_Map
  imports Bm_Prelude
begin

text \<open>
  The model of \<open>std::map\<close> where the order of iteration matters: the entries in ascending order of their keys, each key once.
\<close>

definition keys_sorted :: "('k::linorder \<times> 'v) list \<Rightarrow> bool" where
  "keys_sorted xs \<longleftrightarrow> sorted_wrt (<) (map fst xs)"

fun omap_insert :: "'k::linorder \<Rightarrow> 'v \<Rightarrow> ('k \<times> 'v) list \<Rightarrow> ('k \<times> 'v) list" where
  "omap_insert k v [] = [(k, v)]"
| "omap_insert k v ((k', v') # xs) =
     (if k < k' then (k, v) # (k', v') # xs else if k = k' then (k, v) # xs else (k', v') # omap_insert k v xs)"

lemma keys_sorted_Nil [simp]: "keys_sorted []"
  by (simp add: keys_sorted_def)

lemma omap_insert_keys: "fst ` set (omap_insert k v xs) = insert k (fst ` set xs)"
  by (induction xs rule: omap_insert.induct) auto

lemma omap_insert_sorted: "keys_sorted xs \<Longrightarrow> keys_sorted (omap_insert k v xs)"
proof (induction k v xs rule: omap_insert.induct)
  case (2 k v k' v' xs)
  have "\<forall>x \<in> fst ` set (omap_insert k v xs). k' < x" if "\<not> k < k'" "k \<noteq> k'"
    using 2(2) that unfolding omap_insert_keys by (auto simp: keys_sorted_def)
  then show ?case using 2 by (fastforce simp: keys_sorted_def)
qed (simp add: keys_sorted_def)

lemma omap_insert_lookup: "keys_sorted xs \<Longrightarrow> map_of (omap_insert k v xs) = (map_of xs)(k \<mapsto> v)"
proof (induction k v xs rule: omap_insert.induct)
  case (2 k v k' v' xs)
  then show ?case by (auto simp: keys_sorted_def fun_eq_iff dest: map_of_SomeD)
qed simp

lemma omap_insert_set: "x \<in> set (omap_insert k v xs) \<Longrightarrow> x = (k, v) \<or> x \<in> set xs"
  by (induction xs rule: omap_insert.induct) (auto split: if_splits)

end
