(* ===== verification/Block_Variables.thy ===== *)
theory Block_Variables
  imports Packet_Blocks Ordered_Map "HOL-Library.List_Lexorder" "HOL-Library.Char_ord"
begin

text \<open>
  Block variables (\<open>core/block/BlockVariable.hpp\<close> and the accessors of \<open>Block\<close>): members of a block that the
  control plane can read or write as text. A reference to a member is what it does to the object: the text its output operator
  produces, or the effect of its input operator, each with the state of the stream afterwards. The mutex of a locking policy
  makes an access one step; every access is one step here.
\<close>

subsection \<open>Variables\<close>

datatype lock_policy = no_mutex_t | ext_mutex_t | own_mutex_t

datatype 's variable_impl =
    Rdonly lock_policy "'s \<Rightarrow> bool \<times> string"
  | Wronly lock_policy "string \<Rightarrow> 's \<Rightarrow> bool \<times> 's"

record 's block_variable =
  v_writable :: bool
  v_readable :: bool
  v_dirty :: bool
  v_impl :: "'s variable_impl"

definition block_variable_new :: "bool \<Rightarrow> bool \<Rightarrow> 's variable_impl \<Rightarrow> 's block_variable" where
  "block_variable_new tw tr i = \<lparr>v_writable = tw, v_readable = tr, v_dirty = False, v_impl = i\<rparr>"

definition is_writable :: "'s block_variable \<Rightarrow> bool" where "is_writable v = v_writable v"
definition is_readable :: "'s block_variable \<Rightarrow> bool" where "is_readable v = v_readable v"

definition is_dirty :: "'s block_variable \<Rightarrow> bool res" where
  "is_dirty v = bindE (guardE (v_writable v) Assert_Fail) (\<lambda>_. Inr (v_dirty v))"

definition set_dirty :: "bool \<Rightarrow> 's block_variable \<Rightarrow> 's block_variable" where
  "set_dirty b v = v\<lparr>v_dirty := b\<rparr>"

text \<open>
  \<open>_write\<close> and \<open>_read\<close> of the six specialisations. Only the one without a mutex looks at the state of the stream
  after writing the value to it.
\<close>

definition impl_write :: "'s variable_impl \<Rightarrow> string \<Rightarrow> ('s, unit) op" where
  "impl_write i s ob =
     (case i of
        Rdonly _ _ \<Rightarrow> (Inl (Runtime_Error ''trying to write a read-only variable''), ob)
      | Wronly _ extract \<Rightarrow>
          (case extract s ob of (good, ob') \<Rightarrow> (if good then Inr () else Inl (Runtime_Error ''cannot write variable''), ob')))"

definition impl_read :: "'s variable_impl \<Rightarrow> 's \<Rightarrow> string res" where
  "impl_read i ob =
     (case i of
        Rdonly no_mutex_t put \<Rightarrow> (case put ob of (good, s) \<Rightarrow> if good then Inr s else Inl (Runtime_Error ''cannot read variable''))
      | Rdonly _ put \<Rightarrow> Inr (snd (put ob))
      | Wronly _ _ \<Rightarrow> Inl (Runtime_Error ''trying to read a write-only variable''))"

text \<open>\<open>write\<close> marks the variable only when the value has been accepted.\<close>

definition var_write :: "string \<Rightarrow> 's block_variable \<Rightarrow> 's \<Rightarrow> unit res \<times> 's block_variable \<times> 's" where
  "var_write s v ob =
     (if \<not> v_writable v then (Inl (Runtime_Error ''variable not writable''), v, ob)
      else case impl_write (v_impl v) s ob of
             (Inl e, ob') \<Rightarrow> (Inl e, v, ob')
           | (Inr _, ob') \<Rightarrow> (Inr (), set_dirty True v, ob'))"

definition var_read :: "'s block_variable \<Rightarrow> 's \<Rightarrow> string res" where
  "var_read v ob = (if \<not> v_readable v then Inl (Runtime_Error ''variable not readable'') else impl_read (v_impl v) ob)"

definition make_rd_var :: "lock_policy \<Rightarrow> ('s \<Rightarrow> bool \<times> string) \<Rightarrow> 's block_variable" where
  "make_rd_var l put = block_variable_new False True (Rdonly l put)"

definition make_wr_var :: "lock_policy \<Rightarrow> (string \<Rightarrow> 's \<Rightarrow> bool \<times> 's) \<Rightarrow> 's block_variable" where
  "make_wr_var l extract = block_variable_new True False (Wronly l extract)"

subsection \<open>The variables of a block\<close>

text \<open>\<open>m_variables\<close> is a \<open>std::map\<close>: one entry per name, in the order of the names.\<close>

record 's var_block =
  vb_obj :: 's
  vb_variables :: "(string \<times> 's block_variable) list"

definition register_variable :: "string \<Rightarrow> 's block_variable \<Rightarrow> ('s var_block, unit) op" where
  "register_variable name v b =
     (if map_of (vb_variables b) name \<noteq> None then (Inl (Runtime_Error (name @ '' variable already registered'')), b)
      else (Inr (), b\<lparr>vb_variables := omap_insert name v (vb_variables b)\<rparr>))"

definition read_variable :: "string \<Rightarrow> 's var_block \<Rightarrow> string res" where
  "read_variable name b =
     (case map_of (vb_variables b) name of
        None \<Rightarrow> Inl (Runtime_Error (name @ '' :no such variable''))
      | Some v \<Rightarrow> var_read v (vb_obj b))"

definition write_variable :: "string \<Rightarrow> string \<Rightarrow> ('s var_block, unit) op" where
  "write_variable name s b =
     (case map_of (vb_variables b) name of
        None \<Rightarrow> (Inl (Runtime_Error (name @ '' :no such variable'')), b)
      | Some v \<Rightarrow>
          (case var_write s v (vb_obj b) of
             (r, v', ob') \<Rightarrow> (r, b\<lparr>vb_obj := ob', vb_variables := omap_insert name v' (vb_variables b)\<rparr>)))"

text \<open>The list is printed to a stream and read back from it as one word.\<close>

definition isspace :: "char \<Rightarrow> bool" where
  "isspace c \<longleftrightarrow> of_char c = (32 :: nat) \<or> 9 \<le> (of_char c :: nat) \<and> (of_char c :: nat) \<le> 13"

definition next_word :: "string \<Rightarrow> string" where
  "next_word s = takeWhile (\<lambda>c. \<not> isspace c) (dropWhile isspace s)"

definition variable_entry :: "string \<times> 's block_variable \<Rightarrow> string" where
  "variable_entry x = fst x @ (if is_readable (snd x) then '',read'' else []) @ (if is_writable (snd x) then '',write'' else []) @ '';''"

definition list_variables :: "'s var_block \<Rightarrow> string" where
  "list_variables b = next_word (concat (map variable_entry (vb_variables b)))"

subsection \<open>Unsigned members\<close>

text \<open>
  The stream operators of the unsigned types the counters expose: decimal digits on output; on input leading white space is
  skipped (with nothing after it the value is not touched), a sign is accepted, no digit gives zero and a number that does not fit
  gives the largest value, both with the stream failed.
\<close>

definition isdigit :: "char \<Rightarrow> bool" where
  "isdigit c \<longleftrightarrow> 48 \<le> (of_char c :: nat) \<and> (of_char c :: nat) \<le> 57"

definition digits_value :: "string \<Rightarrow> nat" where
  "digits_value ds = foldl (\<lambda>n c. 10 * n + (of_char c - 48)) 0 ds"

definition uint_text :: "'a::len word \<Rightarrow> string" where
  "uint_text w = decimal (unat w)"

definition uint_extract :: "string \<Rightarrow> 'a::len word \<Rightarrow> bool \<times> 'a word" where
  "uint_extract s old =
     (let t = dropWhile isspace s in
      if t = [] then (False, old)
      else let u = (if hd t = CHR ''+'' \<or> hd t = CHR ''-'' then tl t else t);
               ds = takeWhile isdigit u; n = digits_value ds
           in if ds = [] then (False, 0)
              else if 2 ^ LENGTH('a) \<le> n then (False, - 1)
              else (True, if hd t = CHR ''-'' then - of_nat n else of_nat n))"

text \<open>A member seen through its getter and its setter.\<close>

definition put_member :: "('v \<Rightarrow> string) \<Rightarrow> ('s \<Rightarrow> 'v) \<Rightarrow> 's \<Rightarrow> bool \<times> string" where
  "put_member text_of get ob = (True, text_of (get ob))"

definition get_member :: "(string \<Rightarrow> 'v \<Rightarrow> bool \<times> 'v) \<Rightarrow> ('s \<Rightarrow> 'v) \<Rightarrow> ('v \<Rightarrow> 's \<Rightarrow> 's) \<Rightarrow> string \<Rightarrow> 's \<Rightarrow> bool \<times> 's" where
  "get_member extract get upd s ob = (case extract s (get ob) of (good, v) \<Rightarrow> (good, upd v ob))"

text \<open>What the constructor of the counter registers; the text of the rates, which are doubles, is a parameter.\<close>

definition counter_variables :: "(nat \<Rightarrow> counter \<Rightarrow> string) \<Rightarrow> (string \<times> counter block_variable) list" where
  "counter_variables rate =
     [(''flowrate'', make_rd_var no_mutex_t (\<lambda>c. (True, rate 0 c))),
      (''byterate'', make_rd_var no_mutex_t (\<lambda>c. (True, rate 1 c))),
      (''pktrate'', make_rd_var no_mutex_t (\<lambda>c. (True, rate 2 c))),
      (''flowcnt'', make_rd_var no_mutex_t (put_member uint_text ct_flow_cnt)),
      (''pktcnt'', make_rd_var no_mutex_t (put_member uint_text ct_pkt_cnt)),
      (''bytecnt'', make_rd_var no_mutex_t (put_member uint_text ct_byte_cnt)),
      (''reset'', make_wr_var no_mutex_t (get_member uint_extract ct_reset (\<lambda>v c. c\<lparr>ct_reset := v\<rparr>)))]"

definition counter_block :: "(nat \<Rightarrow> counter \<Rightarrow> string) \<Rightarrow> counter \<Rightarrow> counter var_block" where
  "counter_block rate c = foldl (\<lambda>b (name, v). snd (register_variable name v b)) \<lparr>vb_obj = c, vb_variables = []\<rparr> (counter_variables rate)"

subsection \<open>Access control\<close>

definition var_ok :: "'s block_variable \<Rightarrow> bool" where
  "var_ok v \<longleftrightarrow> (case v_impl v of Rdonly _ _ \<Rightarrow> v_readable v \<and> \<not> v_writable v \<and> \<not> v_dirty v | Wronly _ _ \<Rightarrow> v_writable v \<and> \<not> v_readable v)"

definition vb_ok :: "'s var_block \<Rightarrow> bool" where
  "vb_ok b \<longleftrightarrow> keys_sorted (vb_variables b) \<and> (\<forall>(name, v) \<in> set (vb_variables b). var_ok v)"

text \<open>The life of a block: it registers variables, its own handlers change the object, and the control plane writes.\<close>

inductive var_run :: "'s var_block \<Rightarrow> bool" where
  run_new: "var_run \<lparr>vb_obj = ob, vb_variables = []\<rparr>"
| run_rd: "var_run b \<Longrightarrow> var_run (snd (register_variable name (make_rd_var l put) b))"
| run_wr: "var_run b \<Longrightarrow> var_run (snd (register_variable name (make_wr_var l extract) b))"
| run_handler: "var_run b \<Longrightarrow> var_run (b\<lparr>vb_obj := ob\<rparr>)"
| run_write: "var_run b \<Longrightarrow> var_run (snd (write_variable name s b))"

lemma make_var_ok: "var_ok (make_rd_var l put)" "var_ok (make_wr_var l extract)"
  by (simp_all add: var_ok_def make_rd_var_def make_wr_var_def block_variable_new_def)

lemma vb_ok_insert: "vb_ok b \<Longrightarrow> var_ok v \<Longrightarrow> vb_ok (b\<lparr>vb_obj := ob, vb_variables := omap_insert name v (vb_variables b)\<rparr>)"
  by (auto simp: vb_ok_def omap_insert_sorted dest!: omap_insert_set)

lemma vb_ok_lookup: "vb_ok b \<Longrightarrow> map_of (vb_variables b) name = Some v \<Longrightarrow> var_ok v"
  by (auto simp: vb_ok_def dest: map_of_SomeD)

lemma var_write_ok: "var_ok v \<Longrightarrow> var_write s v ob = (r, v', ob') \<Longrightarrow> var_ok v'"
  by (auto simp: var_write_def var_ok_def set_dirty_def split: if_splits prod.splits sum.splits variable_impl.splits)

lemma register_variable_ok: "vb_ok b \<Longrightarrow> var_ok v \<Longrightarrow> vb_ok (snd (register_variable name v b))"
  using vb_ok_insert[of b v, where ob = "vb_obj b" and name = name] by (simp add: register_variable_def)

lemma write_variable_ok: "vb_ok b \<Longrightarrow> vb_ok (snd (write_variable name s b))"
  by (auto simp: write_variable_def split: option.splits prod.splits intro!: vb_ok_insert dest: vb_ok_lookup var_write_ok)

lemma var_run_ok: "var_run b \<Longrightarrow> vb_ok b"
  by (induction rule: var_run.induct)
    (auto simp: make_var_ok intro!: register_variable_ok write_variable_ok, auto simp: vb_ok_def keys_sorted_def)


subsection \<open>Values as text\<close>

text \<open>A type whose values survive the way through a stream, seen as a member of an object.\<close>

locale stream_value =
  fixes text_of :: "'v \<Rightarrow> string" and from_text :: "string \<Rightarrow> 'v \<Rightarrow> bool \<times> 'v"
  assumes from_text_of: "from_text (text_of v) old = (True, v)"
begin

lemma write_member:
  assumes b: "vb_ok b" "map_of (vb_variables b) w = Some vw" "v_impl vw = Wronly l (get_member from_text get upd)"
  shows "write_variable w (text_of x) b = (Inr (), b\<lparr>vb_obj := upd x (vb_obj b), vb_variables := omap_insert w (vw\<lparr>v_dirty := True\<rparr>) (vb_variables b)\<rparr>)"
  using b vb_ok_lookup[OF b(1,2)]
  by (simp add: write_variable_def var_write_def var_ok_def impl_write_def get_member_def from_text_of set_dirty_def)

lemma read_member:
  assumes b: "vb_ok b" "map_of (vb_variables b) r = Some vr" "v_impl vr = Rdonly l (put_member text_of get)"
  shows "read_variable r b = Inr (text_of (get (vb_obj b)))"
  using b vb_ok_lookup[OF b(1,2)]
  by (cases l) (simp_all add: read_variable_def var_read_def var_ok_def impl_read_def put_member_def)

end

lemma decimal_digits: "\<forall>c \<in> set (decimal n). isdigit c"
proof (induction n rule: decimal.induct)
  case (1 n)
  then show ?case by (subst decimal.simps) (auto simp: isdigit_def)
qed

lemma decimal_nonempty: "decimal n \<noteq> []"
  by (subst decimal.simps) simp

lemma digits_value_append: "digits_value (xs @ [c]) = 10 * digits_value xs + (of_char c - 48)"
  by (simp add: digits_value_def)

lemma digits_value_decimal: "digits_value (decimal n) = n"
proof (induction n rule: decimal.induct)
  case (1 n)
  show ?case
  proof (cases "n < 10")
    case True
    then show ?thesis by (subst decimal.simps) (simp add: digits_value_def)
  next
    case False
    have "digits_value (decimal n) = 10 * digits_value (decimal (n div 10)) + n mod 10"
      using False by (subst decimal.simps) (simp add: digits_value_append)
    then show ?thesis using 1 False by simp
  qed
qed

lemma isdigit_not: "isdigit c \<Longrightarrow> \<not> isspace c" "isdigit c \<Longrightarrow> c \<noteq> CHR ''+''" "isdigit c \<Longrightarrow> c \<noteq> CHR ''-''"
  by (auto simp: isdigit_def isspace_def)

lemma uint_extract_text: "uint_extract (uint_text w) old = (True, w)"
proof -
  let ?t = "decimal (unat w)"
  obtain c cs where t: "?t = c # cs" using decimal_nonempty by (cases ?t) auto
  have d: "isdigit c" "takeWhile isdigit cs = cs" using decimal_digits[of "unat w"] t by (auto simp: takeWhile_eq_all_conv)
  have "dropWhile isspace ?t = ?t" using isdigit_not(1)[OF d(1)] t by simp
  moreover have "\<not> 2 ^ LENGTH('a) \<le> unat w" by (simp add: not_le)
  ultimately show ?thesis using d(1) isdigit_not(2,3)[OF d(1)] t
    by (simp add: d(2) uint_extract_def uint_text_def Let_def digits_value_decimal[of "unat w", unfolded t])
qed

interpretation uint_stream: stream_value "uint_text :: 'a::len word \<Rightarrow> string" "uint_extract"
  by unfold_locales (rule uint_extract_text)

subsection \<open>The counter and the control plane\<close>

text \<open>What a name refers to never changes.\<close>

definition vb_impl :: "'s var_block \<Rightarrow> string \<Rightarrow> 's variable_impl option" where
  "vb_impl b name = map_option v_impl (map_of (vb_variables b) name)"

lemma var_write_impl: "var_write s v ob = (r, v', ob') \<Longrightarrow> v_impl v' = v_impl v"
  by (auto simp: var_write_def set_dirty_def split: if_splits prod.splits sum.splits)

lemma write_variable_impl:
  assumes "vb_ok b"
  shows "vb_impl (snd (write_variable name s b)) = vb_impl b"
proof (cases "map_of (vb_variables b) name")
  case (Some v)
  obtain r v' ob' where w: "var_write s v (vb_obj b) = (r, v', ob')" by (cases "var_write s v (vb_obj b)") auto
  then have "v_impl v' = v_impl v" by (rule var_write_impl)
  then show ?thesis using Some assms w by (auto simp: write_variable_def vb_impl_def vb_ok_def omap_insert_lookup fun_eq_iff)
qed (simp add: write_variable_def)

lemma register_all_run:
  assumes "var_run b" "\<forall>x \<in> set xs. (\<exists>l put. snd x = make_rd_var l put) \<or> (\<exists>l ex. snd x = make_wr_var l ex)"
  shows "var_run (foldl (\<lambda>b (name, v). snd (register_variable name v b)) b xs)"
  using assms
proof (induction xs arbitrary: b)
  case (Cons x xs)
  have "var_run (snd (register_variable (fst x) (snd x) b))" using Cons.prems by (auto intro: run_rd run_wr)
  then have "var_run (foldl (\<lambda>b (name, v). snd (register_variable name v b)) (snd (register_variable (fst x) (snd x) b)) xs)"
    using Cons.prems(2) by (intro Cons.IH) simp_all
  then show ?case by (cases x) simp
qed simp

lemma counter_block_vars:
  "vb_obj (counter_block rate c) = c" "var_run (counter_block rate c)"
  "vb_impl (counter_block rate c) name = map_option v_impl (map_of (counter_variables rate) name)"
proof -
  show "vb_obj (counter_block rate c) = c"
    "vb_impl (counter_block rate c) name = map_option v_impl (map_of (counter_variables rate) name)"
    by (simp_all add: counter_block_def counter_variables_def register_variable_def vb_impl_def)
  show "var_run (counter_block rate c)"
    unfolding counter_block_def by (rule register_all_run) (auto intro!: run_new simp: counter_variables_def)
qed

abbreviation reset_impl :: "counter variable_impl" where
  "reset_impl \<equiv> Wronly no_mutex_t (get_member uint_extract ct_reset (\<lambda>v c. c\<lparr>ct_reset := v\<rparr>))"

lemma counter_impls:
  "vb_impl (counter_block rate c) ''reset'' = Some reset_impl"
  "vb_impl (counter_block rate c) ''pktcnt'' = Some (Rdonly no_mutex_t (put_member uint_text ct_pkt_cnt))"
  "vb_impl (counter_block rate c) ''bytecnt'' = Some (Rdonly no_mutex_t (put_member uint_text ct_byte_cnt))"
  "vb_impl (counter_block rate c) name = Some (Wronly l ex) \<Longrightarrow> Wronly l ex = reset_impl"
  by (auto simp: counter_block_vars(3) counter_variables_def make_rd_var_def make_wr_var_def block_variable_new_def split: if_splits)

lemma vb_impl_Some: "vb_impl b name = Some i \<Longrightarrow> \<exists>v. map_of (vb_variables b) name = Some v \<and> v_impl v = i"
  by (auto simp: vb_impl_def)

lemma read_through: "vb_ok b \<Longrightarrow> vb_impl b name = Some (Rdonly l (put_member uint_text get)) \<Longrightarrow>
  read_variable name b = Inr (uint_text (get (vb_obj b)))"
  using uint_stream.read_member vb_impl_Some by blast

text \<open>
  The control plane cannot disturb a counter: after any sequence of writes to any names, whatever the text, only the reset request can have
  changed, and reading the packet count gives the decimal text of the member.
\<close>
theorem counter_control_safe:
  "\<exists>r b. b = foldl (\<lambda>b (name, s). snd (write_variable name s b)) (counter_block rate c) ws \<and> vb_obj b = c\<lparr>ct_reset := r\<rparr> \<and>
     read_variable ''pktcnt'' b = Inr (decimal (unat (ct_pkt_cnt c)))"
proof -
  let ?run = "foldl (\<lambda>b (name, s). snd (write_variable name s b)) (counter_block rate c)"
  have run: "vb_ok (?run ws) \<and> vb_impl (?run ws) = vb_impl (counter_block rate c) \<and> (\<exists>r. vb_obj (?run ws) = c\<lparr>ct_reset := r\<rparr>)"
  proof (induction ws rule: rev_induct)
    case Nil
    have "\<exists>r. vb_obj (counter_block rate c) = c\<lparr>ct_reset := r\<rparr>"
      by (rule exI[of _ "ct_reset c"]) (simp add: counter_block_vars)
    then show ?case using var_run_ok[OF counter_block_vars(2)] by simp
  next
    case (snoc x ws)
    obtain name s where x: "x = (name, s)" by (cases x)
    let ?b = "?run ws"
    obtain r where IH: "vb_ok ?b" "vb_impl ?b = vb_impl (counter_block rate c)" "vb_obj ?b = c\<lparr>ct_reset := r\<rparr>" using snoc by blast
    have "\<exists>r'. vb_obj (snd (write_variable name s ?b)) = c\<lparr>ct_reset := r'\<rparr>"
    proof (cases "map_of (vb_variables ?b) name")
      case (Some v)
      have "vb_impl (counter_block rate c) name = Some (v_impl v)" using Some by (simp add: IH(2)[symmetric] vb_impl_def)
      then have "v_writable v \<Longrightarrow> v_impl v = reset_impl"
        using vb_ok_lookup[OF IH(1) Some] counter_impls(4)[of rate c name] by (cases "v_impl v") (simp_all add: var_ok_def)
      then show ?thesis using Some IH(3)
        by (auto simp: write_variable_def var_write_def impl_write_def get_member_def split: prod.splits sum.splits)
    next
      case None
      then show ?thesis using IH(3) by (intro exI[of _ r]) (simp add: write_variable_def)
    qed
    then show ?case using IH x by (simp add: write_variable_ok write_variable_impl)
  qed
  then show ?thesis using read_through[of "?run ws" "''pktcnt''" no_mutex_t ct_pkt_cnt] counter_impls(2)
    by (auto simp: uint_text_def)
qed

text \<open>
  The list of variables is complete when no name contains white space; otherwise it is cut off at the first one.
\<close>
theorem list_variables_complete:
  assumes "\<forall>(name, v) \<in> set (vb_variables b). \<forall>c \<in> set name. \<not> isspace c"
  shows "list_variables b = concat (map variable_entry (vb_variables b))"
proof -
  have "\<forall>c \<in> set (variable_entry x). \<not> isspace c" if "x \<in> set (vb_variables b)" for x
  proof -
    have "\<forall>c \<in> set (fst x). \<not> isspace c" using assms that by (cases x) auto
    then show ?thesis by (auto simp: variable_entry_def isspace_def)
  qed
  then have all: "\<forall>c \<in> set (concat (map variable_entry (vb_variables b))). \<not> isspace c" by auto
  then have "dropWhile isspace (concat (map variable_entry (vb_variables b))) = concat (map variable_entry (vb_variables b))"
    unfolding dropWhile_eq_self_iff using hd_in_set by blast
  then show ?thesis using all by (simp add: list_variables_def next_word_def takeWhile_eq_all_conv)
qed

text \<open>
  C34: The reset request of the control plane reaches the counter: after \<open>1\<close> has been written to the variable and the next packet has been handled, the
  counts read back are those of that packet alone.
\<close>
theorem counter_reset_request:
  "\<exists>b c'. write_variable ''reset'' (decimal 1) (counter_block rate c) = (Inr (), b) \<and>
     counter_receive (Packet_Msg p) gate (vb_obj b) = (c', [], Inr ()) \<and>
     read_variable ''pktcnt'' (b\<lparr>vb_obj := c'\<rparr>) = Inr (decimal 1) \<and>
     read_variable ''bytecnt'' (b\<lparr>vb_obj := c'\<rparr>) = Inr (decimal (unat (m_length p)))"
proof -
  let ?b0 = "counter_block rate c"
  have ok0: "vb_ok ?b0" using counter_block_vars(2) by (rule var_run_ok)
  obtain v where v: "map_of (vb_variables ?b0) ''reset'' = Some v" "v_impl v = reset_impl" using vb_impl_Some[OF counter_impls(1)] by blast
  obtain b where w: "write_variable ''reset'' (uint_text (1 :: u32)) ?b0 = (Inr (), b)" "vb_obj b = c\<lparr>ct_reset := 1\<rparr>"
    using uint_stream.write_member[OF ok0 v, of 1] by (simp add: counter_block_vars)
  let ?c = "fst (counter_receive (Packet_Msg p) gate (vb_obj b))"
  have c: "counter_receive (Packet_Msg p) gate (vb_obj b) = (?c, [], Inr ())" "ct_pkt_cnt ?c = 1" "ct_byte_cnt ?c = m_length p"
    by (simp_all add: w counter_receive_def counter_check_reset_def Let_def)
  have "vb_impl (b\<lparr>vb_obj := ?c\<rparr>) = vb_impl ?b0" "vb_ok (b\<lparr>vb_obj := ?c\<rparr>)"
    using write_variable_impl[OF ok0, of "''reset''" "uint_text (1 :: u32)"] write_variable_ok[OF ok0, of "''reset''" "uint_text (1 :: u32)"]
    by (simp_all add: w vb_impl_def vb_ok_def fun_eq_iff)
  then have "read_variable ''pktcnt'' (b\<lparr>vb_obj := ?c\<rparr>) = Inr (decimal 1)" "read_variable ''bytecnt'' (b\<lparr>vb_obj := ?c\<rparr>) = Inr (decimal (unat (m_length p)))"
    using read_through[of "b\<lparr>vb_obj := ?c\<rparr>" "''pktcnt''" no_mutex_t ct_pkt_cnt] read_through[of "b\<lparr>vb_obj := ?c\<rparr>" "''bytecnt''" no_mutex_t ct_byte_cnt]
      counter_impls(2,3) c by (simp_all add: uint_text_def)
  then show ?thesis using w(1) c(1) by (auto simp: uint_text_def)
qed


end
