(* ===== verification/Message_Memory.thy ===== *)
theory Message_Memory
  imports Bm_Prelude
begin

text \<open>
  Memory for messages: batches from which messages are carved (\<open>core/message/MemoryBatch.hpp\<close>) and slices of arrays
  (\<open>core/SliceAllocator.hpp\<close>, with the type lists of \<open>core/Utility.hpp\<close> and the run-time size of \<open>core/DynamicBuffer.hpp\<close>).
  A batch lives as long as a shared pointer refers to it: the block's own one or that of a message carved from it. A message is a handle
  with the batch, the offset and the number of bytes it was given.
\<close>

subsection \<open>Batches\<close>

record memory_batch =
  mb_size :: u64
  mb_curr :: u64

definition memory_batch_new :: "u64 \<Rightarrow> memory_batch" where
  "memory_batch_new n = \<lparr>mb_size = n, mb_curr = 0\<rparr>"

definition reserve :: "u64 \<Rightarrow> memory_batch \<Rightarrow> u64 option \<times> memory_batch" where
  "reserve n b = (if mb_size b < mb_curr b + n then (None, b) else (Some (mb_curr b), b\<lparr>mb_curr := mb_curr b + n\<rparr>))"

definition BATCH_SIZE :: u64 where "BATCH_SIZE = 4096 * 256"

record mem_state =
  ms_batches :: "nat \<Rightarrow> memory_batch option"
  ms_next :: nat
  ms_block :: "nat option"
  ms_msgs :: "nat \<Rightarrow> (nat \<times> u64 \<times> u64) option"
  ms_next_msg :: nat

text \<open>The owner of the messages starts with one batch of its own (the capture sources choose its size).\<close>

definition mem_init :: "u64 \<Rightarrow> mem_state" where
  "mem_init n = \<lparr>ms_batches = Map.empty(0 \<mapsto> memory_batch_new n), ms_next = 1, ms_block = Some 0, ms_msgs = Map.empty, ms_next_msg = 0\<rparr>"

definition referred :: "nat \<Rightarrow> mem_state \<Rightarrow> bool" where
  "referred a st \<longleftrightarrow> ms_block st = Some a \<or> (\<exists>h < ms_next_msg st. \<exists>off n. ms_msgs st h = Some (a, off, n))"

text \<open>The last shared pointer to a batch deletes it.\<close>

definition drop_ref :: "nat \<Rightarrow> mem_state \<Rightarrow> mem_state" where
  "drop_ref a st = (if referred a st then st else st\<lparr>ms_batches := (ms_batches st)(a := None)\<rparr>)"

definition bind_msg :: "nat \<Rightarrow> memory_batch \<Rightarrow> u64 \<Rightarrow> u64 \<Rightarrow> mem_state \<Rightarrow> mem_state" where
  "bind_msg a b off n st = st\<lparr>ms_batches := (ms_batches st)(a \<mapsto> b), ms_msgs := (ms_msgs st)(ms_next_msg st \<mapsto> (a, off, n)),
     ms_next_msg := ms_next_msg st + 1\<rparr>"

text \<open>
  \<open>alloc_msg_from_buffer\<close>: the value is the handle of the new message. When the batch is exhausted a fresh one replaces it; constructing the
  message where \<open>reserve\<close> returned null has no meaning.
\<close>

definition alloc_msg_from_buffer :: "u64 \<Rightarrow> u64 \<Rightarrow> (mem_state, nat) op" where
  "alloc_msg_from_buffer sizeof_T additional_space st =
     (case ms_block st of
        None \<Rightarrow> (Inl Undefined_Behaviour, st)
      | Some a \<Rightarrow>
          (case ms_batches st a of
             None \<Rightarrow> (Inl Undefined_Behaviour, st)
           | Some b \<Rightarrow>
               let n = sizeof_T + additional_space in
               (case reserve n b of
                  (Some off, b1) \<Rightarrow> (Inr (ms_next_msg st), bind_msg a b1 off n st)
                | (None, _) \<Rightarrow>
                    let st1 = drop_ref a (st\<lparr>ms_block := None\<rparr>); a2 = ms_next st1;
                        st2 = st1\<lparr>ms_next := a2 + 1, ms_block := Some a2, ms_batches := (ms_batches st1)(a2 \<mapsto> memory_batch_new BATCH_SIZE)\<rparr>
                    in (case reserve n (memory_batch_new BATCH_SIZE) of
                          (Some off, b2) \<Rightarrow> (Inr (ms_next_msg st2), bind_msg a2 b2 off n st2)
                        | (None, _) \<Rightarrow> (Inl Undefined_Behaviour, st2)))))"

text \<open>The last pointer to a message goes away.\<close>

definition release_msg :: "nat \<Rightarrow> mem_state \<Rightarrow> mem_state" where
  "release_msg h st =
     (case ms_msgs st h of None \<Rightarrow> st | Some (a, _, _) \<Rightarrow> drop_ref a (st\<lparr>ms_msgs := (ms_msgs st)(h := None)\<rparr>))"

subsection \<open>Slices\<close>

fun get_element :: "nat \<Rightarrow> 't list \<Rightarrow> 't option" where
  "get_element n [] = None"
| "get_element 0 (t # ts) = Some t"
| "get_element (Suc n) (t # ts) = get_element n ts"

fun get_index :: "'t \<Rightarrow> 't list \<Rightarrow> nat" where
  "get_index t [] = 0"
| "get_index t (t0 # ts) = (if t = t0 then 0 else 1 + get_index t ts)"

text \<open>The size of a dynamic buffer is a static variable, zero until it is set.\<close>

definition dynamic_size_of :: "u64 \<Rightarrow> (u64, u64) op" where
  "dynamic_size_of init v =
     (if init \<noteq> 0 then (Inr init, init)
      else if v = 0 then (Inl (Runtime_Error ''dynamic_buffer::size_of not set''), v) else (Inr v, v))"

text \<open>
  A manager holds one array per type of the list, each with a slot per slice; a slice is the list of the addresses of its parts (array, offset in bytes).
  The managers are named, a slice binds to the one that is current.
\<close>

definition advance_ptr :: "nat \<Rightarrow> nat \<Rightarrow> nat \<Rightarrow> nat" where
  "advance_ptr sz ptr n = ptr + sz * n"

definition construct :: "nat list \<Rightarrow> nat \<Rightarrow> (nat \<times> nat) list" where
  "construct sizes offset = map (\<lambda>k. (k, advance_ptr (sizes ! k) 0 offset)) [0..<length sizes]"

record slice_state =
  sl_manager :: nat
  sl_index :: nat
  sl_next :: nat

definition NSlots :: nat where "NSlots = 4096 * 32"

definition slice_allocator_new :: slice_state where
  "slice_allocator_new = \<lparr>sl_manager = 0, sl_index = 0, sl_next = 1\<rparr>"

definition manager_alloc :: "nat list \<Rightarrow> (slice_state, nat \<times> (nat \<times> nat) list) op" where
  "manager_alloc sizes st =
     (if sl_index st = NSlots then (Inl (Runtime_Error ''slice_manager<Ts...>::alloc() overflow''), st)
      else (Inr (sl_manager st, construct sizes (sl_index st)), st\<lparr>sl_index := sl_index st + 1\<rparr>))"

definition new_slice :: "nat list \<Rightarrow> (slice_state, nat \<times> (nat \<times> nat) list) op" where
  "new_slice sizes st =
     (let st1 = (if sl_index st = NSlots then \<lparr>sl_manager = sl_next st, sl_index = 0, sl_next = sl_next st + 1\<rparr> else st) in
      manager_alloc sizes st1)"

subsection \<open>Batches and their messages\<close>

definition disjoint_ranges :: "u64 \<times> u64 \<Rightarrow> u64 \<times> u64 \<Rightarrow> bool" where
  "disjoint_ranges r s \<longleftrightarrow> unat (fst r) + unat (snd r) \<le> unat (fst s) \<or> unat (fst s) + unat (snd s) \<le> unat (fst r)"

definition batches_ok :: "mem_state \<Rightarrow> bool" where
  "batches_ok st \<longleftrightarrow> (\<forall>a b. ms_batches st a = Some b \<longrightarrow> a < ms_next st \<and> unat (mb_curr b) \<le> unat (mb_size b) \<and> unat (mb_size b) < 2 ^ 63 \<and> referred a st)"

definition msgs_ok :: "mem_state \<Rightarrow> bool" where
  "msgs_ok st \<longleftrightarrow> (\<forall>h a off n. ms_msgs st h = Some (a, off, n) \<longrightarrow> h < ms_next_msg st \<and>
     (\<exists>b. ms_batches st a = Some b \<and> unat off + unat n \<le> unat (mb_curr b)))"

definition apart :: "mem_state \<Rightarrow> bool" where
  "apart st \<longleftrightarrow> (\<forall>h h' a off n off' n'. ms_msgs st h = Some (a, off, n) \<longrightarrow> ms_msgs st h' = Some (a, off', n') \<longrightarrow> h \<noteq> h' \<longrightarrow>
     disjoint_ranges (off, n) (off', n'))"

definition block_ok :: "mem_state \<Rightarrow> bool" where
  "block_ok st \<longleftrightarrow> (\<exists>a. ms_block st = Some a \<and> ms_batches st a \<noteq> None)"

definition mem_ok :: "mem_state \<Rightarrow> bool" where
  "mem_ok st \<longleftrightarrow> batches_ok st \<and> msgs_ok st \<and> apart st \<and> block_ok st"

text \<open>Messages that fit into a fresh batch are allocated and released in any order.\<close>

inductive mem_run :: "u64 \<Rightarrow> mem_state \<Rightarrow> bool" for first :: u64 where
  run_init: "mem_run first (mem_init first)"
| run_alloc: "mem_run first st \<Longrightarrow> unat sizeof_T + unat extra \<le> unat BATCH_SIZE \<Longrightarrow> mem_run first (snd (alloc_msg_from_buffer sizeof_T extra st))"
| run_release: "mem_run first st \<Longrightarrow> mem_run first (release_msg h st)"

lemma msgs_okD: "msgs_ok st \<Longrightarrow> ms_msgs st h = Some (a, off, n) \<Longrightarrow>
  h < ms_next_msg st \<and> (\<exists>b. ms_batches st a = Some b \<and> unat off + unat n \<le> unat (mb_curr b))"
  unfolding msgs_ok_def by blast

lemma reserve_Some:
  assumes "reserve n b = (Some off, b1)" "unat (mb_curr b) < 2 ^ 63" "unat n < 2 ^ 63"
  shows "off = mb_curr b" "b1 = b\<lparr>mb_curr := mb_curr b + n\<rparr>" "unat (mb_curr b1) = unat off + unat n" "unat (mb_curr b1) \<le> unat (mb_size b)"
proof -
  show "off = mb_curr b" "b1 = b\<lparr>mb_curr := mb_curr b + n\<rparr>" using assms(1) by (auto simp: reserve_def split: if_splits)
  moreover have "\<not> mb_size b < mb_curr b + n" using assms(1) by (auto simp: reserve_def split: if_splits)
  moreover have "unat (mb_curr b + n) = unat (mb_curr b) + unat n" using assms(2,3) by (simp add: unat_word_ariths)
  ultimately show "unat (mb_curr b1) = unat off + unat n" "unat (mb_curr b1) \<le> unat (mb_size b)" by (simp_all add: not_less word_le_nat_alt)
qed

lemma referred_block: "ms_block st = Some a \<Longrightarrow> referred a st"
  by (simp add: referred_def)

lemma referred_msg: "ms_msgs st h = Some (a, off, n) \<Longrightarrow> h < ms_next_msg st \<Longrightarrow> referred a st"
  by (auto simp: referred_def)

lemma referred_cases:
  assumes "referred a st"
  obtains "ms_block st = Some a" | h off n where "ms_msgs st h = Some (a, off, n)" "h < ms_next_msg st"
  using assms by (auto simp: referred_def)

text \<open>A fresh message lies above all others of its batch.\<close>

lemma bind_msg_ok:
  assumes ok: "mem_ok st" and b: "ms_batches st a = Some b" and r: "reserve n b = (Some off, b1)" and n: "unat n < 2 ^ 63"
  shows "mem_ok (bind_msg a b1 off n st)"
proof -
  let ?st = "bind_msg a b1 off n st"
  have inv: "batches_ok st" "msgs_ok st" "apart st" "block_ok st" using ok by (simp_all add: mem_ok_def)
  have "unat (mb_curr b) < 2 ^ 63" using inv(1) b unfolding batches_ok_def by fastforce
  note R = reserve_Some[OF r this n]
  have fresh: "ms_msgs st (ms_next_msg st) = None" using inv(2) unfolding msgs_ok_def by (metis less_irrefl not_None_eq prod_cases3)
  have ref: "referred a' ?st" if "referred a' st" for a'
    using that
  proof (cases rule: referred_cases)
    case (2 h off' n')
    then show ?thesis by (intro referred_msg[of _ h _ off' n']) (simp_all add: bind_msg_def)
  qed (intro referred_block, simp add: bind_msg_def)
  have "batches_ok ?st" using inv(1) b R ref unfolding batches_ok_def by (auto simp: bind_msg_def)
  moreover have "msgs_ok ?st" unfolding msgs_ok_def
  proof (intro allI impI)
    fix h a' off' n' assume m: "ms_msgs ?st h = Some (a', off', n')"
    show "h < ms_next_msg ?st \<and> (\<exists>b. ms_batches ?st a' = Some b \<and> unat off' + unat n' \<le> unat (mb_curr b))"
    proof (cases "h = ms_next_msg st")
      case True
      then show ?thesis using m R(3) by (simp add: bind_msg_def)
    next
      case False
      then obtain b' where "h < ms_next_msg st" "ms_batches st a' = Some b'" "unat off' + unat n' \<le> unat (mb_curr b')"
        using m msgs_okD[OF inv(2), of h a' off' n'] by (auto simp: bind_msg_def)
      then show ?thesis using b R(1,3) by (auto simp: bind_msg_def)
    qed
  qed
  moreover have "apart ?st" unfolding apart_def
  proof (intro allI impI)
    fix h h' a' o1 n1 o2 n2
    assume m: "ms_msgs ?st h = Some (a', o1, n1)" "ms_msgs ?st h' = Some (a', o2, n2)" "h \<noteq> h'"
    have low: "unat o' + unat n' \<le> unat off" if "ms_msgs st k = Some (a, o', n')" for k o' n'
      using inv(2) that b R(1) unfolding msgs_ok_def by fastforce
    show "disjoint_ranges (o1, n1) (o2, n2)"
      using m inv(3) low unfolding apart_def by (auto simp: bind_msg_def disjoint_ranges_def split: if_splits)
  qed
  moreover have "block_ok ?st" using inv(4) by (auto simp: block_ok_def bind_msg_def)
  ultimately show ?thesis by (simp add: mem_ok_def)
qed

lemma fresh_block_ok:
  assumes ok: "mem_ok st" and blk: "ms_block st = Some a" and st2: "st2 = (let st1 = drop_ref a (st\<lparr>ms_block := None\<rparr>); a2 = ms_next st1 in
     st1\<lparr>ms_next := a2 + 1, ms_block := Some a2, ms_batches := (ms_batches st1)(a2 \<mapsto> memory_batch_new BATCH_SIZE)\<rparr>)"
  shows "mem_ok st2"
proof -
  let ?st0 = "st\<lparr>ms_block := None\<rparr>"
  have inv: "batches_ok st" "msgs_ok st" "apart st" using ok by (simp_all add: mem_ok_def)
  have same: "ms_msgs st2 = ms_msgs st" "ms_next_msg st2 = ms_next_msg st" "ms_block st2 = Some (ms_next st)" "ms_next st2 = ms_next st + 1"
    by (simp_all add: st2 drop_ref_def Let_def)
  have bat: "ms_batches st2 = (if referred a ?st0 then ms_batches st else (ms_batches st)(a := None))(ms_next st \<mapsto> memory_batch_new BATCH_SIZE)"
    by (simp add: st2 drop_ref_def Let_def)
  have ref: "referred a' st2" if "ms_batches st2 a' = Some b" for a' b
  proof (cases "a' = ms_next st")
    case False
    then have old: "ms_batches st a' = Some b" "a' = a \<Longrightarrow> referred a ?st0" using that by (auto simp: bat split: if_splits)
    then have "referred a' st" using inv(1) unfolding batches_ok_def by blast
    moreover have "a' \<noteq> a \<or> referred a ?st0" using old(2) by blast
    ultimately show ?thesis using blk by (auto simp: referred_def same)
  qed (simp add: referred_def same)
  have "batches_ok st2" unfolding batches_ok_def
  proof (intro allI impI)
    fix a' b assume get: "ms_batches st2 a' = Some b"
    then have "a' = ms_next st \<and> b = memory_batch_new BATCH_SIZE \<or> ms_batches st a' = Some b" by (auto simp: bat split: if_splits)
    then show "a' < ms_next st2 \<and> unat (mb_curr b) \<le> unat (mb_size b) \<and> unat (mb_size b) < 2 ^ 63 \<and> referred a' st2"
      using inv(1) ref[OF get] unfolding same batches_ok_def by (auto simp: memory_batch_new_def BATCH_SIZE_def less_Suc_eq)
  qed
  moreover have "msgs_ok st2" unfolding msgs_ok_def same
  proof (intro allI impI)
    fix h a' off n assume m: "ms_msgs st h = Some (a', off, n)"
    then obtain b where b: "h < ms_next_msg st" "ms_batches st a' = Some b" "unat off + unat n \<le> unat (mb_curr b)"
      using inv(2) unfolding msgs_ok_def by blast
    then have "a' \<noteq> ms_next st" using inv(1) unfolding batches_ok_def by blast
    moreover have "referred a' ?st0" using referred_msg[of ?st0 h] m b(1) by simp
    ultimately have "ms_batches st2 a' = Some b" using b(2) by (auto simp: bat)
    with b show "h < ms_next_msg st \<and> (\<exists>b. ms_batches st2 a' = Some b \<and> unat off + unat n \<le> unat (mb_curr b))" by blast
  qed
  moreover have "apart st2" using inv(3) unfolding apart_def same .
  moreover have "block_ok st2" by (auto simp: block_ok_def same bat)
  ultimately show ?thesis by (simp add: mem_ok_def)
qed

lemma release_msg_ok:
  assumes ok: "mem_ok st"
  shows "mem_ok (release_msg h st)"
proof (cases "ms_msgs st h")
  case (Some m)
  obtain a off n where m: "m = (a, off, n)" by (cases m)
  let ?st0 = "st\<lparr>ms_msgs := (ms_msgs st)(h := None)\<rparr>"
  let ?st1 = "drop_ref a ?st0"
  have inv: "batches_ok st" "msgs_ok st" "apart st" "block_ok st" using ok by (simp_all add: mem_ok_def)
  have same: "ms_msgs ?st1 = (ms_msgs st)(h := None)" "ms_next_msg ?st1 = ms_next_msg st" "ms_block ?st1 = ms_block st" "ms_next ?st1 = ms_next st"
    by (simp_all add: drop_ref_def)
  have bat: "ms_batches ?st1 = (if referred a ?st0 then ms_batches st else (ms_batches st)(a := None))" by (simp add: drop_ref_def)
  have ref01: "referred a' ?st1 \<longleftrightarrow> referred a' ?st0" for a' by (simp add: referred_def same)
  have "batches_ok ?st1" unfolding batches_ok_def
  proof (intro allI impI)
    fix a' b assume get: "ms_batches ?st1 a' = Some b"
    then have old: "ms_batches st a' = Some b" "a' = a \<Longrightarrow> referred a ?st0" by (auto simp: bat split: if_splits)
    have "referred a' st" using inv(1) old(1) unfolding batches_ok_def by blast
    then have "referred a' ?st0"
    proof (cases "a' = a")
      case False
      from \<open>referred a' st\<close> show ?thesis
      proof (cases rule: referred_cases)
        case (2 k off' n')
        then show ?thesis using False Some m by (intro referred_msg[of _ k _ off' n']) auto
      qed (intro referred_block, simp)
    qed (use old(2) in simp)
    then show "a' < ms_next ?st1 \<and> unat (mb_curr b) \<le> unat (mb_size b) \<and> unat (mb_size b) < 2 ^ 63 \<and> referred a' ?st1"
      using inv(1) old(1) unfolding same ref01 batches_ok_def by blast
  qed
  moreover have "msgs_ok ?st1" unfolding msgs_ok_def
  proof (intro allI impI)
    fix k a' off' n' assume k: "ms_msgs ?st1 k = Some (a', off', n')"
    then have old: "ms_msgs st k = Some (a', off', n')" by (auto simp: same split: if_splits)
    then obtain b where b: "k < ms_next_msg st" "ms_batches st a' = Some b" "unat off' + unat n' \<le> unat (mb_curr b)"
      using inv(2) unfolding msgs_ok_def by blast
    have "referred a' ?st0" using referred_msg[of ?st1 k] k b(1) ref01 by (simp add: same)
    then have "ms_batches ?st1 a' = Some b" using b(2) by (auto simp: bat)
    with b show "k < ms_next_msg ?st1 \<and> (\<exists>b. ms_batches ?st1 a' = Some b \<and> unat off' + unat n' \<le> unat (mb_curr b))" by (simp add: same)
  qed
  moreover have "apart ?st1" using inv(3) unfolding apart_def same by (metis fun_upd_apply option.discI)
  moreover have "block_ok ?st1" using inv(4) by (auto simp: block_ok_def same bat referred_def)
  ultimately show ?thesis by (simp add: mem_ok_def release_msg_def Some m)
qed (simp add: release_msg_def ok)

lemma alloc_msg_ok:
  assumes ok: "mem_ok st" and fit: "unat sizeof_T + unat extra \<le> unat BATCH_SIZE"
  shows "\<exists>st' a off. alloc_msg_from_buffer sizeof_T extra st = (Inr (ms_next_msg st), st') \<and> mem_ok st' \<and>
     ms_msgs st' = (ms_msgs st)(ms_next_msg st \<mapsto> (a, off, sizeof_T + extra))"
proof -
  let ?n = "sizeof_T + extra"
  obtain a b where a: "ms_block st = Some a" "ms_batches st a = Some b" using ok by (auto simp: mem_ok_def block_ok_def)
  have n: "unat ?n = unat sizeof_T + unat extra" "unat ?n < 2 ^ 63" using fit by (simp_all add: unat_word_ariths BATCH_SIZE_def)
  show ?thesis
  proof (cases "reserve ?n b")
    case (Pair r b1)
    show ?thesis
    proof (cases r)
      case (Some off)
      then show ?thesis using bind_msg_ok[OF ok a(2) _ n(2)] Pair a
        by (auto simp: alloc_msg_from_buffer_def Let_def bind_msg_def)
    next
      case None
      define st2 where st2: "st2 = (let st1 = drop_ref a (st\<lparr>ms_block := None\<rparr>); a2 = ms_next st1 in
         st1\<lparr>ms_next := a2 + 1, ms_block := Some a2, ms_batches := (ms_batches st1)(a2 \<mapsto> memory_batch_new BATCH_SIZE)\<rparr>)"
      have ok2: "mem_ok st2" using fresh_block_ok[OF ok a(1) st2] .
      have bat: "ms_batches st2 (ms_next st) = Some (memory_batch_new BATCH_SIZE)" "ms_msgs st2 = ms_msgs st" "ms_next_msg st2 = ms_next_msg st"
        by (simp_all add: st2 drop_ref_def Let_def)
      have "\<not> BATCH_SIZE < ?n" using fit n(1) by (simp add: not_less word_le_nat_alt)
      then have r2: "reserve ?n (memory_batch_new BATCH_SIZE) = (Some 0, \<lparr>mb_size = BATCH_SIZE, mb_curr = ?n\<rparr>)"
        by (simp add: reserve_def memory_batch_new_def)
      have "alloc_msg_from_buffer sizeof_T extra st = (Inr (ms_next_msg st), bind_msg (ms_next st) \<lparr>mb_size = BATCH_SIZE, mb_curr = ?n\<rparr> 0 ?n st2)"
        using a Pair None r2 by (simp add: alloc_msg_from_buffer_def st2 Let_def drop_ref_def)
      then show ?thesis using bind_msg_ok[OF ok2 bat(1) r2 n(2)] bat by (auto simp: bind_msg_def)
    qed
  qed
qed

lemma mem_init_ok: "unat n < 2 ^ 63 \<Longrightarrow> mem_ok (mem_init n)"
  by (auto simp: mem_ok_def mem_init_def batches_ok_def msgs_ok_def apart_def block_ok_def memory_batch_new_def referred_def split: if_splits)

lemma mem_run_ok: "mem_run first st \<Longrightarrow> unat first < 2 ^ 63 \<Longrightarrow> mem_ok st"
proof (induction rule: mem_run.induct)
  case (run_alloc st sizeof_T extra)
  then show ?case using alloc_msg_ok[of st sizeof_T extra] by auto
qed (simp_all add: mem_init_ok release_msg_ok)

text \<open>
  C35: Memory of messages is safe: in every history of allocations and releases of messages that fit into a fresh batch, an allocation always
  succeeds, every message in use lies within a batch that has not been deleted, no two messages share a byte, and a batch exists only as long
  as the owner or a message refers to it.
\<close>
theorem message_memory_safe:
  assumes "mem_run first st" "unat first < 2 ^ 63" "unat sizeof_T + unat extra \<le> unat BATCH_SIZE"
  shows "(\<exists>st' a off. alloc_msg_from_buffer sizeof_T extra st = (Inr (ms_next_msg st), st') \<and>
       ms_msgs st' = (ms_msgs st)(ms_next_msg st \<mapsto> (a, off, sizeof_T + extra))) \<and>
     (\<forall>h a off n. ms_msgs st h = Some (a, off, n) \<longrightarrow> (\<exists>b. ms_batches st a = Some b \<and> unat off + unat n \<le> unat (mb_size b))) \<and>
     apart st \<and> (\<forall>a. ms_batches st a \<noteq> None \<longleftrightarrow> referred a st)"
proof -
  have ok: "mem_ok st" using mem_run_ok[OF assms(1,2)] .
  then have inv: "batches_ok st" "msgs_ok st" "apart st" "block_ok st" by (simp_all add: mem_ok_def)
  have within: "\<exists>b. ms_batches st a = Some b \<and> unat off + unat n \<le> unat (mb_size b)" if m: "ms_msgs st h = Some (a, off, n)" for h a off n
  proof -
    obtain b where b: "ms_batches st a = Some b" "unat off + unat n \<le> unat (mb_curr b)" using msgs_okD[OF inv(2) m] by blast
    moreover have "unat (mb_curr b) \<le> unat (mb_size b)" using inv(1) b(1) unfolding batches_ok_def by blast
    ultimately show ?thesis by (meson order_trans)
  qed
  have live: "ms_batches st a \<noteq> None \<longleftrightarrow> referred a st" for a
  proof
    assume "ms_batches st a \<noteq> None"
    then show "referred a st" using inv(1) unfolding batches_ok_def by blast
  next
    assume "referred a st"
    then show "ms_batches st a \<noteq> None"
    proof (cases rule: referred_cases)
      case (2 h off n)
      show ?thesis using within[OF 2(1)] by auto
    qed (use inv(4) in \<open>auto simp: block_ok_def\<close>)
  qed
  show ?thesis using alloc_msg_ok[OF ok assms(3)] within inv(3) live by blast
qed

text \<open>
  A message that does not fit into a fresh batch is constructed at a null pointer.
\<close>
theorem large_message_undefined:
  assumes "mem_run first st" "unat first < 2 ^ 20" "unat (sizeof_T + extra) < 2 ^ 63" "BATCH_SIZE < sizeof_T + extra"
    "\<forall>a b. ms_block st = Some a \<longrightarrow> ms_batches st a = Some b \<longrightarrow> mb_size b \<le> BATCH_SIZE"
  shows "fst (alloc_msg_from_buffer sizeof_T extra st) = Inl Undefined_Behaviour"
proof -
  let ?n = "sizeof_T + extra"
  have ok: "mem_ok st" using mem_run_ok[OF assms(1)] assms(2) by simp
  then obtain a b where a: "ms_block st = Some a" "ms_batches st a = Some b" by (auto simp: mem_ok_def block_ok_def)
  have sz: "mb_size b \<le> BATCH_SIZE" using assms(5) a by blast
  have "batches_ok st" using ok by (simp add: mem_ok_def)
  then have "unat (mb_curr b) \<le> unat (mb_size b) \<and> unat (mb_size b) < 2 ^ 63" using a(2) unfolding batches_ok_def by blast
  then have "unat (mb_curr b + ?n) = unat (mb_curr b) + unat ?n" using assms(3) by (simp add: unat_word_ariths)
  then have "mb_size b < mb_curr b + ?n" using sz assms(4) by (simp add: word_less_nat_alt word_le_nat_alt)
  moreover have "reserve ?n (memory_batch_new BATCH_SIZE) = (None, memory_batch_new BATCH_SIZE)"
    using assms(4) by (simp add: reserve_def memory_batch_new_def)
  ultimately show ?thesis using a by (simp add: alloc_msg_from_buffer_def reserve_def[of _ b] Let_def)
qed

text \<open>
  Nothing aligns the messages: the one after a packet with an odd number of captured bytes starts at an odd offset.
\<close>
theorem messages_unaligned:
  assumes "n + k \<le> 2 ^ 19"
  shows "ms_msgs (snd (alloc_msg_from_buffer (of_nat n) (of_nat k) (snd (alloc_msg_from_buffer (of_nat n) (of_nat k) (mem_init BATCH_SIZE))))) 1 =
     Some (0, of_nat (n + k), of_nat (n + k))"
proof -
  let ?m = "of_nat n + of_nat k :: u64"
  have u: "unat ?m = n + k" "unat (?m + ?m) = n + k + (n + k)"
    using assms by (simp_all add: unat_of_nat unat_word_ariths flip: of_nat_add)
  then have fits: "\<not> BATCH_SIZE < ?m" "\<not> BATCH_SIZE < ?m + ?m" using assms by (simp_all add: not_less word_le_nat_alt BATCH_SIZE_def)
  have "alloc_msg_from_buffer (of_nat n) (of_nat k) (mem_init BATCH_SIZE) =
      (Inr 0, bind_msg 0 \<lparr>mb_size = BATCH_SIZE, mb_curr = ?m\<rparr> 0 ?m (mem_init BATCH_SIZE))"
    using fits(1) by (simp add: alloc_msg_from_buffer_def mem_init_def reserve_def memory_batch_new_def Let_def)
  then show ?thesis
    using fits(2) by (simp add: alloc_msg_from_buffer_def bind_msg_def mem_init_def reserve_def Let_def)
qed

subsection \<open>Slices and type lists\<close>

theorem get_index_correct: "get_element (get_index t ts) ts = (if t \<in> set ts then Some t else None)"
  by (induction ts) auto

lemma get_index_bound: "get_index t ts \<le> length ts" "t \<notin> set ts \<Longrightarrow> get_index t ts = length ts"
  by (induction ts) auto

fun slice_run :: "nat list \<Rightarrow> nat \<Rightarrow> slice_state" where
  "slice_run sizes 0 = slice_allocator_new"
| "slice_run sizes (Suc i) = snd (new_slice sizes (slice_run sizes i))"

lemma slice_run_form:
  "slice_run sizes i = (if i = 0 then slice_allocator_new else \<lparr>sl_manager = (i - 1) div NSlots, sl_index = (i - 1) mod NSlots + 1, sl_next = (i - 1) div NSlots + 1\<rparr>)"
proof (induction i)
  case (Suc i)
  have N: "0 < NSlots" by (simp add: NSlots_def)
  show ?case
  proof (cases i)
    case 0
    then show ?thesis using N by (simp add: new_slice_def manager_alloc_def slice_allocator_new_def Let_def)
  next
    case (Suc j)
    have "(j mod NSlots + 1 = NSlots) \<longleftrightarrow> Suc j mod NSlots = 0" using N by (simp add: mod_Suc)
    then show ?thesis using Suc.IH Suc N
      by (auto simp: new_slice_def manager_alloc_def Let_def mod_Suc div_Suc)
  qed
qed simp

text \<open>
  The allocator never runs out of slots: the slices of one manager follow each other, and a new manager takes over after the last slot.
\<close>
theorem new_slice_nth: "fst (new_slice sizes (slice_run sizes i)) = Inr (i div NSlots, construct sizes (i mod NSlots))"
proof -
  have N: "0 < NSlots" by (simp add: NSlots_def)
  show ?thesis
  proof (cases i)
    case 0
    then show ?thesis using N by (simp add: new_slice_def manager_alloc_def slice_allocator_new_def Let_def)
  next
    case (Suc j)
    have "(j mod NSlots + 1 = NSlots) \<longleftrightarrow> Suc j mod NSlots = 0" using N by (simp add: mod_Suc)
    then show ?thesis using slice_run_form[of sizes i] Suc N
      by (auto simp: new_slice_def manager_alloc_def Let_def mod_Suc div_Suc)
  qed
qed

theorem message_memory_safe_witness:
  "\<exists>st'. alloc_msg_from_buffer 200 60 (mem_init 1024) = (Inr 0, st') \<and> (\<exists>a off. ms_msgs st' 0 = Some (a, off, 260))"
  using message_memory_safe[OF run_init, of 1024 200 60] by (auto simp: BATCH_SIZE_def mem_init_def)

end
