(* ===== verification/Message_Types.thy ===== *)
theory Message_Types
  imports Ordered_Map
begin

unbundle bit_operations_syntax

text \<open>
  Types of messages: the numeric identifiers (\<open>core/message/ClassId.hpp\<close>), the registry of descriptors
  (\<open>core/message/MsgRegistry.hpp\<close>) and the marshalling modules (\<open>core/MarshFactory.hpp\<close>). A type is named by its demangled name; the descriptors
  and the marshalling modules are parameters.
\<close>

subsection \<open>Identifiers\<close>

text \<open>The characters of the name are signed.\<close>

fun hash_loop :: "u32 \<Rightarrow> byte list \<Rightarrow> u32" where
  "hash_loop h [] = h"
| "hash_loop h [a] = h XOR (push_bit 7 h XOR scast a * drop_bit 3 h)"
| "hash_loop h (a # b # r) =
     (let h1 = h XOR (push_bit 7 h XOR scast a * drop_bit 3 h);
          h2 = h1 XOR NOT (push_bit 11 h1 + (scast b XOR drop_bit 5 h1))
      in hash_loop h2 r)"

definition class_hash :: "byte list \<Rightarrow> u32" where
  "class_hash name = hash_loop 0x66B566B5 name"

text \<open>\<open>m_ids\<close>, and the static member of \<open>type_to_id\<close> for each type that has been asked for.\<close>

record classid =
  cls_ids :: "u32 \<rightharpoonup> byte list"
  cls_static :: "byte list \<rightharpoonup> u32"

definition classid_new :: classid where "classid_new = \<lparr>cls_ids = Map.empty, cls_static = Map.empty\<rparr>"

text \<open>Arguments: the demangled name, or nothing when demangling failed, and the name of the function for the message.\<close>

definition get_id :: "string \<Rightarrow> byte list option \<Rightarrow> (classid, u32) op" where
  "get_id fn name c =
     (case name of
        None \<Rightarrow> (Inl (Runtime_Error fn), c)
      | Some n \<Rightarrow>
          let i = class_hash n in
          if cls_ids c i \<noteq> None then (Inl (Runtime_Error ''classid::get_id() error! Hash collision''), c)
          else (Inr i, c\<lparr>cls_ids := (cls_ids c)(i \<mapsto> n)\<rparr>))"

definition get_name :: "u32 \<Rightarrow> classid \<Rightarrow> byte list res" where
  "get_name i c = (case cls_ids c i of None \<Rightarrow> Inl (Runtime_Error ''classid::get_name() error! unknown id!'') | Some n \<Rightarrow> Inr n)"

text \<open>The initialisation of a static variable that throws is tried again the next time.\<close>

definition type_to_id :: "byte list \<Rightarrow> (classid, u32) op" where
  "type_to_id n c =
     (case cls_static c n of
        Some i \<Rightarrow> (Inr i, c)
      | None \<Rightarrow>
          (case get_id [] (Some n) c of
             (Inl e, c1) \<Rightarrow> (Inl e, c1)
           | (Inr i, c1) \<Rightarrow> (Inr i, c1\<lparr>cls_static := (cls_static c1)(n \<mapsto> i)\<rparr>)))"

subsection \<open>Descriptors\<close>

definition register_message_class :: "int \<Rightarrow> ('d \<Rightarrow> 'd) \<Rightarrow> 'd \<Rightarrow> (int \<times> 'd) list \<Rightarrow> (int \<times> 'd) list" where
  "register_message_class msg_id post_register d ds =
     (if map_of ds msg_id \<noteq> None then ds else omap_insert msg_id (post_register d) ds)"

definition get_message_descriptor :: "int \<Rightarrow> (int \<times> 'd) list \<Rightarrow> 'd res" where
  "get_message_descriptor msg_id ds =
     (case map_of ds msg_id of None \<Rightarrow> Inl (Runtime_Error ''Descriptor not registered'') | Some d \<Rightarrow> Inr d)"

definition available_msg_ids :: "(int \<times> 'd) list \<Rightarrow> int list" where
  "available_msg_ids ds = map fst ds"

subsection \<open>Marshalling\<close>

text \<open>
  A module writes a message into a buffer of a given length and returns how many bytes it used (an \<open>int\<close>); it reads a message from bytes. What it writes
  is the list of bytes at the start of the buffer.
\<close>

record 'm marshall_module =
  mm_marshall :: "'m \<Rightarrow> nat \<Rightarrow> byte list res"
  mm_unmarshall :: "byte list \<Rightarrow> 'm res"

definition HEAD_SIZE :: nat where "HEAD_SIZE = 8"

definition f_register :: "int \<Rightarrow> 'm marshall_module \<Rightarrow> (int \<rightharpoonup> 'm marshall_module) \<Rightarrow> (int \<rightharpoonup> 'm marshall_module)" where
  "f_register code md mp = (if mp code \<noteq> None then mp else mp(code \<mapsto> md))"

definition net_u32 :: "u32 \<Rightarrow> byte list" where
  "net_u32 w = le_bytes 4 (bswap32 w)"

text \<open>The room behind the header, computed as a \<open>size_t\<close> and kept as an \<open>int\<close>.\<close>

definition payload_room :: "byte list \<Rightarrow> int" where
  "payload_room buf = sint (word_of_int (int (length buf) - int HEAD_SIZE) :: u32)"

definition marshall :: "(int \<rightharpoonup> 'm marshall_module) \<Rightarrow> ('m \<Rightarrow> int) \<Rightarrow> 'm \<Rightarrow> byte list \<Rightarrow> int res \<times> byte list" where
  "marshall mp ty m buf =
     (let newlen = payload_room buf in
      if newlen \<le> 0 then (Inl (Runtime_Error ''marshalling:: provided buffer is too small''), buf)
      else case mp (ty m) of
             None \<Rightarrow> (Inl (Runtime_Error ''marshalling:: message type not supported''), buf)
           | Some md \<Rightarrow>
               let buf1 = net_u32 (word_of_int (ty m)) @ drop 4 buf in
               (case mm_marshall md m (nat newlen) of
                  Inl e \<Rightarrow> (Inl e, buf1)
                | Inr bs \<Rightarrow>
                    (Inr (int (length bs) + int HEAD_SIZE),
                     take 4 buf1 @ net_u32 (of_nat (length bs)) @ bs @ drop (HEAD_SIZE + length bs) buf1)))"

definition unmarshall :: "(int \<rightharpoonup> 'm marshall_module) \<Rightarrow> byte list \<Rightarrow> 'm res" where
  "unmarshall mp buf =
     (if length buf < HEAD_SIZE then Inl Undefined_Behaviour
      else let ty = sint (bswap32 (of_le (take 4 buf))); len = unat (bswap32 (of_le (take 4 (drop 4 buf)))) in
           case mp ty of
             None \<Rightarrow> Inl (Runtime_Error ''marshalling:: message type not supported'')
           | Some md \<Rightarrow>
               if HEAD_SIZE + len \<le> length buf then mm_unmarshall md (take len (drop HEAD_SIZE buf)) else Inl Undefined_Behaviour)"

subsection \<open>Identifiers name types\<close>

definition classid_ok :: "classid \<Rightarrow> bool" where
  "classid_ok c \<longleftrightarrow> (\<forall>n i. cls_static c n = Some i \<longleftrightarrow> cls_ids c i = Some n) \<and> (\<forall>n i. cls_static c n = Some i \<longrightarrow> i = class_hash n)"

definition use_types :: "byte list list \<Rightarrow> classid \<Rightarrow> classid" where
  "use_types ns c = foldl (\<lambda>c n. snd (type_to_id n c)) c ns"

lemma type_to_id_ok:
  assumes "classid_ok c"
  shows "classid_ok (snd (type_to_id n c))"
proof (cases "cls_static c n")
  case None
  have inv: "\<And>n i. cls_static c n = Some i \<longleftrightarrow> cls_ids c i = Some n" "\<And>n i. cls_static c n = Some i \<Longrightarrow> i = class_hash n"
    using assms unfolding classid_ok_def by blast+
  show ?thesis
  proof (cases "cls_ids c (class_hash n)")
    case (Some m)
    then show ?thesis using None assms by (simp add: type_to_id_def get_id_def Let_def)
  next
    case free: None
    have "snd (type_to_id n c) = \<lparr>cls_ids = (cls_ids c)(class_hash n \<mapsto> n), cls_static = (cls_static c)(n \<mapsto> class_hash n)\<rparr>"
      using None free by (simp add: type_to_id_def get_id_def Let_def)
    then show ?thesis unfolding classid_ok_def using inv None free by (auto simp: fun_upd_def)
  qed
qed (simp add: type_to_id_def assms)

lemma use_types_ok: "classid_ok c \<Longrightarrow> classid_ok (use_types ns c)"
  unfolding use_types_def by (induction ns arbitrary: c) (simp_all add: type_to_id_ok)

text \<open>
  C36: Identifiers name message types: whatever types have been used before, in whatever order, a type that has an identifier keeps it, no other type has the same
  one, and its name is found under it; a type that has none either gets one, from then on its own, or throws because its hash is taken.
\<close>
theorem type_ids_unique:
  assumes "c = use_types ns classid_new"
  shows "(cls_static c n = Some i \<longrightarrow> type_to_id n c = (Inr i, c) \<and> get_name i c = Inr n \<and> (\<forall>m. cls_static c m = Some i \<longrightarrow> m = n)) \<and>
     (cls_static c n = None \<longrightarrow>
        (if \<exists>m. cls_static c m = Some (class_hash n) then type_to_id n c = (Inl (Runtime_Error ''classid::get_id() error! Hash collision''), c)
         else fst (type_to_id n c) = Inr (class_hash n) \<and> cls_static (snd (type_to_id n c)) = (cls_static c)(n \<mapsto> class_hash n)))"
proof -
  have "classid_ok classid_new" by (simp add: classid_ok_def classid_new_def)
  then have "classid_ok c" unfolding assms by (rule use_types_ok)
  then have inv: "\<And>n i. cls_static c n = Some i \<longleftrightarrow> cls_ids c i = Some n" unfolding classid_ok_def by blast
  have taken: "(\<exists>m. cls_static c m = Some (class_hash n)) \<longleftrightarrow> cls_ids c (class_hash n) \<noteq> None" using inv by auto
  show ?thesis
  proof (intro conjI impI)
    assume "cls_static c n = None"
    then show "if \<exists>m. cls_static c m = Some (class_hash n) then type_to_id n c = (Inl (Runtime_Error ''classid::get_id() error! Hash collision''), c)
      else fst (type_to_id n c) = Inr (class_hash n) \<and> cls_static (snd (type_to_id n c)) = (cls_static c)(n \<mapsto> class_hash n)"
      unfolding taken by (auto simp: type_to_id_def get_id_def Let_def)
  next
    assume s: "cls_static c n = Some i"
    then have "cls_ids c i = Some n" by (simp only: inv)
    then show "get_name i c = Inr n" by (simp add: get_name_def)
    show "type_to_id n c = (Inr i, c)" using s by (simp add: type_to_id_def)
    show "\<forall>m. cls_static c m = Some i \<longrightarrow> m = n" using s by (simp add: inv)
  qed
qed

theorem type_ids_unique_witness:
  "\<exists>c i. c = use_types [[66], [67]] classid_new \<and> cls_static c [67] = Some i \<and> get_name i c = Inr [67]"
proof -
  let ?c = "use_types [[66], [67]] classid_new"
  have "class_hash [66] \<noteq> class_hash [67]" by code_simp
  then have "cls_static ?c [67] = Some (class_hash [67])"
    by (simp add: use_types_def classid_new_def type_to_id_def get_id_def Let_def)
  then show ?thesis using type_ids_unique[OF refl, of "[[66], [67]]" "[67]" "class_hash [67]"] by blast
qed

subsection \<open>Marshalling round trip\<close>

lemma sint_small: "- (2 ^ 31) \<le> x \<Longrightarrow> x < 2 ^ 31 \<Longrightarrow> sint (word_of_int x :: u32) = x"
  by (simp add: signed_take_bit_int_eq_self sint_sbintrunc')

lemma net_u32_load: "length (net_u32 w) = 4" "bswap32 (of_le (net_u32 w)) = w"
  by (simp_all add: net_u32_def)

text \<open>
  What a marshalling module can read back is read back through the factory: a marshalled message is unmarshalled to itself, the buffer keeps its
  length, and the number of bytes returned covers the header and the payload.
\<close>
theorem marshall_roundtrip:
  assumes md: "mp (ty m) = Some md" "- (2 ^ 31) \<le> ty m" "ty m < 2 ^ 31" and len: "length buf < 2 ^ 31"
    and module: "\<And>k bs. mm_marshall md m k = Inr bs \<Longrightarrow> length bs \<le> k \<and> mm_unmarshall md bs = Inr m"
    and run: "marshall mp ty m buf = (Inr n, buf')"
  shows "unmarshall mp buf' = Inr m \<and> length buf' = length buf \<and> 8 \<le> n \<and> n \<le> int (length buf)"
proof -
  have room: "payload_room buf = int (length buf) - 8"
    unfolding payload_room_def HEAD_SIZE_def using len by (intro sint_small[THEN trans]) simp_all
  then have small: "8 < length buf" using run by (auto simp: marshall_def split: if_splits)
  then obtain bs where bs: "mm_marshall md m (length buf - 8) = Inr bs" "n = int (length bs) + 8"
    "buf' = net_u32 (word_of_int (ty m)) @ net_u32 (of_nat (length bs)) @ bs @ drop (8 + length bs) buf"
    using run md(1) room by (auto simp: marshall_def Let_def HEAD_SIZE_def net_u32_load nat_diff_distrib split: sum.splits)
  have fit: "length bs \<le> length buf - 8" "mm_unmarshall md bs = Inr m" using module[OF bs(1)] by blast+
  have ty: "sint (word_of_int (ty m) :: u32) = ty m" using md(2,3) by (rule sint_small)
  have ln: "unat (of_nat (length bs) :: u32) = length bs" using fit(1) len by (simp add: unat_of_nat)
  have "length buf' = length buf" using bs(3) fit(1) small by (simp add: net_u32_load)
  moreover have "unmarshall mp buf' = Inr m"
    using fit bs(3) by (simp add: unmarshall_def Let_def HEAD_SIZE_def net_u32_load ty md(1) ln)
  ultimately show ?thesis using bs(2) fit(1) small by auto
qed

definition echo_module :: "byte list marshall_module" where
  "echo_module = \<lparr>mm_marshall = (\<lambda>m k. if length m \<le> k then Inr m else Inl (Runtime_Error ''too long'')), mm_unmarshall = Inr\<rparr>"

theorem marshall_roundtrip_witness:
  "\<exists>buf'. marshall [7 \<mapsto> echo_module] (\<lambda>_. 7) [1, 2, 3] (replicate 16 0) = (Inr 11, buf') \<and> unmarshall [7 \<mapsto> echo_module] buf' = Inr [1, 2, 3]"
proof -
  let ?buf = "net_u32 7 @ net_u32 3 @ [1, 2, 3] @ replicate 5 0"
  have run: "marshall [7 \<mapsto> echo_module] (\<lambda>_. 7) [1, 2, 3] (replicate 16 0) = (Inr 11, ?buf)"
    by (simp add: marshall_def payload_room_def echo_module_def HEAD_SIZE_def Let_def net_u32_load)
  have module: "length bs \<le> k \<and> mm_unmarshall echo_module bs = Inr [1, 2, 3]" if "mm_marshall echo_module [1, 2, 3] k = Inr bs" for k bs
    using that by (auto simp: echo_module_def split: if_splits)
  have "unmarshall [7 \<mapsto> echo_module] ?buf = Inr [1, 2, 3]"
    using marshall_roundtrip[OF _ _ _ _ module run] by simp
  with run show ?thesis by blast
qed

end
