(* ===== verification/Tag_Blocks.thy ===== *)
theory Tag_Blocks
  imports Tag_Registry Packet_Blocks
begin

unbundle bit_operations_syntax

text \<open>
  Blocks that use tags (\<open>blocks/AppendTag.cpp\<close>, \<open>blocks/SyncTag.cpp\<close>) and the block that builds a distribution of packet sizes
  (\<open>blocks/CDFGenerator\<close>).
\<close>

subsection \<open>AppendTag\<close>

datatype tag_kind = fl | in' | ll | undef

record append_tag =
  at_tag_type :: tag_kind
  at_tag_name :: string
  at_handle :: "nat option"

definition append_tag_new :: append_tag where
  "append_tag_new = \<lparr>at_tag_type = undef, at_tag_name = [], at_handle = None\<rparr>"

text \<open>The three C++ types the tags can have, and what the conversion to \<open>double\<close> stores.\<close>

record tag_types =
  tt_int :: tag_type
  tt_double :: tag_type
  tt_u64 :: tag_type
  tt_double_bytes :: "u64 \<Rightarrow> byte list"

text \<open>The configuration: the \<open>tag\<close> node with its two attributes, each of which may be missing.\<close>

definition append_tag_configure ::
  "tag_types \<Rightarrow> (string option \<times> string option) option \<Rightarrow> append_tag \<times> tag_registry \<Rightarrow> unit res \<times> append_tag \<times> tag_registry" where
  "append_tag_configure tt node s =
     (case s of (b, r) \<Rightarrow>
      case node of
        None \<Rightarrow> (Inl (Runtime_Error ''no tag node''), b, r)
      | Some (None, _) \<Rightarrow> (Inl (Runtime_Error ''no name attribute''), b, r)
      | Some (Some name, ty) \<Rightarrow>
          let b1 = b\<lparr>at_tag_name := name\<rparr> in
          (case ty of
             None \<Rightarrow> (Inl (Runtime_Error ''no type attribute''), b1, r)
           | Some t \<Rightarrow>
               let pick = (if t = ''double'' then Some (fl, tt_double tt) else if t = ''int'' then Some (in', tt_int tt)
                           else if t = ''long'' then Some (ll, tt_u64 tt) else None) in
               (case pick of
                  None \<Rightarrow> (Inl (Runtime_Error ''unrecognized tag type''), b1, r)
                | Some (k, T) \<Rightarrow>
                    let b2 = b1\<lparr>at_tag_type := k\<rparr> in
                    (case register_tag T name r of
                       (Inl e, r1) \<Rightarrow> (Inl e, b2, r1)
                     | (Inr h, r1) \<Rightarrow> (Inr (), b2\<lparr>at_handle := Some h\<rparr>, r1)))))"

text \<open>
  \<open>_receive_msg\<close>: the message with its tag buffer and the next random number are arguments, the message sent on is returned.
\<close>

definition append_tag_value :: "tag_types \<Rightarrow> tag_kind \<Rightarrow> u64 \<Rightarrow> (tag_type \<times> byte list) option" where
  "append_tag_value tt k x =
     (case k of
        in' \<Rightarrow> Some (tt_int tt, le_bytes 4 (ucast x :: u32))
      | ll \<Rightarrow> Some (tt_double tt, tt_double_bytes tt x)
      | fl \<Rightarrow> Some (tt_u64 tt, le_bytes 8 x)
      | undef \<Rightarrow> None)"

definition append_tag_receive :: "nat \<Rightarrow> tag_types \<Rightarrow> tag_registry \<Rightarrow> u64 \<Rightarrow> net_msg \<times> byte list option \<Rightarrow> append_tag \<Rightarrow> (net_msg \<times> byte list option) res" where
  "append_tag_receive mode tt r x m b =
     (case m of
        (Packet_Msg p, tags) \<Rightarrow>
          (case append_tag_value tt (at_tag_type b) x of
             None \<Rightarrow> Inl (Runtime_Error ''wrong tag type'')
           | Some (T, v) \<Rightarrow>
               (case at_handle b of
                  None \<Rightarrow> Inl (Runtime_Error ''TagRegistry::get_info: bad tag handler'')
                | Some h \<Rightarrow> bindE (msg_emplace_tag mode r T h v tags) (\<lambda>tags'. Inr (Packet_Msg p, tags'))))
      | _ \<Rightarrow> Inl (Runtime_Error ''AppendTag: wrong message type''))"

subsection \<open>SyncTag\<close>

text \<open>
  The configured tags are looked up one by one; an error leaves the tags found before it. Each node is its name attribute, if it has one.
\<close>

record sync_tag =
  st_msg_type :: u32
  st_tag_vector :: "(nat \<times> string) list"

fun sync_tag_lookup :: "tag_registry \<Rightarrow> string option list \<Rightarrow> (sync_tag, unit) op" where
  "sync_tag_lookup r [] b = (Inr (), b)"
| "sync_tag_lookup r (None # ns) b = (Inl (Runtime_Error ''TagSync: tag with no name''), b)"
| "sync_tag_lookup r (Some n # ns) b =
     (case get_handle_by_name n r of
        Inl e \<Rightarrow> (Inl e, b)
      | Inr h \<Rightarrow> sync_tag_lookup r ns (b\<lparr>st_tag_vector := st_tag_vector b @ [(h, n)]\<rparr>))"

definition sync_tag_configure :: "tag_registry \<Rightarrow> int option \<Rightarrow> string option list option \<Rightarrow> (sync_tag, unit) op" where
  "sync_tag_configure r msg_id tags b =
     (let b1 = (case msg_id of Some i \<Rightarrow> b\<lparr>st_msg_type := word_of_int i\<rparr> | None \<Rightarrow> b) in
      case tags of
        None \<Rightarrow> (Inl (Runtime_Error ''SyncTag: no tags node''), b1)
      | Some ns \<Rightarrow>
          (case sync_tag_lookup r ns b1 of
             (Inl e, b2) \<Rightarrow> (Inl e, b2)
           | (Inr _, b2) \<Rightarrow> if 64 < length (st_tag_vector b2) then (Inl (Runtime_Error ''SyncTag : bitmap is too small for the tags''), b2) else (Inr (), b2)))"

text \<open>
  The handler polls the tags up to a hundred times while other blocks may still be writing them: \<open>avail\<close> is what the check of a tag gives in a round. The
  masks are \<open>int\<close> values, for which shifting into or beyond the sign bit has no meaning.
\<close>

definition shift_one :: "nat \<Rightarrow> u64 res" where
  "shift_one i = (if i < 31 then Inr (push_bit i 1) else Inl Undefined_Behaviour)"

fun poll_tags :: "(nat \<Rightarrow> bool res) \<Rightarrow> nat list \<Rightarrow> u64 \<Rightarrow> u64 res" where
  "poll_tags avail [] bm = Inr bm"
| "poll_tags avail (i # is) bm =
     bindE (shift_one i) (\<lambda>bit_i.
       if bm AND bit_i \<noteq> 0 then poll_tags avail is bm
       else bindE (avail i) (\<lambda>a. poll_tags avail is (if a then bm OR bit_i else bm)))"

fun poll_rounds :: "(nat \<Rightarrow> nat \<Rightarrow> bool res) \<Rightarrow> nat \<Rightarrow> u64 \<Rightarrow> nat list \<Rightarrow> u64 \<Rightarrow> u64 res" where
  "poll_rounds avail n mask' [] bm = Inr bm"
| "poll_rounds avail n mask' (w # ws) bm =
     bindE (poll_tags (avail w) [0..<n] bm) (\<lambda>bm1. if bm1 = mask' then Inr bm1 else poll_rounds avail n mask' ws bm1)"

definition sync_tag_receive :: "u32 \<Rightarrow> (nat \<Rightarrow> nat \<Rightarrow> bool res) \<Rightarrow> sync_tag \<Rightarrow> bool res" where
  "sync_tag_receive ty avail b =
     (if ty \<noteq> st_msg_type b then Inl (Runtime_Error ''SyncTag:: wrong message type'')
      else let n = length (st_tag_vector b) in
        bindE (shift_one n) (\<lambda>top.
        bindE (poll_rounds avail n (top - 1) [0..<100] 0) (\<lambda>bm. Inr (bm = top - 1))))"

subsection \<open>Distribution of packet sizes\<close>

record cdf_generator =
  cdf_min :: int
  cdf_max :: int
  cdf_bin :: int
  cdf_noisy :: bool
  cdf_histo :: "int list"
  cdf_cdf :: "int list"

text \<open>
  The number of bins is the floor of a quotient of floats, a parameter; a divisor of zero gives an infinity, which has no conversion to
  \<open>int\<close>, and a negative number is a size that cannot be allocated.
\<close>

definition histo_set_zero :: "(int \<Rightarrow> int \<Rightarrow> int \<Rightarrow> int) \<Rightarrow> int \<Rightarrow> int \<Rightarrow> int \<Rightarrow> int list res" where
  "histo_set_zero float_quot lo hi bin =
     (if bin = 0 then Inl Undefined_Behaviour
      else let n = float_quot lo hi bin in if n < 0 then Inl Length_Error else Inr (replicate (nat n) 0))"

definition cdf_configure :: "(int \<Rightarrow> int \<Rightarrow> int \<Rightarrow> int) \<Rightarrow> u32 \<Rightarrow> u32 \<Rightarrow> u32 \<Rightarrow> bool \<Rightarrow> (cdf_generator, unit) op" where
  "cdf_configure float_quot lo hi bin noisy g =
     (let g1 = g\<lparr>cdf_min := sint lo, cdf_max := sint hi, cdf_bin := sint bin, cdf_noisy := noisy\<rparr> in
      case histo_set_zero float_quot (sint lo) (sint hi) (sint bin) of
        Inl e \<Rightarrow> (Inl e, g1)
      | Inr z \<Rightarrow> (Inr (), g1\<lparr>cdf_histo := z, cdf_cdf := z\<rparr>))"

text \<open>
  Division of a non-negative \<open>int\<close> truncates. A bin outside of the vector and a counter beyond \<open>INT_MAX\<close> have no meaning.
\<close>

definition int_quot :: "int \<Rightarrow> int \<Rightarrow> int" where
  "int_quot a b = (if b < 0 then - (a div - b) else a div b)"

definition cdf_receive :: "net_msg \<Rightarrow> (cdf_generator, unit) op" where
  "cdf_receive m g =
     (case m of
        Packet_Msg p \<Rightarrow>
          let size = to_int (unat (m_length p)) in
          if cdf_min g \<le> size \<and> size \<le> cdf_max g then
            if cdf_bin g = 0 then (Inl Undefined_Behaviour, g)
            else let i = int_quot (size - cdf_min g) (cdf_bin g) in
              if 0 \<le> i \<and> nat i < length (cdf_histo g) \<and> cdf_histo g ! nat i < 2 ^ 31 - 1
              then (Inr (), g\<lparr>cdf_histo := (cdf_histo g)[nat i := cdf_histo g ! nat i + 1]\<rparr>)
              else (Inl Undefined_Behaviour, g)
          else (Inr (), g)
      | _ \<Rightarrow> (Inl (Runtime_Error ''CDFGenerator: unexpected msg type''), g))"

text \<open>The noise is drawn per bin; it is a parameter.\<close>

fun cdf_computation :: "bool \<Rightarrow> (nat \<Rightarrow> int) \<Rightarrow> nat \<Rightarrow> int \<Rightarrow> int list \<Rightarrow> int list" where
  "cdf_computation noisy noise i prev [] = []"
| "cdf_computation noisy noise i prev (h # hs) =
     (let c = (if i = 0 then h else prev + h) + (if noisy then noise i else 0) in c # cdf_computation noisy noise (i + 1) c hs)"

text \<open>The timer handler logs the values returned and starts a new histogram.\<close>

definition cdf_timer :: "(int \<Rightarrow> int \<Rightarrow> int \<Rightarrow> int) \<Rightarrow> (nat \<Rightarrow> int) \<Rightarrow> (cdf_generator, int list) op" where
  "cdf_timer float_quot noise g =
     (let c = cdf_computation (cdf_noisy g) noise 0 0 (cdf_histo g) in
      case histo_set_zero float_quot (cdf_min g) (cdf_max g) (cdf_bin g) of
        Inl e \<Rightarrow> (Inl e, g\<lparr>cdf_cdf := c\<rparr>)
      | Inr z \<Rightarrow> (Inr c, g\<lparr>cdf_cdf := c, cdf_histo := z\<rparr>))"

subsection \<open>Waiting for tags\<close>

lemma poll_tags_bits:
  assumes "\<forall>i \<in> set is. i < 31"
  shows "\<exists>bm'. poll_tags (\<lambda>i. Inr (av i)) is bm = Inr bm' \<and> (\<forall>j. bit bm' j \<longleftrightarrow> bit bm j \<or> j \<in> set is \<and> av j)"
  using assms
proof (induction "is" arbitrary: bm)
  case (Cons i "is")
  have i: "shift_one i = Inr (push_bit i 1)" "i < 64" using Cons.prems by (auto simp: shift_one_def)
  have set_bit: "bit (bm OR push_bit i 1) j \<longleftrightarrow> bit bm j \<or> j = i" for j using i(2) by (auto simp: bit_simps)
  have test: "bm AND push_bit i 1 \<noteq> 0 \<longleftrightarrow> bit bm i"
  proof -
    have "bm AND push_bit i 1 = (if bit bm i then push_bit i 1 else 0)" by (rule bit_word_eqI) (auto simp: bit_simps)
    then show ?thesis using i(2) by (auto simp: bit_eq_iff bit_simps)
  qed
  have small: "\<forall>i \<in> set is. i < 31" using Cons.prems by simp
  show ?case
  proof (cases "bit bm i")
    case True
    then show ?thesis using Cons.IH[OF small, of bm] i test by auto
  next
    case False
    then show ?thesis using Cons.IH[OF small, of "if av i then bm OR push_bit i 1 else bm"] i test set_bit by (cases "av i") auto
  qed
qed simp

lemma poll_rounds_bits:
  assumes "n < 31" "\<forall>j. bit bm j \<longrightarrow> j < n"
  shows "\<exists>bm'. poll_rounds (\<lambda>w i. Inr (av w i)) n (mask n) ws bm = Inr bm' \<and>
     (bm' = mask n \<longleftrightarrow> (\<forall>j < n. bit bm j \<or> (\<exists>w \<in> set ws. av w j)))"
  using assms(2)
proof (induction ws arbitrary: bm)
  case Nil
  then show ?case using assms(1) by (auto simp: bit_eq_iff bit_simps)
next
  case (Cons w ws)
  obtain b1 where b1: "poll_tags (\<lambda>i. Inr (av w i)) [0..<n] bm = Inr b1" "\<forall>j. bit b1 j \<longleftrightarrow> bit bm j \<or> j < n \<and> av w j"
    using poll_tags_bits[of "[0..<n]" "av w" bm] assms(1) by auto
  have low: "\<forall>j. bit b1 j \<longrightarrow> j < n" using b1(2) Cons.prems by blast
  show ?case
  proof (cases "b1 = mask n")
    case True
    then have "\<forall>j < n. bit b1 j" using assms(1) by (simp add: bit_simps)
    then show ?thesis using b1 True by auto
  next
    case False
    then show ?thesis using Cons.IH[OF low] b1 by auto
  qed
qed

text \<open>
  A message passes the synchronising block exactly when each of its tags has been seen in one of the hundred rounds of polling, in any order and
  however the tags appear over time, as long as at most thirty tags are configured.
\<close>
theorem sync_tag_correct:
  assumes "length (st_tag_vector b) < 31" "\<And>w i. avail w i = Inr (av w i)"
  shows "sync_tag_receive (st_msg_type b) avail b = Inr (\<forall>i < length (st_tag_vector b). \<exists>w < 100. av w i)"
proof -
  let ?n = "length (st_tag_vector b)"
  have rounds: "(\<forall>j < ?n. bit (0 :: u64) j \<or> (\<exists>w \<in> set [0..<100]. av w j)) \<longleftrightarrow> (\<forall>j < ?n. \<exists>w < 100. av w j)"
    by (simp add: Bex_def)
  have "avail = (\<lambda>w i. Inr (av w i))" using assms(2) by blast
  then obtain bm where "poll_rounds avail ?n (mask ?n) [0..<100] 0 = Inr bm" "bm = mask ?n \<longleftrightarrow> (\<forall>j < ?n. \<exists>w < 100. av w j)"
    using poll_rounds_bits[OF assms(1), of 0 av "[0..<100]"] unfolding rounds by auto
  then show ?thesis using assms(1)
    by (simp add: sync_tag_receive_def shift_one_def Let_def mask_eq_exp_minus_1 push_bit_of_1)
qed

text \<open>
  The configuration accepts up to 64 tags, but from 31 tags on the handler's masks are undefined.
\<close>
theorem sync_tag_many_undefined:
  assumes "31 \<le> length (st_tag_vector b)"
  shows "sync_tag_receive (st_msg_type b) avail b = Inl Undefined_Behaviour"
  using assms by (simp add: sync_tag_receive_def shift_one_def Let_def)

theorem sync_tag_correct_witness:
  "sync_tag_receive 5 (\<lambda>w i. Inr (i = 0 \<or> 3 < w)) \<lparr>st_msg_type = 5, st_tag_vector = [(0, ''a''), (1, ''b'')]\<rparr> = Inr True"
proof -
  let ?b = "\<lparr>st_msg_type = 5, st_tag_vector = [(0, ''a''), (1, ''b'')]\<rparr>"
  have "sync_tag_receive (st_msg_type ?b) (\<lambda>w i. Inr (i = 0 \<or> 3 < w)) ?b = Inr (\<forall>i < length (st_tag_vector ?b). \<exists>w < (100 :: nat). i = 0 \<or> 3 < w)"
    by (rule sync_tag_correct) simp_all
  moreover have "\<exists>w < (100 :: nat). i = 0 \<or> 3 < w" for i :: nat by (rule exI[of _ 4]) simp
  ultimately show ?thesis by simp
qed

subsection \<open>Appended tags\<close>

lemma append_tag_configured:
  assumes "registry_ok Ts r" "find_tag name r = None" "tag_type_ok T"
    "t = ''double'' \<and> k = fl \<and> T = tt_double tt \<or> t = ''int'' \<and> k = in' \<and> T = tt_int tt \<or> t = ''long'' \<and> k = ll \<and> T = tt_u64 tt"
  shows "\<exists>r'. append_tag_configure tt (Some (Some name, Some t)) (b, r) =
     (Inr (), \<lparr>at_tag_type = k, at_tag_name = name, at_handle = Some (length Ts)\<rparr>, r') \<and> registry_ok (Ts @ [T]) r' \<and>
     get_handle_by_name name r' = Inr (length Ts)"
proof -
  obtain h r' where reg: "register_tag T name r = (h, r')" by (cases "register_tag T name r")
  then have "h = Inr (length Ts)" "registry_ok (Ts @ [T]) r'" "get_handle_by_name name r' = Inr (length Ts)"
    using register_tag_fresh[OF assms(1,3,2)] by simp_all
  then show ?thesis using assms(4) reg by (auto simp: append_tag_configure_def Let_def)
qed


definition demo_types :: tag_types where
  "demo_types = \<lparr>tt_int = int_tag, tt_double = double_tag, tt_u64 = double_tag, tt_double_bytes = le_bytes 8\<rparr>"


text \<open>
  A tag configured as \<open>double\<close> is registered as such but written as a 64-bit integer (and the other way round for \<open>long\<close>); with assertions
  on types enabled the block aborts on the first packet.
\<close>
theorem append_double_tag_mismatch:
  assumes r: "registry_ok Ts r" "find_tag name r = None" and T: "tag_type_ok (tt_double tt)" "ty_hash (tt_double tt) \<noteq> ty_hash (tt_u64 tt)"
  shows "\<exists>a r'. append_tag_configure tt (Some (Some name, Some ''double'')) (append_tag_new, r) = (Inr (), a, r') \<and>
     (\<forall>x p buf. buffer_size r' \<le> length buf \<longrightarrow> append_tag_receive 1 tt r' x (Packet_Msg p, Some buf) a = Inl Assert_Fail)"
proof -
  let ?h = "length Ts" and ?T = "tt_double tt"
  obtain r' where c: "append_tag_configure tt (Some (Some name, Some ''double'')) (append_tag_new, r) =
      (Inr (), \<lparr>at_tag_type = fl, at_tag_name = name, at_handle = Some ?h\<rparr>, r')" "registry_ok (Ts @ [?T]) r'"
    using append_tag_configured[OF r T(1), of "''double''" fl] by auto
  have "append_tag_receive 1 tt r' x (Packet_Msg p, Some buf) \<lparr>at_tag_type = fl, at_tag_name = name, at_handle = Some ?h\<rparr> = Inl Assert_Fail"
    if "buffer_size r' \<le> length buf" for x p buf
  proof -
    note a = asserts_ok[OF c(2), of ?h "length buf"]
    have "md_hash (tr_info r' ! ?h) = ty_hash ?T" using a(3)[of 1] that by (simp add: assert_type_def nth_append)
    then show ?thesis using a(1) a(2)[of 1] that T(2)
      by (simp add: append_tag_receive_def append_tag_value_def msg_emplace_tag_def emplace_tag_def assert_type_def)
  qed
  with c(1) show ?thesis by blast
qed

subsection \<open>Cumulated counts\<close>

definition pkt_size :: "packet \<Rightarrow> int" where "pkt_size p = to_int (unat (m_length p))"

definition binned :: "cdf_generator \<Rightarrow> nat \<Rightarrow> packet \<Rightarrow> bool" where
  "binned g i p \<longleftrightarrow> cdf_min g \<le> pkt_size p \<and> pkt_size p \<le> cdf_max g \<and> nat ((pkt_size p - cdf_min g) div cdf_bin g) = i"

lemma binned_histo [simp]: "binned (g\<lparr>cdf_histo := h\<rparr>) = binned g"
  by (simp add: binned_def fun_eq_iff)

text \<open>A packet the histogram can take: out of the range, or within the bins.\<close>

definition fits :: "cdf_generator \<Rightarrow> packet \<Rightarrow> bool" where
  "fits g p \<longleftrightarrow> (cdf_min g \<le> pkt_size p \<and> pkt_size p \<le> cdf_max g \<longrightarrow> (pkt_size p - cdf_min g) div cdf_bin g < int (length (cdf_histo g)))"

fun cdf_run :: "packet list \<Rightarrow> (cdf_generator, unit) op" where
  "cdf_run [] g = (Inr (), g)"
| "cdf_run (p # ps) g = (case cdf_receive (Packet_Msg p) g of (Inl e, g1) \<Rightarrow> (Inl e, g1) | (Inr _, g1) \<Rightarrow> cdf_run ps g1)"

lemma cdf_receive_fits:
  assumes "0 < cdf_bin g" "fits g p" "\<forall>h \<in> set (cdf_histo g). h < 2 ^ 31 - 1"
  shows "cdf_receive (Packet_Msg p) g = (Inr (), g\<lparr>cdf_histo := map (\<lambda>i. cdf_histo g ! i + of_bool (binned g i p)) [0..<length (cdf_histo g)]\<rparr>)"
proof (cases "cdf_min g \<le> pkt_size p \<and> pkt_size p \<le> cdf_max g")
  case False
  then show ?thesis by (auto simp: cdf_receive_def pkt_size_def[symmetric] binned_def Let_def map_nth)
next
  case True
  let ?q = "(pkt_size p - cdf_min g) div cdf_bin g"
  have q0: "0 \<le> ?q" using True assms(1) by (simp add: pos_imp_zdiv_nonneg_iff)
  then have q: "0 \<le> ?q" "nat ?q < length (cdf_histo g)" using True assms(2) by (simp_all add: fits_def nat_less_iff)
  moreover have "cdf_histo g ! nat ?q < 2 ^ 31 - 1" using assms(3) q(2) nth_mem by blast
  moreover have "(cdf_histo g)[nat ?q := cdf_histo g ! nat ?q + 1] = map (\<lambda>i. cdf_histo g ! i + of_bool (binned g i p)) [0..<length (cdf_histo g)]"
    using True q by (intro nth_equalityI) (auto simp: binned_def nth_list_update)
  ultimately show ?thesis using True assms(1)
    by (simp add: cdf_receive_def pkt_size_def[symmetric] int_quot_def Let_def)
qed

text \<open>The number of packets of a list in a bin.\<close>

definition in_bin :: "cdf_generator \<Rightarrow> packet list \<Rightarrow> nat \<Rightarrow> int" where
  "in_bin g ps i = int (length (filter (binned g i) ps))"

lemma cdf_run_counts:
  assumes "0 < cdf_bin g" "\<forall>p \<in> set ps. fits g p" "\<forall>h \<in> set (cdf_histo g). h + int (length ps) < 2 ^ 31"
  shows "cdf_run ps g = (Inr (), g\<lparr>cdf_histo := map (\<lambda>i. cdf_histo g ! i + in_bin g ps i) [0..<length (cdf_histo g)]\<rparr>)"
  using assms
proof (induction ps arbitrary: g)
  case Nil
  then show ?case by (simp add: in_bin_def map_nth)
next
  case (Cons p ps)
  let ?g = "g\<lparr>cdf_histo := map (\<lambda>i. cdf_histo g ! i + of_bool (binned g i p)) [0..<length (cdf_histo g)]\<rparr>"
  have "\<forall>h \<in> set (cdf_histo g). h < 2 ^ 31 - 1" using Cons.prems(3) by fastforce
  then have step: "cdf_receive (Packet_Msg p) g = (Inr (), ?g)" using Cons.prems by (intro cdf_receive_fits) simp_all
  have same: "fits ?g p' = fits g p'" for p' by (simp add: fits_def)
  have "h + int (length ps) < 2 ^ 31" if h: "h \<in> set (cdf_histo ?g)" for h
  proof -
    obtain i where i: "i < length (cdf_histo g)" "h = cdf_histo g ! i + of_bool (binned g i p)" using h by auto
    then have "cdf_histo g ! i + int (length (p # ps)) < 2 ^ 31" using Cons.prems(3) nth_mem by blast
    then show ?thesis using i by (simp split: if_splits)
  qed
  then have "cdf_run ps ?g = (Inr (), ?g\<lparr>cdf_histo := map (\<lambda>i. cdf_histo ?g ! i + in_bin ?g ps i) [0..<length (cdf_histo ?g)]\<rparr>)"
    using Cons.prems by (intro Cons.IH) (simp_all add: same)
  then show ?case using step by (auto simp: in_bin_def intro!: arg_cong[where f = "\<lambda>h. g\<lparr>cdf_histo := h\<rparr>"])
qed

lemma cdf_computation_sums:
  assumes "i < length hs"
  shows "cdf_computation False noise k prev hs ! i = (if k = 0 then 0 else prev) + sum_list (take (Suc i) hs)"
  using assms
proof (induction hs arbitrary: i k prev)
  case (Cons h hs)
  then show ?case by (cases i) (simp_all add: Let_def)
qed simp

lemma length_cdf_computation: "length (cdf_computation noisy noise k prev hs) = length hs"
  by (induction hs arbitrary: k prev) (simp_all add: Let_def)

text \<open>
  Without noise the block reports a cumulated distribution: after any packets whose sizes fall into the bins or out of the range, the value for a bin is the
  number of packets received in the period whose size lies in that bin or a lower one, and the next period starts from zero.
\<close>
theorem cdf_reports_distribution:
  assumes conf: "cdf_configure fq lo hi bin False g0 = (Inr (), g)" and bin: "0 < sint bin"
    and ps: "\<forall>p \<in> set ps. fits g p" "length ps < 2 ^ 31"
  shows "\<exists>g1 c. cdf_run ps g = (Inr (), g1) \<and> cdf_timer fq noise g1 = (Inr c, g1\<lparr>cdf_cdf := c, cdf_histo := cdf_histo g\<rparr>) \<and>
     length c = length (cdf_histo g) \<and> (\<forall>i < length c. c ! i = (\<Sum>k \<le> i. int (length (filter (binned g k) ps))))"
proof -
  obtain n where n: "histo_set_zero fq (sint lo) (sint hi) (sint bin) = Inr (replicate n 0)"
    and g: "g = g0\<lparr>cdf_min := sint lo, cdf_max := sint hi, cdf_bin := sint bin, cdf_noisy := False, cdf_histo := replicate n 0, cdf_cdf := replicate n 0\<rparr>"
    using conf by (auto simp: cdf_configure_def histo_set_zero_def Let_def split: if_splits)
  let ?g1 = "g\<lparr>cdf_histo := map (\<lambda>i. cdf_histo g ! i + in_bin g ps i) [0..<length (cdf_histo g)]\<rparr>"
  have run: "cdf_run ps g = (Inr (), ?g1)" using bin ps by (intro cdf_run_counts) (auto simp: g)
  let ?c = "cdf_computation False noise 0 0 (cdf_histo ?g1)"
  have h1: "cdf_histo ?g1 = map (in_bin g ps) [0..<n]" by (simp add: g)
  have timer: "cdf_timer fq noise ?g1 = (Inr ?c, ?g1\<lparr>cdf_cdf := ?c, cdf_histo := cdf_histo g\<rparr>)"
    using n by (simp add: cdf_timer_def g Let_def)
  have "?c ! i = (\<Sum>k \<le> i. int (length (filter (binned g k) ps)))" if "i < n" for i
  proof -
    have "?c ! i = sum_list (take (Suc i) (map (in_bin g ps) [0..<n]))" using that by (simp add: cdf_computation_sums h1)
    also have "take (Suc i) (map (in_bin g ps) [0..<n]) = map (in_bin g ps) [0..<Suc i]" using that by (simp add: take_map)
    also have "sum_list (map (in_bin g ps) [0..<Suc i]) = (\<Sum>k \<in> {0..<Suc i}. in_bin g ps k)" by (simp only: interv_sum_list_conv_sum_set_nat set_upt)
    finally show ?thesis by (simp add: in_bin_def atLeast0LessThan lessThan_Suc_atMost)
  qed
  then show ?thesis using run timer by (intro exI[of _ ?g1] exI[of _ ?c]) (simp add: length_cdf_computation g)
qed

text \<open>
  The range test admits the largest size, but there is no bin for it.
\<close>
theorem cdf_largest_size_undefined:
  assumes "cdf_configure fq lo hi bin noisy g0 = (Inr (), g)" "fq (sint lo) (sint hi) (sint bin) = (sint hi - sint lo) div sint bin"
    "0 < sint bin" "sint lo \<le> sint hi" "pkt_size p = sint hi"
  shows "fst (cdf_receive (Packet_Msg p) g) = Inl Undefined_Behaviour"
proof -
  let ?n = "nat ((sint hi - sint lo) div sint bin)"
  have g: "cdf_min g = sint lo" "cdf_max g = sint hi" "cdf_bin g = sint bin" "length (cdf_histo g) = ?n"
    using assms(1,2,3) by (auto simp: cdf_configure_def histo_set_zero_def Let_def split: if_splits)
  show ?thesis using assms(3,4,5) by (simp add: cdf_receive_def pkt_size_def[symmetric] int_quot_def Let_def g)
qed

definition small_cdf :: cdf_generator where
  "small_cdf = \<lparr>cdf_min = 0, cdf_max = 0, cdf_bin = 0, cdf_noisy = False, cdf_histo = [], cdf_cdf = []\<rparr>"

theorem cdf_reports_distribution_witness:
  "\<exists>g g1 c. cdf_configure (\<lambda>lo hi bin. (hi - lo) div bin) 0 100 10 False small_cdf = (Inr (), g) \<and>
     cdf_run [junk_packet\<lparr>m_length := 42\<rparr>] g = (Inr (), g1) \<and> cdf_timer (\<lambda>lo hi bin. (hi - lo) div bin) (\<lambda>_. 0) g1 = (Inr c, g1\<lparr>cdf_cdf := c, cdf_histo := replicate 10 0\<rparr>)"
proof -
  let ?fq = "\<lambda>lo hi bin :: int. (hi - lo) div bin" and ?p = "junk_packet\<lparr>m_length := 42\<rparr>"
  let ?g = "\<lparr>cdf_min = 0, cdf_max = 100, cdf_bin = 10, cdf_noisy = False, cdf_histo = replicate 10 0, cdf_cdf = replicate 10 0\<rparr>"
  have conf: "cdf_configure ?fq 0 100 10 False small_cdf = (Inr (), ?g)"
    by (simp add: cdf_configure_def small_cdf_def histo_set_zero_def Let_def)
  have "pkt_size ?p = 42" by (simp add: pkt_size_def to_int_def)
  then have "\<forall>p \<in> set [?p]. fits ?g p" by (simp add: fits_def)
  then show ?thesis using cdf_reports_distribution[OF conf, of "[?p]" "\<lambda>_. 0"] conf by auto
qed

end
