(* ===== verification/Net_Types.thy ===== *)
theory Net_Types
  imports Packet_Blocks Block_Variables
begin

unbundle bit_operations_syntax

text \<open>
  Conversions of times and addresses (\<open>messages/NetTypes.cpp\<close>) and the blocks around them: observations of packets and flows
  (\<open>messages/Observation.hpp\<close>, \<open>blocks/PacketOrFlowToObservation.cpp\<close>), the anonymiser (\<open>blocks/IPDumbAnonymizer.cpp\<close>), the packet generator
  (\<open>blocks/SynthSource.cpp\<close>) and the block that reads a payload (\<open>blocks/TouchPacket.cpp\<close>).
  Functions of Boost and of the anonymisation library are parameters.
\<close>

subsection \<open>Times and addresses\<close>

definition us_to_timespec :: "u64 \<Rightarrow> u64 \<times> u64" where
  "us_to_timespec us = (us div 1000000, (us mod 1000000) * 1000)"

definition timeval_to_us :: "u64 \<times> u64 \<Rightarrow> u64" where
  "timeval_to_us tv = fst tv * 1000000 + snd tv"

definition ipv4_to_string :: "u32 \<Rightarrow> string" where
  "ipv4_to_string ip =
     decimal (unat (drop_bit 24 (ip AND 0xFF000000))) @ ''.'' @ decimal (unat (drop_bit 16 (ip AND 0x00FF0000))) @ ''.'' @
     decimal (unat (drop_bit 8 (ip AND 0x0000FF00))) @ ''.'' @ decimal (unat (ip AND 0x000000FF))"

text \<open>
  \<open>split\<close> is \<open>boost::split\<close> at dots, \<open>cast\<close> is \<open>boost::lexical_cast<uint32_t>\<close>; an index beyond the parts has no meaning.
\<close>

definition string_to_ipv4 :: "(string \<Rightarrow> string list) \<Rightarrow> (string \<Rightarrow> u32 res) \<Rightarrow> string \<Rightarrow> u32 res" where
  "string_to_ipv4 split' cast' str =
     (let v = split' str;
          part = (\<lambda>i. if i < length v then cast' (v ! i) else Inl Undefined_Behaviour) in
      bindE (part 0) (\<lambda>a. bindE (part 1) (\<lambda>b. bindE (part 2) (\<lambda>c. bindE (part 3) (\<lambda>d.
        Inr (push_bit 24 a OR push_bit 16 b OR push_bit 8 c OR d))))))"

subsection \<open>Observations\<close>

record observation =
  ob_otime :: u64
  ob_label :: string
  ob_value :: u64

definition observation_new :: "u64 \<Rightarrow> string \<Rightarrow> u64 \<Rightarrow> observation" where
  "observation_new t l v = \<lparr>ob_otime = t, ob_label = l, ob_value = v\<rparr>"

definition observation_new_now :: "u64 \<times> u64 \<Rightarrow> string \<Rightarrow> u64 \<Rightarrow> observation" where
  "observation_new_now now l v = \<lparr>ob_otime = timeval_to_us now, ob_label = l, ob_value = v\<rparr>"

definition observation_clone :: "observation \<Rightarrow> observation" where
  "observation_clone ob = observation_new (ob_otime ob) (ob_label ob) (ob_value ob)"

text \<open>\<open>inet_ntop\<close> prints the four bytes it is given, in memory order.\<close>

definition inet_ntop :: "byte list \<Rightarrow> string" where
  "inet_ntop bs = decimal (unat (bs ! 0)) @ ''.'' @ decimal (unat (bs ! 1)) @ ''.'' @ decimal (unat (bs ! 2)) @ ''.'' @ decimal (unat (bs ! 3))"

definition flag_char :: "bool \<Rightarrow> char \<Rightarrow> string" where
  "flag_char b c = (if b then [c] else ''-'')"

definition proto_label :: "packet \<Rightarrow> string res" where
  "proto_label p =
     bindE (val pkt_is_udp p) (\<lambda>udp. if udp then Inr ''UDP''
       else bindE (val pkt_is_tcp p) (\<lambda>tcp. if \<not> tcp then Inr ''???''
         else bindE (val (pkt_tcp_has kFIN) p) (\<lambda>f. bindE (val (pkt_tcp_has kSYN) p) (\<lambda>s. bindE (val (pkt_tcp_has kRST) p) (\<lambda>r.
              bindE (val (pkt_tcp_has kPSH) p) (\<lambda>ps. bindE (val pkt_tcp_ack p) (\<lambda>a. bindE (val pkt_tcp_urg p) (\<lambda>u.
              Inr (''TCP:'' @ flag_char f (CHR ''F'') @ flag_char s (CHR ''S'') @ flag_char r (CHR ''R'') @ flag_char ps (CHR ''P'') @
                   flag_char (a \<noteq> None) (CHR ''A'') @ flag_char (u \<noteq> None) (CHR ''U''))))))))))"

text \<open>
  \<open>_receive_msg\<close>; \<open>show\<close> is \<open>boost::lexical_cast<std::string>\<close>. The exception for another kind of message is constructed and not
  thrown, so the assertion in the other branch is what stops such a message.
\<close>

definition key_label :: "(nat \<Rightarrow> string) \<Rightarrow> u32 \<Rightarrow> u16 \<Rightarrow> u32 \<Rightarrow> u16 \<Rightarrow> string" where
  "key_label show' sip sp dip dp = inet_ntop (le_bytes 4 sip) @ '':'' @ show' (unat sp) @ '' > '' @ inet_ntop (le_bytes 4 dip) @ '':'' @ show' (unat dp)"

definition observe :: "(nat \<Rightarrow> string) \<Rightarrow> net_msg \<Rightarrow> observation res" where
  "observe show' m =
     (case m of
        Packet_Msg p \<Rightarrow>
          bindE (val pkt_ip_src p) (\<lambda>sip. bindE (val pkt_ip_dst p) (\<lambda>dip. bindE (val pkt_src_port p) (\<lambda>sp. bindE (val pkt_dst_port p) (\<lambda>dp.
          bindE (proto_label p) (\<lambda>l. Inr (observation_new (timestamp_us p) (key_label show' sip sp dip dp @ '' '' @ l) 0))))))
      | Flow_Msg f \<Rightarrow>
          let k = fl_key f in
          Inr (observation_new (fl_stime f) (key_label show' (src_ip4 k) (src_port k) (dst_ip4 k) (dst_port k)) (fl_bytes f))
      | Other_Msg \<Rightarrow> Inl Assert_Fail)"

subsection \<open>The anonymiser\<close>

text \<open>
  The loop over the four bytes assigns the address instead of accumulating it; the last byte it visits is the first one, as a signed character.
  The result is written byte by byte, the most significant first. \<open>anonymize\<close> is the function of the library.
\<close>

definition anon_raw :: "byte list \<Rightarrow> u32" where
  "anon_raw bs = foldl (\<lambda>_ i. push_bit (8 * i) (scast (bs ! i))) 0 [3, 2, 1, 0]"

definition anonBuf :: "(u32 \<Rightarrow> u32) \<Rightarrow> byte list \<Rightarrow> byte list" where
  "anonBuf anonymize bs = (let a = anonymize (anon_raw bs) in map (\<lambda>i. ucast (drop_bit 24 (push_bit (8 * i) a))) [0, 1, 2, 3])"

record anonymizer =
  anon_src :: bool
  anon_dst :: bool

text \<open>The configuration: the \<open>anon\<close> node with the values of its two attributes (empty when missing). A flag is only ever set.\<close>

definition anonymizer_configure :: "(string \<times> string) option \<Rightarrow> (anonymizer, unit) op" where
  "anonymizer_configure node b =
     (case node of
        None \<Rightarrow> (Inl (Runtime_Error ''Anonymizer: missing parameter anon''), b)
      | Some (src, dst) \<Rightarrow>
          if src = [] \<or> dst = [] then (Inl (Runtime_Error ''IPDumbAnonymizer: missing attribute''), b)
          else (Inr (), \<lparr>anon_src = anon_src b \<or> src = ''True'', anon_dst = anon_dst b \<or> dst = ''True''\<rparr>))"

definition anon_at :: "(u32 \<Rightarrow> u32) \<Rightarrow> bool \<Rightarrow> nat \<Rightarrow> packet \<Rightarrow> packet res" where
  "anon_at anonymize on off p =
     (if \<not> on then Inr p
      else case m_iphdr_ptr p of
             None \<Rightarrow> Inl Undefined_Behaviour
           | Some ip \<Rightarrow>
               let o' = ip + off; buf = m_buffer p in
               if o' + 4 \<le> length buf then Inr (p\<lparr>m_buffer := take o' buf @ anonBuf anonymize (take 4 (drop o' buf)) @ drop (o' + 4) buf\<rparr>)
               else Inl Undefined_Behaviour)"

definition anonymizer_receive :: "(u32 \<Rightarrow> u32) \<Rightarrow> packet \<Rightarrow> net_msg \<Rightarrow> anonymizer \<Rightarrow> net_msg res" where
  "anonymizer_receive anonymize junk m b =
     (case m of
        Packet_Msg p \<Rightarrow>
          bindE (pkt_iphdr (packet_clone junk p)) (\<lambda>(_, p1).
          bindE (anon_at anonymize (anon_src b) 12 p1) (\<lambda>p2.
          bindE (anon_at anonymize (anon_dst b) 16 p2) (\<lambda>p3. Inr (Packet_Msg p3))))
      | _ \<Rightarrow> Inl (Runtime_Error ''dumbanonimizer: unexpected msg type''))"

subsection \<open>The generator\<close>

text \<open>The first 64 bytes of the template the constructor fills in; addresses and ports are stored as they are in memory.\<close>

definition synth_frame :: "u32 \<Rightarrow> u32 \<Rightarrow> u16 \<Rightarrow> u16 \<Rightarrow> byte list" where
  "synth_frame sip dip sp dp = replicate 12 0 @ be16 kPktTypeIP4 @ [4, 0] @ be16 5 @ replicate 5 0 @ [kTCP] @ replicate 2 0 @
     le_bytes 4 sip @ le_bytes 4 dip @ le_bytes 2 sp @ le_bytes 2 dp @ replicate 26 0"

subsection \<open>Reading a payload\<close>

text \<open>The block reads as many bytes as the packet is longer than 42, from wherever its payload starts; the value is the last byte read.\<close>

definition touch_packet :: "packet \<Rightarrow> byte \<Rightarrow> byte res" where
  "touch_packet p ctr =
     bindE (val pkt_payload p) (\<lambda>ptr.
       let n = to_int (unat (m_length p)) - 42 in
       if n \<le> 0 then Inr ctr
       else case ptr of
              None \<Rightarrow> Inl Undefined_Behaviour
            | Some a \<Rightarrow> if a + nat n \<le> length (m_buffer p) then Inr (m_buffer p ! (a + nat n - 1)) else Inl Undefined_Behaviour)"


subsection \<open>Conversions are inverse to each other\<close>

text \<open>
  Every microsecond count survives the conversion to a \<open>timespec\<close> and back, without overflow, and the nanoseconds of the
  \<open>timespec\<close> are in range.
\<close>
theorem us_timespec_roundtrip:
  "timespec_to_us (us_to_timespec us) = us \<and> snd (us_to_timespec us) < 1000000000"
proof -
  let ?r = "us mod 1000000"
  have r: "unat ?r < 1000000" by (simp add: unat_mod)
  then have n: "unat (?r * 1000) = unat ?r * 1000" by (subst unat_mult_lem[THEN iffD1]) simp_all
  then have "unat (?r * 1000 div 1000) = unat ?r" by (simp add: unat_div)
  then have "?r * 1000 div 1000 = ?r" by (simp add: word_unat_eq_iff)
  moreover have "us div 1000000 * 1000000 + ?r = us" by (rule div_mult_mod_eq)
  moreover have "?r * 1000 < 1000000000" using n r by (simp add: word_less_nat_alt)
  ultimately show ?thesis by (simp add: us_to_timespec_def timespec_to_us_def)
qed

text \<open>The four octets of an address, and the address from its octets.\<close>

definition octet :: "nat \<Rightarrow> u32 \<Rightarrow> u32" where
  "octet i ip = drop_bit (8 * i) ip AND 0xFF"

lemma octet_fields:
  "drop_bit 24 (ip AND 0xFF000000) = octet 3 ip" "drop_bit 16 (ip AND 0x00FF0000) = octet 2 ip"
  "drop_bit 8 (ip AND 0x0000FF00) = octet 1 ip" "ip AND 0x000000FF = octet 0 ip"
  by (simp_all add: octet_def drop_bit_and)

lemma bit_octet: "bit (octet i ip) n \<longleftrightarrow> n < 8 \<and> bit ip (8 * i + n)"
proof -
  have "(0xFF :: u32) = mask 8" by (simp add: mask_eq_exp_minus_1)
  then have "bit (0xFF :: u32) n \<longleftrightarrow> n < 8" by (simp only: bit_mask_iff) auto
  then show ?thesis by (auto simp: octet_def bit_and_iff bit_drop_bit_eq simp del: bit_numeral_simps)
qed

lemma octets_join: "push_bit 24 (octet 3 ip) OR push_bit 16 (octet 2 ip) OR push_bit 8 (octet 1 ip) OR octet 0 ip = ip"
proof (rule bit_word_eqI)
  fix n assume "n < LENGTH(32)"
  then consider "n < 8" | "8 \<le> n" "n < 16" | "16 \<le> n" "n < 24" | "24 \<le> n" "n < 32" by fastforce
  then show "bit (push_bit 24 (octet 3 ip) OR push_bit 16 (octet 2 ip) OR push_bit 8 (octet 1 ip) OR octet 0 ip) n = bit ip n"
    by cases (auto simp: bit_or_iff bit_push_bit_iff bit_octet)
qed

lemma octet_less: "unat (octet i ip) < 256"
proof -
  have "octet i ip \<le> 0xFF" unfolding octet_def by (rule word_and_le1)
  then show ?thesis by (simp add: word_le_nat_alt)
qed

text \<open>
  An address is read back from its dotted form, when \<open>boost::split\<close> cuts the string at its dots and \<open>boost::lexical_cast\<close>
  reads decimal numbers that fit into 32 bits.
\<close>
theorem ipv4_string_roundtrip:
  assumes "\<And>a b c d. CHR ''.'' \<notin> set (a @ b @ c @ d) \<Longrightarrow> split' (a @ ''.'' @ b @ ''.'' @ c @ ''.'' @ d) = [a, b, c, d]"
    and "\<And>n. n < 2 ^ 32 \<Longrightarrow> cast' (decimal n) = Inr (of_nat n)"
  shows "string_to_ipv4 split' cast' (ipv4_to_string ip) = Inr ip"
proof -
  let ?o = "\<lambda>i. decimal (unat (octet i ip))"
  have "CHR ''.'' \<notin> set (?o 3 @ ?o 2 @ ?o 1 @ ?o 0)" using decimal_digits by (fastforce simp: isdigit_def)
  then have "split' (ipv4_to_string ip) = [?o 3, ?o 2, ?o 1, ?o 0]"
    using assms(1)[of "?o 3" "?o 2" "?o 1" "?o 0"] unfolding ipv4_to_string_def octet_fields by simp
  moreover have "cast' (?o i) = Inr (octet i ip)" for i using assms(2)[of "unat (octet i ip)"] octet_less[of i ip] by simp
  ultimately show ?thesis using octets_join[of ip] by (simp add: string_to_ipv4_def)
qed

fun split_dots :: "string \<Rightarrow> string list" where
  "split_dots [] = [[]]"
| "split_dots (c # cs) = (if c = CHR ''.'' then [] # split_dots cs else (c # hd (split_dots cs)) # tl (split_dots cs))"

lemma split_dots_nonempty: "split_dots s \<noteq> []"
  by (induction s) auto

lemma split_dots_step: "CHR ''.'' \<notin> set a \<Longrightarrow> split_dots (a @ CHR ''.'' # s) = a # split_dots s" "CHR ''.'' \<notin> set a \<Longrightarrow> split_dots a = [a]"
  by (induction a) auto

theorem ipv4_string_roundtrip_witness:
  "string_to_ipv4 split_dots (\<lambda>s. Inr (of_nat (digits_value s))) (ipv4_to_string 0xC0A80001) = Inr 0xC0A80001"
  by (rule ipv4_string_roundtrip) (simp_all add: split_dots_step digits_value_decimal)

subsection \<open>Labels\<close>

lemma le_bytes_nth: "i < 4 \<Longrightarrow> le_bytes 4 (ip :: u32) ! i = ucast (octet i ip)"
proof -
  have "(ucast (drop_bit (8 * i) ip) :: byte) = ucast (octet i ip)"
    by (rule bit_word_eqI) (auto simp: bit_ucast_iff bit_drop_bit_eq bit_octet)
  then show "i < 4 \<Longrightarrow> ?thesis" by (simp add: le_bytes_def)
qed

lemma inet_ntop_le: "inet_ntop (le_bytes 4 ip) = decimal (unat (octet 0 ip)) @ ''.'' @ decimal (unat (octet 1 ip)) @ ''.'' @
    decimal (unat (octet 2 ip)) @ ''.'' @ decimal (unat (octet 3 ip))"
proof -
  have "unat (ucast (octet i ip) :: byte) = unat (octet i ip)" for i using octet_less[of i ip] by (simp add: unsigned_ucast_eq take_bit_eq_mod)
  then show ?thesis by (simp add: inet_ntop_def le_bytes_nth)
qed

lemma ipv4_to_string_octets: "ipv4_to_string ip = decimal (unat (octet 3 ip)) @ ''.'' @ decimal (unat (octet 2 ip)) @ ''.'' @
    decimal (unat (octet 1 ip)) @ ''.'' @ decimal (unat (octet 0 ip))"
  unfolding ipv4_to_string_def octet_fields by (rule refl)

lemma octet_bswap: "i < 4 \<Longrightarrow> octet i (bswap32 ip) = octet (3 - i) ip"
proof -
  assume i: "i < 4"
  have "(ucast (ucast (octet j w) :: byte) :: u32) = octet j w" for j w
    by (rule bit_word_eqI) (auto simp: bit_ucast_iff bit_octet)
  then have "octet j w = octet k v" if "(ucast (octet j w) :: byte) = ucast (octet k v)" for j k w v using that by metis
  moreover have "le_bytes 4 (bswap32 ip) ! i = le_bytes 4 ip ! (3 - i)" using i by (simp add: le_bytes_bswap32 rev_nth)
  ultimately show ?thesis using i by (simp add: le_bytes_nth)
qed

text \<open>
  The label of a flow shows the octets of its addresses in reverse order: the key holds addresses in host order, and \<open>inet_ntop\<close> prints
  the bytes as they are in memory.
\<close>
theorem observation_addresses_reversed:
  "observe decimal (Flow_Msg f) = Inr (observation_new (fl_stime f)
     (ipv4_to_string (bswap32 (src_ip4 (fl_key f))) @ '':'' @ decimal (unat (src_port (fl_key f))) @ '' > '' @
      ipv4_to_string (bswap32 (dst_ip4 (fl_key f))) @ '':'' @ decimal (unat (dst_port (fl_key f)))) (fl_bytes f))"
proof -
  have "inet_ntop (le_bytes 4 ip) = ipv4_to_string (bswap32 ip)" for ip
    unfolding inet_ntop_le ipv4_to_string_octets by (simp add: octet_bswap)
  then show ?thesis by (simp add: observe_def key_label_def Let_def)
qed

subsection \<open>Anonymised frames\<close>

lemma anon_raw_first: "anon_raw bs = scast (bs ! 0)"
  by (simp add: anon_raw_def)

lemma length_anonBuf [simp]: "length (anonBuf anonymize bs) = 4"
  by (simp add: anonBuf_def Let_def)

definition anon_word :: "(u32 \<Rightarrow> u32) \<Rightarrow> u32 \<Rightarrow> u32" where
  "anon_word anonymize ip = anonymize (scast (ucast (drop_bit 24 ip) :: byte))"

lemma anonBuf_be32: "anonBuf anonymize (be32 ip) = be32 (anon_word anonymize ip)"
proof -
  have "(ucast (drop_bit 24 (push_bit (8 * (3 - i)) a)) :: byte) = ucast (drop_bit (8 * i) a)" if "i < 4" for i and a :: u32
  proof (rule bit_word_eqI)
    fix n
    have "24 + n - 8 * (3 - i) = 8 * i + n" "8 * (3 - i) \<le> 24 + n" using that by arith+
    then show "bit (ucast (drop_bit 24 (push_bit (8 * (3 - i)) a)) :: byte) n = bit (ucast (drop_bit (8 * i) a) :: byte) n"
      using that by (auto simp: bit_ucast_iff bit_drop_bit_eq bit_push_bit_iff)
  qed
  from this[of 3] this[of 2] this[of 1] this[of 0]
  have "map (\<lambda>i. ucast (drop_bit 24 (push_bit (8 * i) a))) [0, 1, 2, 3] = rev (le_bytes 4 a)" for a :: u32
    by (simp add: le_bytes_def upt_rec)
  moreover have "be32 ip ! 0 = ucast (drop_bit 24 ip)" by (simp add: be32_def le_bytes_bswap32 rev_nth) (simp add: le_bytes_def)
  ultimately show ?thesis by (simp add: anonBuf_def anon_raw_first anon_word_def be32_def le_bytes_bswap32 Let_def)
qed

lemma anon_at_split:
  assumes "m_iphdr_ptr p = Some ip" and "m_buffer p = pre @ be32 addr @ post" and "length pre = ip + off"
  shows "anon_at anonymize on off p = Inr (p\<lparr>m_buffer := pre @ be32 (if on then anon_word anonymize addr else addr) @ post\<rparr>)"
proof -
  have "take 4 (drop (ip + off) (m_buffer p)) = be32 addr" "take (ip + off) (m_buffer p) = pre" "drop (ip + off + 4) (m_buffer p) = post"
    "ip + off + 4 \<le> length (m_buffer p)" using assms(2,3) by (simp_all add: drop_append)
  then show ?thesis using assms(1,2) by (auto simp: anon_at_def Let_def anonBuf_be32)
qed

text \<open>
  The anonymiser changes nothing but the addresses it is configured for: an IPv4 frame leaves with every other byte, its time stamp
  and its length unchanged, and each anonymised address is a function of its first octet only.
\<close>
theorem anonymizer_correct:
  assumes "m_buffer p = eth_frame macs tags (ip_datagram hlv tos len frag ttl pr cksum sip dip rest)"
    and "length macs = 12" and "length frag = 4" and "m_mactype p = kEthernet" and "length (m_buffer p) < 2 ^ 64"
    and "m_length p \<noteq> 0"
  shows "\<exists>q. anonymizer_receive anonymize junk (Packet_Msg p) b = Inr (Packet_Msg q) \<and>
     m_buffer q = eth_frame macs tags (ip_datagram hlv tos len frag ttl pr cksum
       (if anon_src b then anon_word anonymize sip else sip) (if anon_dst b then anon_word anonymize dip else dip) rest) \<and>
     m_tstamp q = m_tstamp p \<and> m_length q = m_length p"
proof -
  let ?p = "packet_clone junk p" and ?dg = "ip_datagram hlv tos len frag ttl pr cksum sip dip rest"
  let ?m = "?p\<lparr>m_pkttype := kPktTypeIP4, m_iphdr_ptr := Some (14 + 4 * length tags), m_machdr_parsed := True\<rparr>"
  let ?pre = "macs @ vlan_bytes tags @ [hlv, tos] @ be16 len @ frag @ [ttl, pr] @ be16 cksum"
  let ?s = "if anon_src b then anon_word anonymize sip else sip" and ?d = "if anon_dst b then anon_word anonymize dip else dip"
  have new: "m_buffer ?p = m_buffer p" "m_mactype ?p = kEthernet" "\<not> m_machdr_parsed ?p" "m_tstamp ?p = m_tstamp p" "m_length ?p = m_length p"
    using assms(4,6) by (simp_all add: packet_clone_def packet_new_def)
  have mac: "pkt_iphdr ?p = Inr (Some (14 + 4 * length tags), ?m)"
    using parse_mac_frame[of ?p macs tags ?dg] new assms by (simp add: pkt_iphdr_def after_def ip_datagram_def)
  have a1: "anon_at anonymize (anon_src b) 12 ?m = Inr (?m\<lparr>m_buffer := ?pre @ be32 ?s @ be32 dip @ rest\<rparr>)"
    by (rule anon_at_split) (use new assms in \<open>simp_all add: eth_frame_def ip_datagram_def\<close>)
  have a2: "anon_at anonymize (anon_dst b) 16 (?m\<lparr>m_buffer := ?pre @ be32 ?s @ be32 dip @ rest\<rparr>) =
      Inr (?m\<lparr>m_buffer := ?pre @ be32 ?s @ be32 dip @ rest, m_buffer := (?pre @ be32 ?s) @ be32 ?d @ rest\<rparr>)"
    by (rule anon_at_split) (use assms in simp_all)
  show ?thesis unfolding anonymizer_receive_def net_msg.case mac bindE_Inr prod.case a1 a2
    using new by (simp add: eth_frame_def ip_datagram_def)
qed

theorem anonymizer_correct_witness:
  "\<exists>q. anonymizer_receive (\<lambda>a. a XOR 0xFFFFFFFF) junk_packet (Packet_Msg (packet_new junk_packet sample_frame (0, 0) 0 kEthernet))
       \<lparr>anon_src = True, anon_dst = False\<rparr> = Inr (Packet_Msg q) \<and>
     m_buffer q = eth_frame (replicate 12 0xAB) [7] (ip_datagram 0x46 0 44 (replicate 4 0) 64 kTCP 0 0xFFFFFFF5 0x0A000002
       (replicate 4 1 @ be16 4321 @ be16 80 @ replicate 16 0)) \<and> m_tstamp q = (0, 0) \<and> m_length q = 62"
proof -
  let ?p = "packet_new junk_packet sample_frame (0, 0) 0 kEthernet"
  have p: "m_buffer ?p = eth_frame (replicate 12 0xAB) [7] (ip_datagram 0x46 0 44 (replicate 4 0) 64 kTCP 0 0x0A000001 0x0A000002
     (replicate 4 1 @ be16 4321 @ be16 80 @ replicate 16 0))" "m_mactype ?p = kEthernet" "m_tstamp ?p = (0, 0)"
    by (simp_all add: packet_new_def sample_frame_def)
  have len: "m_length ?p = 62" by (simp add: packet_new_def sample_frame_def eth_frame_def ip_datagram_def)
  have a: "anon_word (\<lambda>a. a XOR 0xFFFFFFFF) 0x0A000001 = 0xFFFFFFF5" by code_simp
  show ?thesis
    using anonymizer_correct[OF p(1) _ _ p(2), of "\<lambda>a. a XOR 0xFFFFFFFF" junk_packet "\<lparr>anon_src = True, anon_dst = False\<rparr>", unfolded len a p(3)]
    by (simp add: a p(1) eth_frame_def ip_datagram_def)
qed

text \<open>Addresses that share the first octet are anonymised to the same address.\<close>
theorem anonymizer_collides:
  "anonBuf anonymize (b0 # bs) = anonBuf anonymize (b0 # cs)"
  by (simp add: anonBuf_def anon_raw_first)

subsection \<open>Generated packets and payloads\<close>

text \<open>
  The generated header says it is 16 bytes long, so the ports of a generated packet are the halves of its destination address; the ports
  that were filled in are not seen.
\<close>
theorem synth_ports_lost:
  "val pkt_key (packet_new junk_packet (synth_frame 0x0100000A 0x0201A8C0 0x1111 0x2222) (0, 0) 64 kEthernet) =
     Inr \<lparr>src_ip4 = 0x0A000001, dst_ip4 = 0xC0A80102, src_port = 0xC0A8, dst_port = 0x0102, proto = kTCP\<rparr>"
  by code_simp

text \<open>
  For a whole frame longer than 42 bytes the payload is read inside the frame exactly when it starts within the first 42 bytes: a header
  with options or an 802.1q tag sends the reader behind the frame.
\<close>
theorem touch_packet_defined_iff:
  assumes "val pkt_payload p = Inr (Some a)" and "unat (m_length p) = length (m_buffer p)" and "42 < length (m_buffer p)"
    and "length (m_buffer p) < 2 ^ 31"
  shows "touch_packet p ctr = Inl Undefined_Behaviour \<longleftrightarrow> 42 < a"
  using assms to_int_small[OF assms(4)] by (auto simp: touch_packet_def Let_def)

end
