(* ===== verification/Hash_Stream.thy ===== *)
theory Hash_Stream
  imports Bm_Prelude
begin

unbundle bit_operations_syntax

text \<open>
  The part that the digests of \<open>lib/hash/C\<close> share: a context collects bytes, processes full blocks and keeps the rest; \<open>finish\<close> appends
  the padding and the length; HMAC wraps both. The four files repeat the same text for different block and word sizes, which are the
  members of \<open>hash_alg\<close> here. The words of a context have 64 bits (\<open>unsigned long\<close>, \<open>unsigned long long\<close>), also where the
  algorithm has words of 32 bits. The length of an input is an \<open>int\<close>.
\<close>

subsection \<open>Contexts\<close>

record hash_alg =
  ha_block :: nat
  ha_word :: nat
  ha_out :: nat
  ha_put :: "u64 \<Rightarrow> byte list"
  ha_len :: "u64 \<Rightarrow> u64 \<Rightarrow> byte list"
  ha_init :: "u64 list"
  ha_process :: "u64 list \<Rightarrow> byte list \<Rightarrow> u64 list"

record hash_ctx =
  cx_total :: "u64 \<times> u64"
  cx_state :: "u64 list"
  cx_buffer :: "byte list"
  cx_ipad :: "byte list"
  cx_opad :: "byte list"

definition alg_starts :: "hash_alg \<Rightarrow> hash_ctx \<Rightarrow> hash_ctx" where
  "alg_starts a ctx = ctx\<lparr>cx_total := (0, 0), cx_state := ha_init a\<rparr>"

text \<open>The loop over full blocks; it returns the state and the bytes left over.\<close>

function process_blocks :: "nat \<Rightarrow> ('s \<Rightarrow> byte list \<Rightarrow> 's) \<Rightarrow> 's \<Rightarrow> byte list \<Rightarrow> 's \<times> byte list" where
  "process_blocks B f st inp = (if 0 < B \<and> B \<le> length inp then process_blocks B f (f st (take B inp)) (drop B inp) else (st, inp))"
  by auto
termination by (relation "measure (\<lambda>(B, f, st, inp). length inp)") auto

declare process_blocks.simps [simp del]

definition alg_update :: "hash_alg \<Rightarrow> byte list \<Rightarrow> hash_ctx \<Rightarrow> hash_ctx" where
  "alg_update a inp ctx =
     (if inp = [] then ctx
      else let B = ha_block a; ilen = length inp; t0 = fst (cx_total ctx); t1 = snd (cx_total ctx); buf = cx_buffer ctx;
               left = unat (t0 AND of_nat (B - 1)); fill = B - left;
               t0' = (t0 + of_nat ilen) AND mask (8 * ha_word a); t1' = (if t0' < of_nat ilen then t1 + 1 else t1);
               full = left \<noteq> 0 \<and> fill \<le> ilen;
               buf1 = (if full then take left buf @ take fill inp @ drop B buf else buf);
               st1 = (if full then ha_process a (cx_state ctx) buf1 else cx_state ctx);
               inp1 = (if full then drop fill inp else inp); left1 = (if full then 0 else left);
               (st2, rest) = process_blocks B (ha_process a) st1 inp1
           in ctx\<lparr>cx_total := (t0', t1'), cx_state := st2, cx_buffer := take left1 buf1 @ rest @ drop (left1 + length rest) buf1\<rparr>)"

definition alg_padding :: "nat \<Rightarrow> byte list" where
  "alg_padding B = 0x80 # replicate (B - 1) 0"

definition alg_finish :: "hash_alg \<Rightarrow> hash_ctx \<Rightarrow> byte list \<times> hash_ctx" where
  "alg_finish a ctx =
     (let B = ha_block a; L = 2 * ha_word a; t0 = fst (cx_total ctx); t1 = snd (cx_total ctx);
          high = drop_bit (8 * ha_word a - 3) t0 OR push_bit 3 t1; low = push_bit 3 t0;
          last = unat (t0 AND of_nat (B - 1)); padn = (if last < B - L then B - L - last else 2 * B - L - last);
          ctx1 = alg_update a (take padn (alg_padding B)) ctx; ctx2 = alg_update a (ha_len a high low) ctx1
      in (concat (map (ha_put a) (take (ha_out a) (cx_state ctx2))), ctx2))"

text \<open>A digest in one call, with what the context on the stack happens to hold as an argument, and of a file that is read in pieces.\<close>

definition alg_digest :: "hash_alg \<Rightarrow> hash_ctx \<Rightarrow> byte list \<Rightarrow> byte list" where
  "alg_digest a junk inp = fst (alg_finish a (alg_update a inp (alg_starts a junk)))"

definition alg_file :: "hash_alg \<Rightarrow> hash_ctx \<Rightarrow> byte list list option \<Rightarrow> bool \<Rightarrow> int \<times> byte list option" where
  "alg_file a junk file err =
     (case file of
        None \<Rightarrow> (1, None)
      | Some bufs \<Rightarrow> (if err then 2 else 0, Some (fst (alg_finish a (foldl (\<lambda>c buf. alg_update a buf c) (alg_starts a junk) bufs)))))"

definition xor_pad :: "byte \<Rightarrow> nat \<Rightarrow> byte list \<Rightarrow> byte list" where
  "xor_pad c B key = map (\<lambda>i. if i < length key then c XOR key ! i else c) [0..<B]"

definition alg_hmac_starts :: "hash_alg \<Rightarrow> hash_ctx \<Rightarrow> byte list \<Rightarrow> hash_ctx \<Rightarrow> hash_ctx" where
  "alg_hmac_starts a junk key ctx =
     (let B = ha_block a; key' = (if B < length key then alg_digest a junk key else key);
          ctx1 = ctx\<lparr>cx_ipad := xor_pad 0x36 B key', cx_opad := xor_pad 0x5C B key'\<rparr>
      in alg_update a (cx_ipad ctx1) (alg_starts a ctx1))"

definition alg_hmac_finish :: "hash_alg \<Rightarrow> hash_ctx \<Rightarrow> byte list \<times> hash_ctx" where
  "alg_hmac_finish a ctx =
     (let (tmpbuf, ctx1) = alg_finish a ctx in
      alg_finish a (alg_update a tmpbuf (alg_update a (cx_opad ctx1) (alg_starts a ctx1))))"

definition alg_hmac_reset :: "hash_alg \<Rightarrow> hash_ctx \<Rightarrow> hash_ctx" where
  "alg_hmac_reset a ctx = alg_update a (cx_ipad ctx) (alg_starts a ctx)"

definition alg_hmac :: "hash_alg \<Rightarrow> hash_ctx \<Rightarrow> hash_ctx \<Rightarrow> byte list \<Rightarrow> byte list \<Rightarrow> byte list" where
  "alg_hmac a junk junk' key inp = fst (alg_hmac_finish a (alg_update a inp (alg_hmac_starts a junk key junk')))"

subsection \<open>Blocks\<close>

lemma process_blocks_short: "length inp < B \<Longrightarrow> process_blocks B f st inp = (st, inp)"
  by (subst process_blocks.simps) simp

lemma process_blocks_step: "length b = B \<Longrightarrow> 0 < B \<Longrightarrow> process_blocks B f st (b @ inp) = process_blocks B f (f st b) inp"
  by (subst process_blocks.simps) simp

lemma process_blocks_rest: "0 < B \<Longrightarrow> length (snd (process_blocks B f st inp)) = length inp mod B"
proof (induction B f st inp rule: process_blocks.induct)
  case (1 B f st inp)
  then show ?case by (subst process_blocks.simps) (auto simp: mod_if)
qed

lemma process_blocks_append:
  "process_blocks B f st (xs @ ys) = (case process_blocks B f st xs of (st', r) \<Rightarrow> process_blocks B f st' (r @ ys))"
proof (induction B f st xs rule: process_blocks.induct)
  case (1 B f st xs)
  show ?case
  proof (cases "0 < B \<and> B \<le> length xs")
    case True
    then have "process_blocks B f st (xs @ ys) = process_blocks B f (f st (take B xs)) (drop B xs @ ys)"
      by (subst process_blocks.simps) simp
    moreover have "process_blocks B f st xs = process_blocks B f (f st (take B xs)) (drop B xs)" using True by (subst process_blocks.simps) simp
    ultimately show ?thesis using 1 True by simp
  next
    case False
    then have "process_blocks B f st xs = (st, xs)" by (subst process_blocks.simps) auto
    then show ?thesis by simp
  qed
qed

text \<open>What a standard defines: the blocks of the padded message, one after the other.\<close>

definition chunks :: "nat \<Rightarrow> byte list \<Rightarrow> byte list list" where
  "chunks B m = map (\<lambda>i. take B (drop (B * i) m)) [0..<length m div B]"

lemma chunks_step: "0 < B \<Longrightarrow> B \<le> length m \<Longrightarrow> chunks B m = take B m # chunks B (drop B m)"
proof -
  assume B: "0 < B" "B \<le> length m"
  then have "length m div B = Suc (length (drop B m) div B)" by (simp add: div_if)
  then show ?thesis by (simp add: chunks_def upt_conv_Cons map_Suc_upt[symmetric] add.commute del: upt_Suc)
qed

lemma process_blocks_chunks: "0 < B \<Longrightarrow> fst (process_blocks B f st m) = foldl f st (chunks B m)"
proof (induction B f st m rule: process_blocks.induct)
  case (1 B f st m)
  show ?case
  proof (cases "B \<le> length m")
    case True
    then show ?thesis using 1 by (subst process_blocks.simps) (simp add: chunks_step)
  next
    case False
    then show ?thesis by (subst process_blocks.simps) (simp add: chunks_def)
  qed
qed

subsection \<open>Counting bytes\<close>

lemma ucast_of_nat: "LENGTH('w) \<le> 64 \<Longrightarrow> ucast (of_nat n :: u64) = (of_nat n :: 'w::len word)"
  by (rule bit_word_eqI) (simp add: bit_ucast_iff bit_simps)

text \<open>The narrow words inside of 64-bit words.\<close>

lemma narrow_add:
  assumes "LENGTH('w) \<le> 64"
  shows "(ucast (x + y :: u64) :: 'w::len word) = ucast x + ucast y"
proof -
  have narrow: "(ucast (of_nat n :: u64) :: 'w word) = of_nat n" for n by (rule ucast_of_nat[OF assms])
  have "(ucast (of_nat (unat x) + of_nat (unat y) :: u64) :: 'w word) = ucast (of_nat (unat x) :: u64) + ucast (of_nat (unat y) :: u64)"
    unfolding of_nat_add[symmetric] narrow by (rule refl)
  then show ?thesis unfolding of_nat_unat ucast_id .
qed

lemma narrow_bits:
  assumes "LENGTH('w) \<le> 64"
  shows "(ucast (x AND y :: u64) :: 'w::len word) = ucast x AND ucast y" "(ucast (x OR y :: u64) :: 'w word) = ucast x OR ucast y"
    "(ucast (x XOR y :: u64) :: 'w word) = ucast x XOR ucast y" "(ucast (NOT x :: u64) :: 'w word) = NOT (ucast x)"
  using assms by (auto intro!: bit_word_eqI simp: bit_simps)

lemma total_low: "tb \<le> 64 \<Longrightarrow> (of_nat (n mod 2 ^ tb) + of_nat l) AND mask tb = (of_nat ((n + l) mod 2 ^ tb) :: u64)"
proof -
  assume tb: "tb \<le> 64"
  have "(of_nat (n mod 2 ^ tb) + of_nat l :: u64) AND mask tb = take_bit tb (of_nat (n mod 2 ^ tb + l))" by (simp add: take_bit_eq_mask)
  also have "\<dots> = of_nat (take_bit tb (n mod 2 ^ tb + l))" by (simp only: take_bit_of_nat)
  finally show ?thesis by (simp add: take_bit_eq_mod mod_add_left_eq)
qed

lemma total_carry:
  assumes "l < M"
  shows "(n + l) mod M < l \<longleftrightarrow> (n + l) div M = Suc (n div M)" "(n + l) div M = n div M \<or> (n + l) div M = Suc (n div M :: nat)"
proof -
  have M: "0 < M" using assms by simp
  have r: "n mod M < M" using M by simp
  have split: "(n + l) div M = n div M + (n mod M + l) div M" "(n + l) mod M = (n mod M + l) mod M"
    using assms by (simp_all add: div_add1_eq[of n l M] mod_add_left_eq)
  consider "n mod M + l < M" | "M \<le> n mod M + l" "n mod M + l < 2 * M" using assms r by linarith
  then have "((n mod M + l) mod M < l \<longleftrightarrow> (n mod M + l) div M = 1) \<and> (n mod M + l) div M \<le> 1"
  proof cases
    case 2
    then have "(n mod M + l) div M = 1" "(n mod M + l) mod M = n mod M + l - M" by (auto intro!: div_nat_eqI simp: le_mod_geq)
    moreover have "n mod M + l - M < l" using 2 r by arith
    ultimately show ?thesis by simp
  qed (use M assms in simp)
  then show "(n + l) mod M < l \<longleftrightarrow> (n + l) div M = Suc (n div M)" "(n + l) div M = n div M \<or> (n + l) div M = Suc (n div M)"
    unfolding split by auto
qed

lemma total_left: "k \<le> tb \<Longrightarrow> tb \<le> 64 \<Longrightarrow> unat ((of_nat (n mod 2 ^ tb) :: u64) AND of_nat (2 ^ k - 1)) = n mod 2 ^ k"
proof -
  assume k: "k \<le> tb" "tb \<le> 64"
  have m: "of_nat (2 ^ k - 1) = (mask k :: u64)" by (simp add: mask_eq_exp_minus_1 of_nat_diff)
  have "(of_nat (n mod 2 ^ tb) :: u64) AND of_nat (2 ^ k - 1) = of_nat (take_bit k (n mod 2 ^ tb))"
    unfolding m by (simp only: take_bit_eq_mask[symmetric] take_bit_of_nat)
  moreover have "take_bit k (n mod 2 ^ tb) = n mod 2 ^ k" using k(1) by (simp add: take_bit_eq_mod mod_mod_cancel le_imp_power_dvd)
  moreover have "n mod 2 ^ k < 2 ^ 64"
    using k by (intro less_le_trans[OF mod_less_divisor power_increasing]) simp_all
  ultimately show ?thesis by (simp add: unat_of_nat take_bit_nat_eq_self)
qed

text \<open>The length in bits as two words.\<close>

lemma bits_high:
  assumes "LENGTH('w) = tb" "3 < tb" "tb \<le> 64"
  shows "ucast (drop_bit (tb - 3) (of_nat (n mod 2 ^ tb) :: u64) OR push_bit 3 (of_nat (n div 2 ^ tb))) = (of_nat (8 * n div 2 ^ tb) :: 'w::len word)"
proof -
  let ?q = "n mod 2 ^ tb div 2 ^ (tb - 3)" and ?d = "n div 2 ^ tb"
  have p: "(2 :: nat) ^ tb = 2 ^ (tb - 3) * 8" using assms(2) power_add[of "2 :: nat" "tb - 3" 3] by simp
  have "n mod 2 ^ tb < 2 ^ 64" using assms(3) by (intro less_le_trans[OF mod_less_divisor power_increasing]) simp_all
  then have u: "unat (of_nat (n mod 2 ^ tb) :: u64) = n mod 2 ^ tb" by (simp add: unat_of_nat take_bit_nat_eq_self)
  have lo: "drop_bit (tb - 3) (of_nat (n mod 2 ^ tb) :: u64) = of_nat ?q"
    unfolding word_unat_eq_iff unat_drop_bit_eq u drop_bit_eq_div[where 'a = nat]
    using \<open>n mod 2 ^ tb < 2 ^ 64\<close> by (simp add: unat_of_nat take_bit_nat_eq_self le_less_trans[OF div_le_dividend])
  have hi: "push_bit 3 (of_nat ?d :: u64) = of_nat (8 * ?d)" by (simp add: push_bit_eq_mult)
  have q8: "?q < 8" using p by (intro less_mult_imp_div_less) (simp add: mult.commute)
  then have "take_bit 3 ?q = ?q" by (simp add: take_bit_nat_eq_self)
  then have "bit ?q i \<Longrightarrow> i < 3" for i by (metis bit_take_bit_iff)
  then have "(of_nat ?q :: u64) OR push_bit 3 (of_nat ?d) = of_nat ?q + push_bit 3 (of_nat ?d)"
    by (intro disjunctive_add[symmetric]) (fastforce simp: bit_simps)
  also have "\<dots> = of_nat (?q + 8 * ?d)" unfolding hi by simp
  also have "?q + 8 * ?d = 8 * n div 2 ^ tb"
  proof -
    have "8 * n div 2 ^ tb = n div 2 ^ (tb - 3)" unfolding p by (simp add: mult.commute)
    also have "\<dots> = (2 ^ (tb - 3) * (8 * ?d) + n mod 2 ^ tb) div 2 ^ (tb - 3)" using p by (metis div_mult_mod_eq mult.assoc mult.commute)
    also have "\<dots> = 8 * ?d + ?q" by simp
    finally show ?thesis by simp
  qed
  finally show ?thesis unfolding lo using assms(1,3) by (simp add: ucast_of_nat)
qed

lemma bits_low:
  assumes "LENGTH('w) = tb" "tb \<le> 64"
  shows "ucast (push_bit 3 (of_nat (n mod 2 ^ tb) :: u64)) = (of_nat (8 * n) :: 'w::len word)"
proof -
  have "push_bit 3 (of_nat (n mod 2 ^ tb) :: u64) = of_nat (8 * (n mod 2 ^ tb))" by (simp add: push_bit_eq_mult)
  then have "ucast (push_bit 3 (of_nat (n mod 2 ^ tb) :: u64)) = (of_nat (8 * (n mod 2 ^ tb)) :: 'w word)" using assms by (simp only: ucast_of_nat)
  also have "\<dots> = 8 * (of_nat (n mod 2 ^ LENGTH('w)))" using assms(1) by simp
  also have "(of_nat (n mod 2 ^ LENGTH('w)) :: 'w word) = of_nat n" by (simp add: word_unat_eq_iff unat_of_nat take_bit_eq_mod)
  finally show ?thesis by simp
qed

subsection \<open>What a standard defines\<close>

text \<open>The padded message: a one bit, zeros up to the last words of a block, and the length in bits in these two words.\<close>

definition md_pad :: "nat \<Rightarrow> ('w::len word \<Rightarrow> 'w word \<Rightarrow> byte list) \<Rightarrow> byte list \<Rightarrow> byte list" where
  "md_pad B plen m =
     (let n = length m; tail = plen (of_nat (8 * n div 2 ^ LENGTH('w))) (of_nat (8 * n)); z = (B - (n + 1 + length tail) mod B) mod B
      in m @ 0x80 # replicate z 0 @ tail)"

definition md_hash :: "nat \<Rightarrow> nat \<Rightarrow> ('w::len word \<Rightarrow> byte list) \<Rightarrow> ('w word \<Rightarrow> 'w word \<Rightarrow> byte list) \<Rightarrow>
    ('w word list \<Rightarrow> byte list \<Rightarrow> 'w word list) \<Rightarrow> 'w word list \<Rightarrow> byte list \<Rightarrow> byte list" where
  "md_hash B out put plen compress iv m = concat (map put (take out (foldl compress iv (chunks B (md_pad B plen m)))))"

definition hmac_spec :: "nat \<Rightarrow> (byte list \<Rightarrow> byte list) \<Rightarrow> byte list \<Rightarrow> byte list \<Rightarrow> byte list" where
  "hmac_spec B H key m =
     (let k = (if B < length key then H key else key); k0 = k @ replicate (B - length k) 0
      in H (map (\<lambda>b. b XOR 0x5C) k0 @ H (map (\<lambda>b. b XOR 0x36) k0 @ m)))"

text \<open>
  What the context relies on: the block size is a power of two, the length fits behind the padding, and the processing of a block computes the
  compression function of the standard in the low bits of its words.
\<close>

locale digest =
  fixes a :: hash_alg and k N :: nat and put :: "'w::len word \<Rightarrow> byte list" and plen :: "'w word \<Rightarrow> 'w word \<Rightarrow> byte list"
    and compress :: "'w word list \<Rightarrow> byte list \<Rightarrow> 'w word list" and iv :: "'w word list"
  assumes block: "ha_block a = 2 ^ k" "k \<le> LENGTH('w)" and word: "LENGTH('w) = 8 * ha_word a" "4 \<le> ha_word a" "ha_word a \<le> 8"
    and room: "2 * ha_word a < ha_block a" "ha_block a < 2 ^ 30" and init: "length (ha_init a) = N" "map ucast (ha_init a) = iv"
    and process: "length st = N \<Longrightarrow> length b = ha_block a \<Longrightarrow> length (ha_process a st b) = N \<and> map ucast (ha_process a st b) = compress (map ucast st) b"
    and puts: "ha_put a w = put (ucast w)" and lens: "ha_len a h l = plen (ucast h) (ucast l)" "length (plen h' l') = 2 * ha_word a"
    and out: "length (put v) = ha_word a" "ha_out a * ha_word a \<le> ha_block a"
begin

abbreviation B :: nat where "B \<equiv> ha_block a"

definition absorbed :: "hash_ctx \<Rightarrow> byte list \<Rightarrow> bool" where
  "absorbed ctx m \<longleftrightarrow> cx_total ctx = (of_nat (length m mod 2 ^ LENGTH('w)), of_nat (length m div 2 ^ LENGTH('w))) \<and> length (cx_buffer ctx) = B \<and>
     process_blocks B (ha_process a) (ha_init a) m = (cx_state ctx, take (length m mod B) (cx_buffer ctx))"

lemma B_pos: "0 < B" by (simp add: block)

lemma word64: "LENGTH('w) \<le> 64" "LENGTH('w) \<ge> 32" using word by simp_all

lemma absorbed_starts: "length (cx_buffer ctx) = B \<Longrightarrow> absorbed (alg_starts a ctx) []"
  by (simp add: absorbed_def alg_starts_def process_blocks_short B_pos)

lemma absorbed_left:
  assumes "absorbed ctx m"
  shows "unat (fst (cx_total ctx) AND of_nat (B - 1)) = length m mod B"
  using total_left[OF block(2) word64(1), of "length m"] assms by (simp add: absorbed_def block)

lemma absorbed_total:
  assumes "absorbed ctx m" "length inp < 2 ^ 31"
  shows "(fst (cx_total ctx) + of_nat (length inp)) AND mask (8 * ha_word a) = of_nat (length (m @ inp) mod 2 ^ LENGTH('w))"
    and "(if (fst (cx_total ctx) + of_nat (length inp)) AND mask (8 * ha_word a) < of_nat (length inp) then snd (cx_total ctx) + 1 else snd (cx_total ctx)) =
      of_nat (length (m @ inp) div 2 ^ LENGTH('w))"
proof -
  let ?tb = "LENGTH('w)" and ?n = "length m" and ?l = "length inp"
  have "(2 :: nat) ^ 31 \<le> 2 ^ ?tb" using word64(2) by (intro power_increasing) simp_all
  then have M: "?l < 2 ^ ?tb" "?l < 2 ^ 64" using assms(2) by simp_all
  show t0: "(fst (cx_total ctx) + of_nat ?l) AND mask (8 * ha_word a) = of_nat (length (m @ inp) mod 2 ^ ?tb)"
    using total_low[OF word64(1), of ?n ?l] assms(1) word(1) by (simp add: absorbed_def)
  have r: "(?n + ?l) mod 2 ^ ?tb < 2 ^ 64"
    using word64(1) by (intro less_le_trans[OF mod_less_divisor power_increasing]) simp_all
  have "(of_nat ((?n + ?l) mod 2 ^ ?tb) :: u64) < of_nat ?l \<longleftrightarrow> (?n + ?l) mod 2 ^ ?tb < ?l"
    unfolding word_less_nat_alt using r M(2) by (simp add: unat_of_nat take_bit_nat_eq_self)
  then show "(if (fst (cx_total ctx) + of_nat ?l) AND mask (8 * ha_word a) < of_nat ?l then snd (cx_total ctx) + 1 else snd (cx_total ctx)) =
      of_nat (length (m @ inp) div 2 ^ ?tb)"
    unfolding t0 using total_carry[OF M(1), of ?n] assms(1) by (auto simp: absorbed_def)
qed

lemma update_blocks:
  assumes "absorbed ctx m" and "inp \<noteq> []"
  defines "left \<equiv> length m mod B" and "buf \<equiv> cx_buffer ctx"
  defines "full \<equiv> left \<noteq> 0 \<and> B - left \<le> length inp"
  defines "buf1 \<equiv> (if full then take left buf @ take (B - left) inp @ drop B buf else buf)"
  defines "left1 \<equiv> (if full then 0 else left)"
  defines "r \<equiv> process_blocks B (ha_process a) (if full then ha_process a (cx_state ctx) buf1 else cx_state ctx) (if full then drop (B - left) inp else inp)"
  defines "buf2 \<equiv> take left1 buf1 @ snd r @ drop (left1 + length (snd r)) buf1"
  shows "process_blocks B (ha_process a) (ha_init a) (m @ inp) = (fst r, take (length (m @ inp) mod B) buf2) \<and> length buf2 = B"
proof -
  let ?f = "ha_process a" and ?st = "cx_state ctx"
  have buf: "length buf = B" "process_blocks B ?f (ha_init a) m = (?st, take left buf)" using assms(1) by (simp_all add: absorbed_def buf_def left_def)
  have left: "left < B" using B_pos by (simp add: left_def)
  have all: "process_blocks B ?f (ha_init a) (m @ inp) = process_blocks B ?f ?st (take left buf @ inp)"
    unfolding process_blocks_append[of _ _ _ m inp] buf(2) by simp
  have n: "length (m @ inp) mod B = (left + length inp) mod B" by (metis left_def length_append mod_add_left_eq)
  have rest: "length (snd r) < B" unfolding r_def process_blocks_rest[OF B_pos] using B_pos by simp
  consider "full" | "\<not> full" "left = 0" | "\<not> full" "left \<noteq> 0" by blast
  then show ?thesis
  proof cases
    case 1
    then have len: "length (take left buf @ take (B - left) inp) = B" "left + length inp - B = length (drop (B - left) inp)" "B \<le> left + length inp"
      using left buf(1) by (auto simp: full_def)
    have b1: "buf1 = take left buf @ take (B - left) inp" using 1 buf(1) by (simp add: buf1_def)
    have "process_blocks B ?f ?st ((take left buf @ take (B - left) inp) @ drop (B - left) inp) = r"
      unfolding process_blocks_step[OF len(1) B_pos] using 1 b1 by (simp add: r_def)
    then have "process_blocks B ?f (ha_init a) (m @ inp) = r" unfolding all by simp
    moreover have "length (snd r) = length (m @ inp) mod B"
      unfolding n r_def process_blocks_rest[OF B_pos] using len(2,3) 1 by (simp add: le_mod_geq)
    ultimately show ?thesis using 1 rest len(1) b1 by (simp add: buf2_def left1_def prod_eq_iff)
  next
    case 2
    then have "process_blocks B ?f (ha_init a) (m @ inp) = r" unfolding all by (simp add: r_def)
    moreover have "length (snd r) = length (m @ inp) mod B" unfolding n r_def process_blocks_rest[OF B_pos] using 2 by simp
    ultimately show ?thesis using 2 rest buf(1) by (simp add: buf2_def left1_def buf1_def prod_eq_iff)
  next
    case 3
    then have short: "left + length inp < B" using left by (auto simp: full_def)
    then have "r = (?st, inp)" using 3 by (simp add: r_def process_blocks_short)
    moreover have "process_blocks B ?f (ha_init a) (m @ inp) = (?st, take left buf @ inp)" unfolding all using short buf(1) by (simp add: process_blocks_short)
    ultimately show ?thesis using 3 short left buf(1) unfolding n by (simp add: buf2_def left1_def buf1_def)
  qed
qed

lemma absorbed_update:
  assumes "absorbed ctx m" and "length inp < 2 ^ 31"
  shows "absorbed (alg_update a inp ctx) (m @ inp)" "cx_ipad (alg_update a inp ctx) = cx_ipad ctx" "cx_opad (alg_update a inp ctx) = cx_opad ctx"
proof -
  show "cx_ipad (alg_update a inp ctx) = cx_ipad ctx" "cx_opad (alg_update a inp ctx) = cx_opad ctx"
    by (simp_all add: alg_update_def Let_def split: prod.split)
  show "absorbed (alg_update a inp ctx) (m @ inp)"
  proof (cases "inp = []")
    case True
    then show ?thesis using assms by (simp add: alg_update_def)
  next
    case False
    show ?thesis
      unfolding absorbed_def[of "alg_update a inp ctx"]
      unfolding alg_update_def Let_def absorbed_left[OF assms(1)] if_not_P[OF False] case_prod_beta absorbed_total[OF assms]
      using update_blocks[OF assms(1) False] absorbed_total(2)[OF assms, unfolded absorbed_total(1)[OF assms]]
      by (simp only: hash_ctx.simps) (simp del: length_append)
  qed
qed

lemma process_state:
  assumes "length st = N"
  shows "map ucast (fst (process_blocks B (ha_process a) st m)) = foldl compress (map ucast st) (chunks B m)"
proof -
  have "length (fst (process_blocks B (ha_process a) st m)) = N \<and>
      map ucast (fst (process_blocks B (ha_process a) st m)) = fst (process_blocks B compress (map ucast st) m)"
    using assms
  proof (induction B "ha_process a" st m rule: process_blocks.induct)
    case (1 st m)
    show ?case
    proof (cases "B \<le> length m")
      case True
      then have "length (take B m) = B" by simp
      note p = process[OF 1(2) this]
      show ?thesis using 1(1)[OF conjI[OF B_pos True]] p True B_pos
        by (subst (1 2 3) process_blocks.simps) simp
    next
      case False
      then show ?thesis using 1(2) by (simp add: process_blocks_short)
    qed
  qed
  then show ?thesis by (simp add: process_blocks_chunks[OF B_pos])
qed

lemma padding_correct:
  fixes n :: nat
  defines "L \<equiv> 2 * ha_word a"
  defines "padn \<equiv> (if n mod B < B - L then B - L - n mod B else 2 * B - L - n mod B)"
  shows "take padn (alg_padding B) = 0x80 # replicate ((B - (n + 1 + L) mod B) mod B) 0" "length (take padn (alg_padding B)) < 2 ^ 31"
proof -
  have L: "L < B" "B < 2 ^ 30" using room by (simp_all add: L_def)
  define q where "q = n mod B"
  have q: "q < B" using B_pos by (simp add: q_def)
  have padn: "padn = (if q < B - L then B - L - q else 2 * B - L - q)" by (simp add: padn_def q_def)
  have e: "(n + 1 + L) mod B = (q + (1 + L)) mod B" unfolding q_def by (metis add.assoc mod_add_left_eq)
  have "padn = Suc ((B - (n + 1 + L) mod B) mod B)"
  proof (cases "q + (1 + L) < B")
    case True
    then show ?thesis unfolding e padn by simp linarith
  next
    case False
    moreover have "q + (1 + L) - B < B" using L q by linarith
    ultimately have "(q + (1 + L)) mod B = q + (1 + L) - B" by (simp add: le_mod_geq)
    then show ?thesis unfolding e padn using False L q by (cases "q + (1 + L) = B") auto
  qed
  moreover have "padn \<le> B" using L q by (auto simp: padn)
  ultimately show "take padn (alg_padding B) = 0x80 # replicate ((B - (n + 1 + L) mod B) mod B) 0" by (simp add: alg_padding_def take_replicate min_def)
  show "length (take padn (alg_padding B)) < 2 ^ 31" using L by (simp add: alg_padding_def)
qed

abbreviation H :: "byte list \<Rightarrow> byte list" where "H \<equiv> md_hash B (ha_out a) put plen compress iv"

lemma finish_correct:
  assumes "absorbed ctx m"
  shows "fst (alg_finish a ctx) = H m" "length (cx_buffer (snd (alg_finish a ctx))) = B" "cx_ipad (snd (alg_finish a ctx)) = cx_ipad ctx"
    "cx_opad (snd (alg_finish a ctx)) = cx_opad ctx"
proof -
  let ?n = "length m" and ?t = "cx_total ctx" and ?tb = "LENGTH('w)"
  let ?padn = "if ?n mod B < B - 2 * ha_word a then B - 2 * ha_word a - ?n mod B else 2 * B - 2 * ha_word a - ?n mod B"
  let ?high = "drop_bit (8 * ha_word a - 3) (fst ?t) OR push_bit 3 (snd ?t)" and ?low = "push_bit 3 (fst ?t)"
  let ?tail = "plen (of_nat (8 * ?n div 2 ^ ?tb)) (of_nat (8 * ?n))"
  have tail: "ha_len a ?high ?low = ?tail"
    using bits_high[where 'w = 'w, OF refl _ word64(1), of ?n] bits_low[where 'w = 'w, OF refl word64(1), of ?n] word64(2) assms word(1)
    by (simp add: lens absorbed_def)
  let ?c1 = "alg_update a (take ?padn (alg_padding B)) ctx" and ?c2 = "alg_update a (ha_len a ?high ?low) (alg_update a (take ?padn (alg_padding B)) ctx)"
  note c1 = absorbed_update[OF assms padding_correct(2)[of ?n]]
  have "length ?tail < 2 ^ 31" using word(3) lens(2) by simp
  note c2 = absorbed_update[OF c1(1) this]
  have "m @ take ?padn (alg_padding B) @ ?tail = md_pad B plen m"
    unfolding padding_correct(1) by (simp add: md_pad_def Let_def lens(2))
  then have abs: "absorbed ?c2 (md_pad B plen m)" using c2(1) tail by simp
  then have "map ucast (cx_state ?c2) = foldl compress iv (chunks B (md_pad B plen m))"
    using process_state[OF init(1), of "md_pad B plen m"] by (simp add: absorbed_def init(2))
  moreover have "map (ha_put a) xs = map put (map ucast xs)" for xs by (simp add: puts)
  ultimately have "concat (map (ha_put a) (take (ha_out a) (cx_state ?c2))) = H m" unfolding md_hash_def by (simp only: take_map[symmetric])
  moreover have fin: "alg_finish a ctx = (concat (map (ha_put a) (take (ha_out a) (cx_state ?c2))), ?c2)"
    unfolding alg_finish_def Let_def absorbed_left[OF assms] by (rule refl)
  ultimately show "fst (alg_finish a ctx) = H m" by simp
  show "length (cx_buffer (snd (alg_finish a ctx))) = B" using abs fin by (simp add: absorbed_def)
  show "cx_ipad (snd (alg_finish a ctx)) = cx_ipad ctx" "cx_opad (snd (alg_finish a ctx)) = cx_opad ctx"
    unfolding fin using c1(2,3) c2(2,3) tail by simp_all
qed

lemma absorbed_updates:
  assumes "absorbed ctx m" and "\<forall>b \<in> set bufs. length b < 2 ^ 31"
  shows "absorbed (foldl (\<lambda>c b. alg_update a b c) ctx bufs) (m @ concat bufs) \<and>
    cx_ipad (foldl (\<lambda>c b. alg_update a b c) ctx bufs) = cx_ipad ctx \<and> cx_opad (foldl (\<lambda>c b. alg_update a b c) ctx bufs) = cx_opad ctx"
  using assms
proof (induction bufs arbitrary: ctx m)
  case (Cons b bufs)
  then have "length b < 2 ^ 31" by simp
  note u = absorbed_update[OF Cons.prems(1) this]
  show ?case using Cons.IH[OF u(1)] Cons.prems(2) u(2,3) by simp
qed simp

text \<open>However the message is cut into pieces, the digest is that of the standard.\<close>

lemma stream_correct:
  assumes "length (cx_buffer junk) = B" and "\<forall>b \<in> set bufs. length b < 2 ^ 31"
  shows "fst (alg_finish a (foldl (\<lambda>c b. alg_update a b c) (alg_starts a junk) bufs)) = H (concat bufs)"
  using absorbed_updates[OF absorbed_starts[OF assms(1)] assms(2)] finish_correct(1) by simp

lemma digest_correct: "length (cx_buffer junk) = B \<Longrightarrow> length m < 2 ^ 31 \<Longrightarrow> alg_digest a junk m = H m"
  using stream_correct[of junk "[m]"] by (simp add: alg_digest_def)

lemma H_length: "length (H m) \<le> B"
proof -
  have "length (concat (map put ws)) = length ws * ha_word a" for ws by (induction ws) (simp_all add: out(1))
  then have "length (H m) \<le> ha_out a * ha_word a" by (simp add: md_hash_def)
  then show ?thesis using out(2) by (rule order_trans)
qed

lemma xor_pad_spec: "length key \<le> B \<Longrightarrow> xor_pad c B key = map (\<lambda>b. b XOR c) (key @ replicate (B - length key) 0)"
  by (rule nth_equalityI) (auto simp: xor_pad_def nth_append xor.commute)

text \<open>HMAC over the context is HMAC over the digest of the standard; resetting a context starts a new message under the same key.\<close>

lemma hmac_correct:
  assumes "length (cx_buffer junk) = B" "length (cx_buffer ctx) = B" "length key < 2 ^ 31" "\<forall>b \<in> set bufs. length b < 2 ^ 31"
  defines "kk \<equiv> (if B < length key then H key else key)"
  shows "fst (alg_hmac_finish a (foldl (\<lambda>c b. alg_update a b c) (alg_hmac_starts a junk key ctx) bufs)) = hmac_spec B H key (concat bufs)" (is ?finish)
    and "cx_ipad (alg_hmac_starts a junk key ctx) = xor_pad 0x36 B kk" "absorbed (alg_hmac_starts a junk key ctx) (xor_pad 0x36 B kk)"
proof -
  let ?ip = "xor_pad 0x36 B kk" and ?op = "xor_pad 0x5C B kk"
  have k: "length kk \<le> B" using H_length by (simp add: kk_def not_less)
  have pads: "length ?ip < 2 ^ 31" "length ?op < 2 ^ 31" using room by (simp_all add: xor_pad_def)
  define c0 where "c0 = alg_starts a (ctx\<lparr>cx_ipad := ?ip, cx_opad := ?op\<rparr>)"
  have c0: "absorbed c0 []" "cx_ipad c0 = ?ip" "cx_opad c0 = ?op"
    using absorbed_starts[of "ctx\<lparr>cx_ipad := ?ip, cx_opad := ?op\<rparr>"] assms(2) by (simp_all add: c0_def alg_starts_def)
  have st: "alg_hmac_starts a junk key ctx = alg_update a ?ip c0"
    using digest_correct[OF assms(1,3)] by (simp add: alg_hmac_starts_def Let_def c0_def kk_def)
  note u = absorbed_update[OF c0(1) pads(1)]
  show start: "absorbed (alg_hmac_starts a junk key ctx) ?ip" "cx_ipad (alg_hmac_starts a junk key ctx) = ?ip" using u c0 st by simp_all
  let ?c1 = "foldl (\<lambda>c b. alg_update a b c) (alg_hmac_starts a junk key ctx) bufs"
  have c1: "absorbed ?c1 (?ip @ concat bufs)" "cx_opad ?c1 = ?op" using absorbed_updates[OF start(1) assms(4)] u(3) c0(3) st by simp_all
  note f = finish_correct[OF c1(1)]
  obtain tmpbuf c2 where c2: "alg_finish a ?c1 = (tmpbuf, c2)" by (cases "alg_finish a ?c1")
  have tmp: "tmpbuf = H (?ip @ concat bufs)" "length (cx_buffer c2) = B" "cx_opad c2 = ?op" using f c1(2) c2 by simp_all
  have small: "length tmpbuf < 2 ^ 31" using H_length[of "?ip @ concat bufs"] room tmp(1) by simp
  have "absorbed (alg_update a tmpbuf (alg_update a ?op (alg_starts a c2))) (([] @ ?op) @ tmpbuf)"
    by (intro absorbed_update absorbed_starts tmp pads small)
  then have "fst (alg_hmac_finish a ?c1) = H (?op @ tmpbuf)" using finish_correct(1) c2 tmp(3) by (simp add: alg_hmac_finish_def)
  then show ?finish by (simp only: hmac_spec_def Let_def kk_def[symmetric] tmp(1) xor_pad_spec[OF k])
qed

lemma hmac_reset_correct:
  assumes "length (cx_buffer ctx) = B" "length (cx_ipad ctx) < 2 ^ 31"
  shows "absorbed (alg_hmac_reset a ctx) (cx_ipad ctx)"
  using absorbed_update(1)[OF absorbed_starts[OF assms(1)] assms(2)] by (simp add: alg_hmac_reset_def)

end

end
