(* ===== verification/Hash_Sha1.thy ===== *)
theory Hash_Sha1
  imports Hash_Stream
begin

unbundle bit_operations_syntax

text \<open>
  SHA-1 twice: \<open>lib/hash/C/sha1.c\<close>, which computes in 64-bit words and leaves what overflows in their upper halves, and the class of
  \<open>lib/bloom/sha1.cpp\<close>, which takes a byte at a time. Both are shown to compute the function of FIPS 180-1.
\<close>

subsection \<open>The standard\<close>

definition rotl32 :: "nat \<Rightarrow> u32 \<Rightarrow> u32" where
  "rotl32 n x = push_bit n x OR drop_bit (32 - n) x"

definition be_words :: "byte list \<Rightarrow> u32 list" where
  "be_words b = map (\<lambda>i. of_le (rev (take 4 (drop (4 * i) b)))) [0..<length b div 4]"

fun sha1_w :: "u32 list \<Rightarrow> nat \<Rightarrow> u32" where
  "sha1_w M t = (if t < 16 then M ! t else rotl32 1 (sha1_w M (t - 3) XOR sha1_w M (t - 8) XOR sha1_w M (t - 14) XOR sha1_w M (t - 16)))"

declare sha1_w.simps [simp del]

definition sha1_f :: "nat \<Rightarrow> u32 \<Rightarrow> u32 \<Rightarrow> u32 \<Rightarrow> u32" where
  "sha1_f t b c d = (if t < 20 then b AND c OR NOT b AND d else if t < 40 then b XOR c XOR d
     else if t < 60 then b AND c OR b AND d OR c AND d else b XOR c XOR d)"

definition sha1_k :: "nat \<Rightarrow> u32" where
  "sha1_k t = (if t < 20 then 0x5A827999 else if t < 40 then 0x6ED9EBA1 else if t < 60 then 0x8F1BBCDC else 0xCA62C1D6)"

definition sha1_round :: "u32 list \<Rightarrow> nat \<Rightarrow> u32 list \<Rightarrow> u32 list" where
  "sha1_round M t v = [rotl32 5 (v ! 0) + sha1_f t (v ! 1) (v ! 2) (v ! 3) + v ! 4 + sha1_w M t + sha1_k t, v ! 0, rotl32 30 (v ! 1), v ! 2, v ! 3]"

definition sha1_rounds :: "u32 list \<Rightarrow> nat \<Rightarrow> u32 list \<Rightarrow> u32 list" where
  "sha1_rounds M n h = foldl (\<lambda>v t. sha1_round M t v) h [0..<n]"

definition sha1_compress :: "u32 list \<Rightarrow> byte list \<Rightarrow> u32 list" where
  "sha1_compress h b = map2 (+) h (sha1_rounds (be_words b) 80 h)"

definition sha1_iv :: "u32 list" where
  "sha1_iv = [0x67452301, 0xEFCDAB89, 0x98BADCFE, 0x10325476, 0xC3D2E1F0]"

definition put_be32 :: "u32 \<Rightarrow> byte list" where "put_be32 w = rev (le_bytes 4 w)"

definition sha1_spec :: "byte list \<Rightarrow> byte list" where
  "sha1_spec = md_hash 64 5 put_be32 (\<lambda>h l. put_be32 h @ put_be32 l) sha1_compress sha1_iv"

subsection \<open>The C functions\<close>

definition GET_ULONG_BE :: "byte list \<Rightarrow> nat \<Rightarrow> u64" where
  "GET_ULONG_BE b i = push_bit 24 (ucast (b ! i)) OR push_bit 16 (ucast (b ! (i + 1))) OR push_bit 8 (ucast (b ! (i + 2))) OR ucast (b ! (i + 3))"

definition PUT_ULONG_BE :: "u64 \<Rightarrow> byte list" where
  "PUT_ULONG_BE n = [ucast (drop_bit 24 n), ucast (drop_bit 16 n), ucast (drop_bit 8 n), ucast n]"

definition S :: "u64 \<Rightarrow> nat \<Rightarrow> u64" where
  "S x n = push_bit n x OR drop_bit (32 - n) (x AND 0xFFFFFFFF)"

text \<open>The registers A to E as a list; every row of the unrolled loop calls the macro with the registers in one of five orders.\<close>

definition sha1_args :: "nat \<Rightarrow> nat list" where
  "sha1_args t = [[0, 1, 2, 3, 4], [4, 0, 1, 2, 3], [3, 4, 0, 1, 2], [2, 3, 4, 0, 1], [1, 2, 3, 4, 0]] ! (t mod 5)"

definition sha1_F :: "nat \<Rightarrow> u64 \<Rightarrow> u64 \<Rightarrow> u64 \<Rightarrow> u64" where
  "sha1_F t x y z = (if t < 20 then z XOR x AND (y XOR z) else if t < 40 then x XOR y XOR z
     else if t < 60 then x AND y OR z AND (x OR y) else x XOR y XOR z)"

definition sha1_K :: "nat \<Rightarrow> u64" where
  "sha1_K t = (if t < 20 then 0x5A827999 else if t < 40 then 0x6ED9EBA1 else if t < 60 then 0x8F1BBCDC else 0xCA62C1D6)"

definition sha1_P :: "nat \<Rightarrow> u64 \<Rightarrow> u64 list \<Rightarrow> u64 list" where
  "sha1_P t x v =
     (let i = sha1_args t; a = i ! 0; b = i ! 1; c = i ! 2; d = i ! 3; e = i ! 4
      in v[e := v ! e + (S (v ! a) 5 + sha1_F t (v ! b) (v ! c) (v ! d) + sha1_K t + x), b := S (v ! b) 30])"

definition sha1_R :: "nat \<Rightarrow> u64 list \<Rightarrow> u64 list" where
  "sha1_R t W = W[t mod 16 := S (W ! ((t - 3) mod 16) XOR W ! ((t - 8) mod 16) XOR W ! ((t - 14) mod 16) XOR W ! (t mod 16)) 1]"

definition sha1_step :: "u64 list \<times> u64 list \<Rightarrow> nat \<Rightarrow> u64 list \<times> u64 list" where
  "sha1_step vw t =
     (let (v, W) = vw; W' = (if t < 16 then W else sha1_R t W)
      in (sha1_P t (W' ! (t mod 16)) v, W'))"

definition sha1_process :: "u64 list \<Rightarrow> byte list \<Rightarrow> u64 list" where
  "sha1_process st data = map2 (+) st (fst (foldl sha1_step (st, map (\<lambda>i. GET_ULONG_BE data (4 * i)) [0..<16]) [0..<80]))"

definition sha1_starts :: "u64 list" where
  "sha1_starts = [0x67452301, 0xEFCDAB89, 0x98BADCFE, 0x10325476, 0xC3D2E1F0]"

definition sha1_alg :: hash_alg where
  "sha1_alg = \<lparr>ha_block = 64, ha_word = 4, ha_out = 5, ha_put = PUT_ULONG_BE, ha_len = (\<lambda>high low. PUT_ULONG_BE high @ PUT_ULONG_BE low),
     ha_init = sha1_starts, ha_process = sha1_process\<rparr>"

definition sha1_update :: "byte list \<Rightarrow> hash_ctx \<Rightarrow> hash_ctx" where "sha1_update = alg_update sha1_alg"
definition sha1_finish :: "hash_ctx \<Rightarrow> byte list \<times> hash_ctx" where "sha1_finish = alg_finish sha1_alg"
definition sha1 :: "hash_ctx \<Rightarrow> byte list \<Rightarrow> byte list" where "sha1 = alg_digest sha1_alg"
definition sha1_file :: "hash_ctx \<Rightarrow> byte list list option \<Rightarrow> bool \<Rightarrow> int \<times> byte list option" where "sha1_file = alg_file sha1_alg"
definition sha1_hmac_starts :: "hash_ctx \<Rightarrow> byte list \<Rightarrow> hash_ctx \<Rightarrow> hash_ctx" where "sha1_hmac_starts = alg_hmac_starts sha1_alg"
definition sha1_hmac_finish :: "hash_ctx \<Rightarrow> byte list \<times> hash_ctx" where "sha1_hmac_finish = alg_hmac_finish sha1_alg"
definition sha1_hmac_reset :: "hash_ctx \<Rightarrow> hash_ctx" where "sha1_hmac_reset = alg_hmac_reset sha1_alg"
definition sha1_hmac :: "hash_ctx \<Rightarrow> hash_ctx \<Rightarrow> byte list \<Rightarrow> byte list \<Rightarrow> byte list" where "sha1_hmac = alg_hmac sha1_alg"

definition zero_ctx :: hash_ctx where
  "zero_ctx = \<lparr>cx_total = (0, 0), cx_state = replicate 5 0, cx_buffer = replicate 64 0, cx_ipad = replicate 64 0, cx_opad = replicate 64 0\<rparr>"

subsection \<open>The low halves of 64-bit words\<close>

abbreviation low :: "u64 \<Rightarrow> u32" where "low \<equiv> ucast"

lemmas low_add = narrow_add[where 'w = 32, simplified]

lemmas low_bits = narrow_bits[where 'w = 32, simplified]

lemma S_take_bit: "S x n = push_bit n x OR drop_bit (32 - n) (take_bit 32 x)"
proof -
  have "(0xFFFFFFFF :: u64) = mask 32" by (simp add: mask_eq_exp_minus_1)
  then show ?thesis by (simp only: S_def take_bit_eq_mask)
qed

lemma low_S: "0 < n \<Longrightarrow> n < 32 \<Longrightarrow> low (S x n) = rotl32 n (low x)"
proof (rule bit_word_eqI)
  fix i assume n: "0 < n" "n < 32" "i < LENGTH(32)"
  then have "32 - n + i < 32 \<longleftrightarrow> i < n" "n \<le> i \<Longrightarrow> i - n < 32" by auto
  then show "bit (low (S x n)) i = bit (rotl32 n (low x)) i"
    using n by (auto simp: S_take_bit rotl32_def bit_ucast_iff bit_or_iff bit_take_bit_iff bit_push_bit_iff bit_drop_bit_eq)
qed

lemmas low_simps = low_add low_bits low_S

lemma low_F: "low (sha1_F t x y z) = sha1_f t (low x) (low y) (low z)"
proof -
  have "low z XOR low x AND (low y XOR low z) = low x AND low y OR NOT (low x) AND low z"
    "low x AND low y OR low z AND (low x OR low y) = low x AND low y OR low x AND low z OR low y AND low z"
    by (rule bit_word_eqI, auto simp: bit_simps)+
  then show ?thesis by (simp add: sha1_F_def sha1_f_def low_bits)
qed

lemma low_K: "low (sha1_K t) = sha1_k t"
  by (simp add: sha1_K_def sha1_k_def)

lemma take4_drop: "i + 4 \<le> length b \<Longrightarrow> take 4 (drop i b) = [b ! i, b ! (i + 1), b ! (i + 2), b ! (i + 3)]"
proof -
  assume "i + 4 \<le> length b"
  then have "take 4 (drop i b) = map (\<lambda>j. b ! (i + j)) [0..<4]" by (intro nth_equalityI) simp_all
  then show ?thesis by (simp add: upt_rec numeral_3_eq_3)
qed

lemma low_GET: "length b = 64 \<Longrightarrow> i < 16 \<Longrightarrow> low (GET_ULONG_BE b (4 * i)) = be_words b ! i"
proof -
  assume b: "length b = 64" "i < 16"
  have "be_words b ! i = of_le [b ! (4 * i + 3), b ! (4 * i + 2), b ! (4 * i + 1), b ! (4 * i)]" using b take4_drop[of "4 * i" b] by (simp add: be_words_def)
  also have "\<dots> = low (GET_ULONG_BE b (4 * i))"
    by (rule bit_word_eqI) (auto simp: GET_ULONG_BE_def bit_of_le bit_ucast_iff bit_or_iff bit_push_bit_iff)
  finally show ?thesis ..
qed

lemma PUT_ULONG_BE_spec: "PUT_ULONG_BE w = put_be32 (low w)"
  by (auto simp: PUT_ULONG_BE_def put_be32_def le_bytes_def upt_rec intro!: bit_word_eqI simp: bit_ucast_iff bit_drop_bit_eq)

subsection \<open>The rounds\<close>

text \<open>The registers in the order in which step \<open>t\<close> uses them.\<close>

definition sha1_regs :: "nat \<Rightarrow> u64 list \<Rightarrow> u32 list" where
  "sha1_regs t v = map (\<lambda>i. low (v ! i)) (sha1_args t)"

lemma sha1_P_round:
  assumes "length v = 5" and "low x = sha1_w M t"
  shows "sha1_regs (Suc t) (sha1_P t x v) = sha1_round M t (sha1_regs t v)" "length (sha1_P t x v) = 5"
proof -
  obtain A B C D E where v: "v = [A, B, C, D, E]" using assms(1) by (auto simp: length_Suc_conv eval_nat_numeral)
  have "t mod 5 < 5" by simp
  then consider "t mod 5 = 0" "Suc t mod 5 = 1" | "t mod 5 = 1" "Suc t mod 5 = 2" | "t mod 5 = 2" "Suc t mod 5 = 3" | "t mod 5 = 3" "Suc t mod 5 = 4"
    | "t mod 5 = 4" "Suc t mod 5 = 0" by (simp add: mod_Suc) linarith
  then show "sha1_regs (Suc t) (sha1_P t x v) = sha1_round M t (sha1_regs t v)"
    by cases (simp_all add: v sha1_regs_def sha1_args_def sha1_P_def sha1_round_def Let_def low_simps low_F low_K assms(2) ac_simps)
  show "length (sha1_P t x v) = 5" using assms(1) by (simp add: sha1_P_def Let_def)
qed

lemma sha1_regs_all: "length v = 5 \<Longrightarrow> t mod 5 = 0 \<Longrightarrow> sha1_regs t v = map low v"
proof -
  assume v: "length v = 5" and t: "t mod 5 = 0"
  from v obtain A B C D E where "v = [A, B, C, D, E]" by (auto simp: length_Suc_conv eval_nat_numeral)
  with t show ?thesis by (simp add: sha1_regs_def sha1_args_def)
qed

text \<open>The ring of sixteen words holds the last words of the schedule.\<close>

definition sha1_window :: "u32 list \<Rightarrow> nat \<Rightarrow> u64 list \<Rightarrow> bool" where
  "sha1_window M t W \<longleftrightarrow> length W = 16 \<and> (\<forall>i. t \<le> i + 16 \<and> i < max 16 t \<longrightarrow> low (W ! (i mod 16)) = sha1_w M i)"

lemma sha1_R_window:
  assumes "sha1_window M t W" "16 \<le> t"
  shows "sha1_window M (Suc t) (sha1_R t W)" "low (sha1_R t W ! (t mod 16)) = sha1_w M t"
proof -
  have W: "length W = 16" "t \<le> i + 16 \<Longrightarrow> i < t \<Longrightarrow> low (W ! (i mod 16)) = sha1_w M i" for i
    using assms by (auto simp: sha1_window_def)
  have "t mod 16 = (t - 16) mod 16" using assms(2) by (simp add: le_mod_geq)
  then have "low (S (W ! ((t - 3) mod 16) XOR W ! ((t - 8) mod 16) XOR W ! ((t - 14) mod 16) XOR W ! (t mod 16)) 1) = sha1_w M t"
    using assms(2) W(2)[of "t - 3"] W(2)[of "t - 8"] W(2)[of "t - 14"] W(2)[of "t - 16"] by (subst sha1_w.simps) (simp add: low_simps)
  then show new: "low (sha1_R t W ! (t mod 16)) = sha1_w M t" using W(1) by (simp add: sha1_R_def)
  have "low (sha1_R t W ! (i mod 16)) = sha1_w M i" if i: "Suc t \<le> i + 16" "i < Suc t" for i
  proof (cases "i = t")
    case False
    then have "i mod 16 \<noteq> t mod 16" using i mod_eq_dvd_iff_nat[of i t 16] by (auto dest: dvd_imp_le)
    then show ?thesis using W(2)[of i] i False by (simp add: sha1_R_def)
  qed (use new in simp)
  then show "sha1_window M (Suc t) (sha1_R t W)" using W(1) assms(2) by (simp add: sha1_window_def sha1_R_def)
qed

definition sha1_inv :: "u32 list \<Rightarrow> u32 list \<Rightarrow> nat \<Rightarrow> u64 list \<times> u64 list \<Rightarrow> bool" where
  "sha1_inv M h t vw \<longleftrightarrow> length (fst vw) = 5 \<and> sha1_regs t (fst vw) = sha1_rounds M t h \<and> sha1_window M t (snd vw)"

lemma sha1_step_inv: "sha1_inv M h t vw \<Longrightarrow> sha1_inv M h (Suc t) (sha1_step vw t)"
proof -
  assume inv: "sha1_inv M h t vw"
  obtain v W where vw: "vw = (v, W)" by (cases vw)
  let ?W = "if t < 16 then W else sha1_R t W"
  have "sha1_window M (Suc t) ?W \<and> low (?W ! (t mod 16)) = sha1_w M t"
  proof (cases "t < 16")
    case True
    then show ?thesis using inv vw by (auto simp: sha1_inv_def sha1_window_def max_def split: if_splits)
  next
    case False
    then show ?thesis using sha1_R_window[of M t W] inv vw by (simp add: sha1_inv_def)
  qed
  then show ?thesis using inv vw sha1_P_round[of v "?W ! (t mod 16)" M t]
    by (simp add: sha1_inv_def sha1_step_def Let_def sha1_rounds_def)
qed

lemma map2_low_add: "map low (map2 (+) xs ys) = map2 (+) (map low xs) (map low ys)"
  by (induction xs ys rule: list_induct2') (simp_all add: low_add)

text \<open>The unrolled code computes the compression function in the low halves of its words, whatever the upper halves hold.\<close>

lemma sha1_process_correct:
  assumes "length st = 5" "length b = 64"
  shows "length (sha1_process st b) = 5 \<and> map low (sha1_process st b) = sha1_compress (map low st) b"
proof -
  let ?W = "map (\<lambda>i. GET_ULONG_BE b (4 * i)) [0..<16]" and ?M = "be_words b" and ?h = "map low st"
  have start: "sha1_inv ?M ?h 0 (st, ?W)"
  proof -
    have "low (?W ! (i mod 16)) = sha1_w ?M i" if "i < 16" for i using that low_GET[OF assms(2) that] by (simp add: sha1_w.simps)
    moreover have "sha1_regs 0 st = ?h" using assms(1) by (simp add: sha1_regs_all)
    ultimately show ?thesis using assms(1) by (simp add: sha1_inv_def sha1_window_def sha1_rounds_def)
  qed
  have "sha1_inv ?M ?h n (foldl sha1_step (st, ?W) [0..<n])" for n
    by (induction n) (use start sha1_step_inv in simp_all)
  from this[of 80] obtain v W where f: "foldl sha1_step (st, ?W) [0..<80] = (v, W)" "length v = 5" "sha1_regs 80 v = sha1_rounds ?M 80 ?h"
    by (cases "foldl sha1_step (st, ?W) [0..<80]") (simp add: sha1_inv_def)
  then have "map low v = sha1_rounds ?M 80 ?h" using sha1_regs_all[of v 80] by simp
  then show ?thesis using f(2) assms(1) unfolding sha1_process_def sha1_compress_def f(1) fst_conv map2_low_add by simp
qed

lemma length_put_be32 [simp]: "length (put_be32 w) = 4"
  by (simp add: put_be32_def)

interpretation sha1c: digest sha1_alg 6 5 put_be32 "\<lambda>h l. put_be32 h @ put_be32 l" sha1_compress sha1_iv
  by unfold_locales (simp_all add: sha1_alg_def sha1_starts_def sha1_iv_def sha1_process_correct PUT_ULONG_BE_spec)

text \<open>
  C0: However a message is cut into calls of \<open>sha1_update\<close>, and whatever the context held before, \<open>sha1_finish\<close> gives the digest of
  FIPS 180-1; the 64-bit words of the implementation carry overflowed bits along that never reach the result.
\<close>
theorem sha1_stream_correct:
  assumes "length (cx_buffer junk) = 64" and "\<forall>b \<in> set bufs. length b < 2 ^ 31"
  shows "fst (sha1_finish (foldl (\<lambda>c b. sha1_update b c) (alg_starts sha1_alg junk) bufs)) = sha1_spec (concat bufs)"
  using sha1c.stream_correct[of junk bufs] assms by (simp add: sha1_finish_def sha1_update_def sha1_spec_def sha1_alg_def)

theorem sha1_stream_correct_witness:
  "fst (sha1_finish (foldl (\<lambda>c b. sha1_update b c) (alg_starts sha1_alg zero_ctx) [replicate 70 1, [], [2, 3]])) = sha1_spec (replicate 70 1 @ [2, 3])"
  using sha1_stream_correct[of zero_ctx "[replicate 70 1, [], [2, 3]]"] by (simp add: zero_ctx_def)

text \<open>
  C0: The HMAC functions compute FIPS 198: the digest of the outer pad and of the digest of the inner pad and the message, with a key longer than a
  block replaced by its digest, for messages that arrive in any number of pieces.
\<close>
theorem sha1_hmac_correct:
  assumes "length (cx_buffer junk) = 64" "length (cx_buffer ctx) = 64" "length key < 2 ^ 31" "\<forall>b \<in> set bufs. length b < 2 ^ 31"
  shows "fst (sha1_hmac_finish (foldl (\<lambda>c b. sha1_update b c) (sha1_hmac_starts junk key ctx) bufs)) = hmac_spec 64 sha1_spec key (concat bufs)"
  using sha1c.hmac_correct(1)[of junk ctx key bufs] assms
  by (simp add: sha1_hmac_finish_def sha1_hmac_starts_def sha1_update_def sha1_spec_def[abs_def] sha1_alg_def)

theorem sha1_hmac_correct_witness:
  "fst (sha1_hmac_finish (foldl (\<lambda>c b. sha1_update b c) (sha1_hmac_starts zero_ctx (replicate 80 7) zero_ctx) [[1, 2], [3]])) = hmac_spec 64 sha1_spec (replicate 80 7) [1, 2, 3]"
  using sha1_hmac_correct[of zero_ctx zero_ctx "replicate 80 7" "[[1, 2], [3]]"] by (simp add: zero_ctx_def)

end
