(* ===== verification/Sha1_Class.thy ===== *)
theory Sha1_Class
  imports Hash_Sha1
begin

unbundle bit_operations_syntax

text \<open>The class \<open>SHA1\<close> of \<open>lib/bloom/sha1.cpp\<close>: \<open>unsigned\<close> words of 32 bits, one byte at a time.\<close>

record sha1_object =
  so_H :: "u32 list"
  Length_Low :: u32
  Length_High :: u32
  Message_Block :: "byte list"
  Message_Block_Index :: nat
  Computed :: bool
  Corrupted :: bool

definition sha1_Reset :: "sha1_object \<Rightarrow> sha1_object" where
  "sha1_Reset ob = ob\<lparr>Length_Low := 0, Length_High := 0, Message_Block_Index := 0,
     so_H := [0x67452301, 0xEFCDAB89, 0x98BADCFE, 0x10325476, 0xC3D2E1F0], Computed := False, Corrupted := False\<rparr>"

definition CircularShift :: "nat \<Rightarrow> u32 \<Rightarrow> u32" where
  "CircularShift bits word = (push_bit bits word AND 0xFFFFFFFF) OR drop_bit (32 - bits) (word AND 0xFFFFFFFF)"

text \<open>\<open>ProcessMessageBlock\<close>: the words of the block, the extended sequence, and the four loops over the registers A to E.\<close>

definition block_word :: "byte list \<Rightarrow> nat \<Rightarrow> u32" where
  "block_word blk t = push_bit 24 (ucast (blk ! (t * 4))) OR push_bit 16 (ucast (blk ! (t * 4 + 1))) OR push_bit 8 (ucast (blk ! (t * 4 + 2))) OR ucast (blk ! (t * 4 + 3))"

definition extend_words :: "u32 list \<Rightarrow> nat \<Rightarrow> u32 list" where
  "extend_words W t = W @ [CircularShift 1 (W ! (t - 3) XOR W ! (t - 8) XOR W ! (t - 14) XOR W ! (t - 16))]"

definition word_sequence :: "byte list \<Rightarrow> u32 list" where
  "word_sequence blk = foldl extend_words (map (block_word blk) [0..<16]) [16..<80]"

type_synonym regs = "u32 \<times> u32 \<times> u32 \<times> u32 \<times> u32"

definition reg_loop :: "(u32 \<Rightarrow> u32 \<Rightarrow> u32 \<Rightarrow> u32) \<Rightarrow> u32 \<Rightarrow> u32 list \<Rightarrow> nat list \<Rightarrow> regs \<Rightarrow> regs" where
  "reg_loop F K W ts v = foldl (\<lambda>(A, B, C, D, E) t. (CircularShift 5 A + F B C D + E + W ! t + K, A, CircularShift 30 B, C, D)) v ts"

definition ProcessMessageBlock :: "sha1_object \<Rightarrow> sha1_object" where
  "ProcessMessageBlock ob =
     (let W = word_sequence (Message_Block ob); H = so_H ob; v0 = (H ! 0, H ! 1, H ! 2, H ! 3, H ! 4);
          v1 = reg_loop (\<lambda>B C D. B AND C OR NOT B AND D) 0x5A827999 W [0..<20] v0;
          v2 = reg_loop (\<lambda>B C D. B XOR C XOR D) 0x6ED9EBA1 W [20..<40] v1;
          v3 = reg_loop (\<lambda>B C D. B AND C OR B AND D OR C AND D) 0x8F1BBCDC W [40..<60] v2;
          (A, B, C, D, E) = reg_loop (\<lambda>B C D. B XOR C XOR D) 0xCA62C1D6 W [60..<80] v3
      in ob\<lparr>so_H := [H ! 0 + A, H ! 1 + B, H ! 2 + C, H ! 3 + D, H ! 4 + E], Message_Block_Index := 0\<rparr>)"

definition store_byte :: "byte \<Rightarrow> sha1_object \<Rightarrow> sha1_object" where
  "store_byte b ob = ob\<lparr>Message_Block := (Message_Block ob)[Message_Block_Index ob := b], Message_Block_Index := Message_Block_Index ob + 1\<rparr>"

definition input_byte :: "byte \<Rightarrow> sha1_object \<Rightarrow> sha1_object" where
  "input_byte b ob =
     (let lo = Length_Low ob + 8; hi = (if lo = 0 then Length_High ob + 1 else Length_High ob);
          ob1 = (store_byte b ob)\<lparr>Length_Low := lo, Length_High := hi, Corrupted := Corrupted ob \<or> lo = 0 \<and> hi = 0\<rparr>
      in if Message_Block_Index ob1 = 64 then ProcessMessageBlock ob1 else ob1)"

fun input_loop :: "byte list \<Rightarrow> sha1_object \<Rightarrow> sha1_object" where
  "input_loop [] ob = ob"
| "input_loop (b # bs) ob = (if Corrupted ob then ob else input_loop bs (input_byte b ob))"

definition sha1_Input :: "byte list \<Rightarrow> sha1_object \<Rightarrow> sha1_object" where
  "sha1_Input bs ob = (if bs = [] then ob else if Computed ob \<or> Corrupted ob then ob\<lparr>Corrupted := True\<rparr> else input_loop bs ob)"

text \<open>The operator for strings stops at the first zero byte and passes on one byte per call.\<close>

definition sha1_put_string :: "byte list \<Rightarrow> sha1_object \<Rightarrow> sha1_object" where
  "sha1_put_string s ob = foldl (\<lambda>ob' c. sha1_Input [c] ob') ob (takeWhile (\<lambda>c. c \<noteq> 0) s)"

function pad_zeros :: "nat \<Rightarrow> sha1_object \<Rightarrow> sha1_object" where
  "pad_zeros k ob = (if Message_Block_Index ob < k then pad_zeros k (store_byte 0 ob) else ob)"
  by auto
termination by (relation "measure (\<lambda>(k, ob). k - Message_Block_Index ob)") (auto simp: store_byte_def)

declare pad_zeros.simps [simp del]

definition PadMessage :: "sha1_object \<Rightarrow> sha1_object" where
  "PadMessage ob =
     (let ob1 = (if 55 < Message_Block_Index ob then pad_zeros 56 (ProcessMessageBlock (pad_zeros 64 (store_byte 0x80 ob)))
                 else pad_zeros 56 (store_byte 0x80 ob));
          hi = Length_High ob1; lo = Length_Low ob1
      in ProcessMessageBlock (ob1\<lparr>Message_Block := (Message_Block ob1)
           [56 := ucast (drop_bit 24 hi), 57 := ucast (drop_bit 16 hi), 58 := ucast (drop_bit 8 hi), 59 := ucast hi,
            60 := ucast (drop_bit 24 lo), 61 := ucast (drop_bit 16 lo), 62 := ucast (drop_bit 8 lo), 63 := ucast lo]\<rparr>))"

definition sha1_Result :: "sha1_object \<Rightarrow> u32 list option \<times> sha1_object" where
  "sha1_Result ob =
     (if Corrupted ob then (None, ob)
      else let ob1 = (if Computed ob then ob else (PadMessage ob)\<lparr>Computed := True\<rparr>) in (Some (so_H ob1), ob1))"

subsection \<open>A block\<close>

lemma CircularShift_rotl: "CircularShift n x = rotl32 n x"
proof -
  have "(0xFFFFFFFF :: u32) = - 1" by simp
  then have "x AND 0xFFFFFFFF = x" for x :: u32 by (simp only: and.right_neutral)
  then show ?thesis by (simp add: CircularShift_def rotl32_def)
qed

lemma block_word_spec: "length blk = 64 \<Longrightarrow> t < 16 \<Longrightarrow> block_word blk t = be_words blk ! t"
proof -
  assume "length blk = 64" "t < 16"
  moreover have "block_word blk t = low (GET_ULONG_BE blk (4 * t))"
    by (rule bit_word_eqI) (auto simp: block_word_def GET_ULONG_BE_def bit_simps mult.commute)
  ultimately show ?thesis by (simp add: low_GET)
qed

lemma word_sequence_spec:
  assumes "length blk = 64" "t < 80"
  shows "word_sequence blk ! t = sha1_w (be_words blk) t"
proof -
  have "foldl extend_words (map (block_word blk) [0..<16]) [16..<16 + n] = map (sha1_w (be_words blk)) [0..<16 + n]" for n
  proof (induction n)
    case 0
    show ?case using assms(1) by (simp add: block_word_spec sha1_w.simps)
  next
    case (Suc n)
    have "sha1_w (be_words blk) (16 + n) = CircularShift 1 (sha1_w (be_words blk) (16 + n - 3) XOR sha1_w (be_words blk) (16 + n - 8) XOR
        sha1_w (be_words blk) (16 + n - 14) XOR sha1_w (be_words blk) (16 + n - 16))"
      by (subst sha1_w.simps) (simp add: CircularShift_rotl)
    moreover have u: "[16..<16 + Suc n] = [16..<16 + n] @ [16 + n]" "[0..<16 + Suc n] = [0..<16 + n] @ [16 + n]"
      unfolding add_Suc_right by (rule upt_Suc_append; simp)+
    ultimately show ?case unfolding u foldl_append Suc by (simp add: extend_words_def nth_append)
  qed
  moreover have "16 + 64 = (80 :: nat)" by simp
  ultimately have "word_sequence blk = map (sha1_w (be_words blk)) [0..<80]" unfolding word_sequence_def by metis
  then show ?thesis using assms(2) by simp
qed

lemma regs_cases: obtains A B C D E where "(v :: regs) = (A, B, C, D, E)"
  by (cases v) auto

lemma reg_loop_rounds:
  assumes "m \<le> k" and "\<And>t. m \<le> t \<Longrightarrow> t < k \<Longrightarrow> W ! t = sha1_w M t \<and> F = sha1_f t \<and> K = sha1_k t"
    and "[A, B, C, D, E] = sha1_rounds M m h" and "reg_loop F K W [m..<k] (A, B, C, D, E) = (A', B', C', D', E')"
  shows "[A', B', C', D', E'] = sha1_rounds M k h"
  using assms
proof (induction k arbitrary: A' B' C' D' E' rule: dec_induct)
  case (step k)
  obtain a b c d e where r: "reg_loop F K W [m..<k] (A, B, C, D, E) = (a, b, c, d, e)" by (cases "reg_loop F K W [m..<k] (A, B, C, D, E)")
  then have "[a, b, c, d, e] = sha1_rounds M k h" using step by simp
  moreover have "sha1_rounds M (Suc k) h = sha1_round M k (sha1_rounds M k h)" by (simp add: sha1_rounds_def)
  moreover have "reg_loop F K W [m..<Suc k] (A, B, C, D, E) = (CircularShift 5 a + F b c d + e + W ! k + K, a, CircularShift 30 b, c, d)"
    using r step(1) by (simp add: reg_loop_def)
  moreover have "W ! k = sha1_w M k \<and> F = sha1_f k \<and> K = sha1_k k" using step(1,4) by simp
  ultimately show ?case using step(6) by (auto simp: sha1_round_def CircularShift_rotl dest!: sym[of _ "sha1_rounds M k h"])
qed (simp add: reg_loop_def)

lemma ProcessMessageBlock_correct:
  assumes "length (Message_Block ob) = 64" "length (so_H ob) = 5"
  shows "ProcessMessageBlock ob = ob\<lparr>so_H := sha1_compress (so_H ob) (Message_Block ob), Message_Block_Index := 0\<rparr>"
proof -
  let ?W = "word_sequence (Message_Block ob)" and ?M = "be_words (Message_Block ob)"
  obtain h0 h1 h2 h3 h4 where H: "so_H ob = [h0, h1, h2, h3, h4]" using assms(2) by (auto simp: length_Suc_conv eval_nat_numeral)
  have p1: "?W ! t = sha1_w ?M t \<and> (\<lambda>B C D. B AND C OR NOT B AND D) = sha1_f t \<and> 0x5A827999 = sha1_k t" if "0 \<le> t" "t < 20" for t
    using that word_sequence_spec[OF assms(1), of t] by (simp add: sha1_f_def[abs_def] sha1_k_def)
  have p2: "?W ! t = sha1_w ?M t \<and> (\<lambda>B C D. B XOR C XOR D) = sha1_f t \<and> 0x6ED9EBA1 = sha1_k t" if "20 \<le> t" "t < 40" for t
    using that word_sequence_spec[OF assms(1), of t] by (simp add: sha1_f_def[abs_def] sha1_k_def)
  have p3: "?W ! t = sha1_w ?M t \<and> (\<lambda>B C D. B AND C OR B AND D OR C AND D) = sha1_f t \<and> 0x8F1BBCDC = sha1_k t" if "40 \<le> t" "t < 60" for t
    using that word_sequence_spec[OF assms(1), of t] by (simp add: sha1_f_def[abs_def] sha1_k_def)
  have p4: "?W ! t = sha1_w ?M t \<and> (\<lambda>B C D. B XOR C XOR D) = sha1_f t \<and> 0xCA62C1D6 = sha1_k t" if "60 \<le> t" "t < 80" for t
    using that word_sequence_spec[OF assms(1), of t] by (simp add: sha1_f_def[abs_def] sha1_k_def)
  have le: "(20 :: nat) \<le> 40" "(40 :: nat) \<le> 60" "(60 :: nat) \<le> 80" by simp_all
  have 0: "[h0, h1, h2, h3, h4] = sha1_rounds ?M 0 (so_H ob)" by (simp add: sha1_rounds_def H)
  obtain a1 b1 c1 d1 e1 where r1: "reg_loop (\<lambda>B C D. B AND C OR NOT B AND D) 0x5A827999 ?W [0..<20] (h0, h1, h2, h3, h4) = (a1, b1, c1, d1, e1)"
    by (rule regs_cases)
  note 1 = reg_loop_rounds[OF zero_le p1 0 r1]
  obtain a2 b2 c2 d2 e2 where r2: "reg_loop (\<lambda>B C D. B XOR C XOR D) 0x6ED9EBA1 ?W [20..<40] (a1, b1, c1, d1, e1) = (a2, b2, c2, d2, e2)"
    by (rule regs_cases)
  note 2 = reg_loop_rounds[OF le(1) p2 1 r2]
  obtain a3 b3 c3 d3 e3 where r3: "reg_loop (\<lambda>B C D. B AND C OR B AND D OR C AND D) 0x8F1BBCDC ?W [40..<60] (a2, b2, c2, d2, e2) = (a3, b3, c3, d3, e3)"
    by (rule regs_cases)
  note 3 = reg_loop_rounds[OF le(2) p3 2 r3]
  obtain a4 b4 c4 d4 e4 where r4: "reg_loop (\<lambda>B C D. B XOR C XOR D) 0xCA62C1D6 ?W [60..<80] (a3, b3, c3, d3, e3) = (a4, b4, c4, d4, e4)"
    by (rule regs_cases)
  have "[a4, b4, c4, d4, e4] = sha1_rounds ?M 80 (so_H ob)"
    by (rule reg_loop_rounds[OF le(3) p4 3 r4])
  then have r: "sha1_rounds ?M 80 [h0, h1, h2, h3, h4] = [a4, b4, c4, d4, e4]" by (simp only: H)
  have "sha1_compress (so_H ob) (Message_Block ob) = [h0 + a4, h1 + b4, h2 + c4, h3 + d4, h4 + e4]"
    unfolding sha1_compress_def H r by simp
  moreover have nth: "[h0, h1, h2, h3, h4] ! 0 = h0" "[h0, h1, h2, h3, h4] ! 1 = h1" "[h0, h1, h2, h3, h4] ! 2 = h2" "[h0, h1, h2, h3, h4] ! 3 = h3"
    "[h0, h1, h2, h3, h4] ! 4 = h4" by simp_all
  ultimately show ?thesis unfolding ProcessMessageBlock_def Let_def H nth r1 r2 r3 r4 prod.case by simp
qed

lemma length_sha1_compress: "length h = 5 \<Longrightarrow> length (sha1_compress h b) = 5"
proof -
  assume h: "length h = 5"
  have "length (sha1_rounds M n h) = 5" for M n by (induction n) (use h in \<open>simp_all add: sha1_rounds_def sha1_round_def\<close>)
  then show ?thesis using h by (simp add: sha1_compress_def)
qed

subsection \<open>Messages\<close>

definition sha1_state :: "sha1_object \<Rightarrow> byte list \<Rightarrow> bool" where
  "sha1_state ob m \<longleftrightarrow> length (Message_Block ob) = 64 \<and> length (so_H ob) = 5 \<and> \<not> Computed ob \<and> \<not> Corrupted ob \<and>
     Message_Block_Index ob = length m mod 64 \<and>
     process_blocks 64 sha1_compress sha1_iv m = (so_H ob, take (length m mod 64) (Message_Block ob)) \<and>
     Length_Low ob = of_nat (8 * length m) \<and> Length_High ob = of_nat (8 * length m div 2 ^ 32)"

lemma sha1_Reset_state: "length (Message_Block ob) = 64 \<Longrightarrow> sha1_state (sha1_Reset ob) []"
  by (simp add: sha1_state_def sha1_Reset_def process_blocks_short sha1_iv_def)

lemma byte_count:
  fixes n :: nat
  assumes "8 * (n + 1) < 2 ^ 64"
  defines "lo \<equiv> (of_nat (8 * n) + 8 :: u32)" and "hi \<equiv> (of_nat (8 * n div 2 ^ 32) :: u32)"
  shows "lo = of_nat (8 * (n + 1))" "(if lo = 0 then hi + 1 else hi) = of_nat (8 * (n + 1) div 2 ^ 32)"
    "\<not> (lo = 0 \<and> (if lo = 0 then hi + 1 else hi) = 0)"
proof -
  show lo: "lo = of_nat (8 * (n + 1))" by (simp add: lo_def)
  have z: "lo = 0 \<longleftrightarrow> 2 ^ 32 dvd 8 * (n + 1)" unfolding lo by (simp only: word_of_nat_eq_0_iff) simp
  have div: "8 * (n + 1) div 2 ^ 32 = (if 2 ^ 32 dvd 8 * (n + 1) then Suc (8 * n div 2 ^ 32) else 8 * n div 2 ^ 32)"
  proof -
    have "8 * (n + 1) div 2 ^ 32 = Suc n div 2 ^ 29" "8 * n div 2 ^ 32 = n div 2 ^ 29" using div_mult_mult1[of 8 "Suc n" "2 ^ 29"] div_mult_mult1[of 8 n "2 ^ 29"] by simp_all
    moreover have "2 ^ 32 dvd 8 * (n + 1) \<longleftrightarrow> 2 ^ 29 dvd Suc n" using nat_mult_dvd_cancel1[of 8 "2 ^ 29" "Suc n"] by simp
    ultimately show ?thesis by (simp only: div_Suc dvd_eq_mod_eq_0)
  qed
  then show hi: "(if lo = 0 then hi + 1 else hi) = of_nat (8 * (n + 1) div 2 ^ 32)" unfolding z hi_def by simp
  show "\<not> (lo = 0 \<and> (if lo = 0 then hi + 1 else hi) = 0)"
  proof
    assume a: "lo = 0 \<and> (if lo = 0 then hi + 1 else hi) = 0"
    then have "(of_nat (8 * (n + 1) div 2 ^ 32) :: u32) = 0" using hi by simp
    then have "2 ^ 32 dvd 8 * (n + 1) div 2 ^ 32" by (simp only: word_of_nat_eq_0_iff) simp
    moreover have "0 < 8 * (n + 1) div 2 ^ 32" using a z by (auto simp: dvd_def)
    moreover have "8 * (n + 1) div 2 ^ 32 < 2 ^ 32" using assms(1) by (intro less_mult_imp_div_less) simp
    ultimately show False by (auto dest: dvd_imp_le)
  qed
qed

lemma input_byte_state:
  assumes "sha1_state ob m" "8 * (length m + 1) < 2 ^ 64"
  shows "sha1_state (input_byte b ob) (m @ [b])"
proof -
  let ?n = "length m" and ?r = "length m mod 64" and ?blk = "(Message_Block ob)[length m mod 64 := b]"
  have ob: "length (Message_Block ob) = 64" "length (so_H ob) = 5" "Message_Block_Index ob = ?r" "\<not> Corrupted ob" "\<not> Computed ob"
    "process_blocks 64 sha1_compress sha1_iv m = (so_H ob, take ?r (Message_Block ob))"
    "Length_Low ob = of_nat (8 * ?n)" "Length_High ob = of_nat (8 * ?n div 2 ^ 32)" using assms(1) by (auto simp: sha1_state_def)
  have r: "?r < 64" by simp
  have blk: "take ?r (Message_Block ob) @ [b] = take (Suc ?r) ?blk" using r ob(1) by (simp add: take_Suc_conv_app_nth)
  have all: "process_blocks 64 sha1_compress sha1_iv (m @ [b]) = process_blocks 64 sha1_compress (so_H ob) (take (Suc ?r) ?blk)"
    unfolding process_blocks_append[of _ _ _ m] ob(6) by (simp add: blk)
  define ob1 where "ob1 = ob\<lparr>Message_Block := ?blk, Message_Block_Index := Suc ?r, Length_Low := of_nat (8 * (?n + 1)),
      Length_High := of_nat (8 * (?n + 1) div 2 ^ 32), Corrupted := False\<rparr>"
  note c = byte_count[OF assms(2)]
  have k: "(Corrupted ob \<or> of_nat (8 * (?n + 1)) = (0 :: u32) \<and> of_nat (8 * (?n + 1) div 2 ^ 32) = (0 :: u32)) = False"
    using c(3)[unfolded c(2), unfolded c(1)] ob(4) by simp
  have "input_byte b ob = (if Suc ?r = 64 then ProcessMessageBlock ob1 else ob1)"
    unfolding input_byte_def store_byte_def Let_def ob(3,7,8) c(2) unfolding c(1) k ob1_def by simp
  moreover have "sha1_state (if Suc ?r = 64 then ProcessMessageBlock ob1 else ob1) (m @ [b])"
  proof (cases "Suc ?r = 64")
    case True
    have n: "length (m @ [b]) mod 64 = 0" using True by (simp add: mod_Suc)
    have full: "take (Suc ?r) ?blk = ?blk @ []" using True ob(1) by simp
    have "process_blocks 64 sha1_compress sha1_iv (m @ [b]) = (sha1_compress (so_H ob) ?blk, [])"
      unfolding all full using ob(1) by (subst process_blocks_step) (simp_all add: process_blocks_short)
    then show ?thesis using True ob n by (simp add: sha1_state_def ProcessMessageBlock_correct ob1_def length_sha1_compress)
  next
    case False
    then have n: "length (m @ [b]) mod 64 = Suc ?r" by (simp add: mod_Suc)
    have "process_blocks 64 sha1_compress sha1_iv (m @ [b]) = (so_H ob, take (Suc ?r) ?blk)"
      unfolding all using False r ob(1) by (intro process_blocks_short) simp
    then show ?thesis unfolding sha1_state_def n using False ob by (simp add: ob1_def)
  qed
  ultimately show ?thesis by simp
qed

lemma input_loop_state:
  assumes "sha1_state ob m" "8 * length (m @ bs) < 2 ^ 64"
  shows "sha1_state (input_loop bs ob) (m @ bs)"
  using assms
proof (induction bs arbitrary: ob m)
  case (Cons b bs)
  then have "sha1_state (input_byte b ob) (m @ [b])" by (intro input_byte_state) simp_all
  then show ?case using Cons.IH[of "input_byte b ob" "m @ [b]"] Cons.prems by (simp add: sha1_state_def)
qed simp

lemma sha1_Input_state: "sha1_state ob m \<Longrightarrow> 8 * length (m @ bs) < 2 ^ 64 \<Longrightarrow> sha1_state (sha1_Input bs ob) (m @ bs)"
  using input_loop_state[of ob m bs] by (auto simp: sha1_Input_def sha1_state_def)

lemma sha1_Inputs_state:
  "sha1_state ob m \<Longrightarrow> 8 * length (m @ concat bufs) < 2 ^ 64 \<Longrightarrow> sha1_state (foldl (\<lambda>ob' b. sha1_Input b ob') ob bufs) (m @ concat bufs)"
proof (induction bufs arbitrary: ob m)
  case (Cons b bufs)
  then have "sha1_state (sha1_Input b ob) (m @ b)" by (intro sha1_Input_state) simp_all
  then show ?case using Cons.IH[of "sha1_Input b ob" "m @ b"] Cons.prems by simp
qed simp

subsection \<open>The digest\<close>

lemma pad_zeros_block:
  assumes "Message_Block_Index ob \<le> k" "k \<le> length (Message_Block ob)"
  shows "pad_zeros k ob = ob\<lparr>Message_Block := take (Message_Block_Index ob) (Message_Block ob) @ replicate (k - Message_Block_Index ob) 0 @ drop k (Message_Block ob),
     Message_Block_Index := k\<rparr>"
  using assms
proof (induction k ob rule: pad_zeros.induct)
  case (1 k ob)
  let ?i = "Message_Block_Index ob" and ?b = "Message_Block ob"
  show ?case
  proof (cases "?i < k")
    case True
    then have "take (Suc ?i) (?b[?i := 0]) = take ?i ?b @ [0]" "k - ?i = Suc (k - Suc ?i)" using 1(3) by (simp_all add: take_Suc_conv_app_nth)
    then show ?thesis using 1 True by (subst pad_zeros.simps) (simp add: store_byte_def replicate_append_same[symmetric])
  next
    case False
    then show ?thesis using 1(2) by (subst pad_zeros.simps) simp
  qed
qed

lemma store_length:
  assumes "length blk = 64"
  shows "blk[56 := ucast (drop_bit 24 hi), 57 := ucast (drop_bit 16 hi), 58 := ucast (drop_bit 8 hi), 59 := ucast hi,
      60 := ucast (drop_bit 24 lo), 61 := ucast (drop_bit 16 lo), 62 := ucast (drop_bit 8 lo), 63 := ucast lo] = take 56 blk @ put_be32 hi @ put_be32 lo"
proof -
  have put: "put_be32 w = [ucast (drop_bit 24 w), ucast (drop_bit 16 w), ucast (drop_bit 8 w), ucast w]" for w
    by (simp add: put_be32_def le_bytes_def upt_rec)
  obtain x where x: "drop 56 blk = x" by simp
  then have "length x = 8" "blk = take 56 blk @ x" using assms by auto
  then obtain a b c d e f g h where "blk = take 56 blk @ [a, b, c, d, e, f, g, h]" by (auto simp: length_Suc_conv eval_nat_numeral)
  moreover have "length (take 56 blk) = 56" using assms by simp
  ultimately obtain p a b c d e f g h where "blk = p @ [a, b, c, d, e, f, g, h]" "length p = 56" by metis
  then show ?thesis unfolding put by (simp add: list_update_append)
qed

abbreviation sha1_tail :: "u32 \<Rightarrow> u32 \<Rightarrow> byte list" where "sha1_tail h l \<equiv> put_be32 h @ put_be32 l"

definition sha1_words :: "byte list \<Rightarrow> u32 list" where
  "sha1_words m = foldl sha1_compress sha1_iv (chunks 64 (md_pad 64 sha1_tail m))"

lemma PadMessage_correct:
  assumes "sha1_state ob m"
  shows "so_H (PadMessage ob) = sha1_words m"
proof -
  let ?n = "length m" and ?r = "length m mod 64" and ?B = "Message_Block ob" and ?H = "so_H ob"
  let ?tail = "sha1_tail (of_nat (8 * ?n div 2 ^ 32)) (of_nat (8 * ?n))"
  have ob: "length ?B = 64" "length ?H = 5" "Message_Block_Index ob = ?r" "process_blocks 64 sha1_compress sha1_iv m = (?H, take ?r ?B)"
    "Length_Low ob = of_nat (8 * ?n)" "Length_High ob = of_nat (8 * ?n div 2 ^ 32)" using assms by (auto simp: sha1_state_def)
  have r: "?r < 64" by simp
  define z where "z = (if ?r < 56 then 55 - ?r else 119 - ?r)"
  have alg: "ha_block sha1_alg = 64" "ha_word sha1_alg = 4" by (simp_all add: sha1_alg_def)
  have "Suc z = (if ?r < 64 - 2 * 4 then 64 - 2 * 4 - ?r else 2 * 64 - 2 * 4 - ?r)" using r unfolding z_def by (simp split: if_split) linarith
  then have "take (Suc z) (alg_padding 64) = 0x80 # replicate ((64 - (?n + 1 + 2 * 4) mod 64) mod 64) 0"
    using sha1c.padding_correct(1)[of ?n, unfolded alg] by simp
  then have "md_pad 64 sha1_tail m = m @ take (Suc z) (alg_padding 64) @ ?tail" by (simp add: md_pad_def Let_def)
  moreover have "take (Suc z) (alg_padding 64) = 0x80 # replicate z 0" using r by (simp add: alg_padding_def take_replicate z_def)
  ultimately have pad: "md_pad 64 sha1_tail m = m @ 0x80 # replicate z 0 @ ?tail" by simp
  have words: "sha1_words m = fst (process_blocks 64 sha1_compress ?H (take ?r ?B @ 0x80 # replicate z 0 @ ?tail))"
    unfolding sha1_words_def pad process_blocks_chunks[symmetric, OF zero_less_numeral] process_blocks_append[of _ _ _ m] ob(4) by simp
  have st: "take (Suc ?r) (?B[?r := 0x80]) = take ?r ?B @ [0x80]" using r ob(1) by (simp add: take_Suc_conv_app_nth)
  show ?thesis
  proof (cases "?r < 56")
    case True
    let ?b = "take ?r ?B @ 0x80 # replicate z 0 @ ?tail"
    have b: "length ?b = 64" using True ob(1) by (simp add: z_def)
    have e: "56 - ?r = Suc (55 - ?r)" using True by arith
    have "so_H (PadMessage ob) = sha1_compress ?H ?b"
      using True ob b by (simp add: e PadMessage_def Let_def store_byte_def pad_zeros_block st store_length ProcessMessageBlock_correct z_def)
    moreover have "process_blocks 64 sha1_compress ?H (?b @ []) = (sha1_compress ?H ?b, [])"
      using b by (subst process_blocks_step) (simp_all add: process_blocks_short)
    ultimately show ?thesis using words by simp
  next
    case False
    let ?b = "take ?r ?B @ 0x80 # replicate (63 - ?r) 0" and ?c = "replicate 56 0 @ ?tail"
    have b: "length ?b = 64" "length ?c = 64" using False r ob(1) by simp_all
    have "so_H (PadMessage ob) = sha1_compress (sha1_compress ?H ?b) ?c"
      using False r ob b by (simp add: PadMessage_def Let_def store_byte_def pad_zeros_block st store_length ProcessMessageBlock_correct length_sha1_compress)
    moreover have z: "z = (63 - ?r) + 56" using False r by (simp add: z_def)
    have "take ?r ?B @ 0x80 # replicate z 0 @ ?tail = ?b @ ?c @ []" unfolding z replicate_add by simp
    moreover have "process_blocks 64 sha1_compress ?H (?b @ ?c @ []) = (sha1_compress (sha1_compress ?H ?b) ?c, [])"
      unfolding process_blocks_step[OF b(1) zero_less_numeral] process_blocks_step[OF b(2) zero_less_numeral] by (rule process_blocks_short) simp
    ultimately show ?thesis using words by simp
  qed
qed

text \<open>The bytes of the digest are those of the standard; the class returns them as words.\<close>

lemma sha1_words_spec: "concat (map put_be32 (sha1_words m)) = sha1_spec m"
proof -
  have "length (foldl sha1_compress h bs) = 5" if "length h = 5" for h bs
    using that by (induction bs arbitrary: h) (simp_all add: length_sha1_compress)
  then have "length (sha1_words m) = 5" by (simp add: sha1_words_def sha1_iv_def)
  then show ?thesis by (simp add: sha1_words_def sha1_spec_def md_hash_def)
qed

text \<open>
  C0: The class computes SHA-1 of everything it was given since it was reset, however it was given, for messages shorter than \<open>2 ^ 64\<close> bits; a second
  call gives the same digest, and an object that is given more after that reports failure from then on.
\<close>
theorem sha1_class_correct:
  assumes "length (Message_Block ob) = 64" and "8 * length (concat bufs) < 2 ^ 64"
  shows "\<exists>ob'. sha1_Result (foldl (\<lambda>ob' b. sha1_Input b ob') (sha1_Reset ob) bufs) = (Some (sha1_words (concat bufs)), ob') \<and>
     sha1_Result ob' = (Some (sha1_words (concat bufs)), ob') \<and> concat (map put_be32 (sha1_words (concat bufs))) = sha1_spec (concat bufs) \<and>
     (\<forall>b. b \<noteq> [] \<longrightarrow> fst (sha1_Result (sha1_Input b ob')) = None)"
proof -
  let ?ob = "foldl (\<lambda>ob' b. sha1_Input b ob') (sha1_Reset ob) bufs"
  have st: "sha1_state ?ob (concat bufs)" using sha1_Inputs_state[OF sha1_Reset_state[OF assms(1)], of bufs] assms(2) by simp
  define ob2 where "ob2 = (PadMessage ?ob)\<lparr>Computed := True\<rparr>"
  have H: "so_H ob2 = sha1_words (concat bufs)" "Computed ob2" using PadMessage_correct[OF st] by (simp_all add: ob2_def)
  have "Corrupted (PadMessage ob) = Corrupted ob" for ob
  proof -
    have "Corrupted (ProcessMessageBlock ob) = Corrupted ob" for ob by (simp add: ProcessMessageBlock_def Let_def split: prod.split)
    moreover have "Corrupted (pad_zeros k ob) = Corrupted ob" for k ob
      by (induction k ob rule: pad_zeros.induct) (subst pad_zeros.simps, simp add: store_byte_def)
    ultimately show ?thesis by (simp add: PadMessage_def Let_def store_byte_def)
  qed
  then have "\<not> Corrupted ob2" using st by (simp add: ob2_def sha1_state_def)
  moreover have "sha1_Result ?ob = (Some (sha1_words (concat bufs)), ob2)" using st H by (simp add: sha1_Result_def sha1_state_def ob2_def Let_def)
  ultimately show ?thesis using H sha1_words_spec by (intro exI[of _ ob2]) (simp add: sha1_Result_def sha1_Input_def)
qed

definition zero_object :: sha1_object where
  "zero_object = \<lparr>so_H = replicate 5 0, Length_Low = 0, Length_High = 0, Message_Block = replicate 64 0, Message_Block_Index = 0, Computed = False, Corrupted = True\<rparr>"

theorem sha1_class_correct_witness:
  "\<exists>ob'. sha1_Result (foldl (\<lambda>ob' b. sha1_Input b ob') (sha1_Reset zero_object) [[97], [98, 99]]) = (Some (sha1_words [97, 98, 99]), ob') \<and>
     concat (map put_be32 (sha1_words [97, 98, 99])) = sha1_spec [97, 98, 99] \<and> fst (sha1_Result (sha1_Input [1] ob')) = None"
  using sha1_class_correct[of zero_object "[[97], [98, 99]]"] by (auto simp: zero_object_def)

end
