(* ===== verification/Hash_Md5.thy ===== *)
theory Hash_Md5
  imports Hash_Sha1
begin

unbundle bit_operations_syntax

text \<open>
  \<open>lib/hash/C/md5.c\<close>: as SHA-1, with four registers, little-endian words and a table of the rows of the unrolled rounds: the index of the
  message word, the rotation and the constant of each row. Shown to compute the function of RFC 1321.
\<close>

subsection \<open>The standard\<close>

definition le_words :: "byte list \<Rightarrow> u32 list" where
  "le_words b = map (\<lambda>i. of_le (take 4 (drop (4 * i) b))) [0..<length b div 4]"

definition md5_k :: "nat \<Rightarrow> nat" where
  "md5_k i = (if i < 16 then i else if i < 32 then (5 * i + 1) mod 16 else if i < 48 then (3 * i + 5) mod 16 else 7 * i mod 16)"

definition md5_s :: "nat \<Rightarrow> nat" where
  "md5_s i = (if i < 16 then [7, 12, 17, 22] else if i < 32 then [5, 9, 14, 20] else if i < 48 then [4, 11, 16, 23] else [6, 10, 15, 21]) ! (i mod 4)"

definition md5_T :: "u32 list" where
  "md5_T =
    [0xD76AA478, 0xE8C7B756, 0x242070DB, 0xC1BDCEEE, 0xF57C0FAF, 0x4787C62A, 0xA8304613, 0xFD469501,
     0x698098D8, 0x8B44F7AF, 0xFFFF5BB1, 0x895CD7BE, 0x6B901122, 0xFD987193, 0xA679438E, 0x49B40821,
     0xF61E2562, 0xC040B340, 0x265E5A51, 0xE9B6C7AA, 0xD62F105D, 0x02441453, 0xD8A1E681, 0xE7D3FBC8,
     0x21E1CDE6, 0xC33707D6, 0xF4D50D87, 0x455A14ED, 0xA9E3E905, 0xFCEFA3F8, 0x676F02D9, 0x8D2A4C8A,
     0xFFFA3942, 0x8771F681, 0x6D9D6122, 0xFDE5380C, 0xA4BEEA44, 0x4BDECFA9, 0xF6BB4B60, 0xBEBFBC70,
     0x289B7EC6, 0xEAA127FA, 0xD4EF3085, 0x04881D05, 0xD9D4D039, 0xE6DB99E5, 0x1FA27CF8, 0xC4AC5665,
     0xF4292244, 0x432AFF97, 0xAB9423A7, 0xFC93A039, 0x655B59C3, 0x8F0CCC92, 0xFFEFF47D, 0x85845DD1,
     0x6FA87E4F, 0xFE2CE6E0, 0xA3014314, 0x4E0811A1, 0xF7537E82, 0xBD3AF235, 0x2AD7D2BB, 0xEB86D391]"

definition md5_f :: "nat \<Rightarrow> u32 \<Rightarrow> u32 \<Rightarrow> u32 \<Rightarrow> u32" where
  "md5_f i x y z = (if i < 16 then x AND y OR NOT x AND z else if i < 32 then x AND z OR y AND NOT z
     else if i < 48 then x XOR y XOR z else y XOR (x OR NOT z))"

definition md5_round :: "u32 list \<Rightarrow> nat \<Rightarrow> u32 list \<Rightarrow> u32 list" where
  "md5_round M i v = [v ! 3, v ! 1 + rotl32 (md5_s i) (v ! 0 + md5_f i (v ! 1) (v ! 2) (v ! 3) + M ! md5_k i + md5_T ! i), v ! 1, v ! 2]"

definition md5_compress :: "u32 list \<Rightarrow> byte list \<Rightarrow> u32 list" where
  "md5_compress h b = map2 (+) h (foldl (\<lambda>v i. md5_round (le_words b) i v) h [0..<64])"

definition md5_iv :: "u32 list" where
  "md5_iv = [0x67452301, 0xEFCDAB89, 0x98BADCFE, 0x10325476]"

abbreviation put_le32 :: "u32 \<Rightarrow> byte list" where "put_le32 \<equiv> le_bytes 4"

definition md5_spec :: "byte list \<Rightarrow> byte list" where
  "md5_spec = md_hash 64 4 put_le32 (\<lambda>h l. put_le32 l @ put_le32 h) md5_compress md5_iv"

subsection \<open>The C functions\<close>

definition GET_ULONG_LE :: "byte list \<Rightarrow> nat \<Rightarrow> u64" where
  "GET_ULONG_LE b i = ucast (b ! i) OR push_bit 8 (ucast (b ! (i + 1))) OR push_bit 16 (ucast (b ! (i + 2))) OR push_bit 24 (ucast (b ! (i + 3)))"

definition PUT_ULONG_LE :: "u64 \<Rightarrow> byte list" where
  "PUT_ULONG_LE n = [ucast n, ucast (drop_bit 8 n), ucast (drop_bit 16 n), ucast (drop_bit 24 n)]"

definition md5_F :: "nat \<Rightarrow> u64 \<Rightarrow> u64 \<Rightarrow> u64 \<Rightarrow> u64" where
  "md5_F i x y z = (if i < 16 then z XOR x AND (y XOR z) else if i < 32 then y XOR z AND (x XOR y)
     else if i < 48 then x XOR y XOR z else y XOR (x OR NOT z))"

definition md5_args :: "nat \<Rightarrow> nat list" where
  "md5_args i = [[0, 1, 2, 3], [3, 0, 1, 2], [2, 3, 0, 1], [1, 2, 3, 0]] ! (i mod 4)"

definition md5_rows :: "(nat \<times> nat \<times> u64) list" where
  "md5_rows =
    [(0, 7, 0xD76AA478), (1, 12, 0xE8C7B756), (2, 17, 0x242070DB), (3, 22, 0xC1BDCEEE),
     (4, 7, 0xF57C0FAF), (5, 12, 0x4787C62A), (6, 17, 0xA8304613), (7, 22, 0xFD469501),
     (8, 7, 0x698098D8), (9, 12, 0x8B44F7AF), (10, 17, 0xFFFF5BB1), (11, 22, 0x895CD7BE),
     (12, 7, 0x6B901122), (13, 12, 0xFD987193), (14, 17, 0xA679438E), (15, 22, 0x49B40821),
     (1, 5, 0xF61E2562), (6, 9, 0xC040B340), (11, 14, 0x265E5A51), (0, 20, 0xE9B6C7AA),
     (5, 5, 0xD62F105D), (10, 9, 0x02441453), (15, 14, 0xD8A1E681), (4, 20, 0xE7D3FBC8),
     (9, 5, 0x21E1CDE6), (14, 9, 0xC33707D6), (3, 14, 0xF4D50D87), (8, 20, 0x455A14ED),
     (13, 5, 0xA9E3E905), (2, 9, 0xFCEFA3F8), (7, 14, 0x676F02D9), (12, 20, 0x8D2A4C8A),
     (5, 4, 0xFFFA3942), (8, 11, 0x8771F681), (11, 16, 0x6D9D6122), (14, 23, 0xFDE5380C),
     (1, 4, 0xA4BEEA44), (4, 11, 0x4BDECFA9), (7, 16, 0xF6BB4B60), (10, 23, 0xBEBFBC70),
     (13, 4, 0x289B7EC6), (0, 11, 0xEAA127FA), (3, 16, 0xD4EF3085), (6, 23, 0x04881D05),
     (9, 4, 0xD9D4D039), (12, 11, 0xE6DB99E5), (15, 16, 0x1FA27CF8), (2, 23, 0xC4AC5665),
     (0, 6, 0xF4292244), (7, 10, 0x432AFF97), (14, 15, 0xAB9423A7), (5, 21, 0xFC93A039),
     (12, 6, 0x655B59C3), (3, 10, 0x8F0CCC92), (10, 15, 0xFFEFF47D), (1, 21, 0x85845DD1),
     (8, 6, 0x6FA87E4F), (15, 10, 0xFE2CE6E0), (6, 15, 0xA3014314), (13, 21, 0x4E0811A1),
     (4, 6, 0xF7537E82), (11, 10, 0xBD3AF235), (2, 15, 0x2AD7D2BB), (9, 21, 0xEB86D391)]"

definition md5_P :: "u64 list \<Rightarrow> u64 list \<Rightarrow> nat \<Rightarrow> u64 list" where
  "md5_P X v i =
     (let j = md5_args i; a = j ! 0; b = j ! 1; c = j ! 2; d = j ! 3; (k, s, t) = md5_rows ! i;
          a' = v ! a + (md5_F i (v ! b) (v ! c) (v ! d) + X ! k + t)
      in v[a := S a' s + v ! b])"

definition md5_process :: "u64 list \<Rightarrow> byte list \<Rightarrow> u64 list" where
  "md5_process st data = map2 (+) st (foldl (md5_P (map (\<lambda>i. GET_ULONG_LE data (4 * i)) [0..<16])) st [0..<64])"

definition md5_starts :: "u64 list" where
  "md5_starts = [0x67452301, 0xEFCDAB89, 0x98BADCFE, 0x10325476]"

definition md5_alg :: hash_alg where
  "md5_alg = \<lparr>ha_block = 64, ha_word = 4, ha_out = 4, ha_put = PUT_ULONG_LE, ha_len = (\<lambda>high low. PUT_ULONG_LE low @ PUT_ULONG_LE high),
     ha_init = md5_starts, ha_process = md5_process\<rparr>"

definition md5_update :: "byte list \<Rightarrow> hash_ctx \<Rightarrow> hash_ctx" where "md5_update = alg_update md5_alg"
definition md5_finish :: "hash_ctx \<Rightarrow> byte list \<times> hash_ctx" where "md5_finish = alg_finish md5_alg"
definition md5 :: "hash_ctx \<Rightarrow> byte list \<Rightarrow> byte list" where "md5 = alg_digest md5_alg"
definition md5_file :: "hash_ctx \<Rightarrow> byte list list option \<Rightarrow> bool \<Rightarrow> int \<times> byte list option" where "md5_file = alg_file md5_alg"
definition md5_hmac_starts :: "hash_ctx \<Rightarrow> byte list \<Rightarrow> hash_ctx \<Rightarrow> hash_ctx" where "md5_hmac_starts = alg_hmac_starts md5_alg"
definition md5_hmac_finish :: "hash_ctx \<Rightarrow> byte list \<times> hash_ctx" where "md5_hmac_finish = alg_hmac_finish md5_alg"
definition md5_hmac_reset :: "hash_ctx \<Rightarrow> hash_ctx" where "md5_hmac_reset = alg_hmac_reset md5_alg"
definition md5_hmac :: "hash_ctx \<Rightarrow> hash_ctx \<Rightarrow> byte list \<Rightarrow> byte list \<Rightarrow> byte list" where "md5_hmac = alg_hmac md5_alg"

subsection \<open>The rounds\<close>

lemma low_md5_F: "low (md5_F i x y z) = md5_f i (low x) (low y) (low z)"
proof -
  have "low z XOR low x AND (low y XOR low z) = low x AND low y OR NOT (low x) AND low z"
    "low y XOR low z AND (low x XOR low y) = low x AND low z OR low y AND NOT (low z)"
    by (rule bit_word_eqI, auto simp: bit_simps)+
  then show ?thesis by (simp add: md5_F_def md5_f_def low_bits)
qed

lemma low_GET_LE: "length b = 64 \<Longrightarrow> i < 16 \<Longrightarrow> low (GET_ULONG_LE b (4 * i)) = le_words b ! i"
proof -
  assume b: "length b = 64" "i < 16"
  have "le_words b ! i = of_le [b ! (4 * i), b ! (4 * i + 1), b ! (4 * i + 2), b ! (4 * i + 3)]" using b take4_drop[of "4 * i" b] by (simp add: le_words_def)
  also have "\<dots> = low (GET_ULONG_LE b (4 * i))"
    by (rule bit_word_eqI) (auto simp: GET_ULONG_LE_def bit_of_le bit_ucast_iff bit_or_iff bit_push_bit_iff)
  finally show ?thesis ..
qed

lemma PUT_ULONG_LE_spec: "PUT_ULONG_LE w = put_le32 (low w)"
  by (auto simp: PUT_ULONG_LE_def le_bytes_def upt_rec intro!: bit_word_eqI simp: bit_ucast_iff bit_drop_bit_eq)

text \<open>The rows of the code have the indices and rotations of the standard, and its constants.\<close>

lemma md5_rows_spec: "map (\<lambda>(k, s, t). (k, s, low t)) md5_rows = map (\<lambda>i. (md5_k i, md5_s i, md5_T ! i)) [0..<64]"
  by code_simp

lemma md5_row: "i < 64 \<Longrightarrow> md5_rows ! i = (k, s, t) \<Longrightarrow> k = md5_k i \<and> s = md5_s i \<and> low t = md5_T ! i \<and> k < 16 \<and> 0 < s \<and> s < 32"
proof -
  assume i: "i < 64" and row: "md5_rows ! i = (k, s, t)"
  have len: "length md5_rows = 64" using arg_cong[OF md5_rows_spec, of length] by simp
  have "map (\<lambda>(k, s, t). (k, s, low t)) md5_rows ! i = (md5_k i, md5_s i, md5_T ! i)" unfolding md5_rows_spec using i by simp
  then have "k = md5_k i" "s = md5_s i" "low t = md5_T ! i" using i row len by simp_all
  moreover have "i mod 4 < 4" by simp
  then have "i mod 4 = 0 \<or> i mod 4 = 1 \<or> i mod 4 = 2 \<or> i mod 4 = 3" by linarith
  then have "0 < md5_s i \<and> md5_s i < 32" by (auto simp: md5_s_def)
  moreover have "md5_k i < 16" by (simp add: md5_k_def)
  ultimately show ?thesis by simp
qed

definition md5_regs :: "nat \<Rightarrow> u64 list \<Rightarrow> u32 list" where
  "md5_regs i v = map (\<lambda>j. low (v ! j)) (md5_args i)"

lemma md5_P_round:
  assumes "length v = 4" "i < 64" and X: "\<And>k. k < 16 \<Longrightarrow> low (X ! k) = M ! k"
  shows "md5_regs (Suc i) (md5_P X v i) = md5_round M i (md5_regs i v)" "length (md5_P X v i) = 4"
proof -
  obtain A B C D where v: "v = [A, B, C, D]" using assms(1) by (auto simp: length_Suc_conv eval_nat_numeral)
  obtain k s t where row: "md5_rows ! i = (k, s, t)" by (cases "md5_rows ! i")
  note r = md5_row[OF assms(2) row]
  have xk: "low (X ! k) = M ! md5_k i" using X r by simp
  have "i mod 4 < 4" by simp
  then consider "i mod 4 = 0" "Suc i mod 4 = 1" | "i mod 4 = 1" "Suc i mod 4 = 2" | "i mod 4 = 2" "Suc i mod 4 = 3" | "i mod 4 = 3" "Suc i mod 4 = 0"
    by (simp add: mod_Suc) linarith
  then show "md5_regs (Suc i) (md5_P X v i) = md5_round M i (md5_regs i v)"
    by cases (use r xk in \<open>simp_all add: v row md5_regs_def md5_args_def md5_P_def md5_round_def Let_def low_simps low_md5_F ac_simps\<close>)
  show "length (md5_P X v i) = 4" using assms(1) by (simp add: md5_P_def Let_def row)
qed

lemma md5_regs_all: "length v = 4 \<Longrightarrow> i mod 4 = 0 \<Longrightarrow> md5_regs i v = map low v"
proof -
  assume v: "length v = 4" and i: "i mod 4 = 0"
  from v obtain A B C D where "v = [A, B, C, D]" by (auto simp: length_Suc_conv eval_nat_numeral)
  with i show ?thesis by (simp add: md5_regs_def md5_args_def)
qed

lemma md5_process_correct:
  assumes "length st = 4" "length b = 64"
  shows "length (md5_process st b) = 4 \<and> map low (md5_process st b) = md5_compress (map low st) b"
proof -
  let ?X = "map (\<lambda>i. GET_ULONG_LE b (4 * i)) [0..<16]" and ?M = "le_words b" and ?h = "map low st"
  have X: "low (?X ! k) = ?M ! k" if "k < 16" for k using low_GET_LE[OF assms(2) that] that by simp
  have "length (foldl (md5_P ?X) st [0..<n]) = 4 \<and> md5_regs n (foldl (md5_P ?X) st [0..<n]) = foldl (\<lambda>v i. md5_round ?M i v) ?h [0..<n]" if "n \<le> 64" for n
    using that
  proof (induction n)
    case 0
    show ?case using md5_regs_all[of st 0] assms(1) by simp
  next
    case (Suc n)
    then show ?case using md5_P_round[of "foldl (md5_P ?X) st [0..<n]" n ?X ?M] X by simp
  qed
  from this[of 64] have "length (foldl (md5_P ?X) st [0..<64]) = 4" "map low (foldl (md5_P ?X) st [0..<64]) = foldl (\<lambda>v i. md5_round ?M i v) ?h [0..<64]"
    using md5_regs_all[of "foldl (md5_P ?X) st [0..<64]" 64] by simp_all
  then show ?thesis unfolding md5_process_def md5_compress_def map2_low_add using assms(1) by simp
qed

interpretation md5c: digest md5_alg 6 4 put_le32 "\<lambda>h l. put_le32 l @ put_le32 h" md5_compress md5_iv
  by unfold_locales (simp_all add: md5_alg_def md5_starts_def md5_iv_def md5_process_correct PUT_ULONG_LE_spec)

text \<open>C0: However a message is cut into calls of \<open>md5_update\<close>, \<open>md5_finish\<close> gives its digest as RFC 1321 defines it.\<close>
theorem md5_stream_correct:
  assumes "length (cx_buffer junk) = 64" and "\<forall>b \<in> set bufs. length b < 2 ^ 31"
  shows "fst (md5_finish (foldl (\<lambda>c b. md5_update b c) (alg_starts md5_alg junk) bufs)) = md5_spec (concat bufs)"
  using md5c.stream_correct[of junk bufs] assms by (simp add: md5_finish_def md5_update_def md5_spec_def md5_alg_def)

theorem md5_stream_correct_witness:
  "fst (md5_finish (foldl (\<lambda>c b. md5_update b c) (alg_starts md5_alg zero_ctx) [replicate 70 1, [], [2, 3]])) = md5_spec (replicate 70 1 @ [2, 3])"
  using md5_stream_correct[of zero_ctx "[replicate 70 1, [], [2, 3]]"] by (simp add: zero_ctx_def)

lemma md5_hmac_correct:
  assumes "length (cx_buffer junk) = 64" "length (cx_buffer ctx) = 64" "length key < 2 ^ 31" "\<forall>b \<in> set bufs. length b < 2 ^ 31"
  shows "fst (md5_hmac_finish (foldl (\<lambda>c b. md5_update b c) (md5_hmac_starts junk key ctx) bufs)) = hmac_spec 64 md5_spec key (concat bufs)"
  using md5c.hmac_correct(1)[of junk ctx key bufs] assms
  by (simp add: md5_hmac_finish_def md5_hmac_starts_def md5_update_def md5_spec_def[abs_def] md5_alg_def)

end
