(* ===== verification/Hash_Sha2.thy ===== *)
theory Hash_Sha2
  imports Hash_Sha1
begin

unbundle bit_operations_syntax

text \<open>
  \<open>lib/hash/C/sha2.c\<close> (SHA-224 and SHA-256, 32-bit words computed in 64 bits) and \<open>lib/hash/C/sha4.c\<close> (SHA-384 and SHA-512). The two
  files share the step \<open>P\<close> and the functions \<open>F0\<close> and \<open>F1\<close>; they differ in the rotations, the constants and the sizes. Shown to compute
  the functions of FIPS 180-2, with the constants that standard derives from cube roots.
\<close>

subsection \<open>The standard\<close>

definition rotr :: "nat \<Rightarrow> 'w::len word \<Rightarrow> 'w word" where
  "rotr n x = drop_bit n x OR push_bit (LENGTH('w) - n) x"

text \<open>The four functions of a member of the family, and its round constants.\<close>

record 'a sha_family =
  big_sigma0 :: "'a \<Rightarrow> 'a"
  big_sigma1 :: "'a \<Rightarrow> 'a"
  small_sigma0 :: "'a \<Rightarrow> 'a"
  small_sigma1 :: "'a \<Rightarrow> 'a"
  round_constants :: "'a list"

definition sha_ch :: "'w::len word \<Rightarrow> 'w word \<Rightarrow> 'w word \<Rightarrow> 'w word" where "sha_ch x y z = (x AND y) XOR (NOT x AND z)"
definition sha_maj :: "'w::len word \<Rightarrow> 'w word \<Rightarrow> 'w word \<Rightarrow> 'w word" where "sha_maj x y z = (x AND y) XOR (x AND z) XOR (y AND z)"

fun sha_w :: "'w::len word sha_family \<Rightarrow> 'w word list \<Rightarrow> nat \<Rightarrow> 'w word" where
  "sha_w F M t = (if t < 16 then M ! t
     else small_sigma1 F (sha_w F M (t - 2)) + sha_w F M (t - 7) + small_sigma0 F (sha_w F M (t - 15)) + sha_w F M (t - 16))"

declare sha_w.simps [simp del]

definition sha_round :: "'w::len word sha_family \<Rightarrow> 'w word list \<Rightarrow> nat \<Rightarrow> 'w word list \<Rightarrow> 'w word list" where
  "sha_round F M t v =
     (let T1 = v ! 7 + big_sigma1 F (v ! 4) + sha_ch (v ! 4) (v ! 5) (v ! 6) + round_constants F ! t + sha_w F M t;
          T2 = big_sigma0 F (v ! 0) + sha_maj (v ! 0) (v ! 1) (v ! 2)
      in [T1 + T2, v ! 0, v ! 1, v ! 2, v ! 3 + T1, v ! 4, v ! 5, v ! 6])"

definition sha_compress :: "'w::len word sha_family \<Rightarrow> (byte list \<Rightarrow> 'w word list) \<Rightarrow> 'w word list \<Rightarrow> byte list \<Rightarrow> 'w word list" where
  "sha_compress F words h b = map2 (+) h (foldl (\<lambda>v t. sha_round F (words b) t v) h [0..<length (round_constants F)])"

definition sha256_family :: "u32 sha_family" where
  "sha256_family = \<lparr>big_sigma0 = (\<lambda>x. rotr 2 x XOR rotr 13 x XOR rotr 22 x), big_sigma1 = (\<lambda>x. rotr 6 x XOR rotr 11 x XOR rotr 25 x),
     small_sigma0 = (\<lambda>x. rotr 7 x XOR rotr 18 x XOR drop_bit 3 x), small_sigma1 = (\<lambda>x. rotr 17 x XOR rotr 19 x XOR drop_bit 10 x),
     round_constants =
    [0x428A2F98, 0x71374491, 0xB5C0FBCF, 0xE9B5DBA5, 0x3956C25B, 0x59F111F1, 0x923F82A4, 0xAB1C5ED5,
     0xD807AA98, 0x12835B01, 0x243185BE, 0x550C7DC3, 0x72BE5D74, 0x80DEB1FE, 0x9BDC06A7, 0xC19BF174,
     0xE49B69C1, 0xEFBE4786, 0x0FC19DC6, 0x240CA1CC, 0x2DE92C6F, 0x4A7484AA, 0x5CB0A9DC, 0x76F988DA,
     0x983E5152, 0xA831C66D, 0xB00327C8, 0xBF597FC7, 0xC6E00BF3, 0xD5A79147, 0x06CA6351, 0x14292967,
     0x27B70A85, 0x2E1B2138, 0x4D2C6DFC, 0x53380D13, 0x650A7354, 0x766A0ABB, 0x81C2C92E, 0x92722C85,
     0xA2BFE8A1, 0xA81A664B, 0xC24B8B70, 0xC76C51A3, 0xD192E819, 0xD6990624, 0xF40E3585, 0x106AA070,
     0x19A4C116, 0x1E376C08, 0x2748774C, 0x34B0BCB5, 0x391C0CB3, 0x4ED8AA4A, 0x5B9CCA4F, 0x682E6FF3,
     0x748F82EE, 0x78A5636F, 0x84C87814, 0x8CC70208, 0x90BEFFFA, 0xA4506CEB, 0xBEF9A3F7, 0xC67178F2]\<rparr>"

definition sha512_family :: "u64 sha_family" where
  "sha512_family = \<lparr>big_sigma0 = (\<lambda>x. rotr 28 x XOR rotr 34 x XOR rotr 39 x), big_sigma1 = (\<lambda>x. rotr 14 x XOR rotr 18 x XOR rotr 41 x),
     small_sigma0 = (\<lambda>x. rotr 1 x XOR rotr 8 x XOR drop_bit 7 x), small_sigma1 = (\<lambda>x. rotr 19 x XOR rotr 61 x XOR drop_bit 6 x),
     round_constants =
    [0x428A2F98D728AE22, 0x7137449123EF65CD, 0xB5C0FBCFEC4D3B2F, 0xE9B5DBA58189DBBC,
     0x3956C25BF348B538, 0x59F111F1B605D019, 0x923F82A4AF194F9B, 0xAB1C5ED5DA6D8118,
     0xD807AA98A3030242, 0x12835B0145706FBE, 0x243185BE4EE4B28C, 0x550C7DC3D5FFB4E2,
     0x72BE5D74F27B896F, 0x80DEB1FE3B1696B1, 0x9BDC06A725C71235, 0xC19BF174CF692694,
     0xE49B69C19EF14AD2, 0xEFBE4786384F25E3, 0x0FC19DC68B8CD5B5, 0x240CA1CC77AC9C65,
     0x2DE92C6F592B0275, 0x4A7484AA6EA6E483, 0x5CB0A9DCBD41FBD4, 0x76F988DA831153B5,
     0x983E5152EE66DFAB, 0xA831C66D2DB43210, 0xB00327C898FB213F, 0xBF597FC7BEEF0EE4,
     0xC6E00BF33DA88FC2, 0xD5A79147930AA725, 0x06CA6351E003826F, 0x142929670A0E6E70,
     0x27B70A8546D22FFC, 0x2E1B21385C26C926, 0x4D2C6DFC5AC42AED, 0x53380D139D95B3DF,
     0x650A73548BAF63DE, 0x766A0ABB3C77B2A8, 0x81C2C92E47EDAEE6, 0x92722C851482353B,
     0xA2BFE8A14CF10364, 0xA81A664BBC423001, 0xC24B8B70D0F89791, 0xC76C51A30654BE30,
     0xD192E819D6EF5218, 0xD69906245565A910, 0xF40E35855771202A, 0x106AA07032BBD1B8,
     0x19A4C116B8D2D0C8, 0x1E376C085141AB53, 0x2748774CDF8EEB99, 0x34B0BCB5E19B48A8,
     0x391C0CB3C5C95A63, 0x4ED8AA4AE3418ACB, 0x5B9CCA4F7763E373, 0x682E6FF3D6B2B8A3,
     0x748F82EE5DEFB2FC, 0x78A5636F43172F60, 0x84C87814A1F0AB72, 0x8CC702081A6439EC,
     0x90BEFFFA23631E28, 0xA4506CEBDE82BDE9, 0xBEF9A3F7B2C67915, 0xC67178F2E372532B,
     0xCA273ECEEA26619C, 0xD186B8C721C0C207, 0xEADA7DD6CDE0EB1E, 0xF57D4F7FEE6ED178,
     0x06F067AA72176FBA, 0x0A637DC5A2C898A6, 0x113F9804BEF90DAE, 0x1B710B35131C471B,
     0x28DB77F523047D84, 0x32CAAB7B40C72493, 0x3C9EBE0A15C9BEBC, 0x431D67C49C100D4C,
     0x4CC5D4BECB3E42B6, 0x597F299CFC657E2A, 0x5FCB6FAB3AD6FAEC, 0x6C44198C4A475817]\<rparr>"

definition be_words64 :: "byte list \<Rightarrow> u64 list" where
  "be_words64 b = map (\<lambda>i. of_le (rev (take 8 (drop (8 * i) b)))) [0..<length b div 8]"

definition put_be64 :: "u64 \<Rightarrow> byte list" where "put_be64 w = rev (le_bytes 8 w)"

definition sha256_iv :: "int \<Rightarrow> u32 list" where
  "sha256_iv is224 = (if is224 = 0 then [0x6A09E667, 0xBB67AE85, 0x3C6EF372, 0xA54FF53A, 0x510E527F, 0x9B05688C, 0x1F83D9AB, 0x5BE0CD19]
     else [0xC1059ED8, 0x367CD507, 0x3070DD17, 0xF70E5939, 0xFFC00B31, 0x68581511, 0x64F98FA7, 0xBEFA4FA4])"

definition sha512_iv :: "int \<Rightarrow> u64 list" where
  "sha512_iv is384 = (if is384 = 0 then [0x6A09E667F3BCC908, 0xBB67AE8584CAA73B, 0x3C6EF372FE94F82B, 0xA54FF53A5F1D36F1,
       0x510E527FADE682D1, 0x9B05688C2B3E6C1F, 0x1F83D9ABFB41BD6B, 0x5BE0CD19137E2179]
     else [0xCBBB9D5DC1059ED8, 0x629A292A367CD507, 0x9159015A3070DD17, 0x152FECD8F70E5939,
       0x67332667FFC00B31, 0x8EB44A8768581511, 0xDB0C2E0D64F98FA7, 0x47B5481DBEFA4FA4])"

definition sha256_spec :: "int \<Rightarrow> byte list \<Rightarrow> byte list" where
  "sha256_spec is224 = md_hash 64 (if is224 = 0 then 8 else 7) put_be32 (\<lambda>h l. put_be32 h @ put_be32 l) (sha_compress sha256_family be_words) (sha256_iv is224)"

definition sha512_spec :: "int \<Rightarrow> byte list \<Rightarrow> byte list" where
  "sha512_spec is384 = md_hash 128 (if is384 = 0 then 8 else 6) put_be64 (\<lambda>h l. put_be64 h @ put_be64 l) (sha_compress sha512_family be_words64) (sha512_iv is384)"

subsection \<open>The step of both files\<close>

definition F0 :: "u64 \<Rightarrow> u64 \<Rightarrow> u64 \<Rightarrow> u64" where "F0 x y z = x AND y OR z AND (x OR y)"
definition F1 :: "u64 \<Rightarrow> u64 \<Rightarrow> u64 \<Rightarrow> u64" where "F1 x y z = z XOR x AND (y XOR z)"

definition sha_args :: "nat \<Rightarrow> nat list" where
  "sha_args t = [[0, 1, 2, 3, 4, 5, 6, 7], [7, 0, 1, 2, 3, 4, 5, 6], [6, 7, 0, 1, 2, 3, 4, 5], [5, 6, 7, 0, 1, 2, 3, 4],
     [4, 5, 6, 7, 0, 1, 2, 3], [3, 4, 5, 6, 7, 0, 1, 2], [2, 3, 4, 5, 6, 7, 0, 1], [1, 2, 3, 4, 5, 6, 7, 0]] ! (t mod 8)"

definition sha_P :: "(u64 \<Rightarrow> u64) \<Rightarrow> (u64 \<Rightarrow> u64) \<Rightarrow> nat \<Rightarrow> u64 \<Rightarrow> u64 \<Rightarrow> u64 list \<Rightarrow> u64 list" where
  "sha_P S2 S3 t x K v =
     (let i = sha_args t; a = i ! 0; b = i ! 1; c = i ! 2; d = i ! 3; e = i ! 4; f = i ! 5; g = i ! 6; h = i ! 7;
          temp1 = v ! h + S3 (v ! e) + F1 (v ! e) (v ! f) (v ! g) + K + x;
          temp2 = S2 (v ! a) + F0 (v ! a) (v ! b) (v ! c)
      in v[d := v ! d + temp1, h := temp1 + temp2])"

definition sha_extend :: "(u64 \<Rightarrow> u64) \<Rightarrow> (u64 \<Rightarrow> u64) \<Rightarrow> u64 list \<Rightarrow> nat \<Rightarrow> u64 list" where
  "sha_extend S0 S1 W t = W @ [S1 (W ! (t - 2)) + W ! (t - 7) + S0 (W ! (t - 15)) + W ! (t - 16)]"

subsection \<open>SHA-256 and SHA-224\<close>

definition SHR32 :: "u64 \<Rightarrow> nat \<Rightarrow> u64" where "SHR32 x n = drop_bit n (x AND 0xFFFFFFFF)"
definition ROTR32 :: "u64 \<Rightarrow> nat \<Rightarrow> u64" where "ROTR32 x n = SHR32 x n OR push_bit (32 - n) x"

definition sha2_S0 :: "u64 \<Rightarrow> u64" where "sha2_S0 x = ROTR32 x 7 XOR ROTR32 x 18 XOR SHR32 x 3"
definition sha2_S1 :: "u64 \<Rightarrow> u64" where "sha2_S1 x = ROTR32 x 17 XOR ROTR32 x 19 XOR SHR32 x 10"
definition sha2_S2 :: "u64 \<Rightarrow> u64" where "sha2_S2 x = ROTR32 x 2 XOR ROTR32 x 13 XOR ROTR32 x 22"
definition sha2_S3 :: "u64 \<Rightarrow> u64" where "sha2_S3 x = ROTR32 x 6 XOR ROTR32 x 11 XOR ROTR32 x 25"

definition sha2_K :: "u64 list" where
  "sha2_K =
    [0x428A2F98, 0x71374491, 0xB5C0FBCF, 0xE9B5DBA5, 0x3956C25B, 0x59F111F1, 0x923F82A4, 0xAB1C5ED5,
     0xD807AA98, 0x12835B01, 0x243185BE, 0x550C7DC3, 0x72BE5D74, 0x80DEB1FE, 0x9BDC06A7, 0xC19BF174,
     0xE49B69C1, 0xEFBE4786, 0x0FC19DC6, 0x240CA1CC, 0x2DE92C6F, 0x4A7484AA, 0x5CB0A9DC, 0x76F988DA,
     0x983E5152, 0xA831C66D, 0xB00327C8, 0xBF597FC7, 0xC6E00BF3, 0xD5A79147, 0x06CA6351, 0x14292967,
     0x27B70A85, 0x2E1B2138, 0x4D2C6DFC, 0x53380D13, 0x650A7354, 0x766A0ABB, 0x81C2C92E, 0x92722C85,
     0xA2BFE8A1, 0xA81A664B, 0xC24B8B70, 0xC76C51A3, 0xD192E819, 0xD6990624, 0xF40E3585, 0x106AA070,
     0x19A4C116, 0x1E376C08, 0x2748774C, 0x34B0BCB5, 0x391C0CB3, 0x4ED8AA4A, 0x5B9CCA4F, 0x682E6FF3,
     0x748F82EE, 0x78A5636F, 0x84C87814, 0x8CC70208, 0x90BEFFFA, 0xA4506CEB, 0xBEF9A3F7, 0xC67178F2]"

text \<open>The words are computed when the step that uses them is reached.\<close>

definition sha2_step :: "u64 list \<times> u64 list \<Rightarrow> nat \<Rightarrow> u64 list \<times> u64 list" where
  "sha2_step vw t =
     (let (v, W) = vw; W' = (if t < 16 then W else sha_extend sha2_S0 sha2_S1 W t)
      in (sha_P sha2_S2 sha2_S3 t (W' ! t) (sha2_K ! t) v, W'))"

definition sha2_process :: "u64 list \<Rightarrow> byte list \<Rightarrow> u64 list" where
  "sha2_process st data = map2 (+) st (fst (foldl sha2_step (st, map (\<lambda>i. GET_ULONG_BE data (4 * i)) [0..<16]) [0..<64]))"

definition sha2_starts :: "int \<Rightarrow> u64 list" where
  "sha2_starts is224 = (if is224 = 0 then [0x6A09E667, 0xBB67AE85, 0x3C6EF372, 0xA54FF53A, 0x510E527F, 0x9B05688C, 0x1F83D9AB, 0x5BE0CD19]
     else [0xC1059ED8, 0x367CD507, 0x3070DD17, 0xF70E5939, 0xFFC00B31, 0x68581511, 0x64F98FA7, 0xBEFA4FA4])"

definition sha2_alg :: "int \<Rightarrow> hash_alg" where
  "sha2_alg is224 = \<lparr>ha_block = 64, ha_word = 4, ha_out = (if is224 = 0 then 8 else 7), ha_put = PUT_ULONG_BE,
     ha_len = (\<lambda>high low. PUT_ULONG_BE high @ PUT_ULONG_BE low), ha_init = sha2_starts is224, ha_process = sha2_process\<rparr>"

definition sha2_update :: "int \<Rightarrow> byte list \<Rightarrow> hash_ctx \<Rightarrow> hash_ctx" where "sha2_update is224 = alg_update (sha2_alg is224)"
definition sha2_finish :: "int \<Rightarrow> hash_ctx \<Rightarrow> byte list \<times> hash_ctx" where "sha2_finish is224 = alg_finish (sha2_alg is224)"
definition sha2 :: "int \<Rightarrow> hash_ctx \<Rightarrow> byte list \<Rightarrow> byte list" where "sha2 is224 = alg_digest (sha2_alg is224)"
definition sha2_file :: "int \<Rightarrow> hash_ctx \<Rightarrow> byte list list option \<Rightarrow> bool \<Rightarrow> int \<times> byte list option" where "sha2_file is224 = alg_file (sha2_alg is224)"
definition sha2_hmac_starts :: "int \<Rightarrow> hash_ctx \<Rightarrow> byte list \<Rightarrow> hash_ctx \<Rightarrow> hash_ctx" where "sha2_hmac_starts is224 = alg_hmac_starts (sha2_alg is224)"
definition sha2_hmac_finish :: "int \<Rightarrow> hash_ctx \<Rightarrow> byte list \<times> hash_ctx" where "sha2_hmac_finish is224 = alg_hmac_finish (sha2_alg is224)"
definition sha2_hmac_reset :: "int \<Rightarrow> hash_ctx \<Rightarrow> hash_ctx" where "sha2_hmac_reset is224 = alg_hmac_reset (sha2_alg is224)"
definition sha2_hmac :: "int \<Rightarrow> hash_ctx \<Rightarrow> hash_ctx \<Rightarrow> byte list \<Rightarrow> byte list \<Rightarrow> byte list" where "sha2_hmac is224 = alg_hmac (sha2_alg is224)"

subsection \<open>SHA-512 and SHA-384\<close>

definition GET_UINT64_BE :: "byte list \<Rightarrow> nat \<Rightarrow> u64" where
  "GET_UINT64_BE b i = push_bit 56 (ucast (b ! i)) OR push_bit 48 (ucast (b ! (i + 1))) OR push_bit 40 (ucast (b ! (i + 2))) OR
     push_bit 32 (ucast (b ! (i + 3))) OR push_bit 24 (ucast (b ! (i + 4))) OR push_bit 16 (ucast (b ! (i + 5))) OR
     push_bit 8 (ucast (b ! (i + 6))) OR ucast (b ! (i + 7))"

definition PUT_UINT64_BE :: "u64 \<Rightarrow> byte list" where
  "PUT_UINT64_BE n = [ucast (drop_bit 56 n), ucast (drop_bit 48 n), ucast (drop_bit 40 n), ucast (drop_bit 32 n),
     ucast (drop_bit 24 n), ucast (drop_bit 16 n), ucast (drop_bit 8 n), ucast n]"

definition ROTR64 :: "u64 \<Rightarrow> nat \<Rightarrow> u64" where "ROTR64 x n = drop_bit n x OR push_bit (64 - n) x"

definition sha4_S0 :: "u64 \<Rightarrow> u64" where "sha4_S0 x = ROTR64 x 1 XOR ROTR64 x 8 XOR drop_bit 7 x"
definition sha4_S1 :: "u64 \<Rightarrow> u64" where "sha4_S1 x = ROTR64 x 19 XOR ROTR64 x 61 XOR drop_bit 6 x"
definition sha4_S2 :: "u64 \<Rightarrow> u64" where "sha4_S2 x = ROTR64 x 28 XOR ROTR64 x 34 XOR ROTR64 x 39"
definition sha4_S3 :: "u64 \<Rightarrow> u64" where "sha4_S3 x = ROTR64 x 14 XOR ROTR64 x 18 XOR ROTR64 x 41"

definition sha4_K :: "u64 list" where
  "sha4_K =
    [0x428A2F98D728AE22, 0x7137449123EF65CD, 0xB5C0FBCFEC4D3B2F, 0xE9B5DBA58189DBBC,
     0x3956C25BF348B538, 0x59F111F1B605D019, 0x923F82A4AF194F9B, 0xAB1C5ED5DA6D8118,
     0xD807AA98A3030242, 0x12835B0145706FBE, 0x243185BE4EE4B28C, 0x550C7DC3D5FFB4E2,
     0x72BE5D74F27B896F, 0x80DEB1FE3B1696B1, 0x9BDC06A725C71235, 0xC19BF174CF692694,
     0xE49B69C19EF14AD2, 0xEFBE4786384F25E3, 0x0FC19DC68B8CD5B5, 0x240CA1CC77AC9C65,
     0x2DE92C6F592B0275, 0x4A7484AA6EA6E483, 0x5CB0A9DCBD41FBD4, 0x76F988DA831153B5,
     0x983E5152EE66DFAB, 0xA831C66D2DB43210, 0xB00327C898FB213F, 0xBF597FC7BEEF0EE4,
     0xC6E00BF33DA88FC2, 0xD5A79147930AA725, 0x06CA6351E003826F, 0x142929670A0E6E70,
     0x27B70A8546D22FFC, 0x2E1B21385C26C926, 0x4D2C6DFC5AC42AED, 0x53380D139D95B3DF,
     0x650A73548BAF63DE, 0x766A0ABB3C77B2A8, 0x81C2C92E47EDAEE6, 0x92722C851482353B,
     0xA2BFE8A14CF10364, 0xA81A664BBC423001, 0xC24B8B70D0F89791, 0xC76C51A30654BE30,
     0xD192E819D6EF5218, 0xD69906245565A910, 0xF40E35855771202A, 0x106AA07032BBD1B8,
     0x19A4C116B8D2D0C8, 0x1E376C085141AB53, 0x2748774CDF8EEB99, 0x34B0BCB5E19B48A8,
     0x391C0CB3C5C95A63, 0x4ED8AA4AE3418ACB, 0x5B9CCA4F7763E373, 0x682E6FF3D6B2B8A3,
     0x748F82EE5DEFB2FC, 0x78A5636F43172F60, 0x84C87814A1F0AB72, 0x8CC702081A6439EC,
     0x90BEFFFA23631E28, 0xA4506CEBDE82BDE9, 0xBEF9A3F7B2C67915, 0xC67178F2E372532B,
     0xCA273ECEEA26619C, 0xD186B8C721C0C207, 0xEADA7DD6CDE0EB1E, 0xF57D4F7FEE6ED178,
     0x06F067AA72176FBA, 0x0A637DC5A2C898A6, 0x113F9804BEF90DAE, 0x1B710B35131C471B,
     0x28DB77F523047D84, 0x32CAAB7B40C72493, 0x3C9EBE0A15C9BEBC, 0x431D67C49C100D4C,
     0x4CC5D4BECB3E42B6, 0x597F299CFC657E2A, 0x5FCB6FAB3AD6FAEC, 0x6C44198C4A475817]"

text \<open>Here the words are computed first; the loop makes eight steps a turn until it has made eighty.\<close>

definition sha4_words :: "byte list \<Rightarrow> u64 list" where
  "sha4_words data = foldl (sha_extend sha4_S0 sha4_S1) (map (\<lambda>i. GET_UINT64_BE data (8 * i)) [0..<16]) [16..<80]"

definition sha4_process :: "u64 list \<Rightarrow> byte list \<Rightarrow> u64 list" where
  "sha4_process st data =
     (let W = sha4_words data in map2 (+) st (foldl (\<lambda>v t. sha_P sha4_S2 sha4_S3 t (W ! t) (sha4_K ! t) v) st [0..<80]))"

definition sha4_starts :: "int \<Rightarrow> u64 list" where
  "sha4_starts is384 = (if is384 = 0 then [0x6A09E667F3BCC908, 0xBB67AE8584CAA73B, 0x3C6EF372FE94F82B, 0xA54FF53A5F1D36F1,
       0x510E527FADE682D1, 0x9B05688C2B3E6C1F, 0x1F83D9ABFB41BD6B, 0x5BE0CD19137E2179]
     else [0xCBBB9D5DC1059ED8, 0x629A292A367CD507, 0x9159015A3070DD17, 0x152FECD8F70E5939,
       0x67332667FFC00B31, 0x8EB44A8768581511, 0xDB0C2E0D64F98FA7, 0x47B5481DBEFA4FA4])"

definition sha4_alg :: "int \<Rightarrow> hash_alg" where
  "sha4_alg is384 = \<lparr>ha_block = 128, ha_word = 8, ha_out = (if is384 = 0 then 8 else 6), ha_put = PUT_UINT64_BE,
     ha_len = (\<lambda>high low. PUT_UINT64_BE high @ PUT_UINT64_BE low), ha_init = sha4_starts is384, ha_process = sha4_process\<rparr>"

definition sha4_update :: "int \<Rightarrow> byte list \<Rightarrow> hash_ctx \<Rightarrow> hash_ctx" where "sha4_update is384 = alg_update (sha4_alg is384)"
definition sha4_finish :: "int \<Rightarrow> hash_ctx \<Rightarrow> byte list \<times> hash_ctx" where "sha4_finish is384 = alg_finish (sha4_alg is384)"
definition sha4 :: "int \<Rightarrow> hash_ctx \<Rightarrow> byte list \<Rightarrow> byte list" where "sha4 is384 = alg_digest (sha4_alg is384)"
definition sha4_file :: "int \<Rightarrow> hash_ctx \<Rightarrow> byte list list option \<Rightarrow> bool \<Rightarrow> int \<times> byte list option" where "sha4_file is384 = alg_file (sha4_alg is384)"
definition sha4_hmac_starts :: "int \<Rightarrow> hash_ctx \<Rightarrow> byte list \<Rightarrow> hash_ctx \<Rightarrow> hash_ctx" where "sha4_hmac_starts is384 = alg_hmac_starts (sha4_alg is384)"
definition sha4_hmac_finish :: "int \<Rightarrow> hash_ctx \<Rightarrow> byte list \<times> hash_ctx" where "sha4_hmac_finish is384 = alg_hmac_finish (sha4_alg is384)"
definition sha4_hmac_reset :: "int \<Rightarrow> hash_ctx \<Rightarrow> hash_ctx" where "sha4_hmac_reset is384 = alg_hmac_reset (sha4_alg is384)"
definition sha4_hmac :: "int \<Rightarrow> hash_ctx \<Rightarrow> hash_ctx \<Rightarrow> byte list \<Rightarrow> byte list \<Rightarrow> byte list" where "sha4_hmac is384 = alg_hmac (sha4_alg is384)"

subsection \<open>The rounds\<close>

definition sha_regs :: "nat \<Rightarrow> u64 list \<Rightarrow> 'w::len word list" where
  "sha_regs t v = map (\<lambda>i. ucast (v ! i)) (sha_args t)"

lemma sha_regs_all: "length v = 8 \<Longrightarrow> t mod 8 = 0 \<Longrightarrow> sha_regs t v = map ucast v"
proof -
  assume v: "length v = 8" and t: "t mod 8 = 0"
  from v obtain a b c d e f g h where "v = [a, b, c, d, e, f, g, h]" by (auto simp: length_Suc_conv eval_nat_numeral)
  with t show ?thesis by (simp add: sha_regs_def sha_args_def)
qed

text \<open>What the code and the standard have to agree on: the four functions and the constants, seen through the width of a word.\<close>

locale sha_code =
  fixes F :: "'w::len word sha_family" and S0 S1 S2 S3 :: "u64 \<Rightarrow> u64" and K :: "u64 list"
  assumes width: "LENGTH('w) \<le> 64" and constants: "map ucast K = round_constants F"
    and sigmas: "ucast (S0 x) = small_sigma0 F (ucast x)" "ucast (S1 x) = small_sigma1 F (ucast x)"
      "ucast (S2 x) = big_sigma0 F (ucast x)" "ucast (S3 x) = big_sigma1 F (ucast x)"
begin

lemmas narrow = narrow_add[OF width] narrow_bits[OF width] sigmas

lemma narrow_F: "(ucast (F0 x y z) :: 'w word) = sha_maj (ucast x) (ucast y) (ucast z)" "(ucast (F1 x y z) :: 'w word) = sha_ch (ucast x) (ucast y) (ucast z)"
  unfolding F0_def F1_def sha_maj_def sha_ch_def narrow by (rule bit_word_eqI, auto simp: bit_simps)+

lemma P_round:
  assumes "length v = 8" "t < length K" and x: "ucast x = sha_w F M t"
  shows "sha_regs (Suc t) (sha_P S2 S3 t x (K ! t) v) = sha_round F M t (sha_regs t v)" "length (sha_P S2 S3 t x (K ! t) v) = 8"
proof -
  obtain a b c d e f g h where v: "v = [a, b, c, d, e, f, g, h]" using assms(1) by (auto simp: length_Suc_conv eval_nat_numeral)
  have k: "ucast (K ! t) = round_constants F ! t" using assms(2) by (simp add: constants[symmetric])
  have "t mod 8 < 8" by simp
  then consider "t mod 8 = 0" "Suc t mod 8 = 1" | "t mod 8 = 1" "Suc t mod 8 = 2" | "t mod 8 = 2" "Suc t mod 8 = 3" | "t mod 8 = 3" "Suc t mod 8 = 4"
    | "t mod 8 = 4" "Suc t mod 8 = 5" | "t mod 8 = 5" "Suc t mod 8 = 6" | "t mod 8 = 6" "Suc t mod 8 = 7" | "t mod 8 = 7" "Suc t mod 8 = 0"
    by (simp add: mod_Suc) linarith
  then show "sha_regs (Suc t) (sha_P S2 S3 t x (K ! t) v) = sha_round F M t (sha_regs t v)"
    by cases (simp_all add: v sha_regs_def sha_args_def sha_P_def sha_round_def Let_def narrow narrow_F x k)
  show "length (sha_P S2 S3 t x (K ! t) v) = 8" using assms(1) by (simp add: sha_P_def Let_def)
qed

definition schedule :: "'w word list \<Rightarrow> nat \<Rightarrow> u64 list \<Rightarrow> bool" where
  "schedule M n W \<longleftrightarrow> map ucast W = map (sha_w F M) [0..<n]"

lemma schedule_nth: "schedule M n W \<Longrightarrow> t < n \<Longrightarrow> ucast (W ! t) = sha_w F M t"
proof -
  assume s: "schedule M n W" and t: "t < n"
  have "length W = n" using arg_cong[OF s[unfolded schedule_def], of length] by simp
  moreover have "map ucast W ! t = sha_w F M t" using s t by (simp add: schedule_def)
  ultimately show ?thesis using t by simp
qed

lemma schedule_extend: "schedule M t W \<Longrightarrow> 16 \<le> t \<Longrightarrow> schedule M (Suc t) (sha_extend S0 S1 W t)"
proof -
  assume s: "schedule M t W" and t: "16 \<le> t"
  have "sha_w F M t = ucast (S1 (W ! (t - 2)) + W ! (t - 7) + S0 (W ! (t - 15)) + W ! (t - 16))"
    using t schedule_nth[OF s] by (subst sha_w.simps) (simp add: narrow)
  then show ?thesis using s by (simp add: schedule_def sha_extend_def)
qed

lemma rounds:
  assumes "length st = 8" "n \<le> length K" "\<And>t. t < n \<Longrightarrow> ucast (x t) = sha_w F M t"
  shows "length (foldl (\<lambda>v t. sha_P S2 S3 t (x t) (K ! t) v) st [0..<n]) = 8 \<and>
    sha_regs n (foldl (\<lambda>v t. sha_P S2 S3 t (x t) (K ! t) v) st [0..<n]) = foldl (\<lambda>v t. sha_round F M t v) (map ucast st) [0..<n]"
  using assms(2,3)
proof (induction n)
  case 0
  then show ?case using sha_regs_all[OF assms(1), of 0] assms(1) by simp
next
  case (Suc n)
  let ?v = "foldl (\<lambda>v t. sha_P S2 S3 t (x t) (K ! t) v) st [0..<n]"
  have "length ?v = 8 \<and> sha_regs n ?v = foldl (\<lambda>v t. sha_round F M t v) (map ucast st) [0..<n]" using Suc by simp
  then show ?case using P_round[of ?v n "x n" M] Suc.prems by simp
qed

lemma process_correct:
  assumes "length st = 8" "\<And>t. t < length K \<Longrightarrow> ucast (x t) = sha_w F (words b) t" "length K mod 8 = 0"
  shows "length (map2 (+) st (foldl (\<lambda>v t. sha_P S2 S3 t (x t) (K ! t) v) st [0..<length K])) = 8 \<and>
    map ucast (map2 (+) st (foldl (\<lambda>v t. sha_P S2 S3 t (x t) (K ! t) v) st [0..<length K])) = sha_compress F words (map ucast st) b"
proof -
  let ?v = "foldl (\<lambda>v t. sha_P S2 S3 t (x t) (K ! t) v) st [0..<length K]"
  have r: "length ?v = 8 \<and> sha_regs (length K) ?v = foldl (\<lambda>v t. sha_round F (words b) t v) (map ucast st) [0..<length K]"
    using assms(1,2) by (intro rounds) simp_all
  then have "map ucast ?v = foldl (\<lambda>v t. sha_round F (words b) t v) (map ucast st) [0..<length K]" using sha_regs_all[where 'a = 'w, of ?v "length K"] assms(3) by simp
  moreover have "length (round_constants F) = length K" by (simp add: constants[symmetric])
  moreover have "map ucast (map2 (+) xs ys) = map2 (+) (map ucast xs) (map ucast ys :: 'w word list)" for xs ys :: "u64 list"
    by (induction xs ys rule: list_induct2') (simp_all add: narrow)
  ultimately show ?thesis using r assms(1) by (simp add: sha_compress_def)
qed

end

subsection \<open>The digests\<close>

lemma low_SHR32: "low (SHR32 x n) = drop_bit n (low x)"
proof -
  have "(0xFFFFFFFF :: u64) = mask 32" by (simp add: mask_eq_exp_minus_1)
  then have "SHR32 x n = drop_bit n (take_bit 32 x)" by (simp only: SHR32_def take_bit_eq_mask)
  then show ?thesis by (intro bit_word_eqI) (auto simp: bit_ucast_iff bit_drop_bit_eq bit_take_bit_iff dest: bit_imp_le_length)
qed

lemma low_ROTR32: "0 < n \<Longrightarrow> n < 32 \<Longrightarrow> low (ROTR32 x n) = rotr n (low x)"
proof -
  assume "0 < n" "n < 32"
  then have "low (push_bit (32 - n) x) = push_bit (32 - n) (low x)" by (intro bit_word_eqI) (auto simp: bit_ucast_iff bit_push_bit_iff)
  then show ?thesis by (simp add: ROTR32_def rotr_def low_bits low_SHR32)
qed

lemma ROTR64_rotr: "ROTR64 x n = rotr n x"
  by (simp add: ROTR64_def rotr_def)

interpretation sha256_code: sha_code sha256_family sha2_S0 sha2_S1 sha2_S2 sha2_S3 sha2_K
  by unfold_locales (simp_all add: sha256_family_def sha2_K_def sha2_S0_def sha2_S1_def sha2_S2_def sha2_S3_def low_bits low_ROTR32 low_SHR32)

interpretation sha512_code: sha_code sha512_family sha4_S0 sha4_S1 sha4_S2 sha4_S3 sha4_K
  by unfold_locales (simp_all add: sha512_family_def sha4_K_def sha4_S0_def sha4_S1_def sha4_S2_def sha4_S3_def ROTR64_rotr)

lemma length_K: "length sha2_K = 64" "length sha4_K = 80"
  by (simp_all add: sha2_K_def sha4_K_def)

text \<open>Interleaving the words with the rounds makes no difference.\<close>

lemma sha2_steps:
  fixes b :: "byte list"
  defines "M \<equiv> be_words b" and "W0 \<equiv> map (\<lambda>i. GET_ULONG_BE b (4 * i)) [0..<16]"
  assumes "length b = 64"
  shows "\<exists>x. (\<forall>t < n. low (x t) = sha_w sha256_family M t) \<and>
     fst (foldl sha2_step (st, W0) [0..<n]) = foldl (\<lambda>v t. sha_P sha2_S2 sha2_S3 t (x t) (sha2_K ! t) v) st [0..<n] \<and>
     sha256_code.schedule M (max 16 n) (snd (foldl sha2_step (st, W0) [0..<n]))"
proof (induction n)
  case 0
  have "map low W0 = map (sha_w sha256_family M) [0..<16]"
    unfolding W0_def M_def map_map by (intro map_cong refl) (use assms(3) in \<open>auto simp: low_GET sha_w.simps\<close>)
  then show ?case by (simp add: sha256_code.schedule_def)
next
  case (Suc n)
  then obtain x where x: "\<forall>t < n. low (x t) = sha_w sha256_family M t"
    "fst (foldl sha2_step (st, W0) [0..<n]) = foldl (\<lambda>v t. sha_P sha2_S2 sha2_S3 t (x t) (sha2_K ! t) v) st [0..<n]"
    "sha256_code.schedule M (max 16 n) (snd (foldl sha2_step (st, W0) [0..<n]))" by blast
  obtain v W where vw: "foldl sha2_step (st, W0) [0..<n] = (v, W)" by (cases "foldl sha2_step (st, W0) [0..<n]")
  let ?W = "if n < 16 then W else sha_extend sha2_S0 sha2_S1 W n"
  have W: "sha256_code.schedule M (max 16 (Suc n)) ?W"
  proof (cases "n < 16")
    case True
    then have "max 16 (Suc n) = 16" "max 16 n = 16" by auto
    then show ?thesis using x(3) vw True by simp
  next
    case False
    then show ?thesis using x(3) vw sha256_code.schedule_extend[of M n W] by (simp add: max_def)
  qed
  let ?x = "x(n := ?W ! n)"
  have "low (?W ! n) = sha_w sha256_family M n" by (rule sha256_code.schedule_nth[OF W]) simp
  then have "\<forall>t < Suc n. low (?x t) = sha_w sha256_family M t" using x(1) by (simp add: less_Suc_eq)
  moreover have "foldl (\<lambda>v t. sha_P sha2_S2 sha2_S3 t (?x t) (sha2_K ! t) v) st [0..<n] = foldl (\<lambda>v t. sha_P sha2_S2 sha2_S3 t (x t) (sha2_K ! t) v) st [0..<n]"
    by (rule foldl_cong) auto
  then have "foldl (\<lambda>v t. sha_P sha2_S2 sha2_S3 t (?x t) (sha2_K ! t) v) st [0..<n] = v" using x(2) vw by simp
  then have "foldl (\<lambda>v t. sha_P sha2_S2 sha2_S3 t (?x t) (sha2_K ! t) v) st [0..<Suc n] = sha_P sha2_S2 sha2_S3 n (?W ! n) (sha2_K ! n) v"
    by (simp only: upt_Suc_append[OF zero_le] foldl_append foldl.simps fun_upd_same)
  moreover have "foldl sha2_step (st, W0) [0..<Suc n] = (sha_P sha2_S2 sha2_S3 n (?W ! n) (sha2_K ! n) v, ?W)"
    unfolding upt_Suc_append[OF zero_le] foldl_append vw foldl.simps sha2_step_def Let_def prod.case by (rule refl)
  ultimately show ?case using W by (intro exI[of _ ?x]) (simp only: fst_conv snd_conv)
qed

lemma sha2_process_correct:
  assumes "length st = 8" "length b = 64"
  shows "length (sha2_process st b) = 8 \<and> map low (sha2_process st b) = sha_compress sha256_family be_words (map low st) b"
proof -
  obtain x where x: "\<forall>t < 64. low (x t) = sha_w sha256_family (be_words b) t"
    "fst (foldl sha2_step (st, map (\<lambda>i. GET_ULONG_BE b (4 * i)) [0..<16]) [0..<64]) = foldl (\<lambda>v t. sha_P sha2_S2 sha2_S3 t (x t) (sha2_K ! t) v) st [0..<64]"
    using sha2_steps[OF assms(2), of 64 st] by blast
  show ?thesis unfolding sha2_process_def x(2)
    using sha256_code.process_correct[OF assms(1), of x be_words b] x(1) unfolding length_K by simp
qed

lemma GET_UINT64_spec: "length b = 128 \<Longrightarrow> i < 16 \<Longrightarrow> GET_UINT64_BE b (8 * i) = be_words64 b ! i"
proof -
  assume b: "length b = 128" "i < 16"
  have "take 8 (drop (8 * i) b) = map (\<lambda>j. b ! (8 * i + j)) [0..<8]" by (rule nth_equalityI) (use b in simp_all)
  then have "be_words64 b ! i = of_le (rev (map (\<lambda>j. b ! (8 * i + j)) [0..<8]))" using b by (simp add: be_words64_def)
  also have "\<dots> = of_le [b ! (8 * i + 7), b ! (8 * i + 6), b ! (8 * i + 5), b ! (8 * i + 4), b ! (8 * i + 3), b ! (8 * i + 2), b ! (8 * i + 1), b ! (8 * i)]"
    by (simp add: upt_rec eval_nat_numeral)
  also have "\<dots> = GET_UINT64_BE b (8 * i)"
    by (rule bit_word_eqI) (auto simp: GET_UINT64_BE_def bit_of_le bit_ucast_iff bit_or_iff bit_push_bit_iff)
  finally show ?thesis ..
qed

lemma sha4_words_schedule:
  assumes "length b = 128"
  shows "sha512_code.schedule (be_words64 b) 80 (sha4_words b)"
proof -
  let ?W0 = "map (\<lambda>i. GET_UINT64_BE b (8 * i)) [0..<16]"
  have 0: "sha512_code.schedule (be_words64 b) 16 ?W0"
    unfolding sha512_code.schedule_def map_map by (intro map_cong refl) (use assms in \<open>auto simp: GET_UINT64_spec sha_w.simps\<close>)
  have "sha512_code.schedule (be_words64 b) (16 + n) (foldl (sha_extend sha4_S0 sha4_S1) ?W0 [16..<16 + n])" for n
  proof (induction n)
    case (Suc n)
    have u: "[16..<16 + Suc n] = [16..<16 + n] @ [16 + n]" unfolding add_Suc_right by (rule upt_Suc_append) simp
    show ?case unfolding u using sha512_code.schedule_extend[OF Suc] by simp
  qed (use 0 in simp)
  from this[of 64] show ?thesis unfolding sha4_words_def by simp
qed

lemma sha4_process_correct:
  assumes "length st = 8" "length b = 128"
  shows "length (sha4_process st b) = 8 \<and> map ucast (sha4_process st b) = sha_compress sha512_family be_words64 (map ucast st) b"
  unfolding sha4_process_def Let_def
  using sha512_code.process_correct[OF assms(1), of "\<lambda>t. sha4_words b ! t" be_words64 b] sha512_code.schedule_nth[OF sha4_words_schedule[OF assms(2)]]
  unfolding length_K by simp

lemma PUT_UINT64_spec: "PUT_UINT64_BE w = put_be64 w"
  by (simp add: PUT_UINT64_BE_def put_be64_def le_bytes_def upt_rec eval_nat_numeral)

lemma length_put_be64 [simp]: "length (put_be64 w) = 8"
  by (simp add: put_be64_def)

interpretation sha2c: digest "sha2_alg is224" 6 8 put_be32 "\<lambda>h l. put_be32 h @ put_be32 l" "sha_compress sha256_family be_words" "sha256_iv is224" for is224
  by unfold_locales (simp_all add: sha2_alg_def sha2_starts_def sha256_iv_def sha2_process_correct PUT_ULONG_BE_spec)

interpretation sha4c: digest "sha4_alg is384" 7 8 put_be64 "\<lambda>h l. put_be64 h @ put_be64 l" "sha_compress sha512_family be_words64" "sha512_iv is384" for is384
  by unfold_locales (simp_all add: sha4_alg_def sha4_starts_def sha512_iv_def sha4_process_correct[simplified] PUT_UINT64_spec)

text \<open>
  C0: SHA-224, SHA-256, SHA-384 and SHA-512 of a message that arrives in any number of pieces are those of FIPS 180-2.
\<close>
theorem sha2_stream_correct:
  assumes "length (cx_buffer junk) = 64" "length (cx_buffer junk') = 128" and "\<forall>b \<in> set bufs. length b < 2 ^ 31"
  shows "fst (sha2_finish is224 (foldl (\<lambda>c b. sha2_update is224 b c) (alg_starts (sha2_alg is224) junk) bufs)) = sha256_spec is224 (concat bufs) \<and>
    fst (sha4_finish is384 (foldl (\<lambda>c b. sha4_update is384 b c) (alg_starts (sha4_alg is384) junk') bufs)) = sha512_spec is384 (concat bufs)"
  using sha2c.stream_correct[of junk is224 bufs] sha4c.stream_correct[of junk' is384 bufs] assms
  by (simp add: sha2_finish_def sha2_update_def sha256_spec_def sha2_alg_def sha4_finish_def sha4_update_def sha512_spec_def sha4_alg_def)

definition wide_ctx :: hash_ctx where
  "wide_ctx = zero_ctx\<lparr>cx_state := replicate 8 0, cx_buffer := replicate 128 0\<rparr>"

theorem sha2_stream_correct_witness:
  "fst (sha2_finish 1 (foldl (\<lambda>c b. sha2_update 1 b c) (alg_starts (sha2_alg 1) zero_ctx) [replicate 70 1, [2]])) = sha256_spec 1 (replicate 70 1 @ [2]) \<and>
   fst (sha4_finish 0 (foldl (\<lambda>c b. sha4_update 0 b c) (alg_starts (sha4_alg 0) wide_ctx) [replicate 70 1, [2]])) = sha512_spec 0 (replicate 70 1 @ [2])"
  using sha2_stream_correct[of zero_ctx wide_ctx "[replicate 70 1, [2]]" 1 0] by (simp add: zero_ctx_def wide_ctx_def)

lemma sha2_hmac_correct:
  assumes "length (cx_buffer junk) = 64" "length (cx_buffer ctx) = 64" "length key < 2 ^ 31" "\<forall>b \<in> set bufs. length b < 2 ^ 31"
  shows "fst (sha2_hmac_finish is224 (foldl (\<lambda>c b. sha2_update is224 b c) (sha2_hmac_starts is224 junk key ctx) bufs)) = hmac_spec 64 (sha256_spec is224) key (concat bufs)"
  using sha2c.hmac_correct(1)[of junk is224 ctx key bufs] assms
  by (simp add: sha2_hmac_finish_def sha2_hmac_starts_def sha2_update_def sha256_spec_def sha2_alg_def)

lemma sha4_hmac_correct:
  assumes "length (cx_buffer junk) = 128" "length (cx_buffer ctx) = 128" "length key < 2 ^ 31" "\<forall>b \<in> set bufs. length b < 2 ^ 31"
  shows "fst (sha4_hmac_finish is384 (foldl (\<lambda>c b. sha4_update is384 b c) (sha4_hmac_starts is384 junk key ctx) bufs)) = hmac_spec 128 (sha512_spec is384) key (concat bufs)"
  using sha4c.hmac_correct(1)[of junk is384 ctx key bufs] assms
  by (simp add: sha4_hmac_finish_def sha4_hmac_starts_def sha4_update_def sha512_spec_def sha4_alg_def)

definition first_primes :: "nat list" where
  "first_primes =
    [2, 3, 5, 7, 11, 13, 17, 19, 23, 29, 31, 37, 41, 43, 47, 53, 59, 61, 67, 71,
     73, 79, 83, 89, 97, 101, 103, 107, 109, 113, 127, 131, 137, 139, 149, 151, 157, 163, 167, 173,
     179, 181, 191, 193, 197, 199, 211, 223, 227, 229, 233, 239, 241, 251, 257, 263, 269, 271, 277, 281,
     283, 293, 307, 311, 313, 317, 331, 337, 347, 349, 353, 359, 367, 373, 379, 383, 389, 397, 401, 409]"

fun cube_root_part :: "nat \<Rightarrow> nat \<Rightarrow> nat \<Rightarrow> bool" where
  "cube_root_part w p k = (let r = (if p < 8 then 1 else if p < 27 then 2 else if p < 64 then 3 else if p < 125 then 4 else if p < 216 then 5 else if p < 343 then 6 else 7);
     q = r * 2 ^ w + k in q ^ 3 \<le> p * 2 ^ (3 * w) \<and> p * 2 ^ (3 * w) < (q + 1) ^ 3)"

text \<open>
  C0: The tables of constants are the ones of the standard: the first 64 bits of the fractional parts of the cube roots of the first eighty primes
  in the one file, and the first 32 of these bits in the other.
\<close>
theorem sha2_constants:
  "list_all2 (cube_root_part 64) first_primes (map unat sha4_K) \<and> map ucast sha2_K = map (\<lambda>k. ucast (drop_bit 32 k) :: u32) (take 64 sha4_K)"
proof
  show "list_all2 (cube_root_part 64) first_primes (map unat sha4_K)" unfolding first_primes_def sha4_K_def list.map by simp
  show "map ucast sha2_K = map (\<lambda>k. ucast (drop_bit 32 k) :: u32) (take 64 sha4_K)" by (simp add: sha2_K_def sha4_K_def)
qed

lemma first_primes_prime: "list_all (\<lambda>p. list_all (\<lambda>d. p = d \<or> p mod d \<noteq> 0) [2, 3, 5, 7, 11, 13, 17, 19]) first_primes \<and> sorted_wrt (<) first_primes \<and> length first_primes = 80"
  by (simp add: first_primes_def)

end
