(* ===== verification/Spec2Isabelle.thy ===== *)
theory Spec2Isabelle
  imports Wire_Codec Double_Queue_Conc Composition Timers Twitter_App Packet_Blocks Bloom_Filter Tag_Registry
    Flow_Payload Dns_Parse Block_Variables Message_Memory Message_Types Tag_Blocks Net_Types Sha1_Class Hash_Md5 Hash_Sha2
begin

text \<open>
  A verification development for Blockmon, a C++ framework that builds network monitors out of blocks connected
  by gates.

  \<^bold>\<open>The program.\<close> A composition (\<open>core/composition\<close>) is a set of blocks wired by gates and read from an
  XML document. A block (\<open>core/block\<close>) receives messages on its input gates and sends messages through its
  output gates; a direct block is called by the sender, an indirect one has a double-buffered queue per input gate
  and is run by the workers of a thread pool (\<open>core/scheduler\<close>), which take blocks from a scheduling policy. Timers
  (\<open>core/time\<close>) reach a block through a queue of its own; the clock can follow the time stamps of captured packets.
  Messages (\<open>messages\<close>) are shared objects: packets with headers parsed on demand, flows, and messages that can be
  serialised for TCP (\<open>core/message\<close>); they can carry tags. Concrete blocks (\<open>blocks\<close>, \<open>usr\<close>)
  override the methods of the base class.

  \<^bold>\<open>Theories and sources.\<close>
  \<^item> \<open>Bm_Prelude\<close>: machine words, exceptions as values (\<open>'a res\<close>, an exception or a value), methods that
    throw and keep their effects (\<open>('s, 'a) op\<close>), loops over lists.
  \<^item> \<open>Wire_Buffer\<close>, \<open>Wire_Codec\<close>: \<open>BufferSerializer\<close>, \<open>Serializer\<close>, the serialisable messages, and
    \<open>SerSource\<close>/\<open>SerExporter\<close>. Whatever the cuts of the stream, the messages exported are those received;
    fields are read back as written; a string of 32768 bytes is not.
  \<^item> \<open>Fifo_Spec\<close>, \<open>Double_Queue\<close>, \<open>Double_Queue_Conc\<close>, \<open>Task_Queues\<close>: \<open>DBQueue\<close>,
    \<open>MpMcQueue\<close>, \<open>shared_queue\<close>. The locale \<open>fifo\<close> states what a queue promises; the queues are
    interpretations of it. \<open>Double_Queue_Conc\<close> interleaves producers and the consumer at the grain of their atomic
    operations.
  \<^item> \<open>Schedulers\<close>, \<open>Thread_Pools\<close>: the policies, \<open>ThreadHandler\<close>, \<open>ThreadPool\<close>,
    \<open>PoolManager\<close>. Blocks are neither lost nor run by two workers at once, except those that throw; a stop request
    can be lost.
  \<^item> \<open>Block_Gates\<close>, \<open>Block_Dispatch\<close>, \<open>Block_Run\<close>, \<open>Block_Links\<close>: \<open>Block\<close>, \<open>InGate\<close>,
    \<open>OutGate\<close> on a heap of blocks; the methods of the derived classes are a parameter (\<open>behaviour\<close>). Dispatch
    returns without a cycle of direct blocks; delivery, a block's turn and the links.
  \<^item> \<open>Composition\<close>: \<open>Composition\<close>, \<open>CompositionManager\<close>, \<open>BlockFactory\<close>: links, their
    removal, installation from the document.
  \<^item> \<open>Timers\<close>: \<open>BMTime\<close>, \<open>PacketTime\<close>, \<open>Timer\<close>, \<open>TimerThread\<close>.
  \<^item> \<open>Tag_Registry\<close>: \<open>TagRegistry\<close>, \<open>Assert\<close>, the tag operations of \<open>Msg\<close>: places of tags are
    disjoint, values are read back.
  \<^item> \<open>Packet_Parse\<close>: \<open>Packet\<close>, \<open>NetTypes\<close>: the cache of parsed headers as part of the packet's state. What
    is read does not depend on the order of parsing; frames written are read back.
  \<^item> \<open>Flow_Meter\<close>: \<open>Flow\<close> and \<open>FlowMeter\<close>, with a heap for the flows that table and queue share. The
    locale \<open>flow_measure\<close> states what a measure of flows has to satisfy for nothing to be lost; bytes and packets
    are its interpretations. \<open>Packet_Blocks\<close> uses it again for \<open>PeriodFlowMeter\<close>.
  \<^item> \<open>Packet_Filters\<close>, \<open>Packet_Blocks\<close>: the filters, demultiplexers, counters and selectors; their handlers
    have the type of the methods that \<open>Block_Gates\<close> expects.
  \<^item> \<open>Bloom_Filter\<close>: \<open>lib/bloom\<close>: digests as pieces of a stream of bits, the filter as a set of bits.
  \<^item> \<open>Json_Tokens\<close>, \<open>Json_Roundtrip\<close>: \<open>lib/jsmn\<close>: bounds, resumption, and the tokens of a printed value.
  \<^item> \<open>Twitter_App\<close>: \<open>usr/app_twittertrending\<close>: the blocks that extract and count hashtags.

  \<^bold>\<open>Conventions.\<close> A thrown exception, a failed assertion and undefined behaviour are values of \<open>bm_exn\<close>; the
  build defines no \<open>NDEBUG\<close>, so that assertions abort. Loops that need not end are defined with
  \<open>partial_function (option)\<close>, \<open>None\<close> being a loop that does not return, and their results are shown to exist:
  the timer loops, the expiry loop of the flow meter for a positive idle timeout, the digest loop as soon as the stream has enough
  different pieces, the parsing loop of the tweet finder. The only bounds used as fuel are the rank of a block, for
  dispatch, and the size of the heap in \<open>top_n_drain\<close>, one turn per element. Sizes are the code's: gate queues of
  1024, a flow queue of \<open>128 * 1024\<close>; theorems about rings hold for every power of two below \<open>2 ^ 31\<close>.

  \<^bold>\<open>Parameters.\<close> Code outside of the repository or below the model is an argument: \<open>inet_pton\<close>,
  \<open>strtoul\<close>, the hash functions, the tie-breaking of \<open>std::priority_queue\<close>, the iteration order of hash tables, the
  values read from the XML document, the clock, the chunks a socket delivers.

  \<^bold>\<open>Not modelled.\<close> Weak memory (the queues are interleaved in a sequentially consistent memory); ownership and release
  of memory; floating-point results (rates of the counters, thresholds, histograms, change detection); capture libraries,
  sockets and hardware; IPFIX; the daemon; the anomaly-detection, bypass and tstat applications; the alternative packet
  class and its dissectors, which the default build does not use.

  \<^bold>\<open>Plan.\<close> Reassembly of flow payloads (\<open>Flow.cpp\<close>), the DNS parser, block variables, the integer part of the
  anomaly-detection blocks, and the concrete blocks inside the dispatcher: compositions of demultiplexers, filters and
  meters.
\<close>

end
